(* ===== verification/Softbus_Prelude.thy ===== *)
theory Softbus_Prelude
  imports Main "HOL-Library.Word"
begin

text \<open>
  Shared vocabulary of the development: the machine types of the C sources, the error codes of
  \<^verbatim>\<open>interfaces/kits/common/softbus_error_code.h\<close>, the reading of C results, and the generic facts
  about lists, words and remainders that more than one component needs.

  Conventions used by every theory:
  \<^item> a C pointer argument is an \<open>option\<close>, with \<^const>\<open>None\<close> for \<open>NULL\<close>;
  \<^item> a function that changes an object through a pointer returns the changed object;
  \<^item> a function whose C body may read or write outside an allocated array, may shift by at least
    the width of its operand, or may wait for ever, has a result of type \<open>_ option\<close>, and
    \<^const>\<open>None\<close> says that the C program has no defined result there;
  \<^item> what the operating system decides (whether an allocation or a lock succeeds, the time) is an
    argument of the operation;
  \<^item> logging has no effect on the state and is left out.
\<close>

unbundle bit_operations_syntax

section \<open>Machine types\<close>

type_synonym u8 = "8 word"
type_synonym u16 = "16 word"
type_synonym u32 = "32 word"
type_synonym u64 = "64 word"

section \<open>Bounds-checked copies\<close>

text \<open>
  \<open>memcpy_s\<close> as Annex K of the C standard describes it, with the library's upper limit for object
  sizes: it copies and returns zero exactly when the size of the destination is positive and within
  the limit and the number of bytes does not exceed it.
\<close>

abbreviation (input) SECUREC_MEM_MAX_LEN :: nat where "SECUREC_MEM_MAX_LEN \<equiv> 0x7fffffff"

definition memcpy_s_ok :: "nat \<Rightarrow> nat \<Rightarrow> bool" where
  "memcpy_s_ok destMax count \<longleftrightarrow> 0 < destMax \<and> destMax \<le> SECUREC_MEM_MAX_LEN \<and> count \<le> destMax"

section \<open>Allocation\<close>

text \<open>
  The allocator of \<^verbatim>\<open>adapter/common/kernel/liteos_a/softbus_adapter_mem.c\<close>: sizes above 512 MiB are
  refused, and the zeroing of an empty block fails. \<open>sys_ok\<close> is the decision of the system.
\<close>

abbreviation (input) MAX_MALLOC_SIZE :: u32 where "MAX_MALLOC_SIZE \<equiv> 536870912"

definition SoftBusMalloc :: "bool \<Rightarrow> u32 \<Rightarrow> bool" where
  "SoftBusMalloc sys_ok sz = (if MAX_MALLOC_SIZE < sz then False else sys_ok)"

definition SoftBusCalloc :: "bool \<Rightarrow> u32 \<Rightarrow> bool" where
  "SoftBusCalloc sys_ok sz = (SoftBusMalloc sys_ok sz \<and> 0 < sz)"

section \<open>Error codes\<close>

text \<open>The values of \<^verbatim>\<open>enum SoftBusErrNo\<close>, as the 32-bit signed numbers the enumeration denotes.\<close>

abbreviation (input) SOFTBUS_OK :: int where "SOFTBUS_OK \<equiv> 0"
abbreviation (input) SOFTBUS_ERR :: int where "SOFTBUS_ERR \<equiv> -1"
abbreviation (input) SOFTBUS_COMMOM_ERR_BASE :: int where "SOFTBUS_COMMOM_ERR_BASE \<equiv> -268369920"
abbreviation (input) SOFTBUS_TIMOUT :: int where "SOFTBUS_TIMOUT \<equiv> -268369919"
abbreviation (input) SOFTBUS_INVALID_PARAM :: int where "SOFTBUS_INVALID_PARAM \<equiv> -268369918"
abbreviation (input) SOFTBUS_MEM_ERR :: int where "SOFTBUS_MEM_ERR \<equiv> -268369917"
abbreviation (input) SOFTBUS_MALLOC_ERR :: int where "SOFTBUS_MALLOC_ERR \<equiv> -268369910"
abbreviation (input) SOFTBUS_LOCK_ERR :: int where "SOFTBUS_LOCK_ERR \<equiv> -268369903"
abbreviation (input) SOFTBUS_ALREADY_EXISTED :: int where "SOFTBUS_ALREADY_EXISTED \<equiv> -268369895"
abbreviation (input) SOFTBUS_NOT_FIND :: int where "SOFTBUS_NOT_FIND \<equiv> -268369892"
abbreviation (input) SOFTBUS_ALREADY_TRIGGERED :: int where "SOFTBUS_ALREADY_TRIGGERED \<equiv> -268369891"

section \<open>Collections of facts\<close>

named_theorems fifo_simps \<open>behaviour of a bounded queue in terms of its contents\<close>
named_theorems wf_intros \<open>preservation of the component invariants\<close>

section \<open>Lists\<close>

lemma map_upt_Suc: "map f [0..<Suc n] = f 0 # map (\<lambda>i. f (Suc i)) [0..<n]"
proof -
  have "[0..<Suc n] = 0 # map Suc [0..<n]" by (simp add: map_Suc_upt upt_conv_Cons del: upt_Suc)
  then show ?thesis by (simp del: upt_Suc)
qed

lemma concat_update:
  "i < length bs \<Longrightarrow> concat (bs[i := c]) = concat (take i bs) @ c @ concat (drop (Suc i) bs)"
  by (simp add: upd_conv_take_nth_drop)

lemma concat_nth_decomp:
  "i < length bs \<Longrightarrow> concat bs = concat (take i bs) @ bs ! i @ concat (drop (Suc i) bs)"
  using concat_update [of i bs "bs ! i"] by simp

lemma in_set_drop_nth: "x \<in> set (drop k xs) \<Longrightarrow> \<exists>j. k \<le> j \<and> j < length xs \<and> xs ! j = x"
proof -
  assume "x \<in> set (drop k xs)"
  then obtain i where "i < length xs - k" "drop k xs ! i = x" by (auto simp: in_set_conv_nth)
  then show ?thesis by (intro exI [of _ "k + i"]) simp
qed

lemma in_set_take_nth: "x \<in> set (take k xs) \<Longrightarrow> \<exists>j < k. j < length xs \<and> xs ! j = x"
  by (force simp: in_set_conv_nth)

text \<open>Two decompositions of one list.\<close>

lemma prefix_long:
  assumes "p @ s = f @ r" "length f \<le> length p"
  obtains q where "p = f @ q" "q @ s = r"
  using assms by (auto simp: append_eq_append_conv2)

lemma prefix_short:
  assumes "p @ s = f @ r" "length p < length f"
  obtains q where "p @ q = f" "q \<noteq> []" "s = q @ r"
  using assms by (auto simp: append_eq_append_conv2)

text \<open>A symmetric relation between all members does not depend on their order.\<close>

lemma sorted_wrt_members:
  "sorted_wrt R xs \<Longrightarrow> (\<And>x y. R x y \<Longrightarrow> R y x) \<Longrightarrow> a \<in> set xs \<Longrightarrow> b \<in> set xs \<Longrightarrow> a \<noteq> b \<Longrightarrow> R a b"
  by (induction xs) auto

lemma sorted_wrt_of_members:
  "distinct xs \<Longrightarrow> (\<And>a b. a \<in> set xs \<Longrightarrow> b \<in> set xs \<Longrightarrow> a \<noteq> b \<Longrightarrow> R a b) \<Longrightarrow> sorted_wrt R xs"
  by (induction xs) auto

section \<open>Remainders and word offsets\<close>

text \<open>Two positions less than \<open>n\<close> apart fall into different slots of a ring of \<open>n\<close> slots.\<close>

lemma ring_slot_distinct:
  fixes c :: nat
  assumes "i < j" and "j < i + n"
  shows "(c + i) mod n \<noteq> (c + j) mod n"
proof
  assume "(c + i) mod n = (c + j) mod n"
  then have "n dvd (c + j) - (c + i)"
    using assms(1) by (metis add_le_cancel_left less_imp_le_nat mod_eq_dvd_iff_nat)
  then have "n dvd j - i" by simp
  moreover have "0 < j - i" "j - i < n" using assms by auto
  ultimately show False using nat_dvd_not_less by blast
qed

lemma unat_of_nat_word32 [simp]: "n < 2 ^ 32 \<Longrightarrow> unat (of_nat n :: u32) = n"
  by (simp add: unat_of_nat take_bit_nat_eq_self)

lemma unat_lt32 [simp]: "unat (x :: u32) < 4294967296"
  using unsigned_less [where ?'a = nat, of x] by simp

lemma unat_Suc_less:
  fixes x :: u32
  assumes "x < y"
  shows "unat (x + 1) = unat x + 1"
proof -
  have "unat x < unat y" using assms by (simp add: word_less_nat_alt)
  then have "unat x + 1 < 4294967296" using unat_lt32 [of y] by linarith
  then show ?thesis by (simp add: unat_word_ariths)
qed

lemma unat_lt8: "unat (x :: u8) < 256"
  using unsigned_less [where ?'a = nat, of x] by simp

lemma unat_ucast_8_32: "unat (ucast (x :: u8) :: u32) = unat x"
proof -
  have "unat x < 2 ^ 32" by (rule less_trans [OF unat_lt8]) simp
  then show ?thesis by (simp add: unsigned_ucast_eq take_bit_nat_eq_self)
qed

lemma unat_add_mod_dvd:
  fixes a b :: u32
  assumes "k \<le> 32"
  shows "unat (a + b) mod 2 ^ k = (unat a + unat b) mod 2 ^ k"
proof -
  have "(2::nat) ^ k dvd 2 ^ 32" using assms by (rule le_imp_power_dvd)
  then show ?thesis by (simp add: unat_word_ariths mod_mod_cancel)
qed

section \<open>Powers of two\<close>

lemma nat_odd_part: "0 < (n::nat) \<Longrightarrow> \<exists>k j. n = 2 ^ k * (2 * j + 1)"
proof (induction n rule: less_induct)
  case (less n)
  show ?case
  proof (cases "even n")
    case True
    then obtain m where m: "n = 2 * m" by blast
    with less.prems have "0 < m" "m < n" by auto
    then obtain k j where "m = 2 ^ k * (2 * j + 1)" using less.IH by blast
    with m have "n = 2 ^ Suc k * (2 * j + 1)" by simp
    then show ?thesis by blast
  next
    case False
    then obtain j where "n = 2 * j + 1" by (blast elim: oddE)
    then have "n = 2 ^ 0 * (2 * j + 1)" by simp
    then show ?thesis by blast
  qed
qed

text \<open>The test \<open>x & (x - 1) = 0\<close> singles out the powers of two among the positive numbers.\<close>

lemma nat_and_pred_zero:
  assumes "0 < (n::nat)" and "n AND (n - 1) = 0"
  shows "\<exists>k. n = 2 ^ k"
proof -
  obtain k j where n: "n = 2 ^ k * (2 * j + 1)" using nat_odd_part [OF assms(1)] by blast
  have n1: "n - 1 = j * 2 ^ Suc k + (2 ^ k - 1)"
    by (simp add: n algebra_simps Nat.add_diff_assoc)
  have n2: "n = j * 2 ^ Suc k + 2 ^ k" by (simp add: n algebra_simps)
  have "drop_bit (Suc k) n = j" by (simp only: drop_bit_eq_div n2) simp
  moreover have "drop_bit (Suc k) (n - 1) = j"
  proof -
    have "(2::nat) ^ k - 1 < 2 ^ Suc k" by (simp add: less_imp_diff_less)
    then have "(j * 2 ^ Suc k + (2 ^ k - 1)) div 2 ^ Suc k = j"
      by (subst div_mult_self3) (simp_all del: power_Suc)
    then show ?thesis by (simp only: drop_bit_eq_div n1)
  qed
  ultimately have "j = drop_bit (Suc k) (n AND (n - 1))" by simp
  with assms(2) have "j = 0" by simp
  with n show ?thesis by auto
qed

lemma word_and_pred_zero:
  fixes x :: u32
  assumes "x \<noteq> 0" and "(x - 1) AND x = 0"
  obtains k where "k < 32" "unat x = 2 ^ k"
proof -
  have pos: "0 < unat x" using assms(1) by (simp add: unat_gt_0)
  have "unat (x - 1) = unat x - 1" using assms(1) by (simp add: unat_minus_one)
  then have "unat x AND (unat x - 1) = unat ((x - 1) AND x)"
    by (simp add: unsigned_and_eq and.commute)
  with assms(2) have "unat x AND (unat x - 1) = 0" by simp
  then obtain k where k: "unat x = 2 ^ k" using nat_and_pred_zero pos by blast
  have "unat x < 2 ^ 32" using unsigned_less [of x] by simp
  with k have "(2::nat) ^ k < 2 ^ 32" by simp
  then have "k < 32" by (rule power_less_imp_less_exp [rotated]) simp
  with k show ?thesis using that by blast
qed

lemma unat_and_mask:
  fixes x m :: u32
  assumes "unat m = 2 ^ k - 1"
  shows "unat (x AND m) = unat x mod 2 ^ k"
proof -
  have "unat (x AND m) = unat x AND unat m" by (simp add: unsigned_and_eq)
  also have "unat m = mask k" by (simp add: assms mask_eq_exp_minus_1)
  finally show ?thesis by (simp add: take_bit_eq_mask [symmetric] take_bit_eq_mod)
qed

end
