(* ===== verification/Softbus_Queue.thy ===== *)
theory Softbus_Queue
  imports Softbus_Prelude
begin

text \<open>
  The lock-free ring queue of \<^verbatim>\<open>core/common/include/softbus_queue.h\<close> and
  \<^verbatim>\<open>core/common/queue/softbus_queue.c\<close>: its header record, creation, the four enqueue and dequeue
  routines as one thread runs them, and the proof that a well-formed queue is a bounded FIFO list
  of \<open>unitNum - 1\<close> places for every value of the free-running 32-bit counters, wrap-around
  included. The interface the clients use is the locale \<open>bounded_fifo\<close>.
  Sizes are those of an LP64 target (\<open>sizeof(uintptr_t) = 8\<close>).
\<close>

section \<open>Model\<close>

abbreviation (input) QUEUE_INVAL :: int where "QUEUE_INVAL \<equiv> -10"
abbreviation (input) QUEUE_FULL :: int where "QUEUE_FULL \<equiv> -9"
abbreviation (input) QUEUE_EMPTY :: int where "QUEUE_EMPTY \<equiv> -8"
abbreviation (input) QUEUE_HEADER_MAGIC :: u32 where "QUEUE_HEADER_MAGIC \<equiv> 0xccddddcc"
abbreviation (input) QUEUE_SIZE_MAX :: u32 where "QUEUE_SIZE_MAX \<equiv> 8192"
abbreviation (input) CACHE_LINE_SIZE :: u32 where "CACHE_LINE_SIZE \<equiv> 64"

text \<open>The producer and the consumer block of the header have the same four fields.\<close>

record QueueEnd =
  qe_size :: u32
  qe_mask :: u32
  qe_head :: u32
  qe_tail :: u32

text \<open>
  The slots hold pointers: \<^const>\<open>None\<close> is the null pointer the zeroed allocation starts with.
\<close>

record 'a LockFreeQueue =
  q_magic :: u32
  q_unitNum :: u32
  q_producer :: QueueEnd
  q_consumer :: QueueEnd
  q_nodes :: "'a option list"

definition IS_POWER_OF_2 :: "u32 \<Rightarrow> bool" where
  "IS_POWER_OF_2 x \<longleftrightarrow> (x - 1) AND x = 0"

text \<open>\<^verbatim>\<open>sizeof(LockFreeQueue)\<close>: three cache lines before the flexible array.\<close>

definition sizeof_LockFreeQueue :: u64 where
  "sizeof_LockFreeQueue = 4 + 4 + 56 + (4 + 4 + 4 + 4 + 48) + (4 + 4 + 4 + 4 + 48)"

definition QueueInit :: "'a LockFreeQueue option \<Rightarrow> u32 \<Rightarrow> int \<times> 'a LockFreeQueue option" where
  "QueueInit queue unitNum =
     (case queue of
        None \<Rightarrow> (QUEUE_INVAL, None)
      | Some q \<Rightarrow>
          if \<not> IS_POWER_OF_2 unitNum then (QUEUE_INVAL, Some q)
          else (0, Some (q\<lparr>
            q_magic := QUEUE_HEADER_MAGIC,
            q_producer := \<lparr>qe_size = unitNum, qe_mask = unitNum - 1, qe_head = 0, qe_tail = 0\<rparr>,
            q_consumer := \<lparr>qe_size = unitNum, qe_mask = unitNum - 1, qe_head = 0, qe_tail = 0\<rparr>,
            q_unitNum := unitNum\<rparr>)))"

text \<open>The size is computed in \<open>size_t\<close> and stored in a \<open>uint32_t\<close>.\<close>

definition QueueSizeCalc :: "u32 \<Rightarrow> u32 option \<Rightarrow> int \<times> u32 option" where
  "QueueSizeCalc unitNum queueSize =
     (case queueSize of
        None \<Rightarrow> (QUEUE_INVAL, None)
      | Some old \<Rightarrow>
          if unitNum > QUEUE_SIZE_MAX then (QUEUE_INVAL, Some old)
          else let size = (ucast (8 * (ucast unitNum :: u64) + sizeof_LockFreeQueue) :: u32)
               in (0, Some ((size + CACHE_LINE_SIZE - 1) AND NOT (CACHE_LINE_SIZE - 1))))"

definition QueueCountGet :: "'a LockFreeQueue option \<Rightarrow> u32 option \<Rightarrow> int \<times> u32 option" where
  "QueueCountGet queue count =
     (case (queue, count) of
        (Some q, Some _) \<Rightarrow>
          (let producerTail = qe_tail (q_producer q);
               consumerTail = qe_tail (q_consumer q);
               msk = qe_mask (q_producer q)
           in (0, Some ((producerTail - consumerTail) AND msk)))
      | _ \<Rightarrow> (QUEUE_INVAL, count))"

text \<open>
  \<^verbatim>\<open>SoftBusCalloc(queueSize)\<close> returns zeroed memory: a zero header followed by as many null slots as
  fit into the bytes after it.
\<close>

definition calloc_queue :: "u32 \<Rightarrow> 'a LockFreeQueue" where
  "calloc_queue queueSize =
     \<lparr>q_magic = 0, q_unitNum = 0,
      q_producer = \<lparr>qe_size = 0, qe_mask = 0, qe_head = 0, qe_tail = 0\<rparr>,
      q_consumer = \<lparr>qe_size = 0, qe_mask = 0, qe_head = 0, qe_tail = 0\<rparr>,
      q_nodes = replicate ((unat queueSize - unat sizeof_LockFreeQueue) div 8) None\<rparr>"

definition CreateQueue :: "bool \<Rightarrow> u32 \<Rightarrow> 'a LockFreeQueue option" where
  "CreateQueue alloc_ok unitNum =
     (if \<not> IS_POWER_OF_2 unitNum then None
      else case QueueSizeCalc unitNum (Some 0) of
        (ret, queueSize) \<Rightarrow>
          if ret \<noteq> 0 then None
          else if \<not> alloc_ok then None
          else case QueueInit (Some (calloc_queue (the queueSize))) unitNum of
            (ret2, queue) \<Rightarrow> if ret2 \<noteq> 0 then None else queue)"

definition QueueIsEmpty :: "'a LockFreeQueue option \<Rightarrow> int" where
  "QueueIsEmpty queue =
     (case queue of
        None \<Rightarrow> QUEUE_INVAL
      | Some q \<Rightarrow>
          (let producerTail = qe_tail (q_producer q);
               consumerTail = qe_tail (q_consumer q);
               msk = qe_mask (q_producer q)
           in if (producerTail - consumerTail) AND msk = 0 then 0 else -1))"

text \<open>Writing and reading a slot; outside the array the C program has no defined behaviour.\<close>

definition put_node :: "'a LockFreeQueue \<Rightarrow> u32 \<Rightarrow> 'a option \<Rightarrow> 'a LockFreeQueue option" where
  "put_node q i node =
     (if unat i < length (q_nodes q) then Some (q\<lparr>q_nodes := (q_nodes q)[unat i := node]\<rparr>) else None)"

definition get_node :: "'a LockFreeQueue \<Rightarrow> u32 \<Rightarrow> 'a option option" where
  "get_node q i = (if unat i < length (q_nodes q) then Some (q_nodes q ! unat i) else None)"

definition QueueSingleProducerEnqueue ::
  "'a LockFreeQueue option \<Rightarrow> 'a option \<Rightarrow> (int \<times> 'a LockFreeQueue option) option" where
  "QueueSingleProducerEnqueue queue node =
     (case queue of
        None \<Rightarrow> Some (QUEUE_INVAL, None)
      | Some q \<Rightarrow>
          if node = None then Some (QUEUE_INVAL, Some q)
          else
            let msk = qe_mask (q_producer q);
                producerHead = qe_head (q_producer q);
                consumerTail = qe_tail (q_consumer q);
                availableCount = (msk + consumerTail) - producerHead
            in if availableCount < 1 then Some (QUEUE_FULL, Some q)
               else
                 let producerNext = producerHead + 1;
                     q1 = q\<lparr>q_producer := (q_producer q)\<lparr>qe_head := producerNext\<rparr>\<rparr>
                 in case put_node q1 (producerHead AND msk) node of
                      None \<Rightarrow> None
                    | Some q2 \<Rightarrow>
                        Some (0, Some (q2\<lparr>q_producer := (q_producer q2)\<lparr>qe_tail := producerNext\<rparr>\<rparr>)))"

definition SoftBusAtomicCmpAndSwap32 :: "u32 \<Rightarrow> u32 \<Rightarrow> u32 \<Rightarrow> bool \<times> u32" where
  "SoftBusAtomicCmpAndSwap32 cur oldValue newValue =
     (if cur = oldValue then (True, newValue) else (False, cur))"

text \<open>
  The loop that reserves a place: it ends with \<^const>\<open>Inl\<close> of the error code, or with the reserved
  position and the advanced queue.
\<close>

partial_function (option) producer_reserve ::
  "'a LockFreeQueue \<Rightarrow> (int + u32 \<times> 'a LockFreeQueue) option" where
  "producer_reserve q =
     (let msk = qe_mask (q_producer q);
          producerHead = qe_head (q_producer q);
          consumerTail = qe_tail (q_consumer q);
          availableCount = (msk + consumerTail) - producerHead
      in if availableCount < 1 then Some (Inl QUEUE_FULL)
         else
           let producerNext = producerHead + 1;
               (success, cur) =
                 SoftBusAtomicCmpAndSwap32 (qe_head (q_producer q)) producerHead producerNext;
               q1 = q\<lparr>q_producer := (q_producer q)\<lparr>qe_head := cur\<rparr>\<rparr>
           in if success then Some (Inr (producerHead, q1)) else producer_reserve q1)"

text \<open>Spinning until the tail reaches a position; with no other thread it never changes.\<close>

partial_function (option) wait_until_tail :: "QueueEnd \<Rightarrow> u32 \<Rightarrow> unit option" where
  "wait_until_tail qe pos = (if qe_tail qe \<noteq> pos then wait_until_tail qe pos else Some ())"

definition QueueMultiProducerEnqueue ::
  "'a LockFreeQueue option \<Rightarrow> 'a option \<Rightarrow> (int \<times> 'a LockFreeQueue option) option" where
  "QueueMultiProducerEnqueue queue node =
     (case queue of
        None \<Rightarrow> Some (QUEUE_INVAL, None)
      | Some q \<Rightarrow>
          if node = None then Some (QUEUE_INVAL, Some q)
          else case producer_reserve q of
            None \<Rightarrow> None
          | Some (Inl err) \<Rightarrow> Some (err, Some q)
          | Some (Inr (producerHead, q1)) \<Rightarrow>
              (case put_node q1 (producerHead AND qe_mask (q_producer q)) node of
                 None \<Rightarrow> None
               | Some q2 \<Rightarrow>
                   (case wait_until_tail (q_producer q2) producerHead of
                      None \<Rightarrow> None
                    | Some _ \<Rightarrow>
                        Some (0, Some (q2\<lparr>q_producer :=
                          (q_producer q2)\<lparr>qe_tail := qe_tail (q_producer q2) + 1\<rparr>\<rparr>)))))"

text \<open>
  The out parameter \<open>void **node\<close> is an \<open>option\<close> (is there a variable to write to) of the pointer
  the variable holds.
\<close>

definition QueueSingleConsumerDequeue ::
  "'a LockFreeQueue option \<Rightarrow> 'a option option \<Rightarrow>
     (int \<times> 'a LockFreeQueue option \<times> 'a option option) option" where
  "QueueSingleConsumerDequeue queue node =
     (case (queue, node) of
        (Some q, Some _) \<Rightarrow>
          let msk = qe_mask (q_producer q);
              consumerHead = qe_head (q_consumer q);
              producerTail = qe_tail (q_producer q);
              availableCount = producerTail - consumerHead
          in if availableCount < 1 then Some (QUEUE_EMPTY, queue, node)
             else
               let consumerNext = consumerHead + 1;
                   q1 = q\<lparr>q_consumer := (q_consumer q)\<lparr>qe_head := consumerNext\<rparr>\<rparr>
               in case get_node q1 (consumerHead AND msk) of
                    None \<Rightarrow> None
                  | Some v \<Rightarrow>
                      Some (0, Some (q1\<lparr>q_consumer := (q_consumer q1)\<lparr>qe_tail := consumerNext\<rparr>\<rparr>), Some v)
      | _ \<Rightarrow> Some (QUEUE_INVAL, queue, node))"

partial_function (option) consumer_reserve ::
  "'a LockFreeQueue \<Rightarrow> (int + u32 \<times> 'a LockFreeQueue) option" where
  "consumer_reserve q =
     (let consumerHead = qe_head (q_consumer q);
          producerTail = qe_tail (q_producer q);
          availableCount = producerTail - consumerHead
      in if availableCount < 1 then Some (Inl QUEUE_EMPTY)
         else
           let consumerNext = consumerHead + 1;
               (success, cur) =
                 SoftBusAtomicCmpAndSwap32 (qe_head (q_consumer q)) consumerHead consumerNext;
               q1 = q\<lparr>q_consumer := (q_consumer q)\<lparr>qe_head := cur\<rparr>\<rparr>
           in if success then Some (Inr (consumerHead, q1)) else consumer_reserve q1)"

definition QueueMultiConsumerDequeue ::
  "'a LockFreeQueue option \<Rightarrow> 'a option option \<Rightarrow>
     (int \<times> 'a LockFreeQueue option \<times> 'a option option) option" where
  "QueueMultiConsumerDequeue queue node =
     (case (queue, node) of
        (Some q, Some _) \<Rightarrow>
          (case consumer_reserve q of
             None \<Rightarrow> None
           | Some (Inl err) \<Rightarrow> Some (err, queue, node)
           | Some (Inr (consumerHead, q1)) \<Rightarrow>
               (case get_node q1 (consumerHead AND qe_mask (q_producer q)) of
                  None \<Rightarrow> None
                | Some v \<Rightarrow>
                    (case wait_until_tail (q_consumer q1) consumerHead of
                       None \<Rightarrow> None
                     | Some _ \<Rightarrow>
                         Some (0, Some (q1\<lparr>q_consumer :=
                           (q_consumer q1)\<lparr>qe_tail := qe_tail (q_consumer q1) + 1\<rparr>\<rparr>), Some v))))
      | _ \<Rightarrow> Some (QUEUE_INVAL, queue, node))"

section \<open>Well-formed queues and their contents\<close>

text \<open>
  The invariant of a queue no thread is working on. \<open>ring_slot q i\<close> is the array index of the
  \<open>i\<close>-th queued element counted from the consumer, \<open>queue_list q\<close> the queued elements, oldest
  first, and \<open>queue_cap q\<close> how many the queue can hold.
\<close>

definition ring_slot :: "'a LockFreeQueue \<Rightarrow> nat \<Rightarrow> nat" where
  "ring_slot q i = unat ((qe_tail (q_consumer q) + of_nat i) AND qe_mask (q_producer q))"

definition queue_len :: "'a LockFreeQueue \<Rightarrow> nat" where
  "queue_len q = unat (qe_tail (q_producer q) - qe_tail (q_consumer q))"

definition queue_list :: "'a LockFreeQueue \<Rightarrow> 'a list" where
  "queue_list q = map (\<lambda>i. the (q_nodes q ! ring_slot q i)) [0..<queue_len q]"

definition queue_cap :: "'a LockFreeQueue \<Rightarrow> nat" where
  "queue_cap q = unat (q_unitNum q) - 1"

definition queue_wf :: "'a LockFreeQueue \<Rightarrow> bool" where
  "queue_wf q \<longleftrightarrow>
     IS_POWER_OF_2 (q_unitNum q) \<and> q_unitNum q \<noteq> 0 \<and>
     qe_mask (q_producer q) = q_unitNum q - 1 \<and> qe_mask (q_consumer q) = q_unitNum q - 1 \<and>
     qe_size (q_producer q) = q_unitNum q \<and> qe_size (q_consumer q) = q_unitNum q \<and>
     unat (q_unitNum q) \<le> length (q_nodes q) \<and>
     qe_head (q_producer q) = qe_tail (q_producer q) \<and>
     qe_head (q_consumer q) = qe_tail (q_consumer q) \<and>
     queue_len q \<le> queue_cap q \<and>
     (\<forall>i < queue_len q. q_nodes q ! ring_slot q i \<noteq> None)"

lemma length_queue_list [simp]: "length (queue_list q) = queue_len q"
  by (simp add: queue_list_def)

lemma unat_pred_pow2:
  fixes x :: u32
  assumes "x \<noteq> 0" "unat x = 2 ^ k"
  shows "unat (x - 1) = 2 ^ k - 1"
  using assms by (simp add: unat_minus_one)

text \<open>The ring arithmetic: with a power of two, the masked counters are remainders.\<close>

lemma queue_wf_pow2:
  assumes "queue_wf q"
  obtains k where "k < 32" "unat (q_unitNum q) = 2 ^ k" "queue_cap q = 2 ^ k - 1"
    "\<And>x. unat (x AND qe_mask (q_producer q)) = unat x mod 2 ^ k"
    "\<And>x. unat (x AND qe_mask (q_producer q)) < length (q_nodes q)"
proof -
  from assms have nz: "q_unitNum q \<noteq> 0" and p2: "(q_unitNum q - 1) AND q_unitNum q = 0"
    and m: "qe_mask (q_producer q) = q_unitNum q - 1"
    and len: "unat (q_unitNum q) \<le> length (q_nodes q)"
    by (auto simp: queue_wf_def IS_POWER_OF_2_def)
  from nz p2 obtain k where k: "k < 32" "unat (q_unitNum q) = 2 ^ k"
    by (rule word_and_pred_zero)
  have mk: "unat (x AND qe_mask (q_producer q)) = unat x mod 2 ^ k" for x
    using unat_and_mask [OF unat_pred_pow2 [OF nz k(2)]] by (simp add: m)
  have lt: "unat (x AND qe_mask (q_producer q)) < length (q_nodes q)" for x
  proof -
    have "unat x mod 2 ^ k < 2 ^ k" by simp
    with len k(2) mk show ?thesis by (metis order_less_le_trans)
  qed
  show ?thesis using that [OF k(1) k(2) _ mk lt] by (simp add: queue_cap_def k)
qed

lemma queue_wf_slot:
  assumes "queue_wf q"
  shows "unat (x AND qe_mask (q_producer q)) < length (q_nodes q)"
proof -
  obtain k where "\<And>x. unat (x AND qe_mask (q_producer q)) < length (q_nodes q)"
    using queue_wf_pow2 [OF assms] by metis
  then show ?thesis .
qed

lemma ring_slot_mod:
  assumes "k < 32" and "\<And>x. unat (x AND qe_mask (q_producer q)) = unat x mod 2 ^ k"
    and "i < 2 ^ 32"
  shows "ring_slot q i = (unat (qe_tail (q_consumer q)) + i) mod 2 ^ k"
  using assms by (simp add: ring_slot_def unat_add_mod_dvd)

lemma queue_len_bound: "queue_len q < 2 ^ 32"
  using unsigned_less [of "qe_tail (q_producer q) - qe_tail (q_consumer q)"]
  by (simp add: queue_len_def)

text \<open>The producer's position is the slot after the last element.\<close>

lemma ring_slot_len:
  "ring_slot q (queue_len q) = unat (qe_tail (q_producer q) AND qe_mask (q_producer q))"
  by (simp add: ring_slot_def queue_len_def)

lemma ring_slot_neq:
  assumes "queue_wf q" and "i < j" and "j \<le> queue_cap q"
  shows "ring_slot q i \<noteq> ring_slot q j"
proof -
  obtain k where k: "k < 32" "unat (q_unitNum q) = 2 ^ k" "queue_cap q = 2 ^ k - 1"
    and mk: "\<And>x. unat (x AND qe_mask (q_producer q)) = unat x mod 2 ^ k"
    using queue_wf_pow2 [OF assms(1)] by metis
  have "(2::nat) ^ k \<le> 2 ^ 32" using k(1) by (intro power_increasing) auto
  then have b: "j < 2 ^ 32" "i < 2 ^ 32" using assms k(3) by auto
  have "j < i + 2 ^ k" using assms(2,3) k(3) by (simp add: less_diff_conv)
  then show ?thesis
    using ring_slot_distinct [OF assms(2), of "2 ^ k"] ring_slot_mod [OF k(1) mk] b by metis
qed

section \<open>One step of each routine on a well-formed queue\<close>

definition enq_state :: "'a LockFreeQueue \<Rightarrow> 'a \<Rightarrow> 'a LockFreeQueue" where
  "enq_state q x =
     q\<lparr>q_producer := (q_producer q)\<lparr>qe_head := qe_tail (q_producer q) + 1,
                                    qe_tail := qe_tail (q_producer q) + 1\<rparr>,
       q_nodes := (q_nodes q)[ring_slot q (queue_len q) := Some x]\<rparr>"

definition deq_state :: "'a LockFreeQueue \<Rightarrow> 'a LockFreeQueue" where
  "deq_state q =
     q\<lparr>q_consumer := (q_consumer q)\<lparr>qe_head := qe_tail (q_consumer q) + 1,
                                    qe_tail := qe_tail (q_consumer q) + 1\<rparr>\<rparr>"

lemma available_producer:
  assumes "queue_wf q"
  shows "(qe_mask (q_producer q) + qe_tail (q_consumer q)) - qe_head (q_producer q) < 1
     \<longleftrightarrow> queue_len q = queue_cap q"
proof -
  from assms have nz: "q_unitNum q \<noteq> 0" and m: "qe_mask (q_producer q) = q_unitNum q - 1"
    and h: "qe_head (q_producer q) = qe_tail (q_producer q)"
    by (auto simp: queue_wf_def)
  have cap: "queue_cap q = unat (q_unitNum q - 1)"
    using nz by (simp add: queue_cap_def unat_minus_one)
  have "(qe_mask (q_producer q) + qe_tail (q_consumer q)) - qe_head (q_producer q) < 1
    \<longleftrightarrow> q_unitNum q - 1 = qe_tail (q_producer q) - qe_tail (q_consumer q)"
    by (auto simp: m h word_less_1 algebra_simps)
  also have "\<dots> \<longleftrightarrow> queue_len q = queue_cap q"
    by (auto simp: cap queue_len_def dest: unsigned_word_eqI)
  finally show ?thesis .
qed

lemma available_consumer:
  assumes "queue_wf q"
  shows "qe_tail (q_producer q) - qe_head (q_consumer q) < 1 \<longleftrightarrow> queue_len q = 0"
  using assms by (auto simp: queue_wf_def queue_len_def unat_eq_zero)

lemma put_node_tail:
  assumes "queue_wf q"
  shows "put_node (q\<lparr>q_producer := (q_producer q)\<lparr>qe_head := h\<rparr>\<rparr>)
           (qe_tail (q_producer q) AND qe_mask (q_producer q)) node =
         Some (q\<lparr>q_producer := (q_producer q)\<lparr>qe_head := h\<rparr>,
                 q_nodes := (q_nodes q)[ring_slot q (queue_len q) := node]\<rparr>)"
  using queue_wf_slot [OF assms] by (simp add: put_node_def ring_slot_len)

lemma QueueSingleProducerEnqueue_wf:
  assumes "queue_wf q"
  shows "QueueSingleProducerEnqueue (Some q) (Some x) =
     (if queue_len q = queue_cap q then Some (QUEUE_FULL, Some q)
      else Some (0, Some (enq_state q x)))"
proof -
  have h: "qe_head (q_producer q) = qe_tail (q_producer q)" using assms by (simp add: queue_wf_def)
  note av = available_producer [OF assms, unfolded h]
  show ?thesis
    using av by (simp add: QueueSingleProducerEnqueue_def Let_def h put_node_tail [OF assms] enq_state_def)
qed

lemma producer_reserve_wf:
  assumes "queue_wf q"
  shows "producer_reserve q =
     (if queue_len q = queue_cap q then Some (Inl QUEUE_FULL)
      else Some (Inr (qe_tail (q_producer q),
        q\<lparr>q_producer := (q_producer q)\<lparr>qe_head := qe_tail (q_producer q) + 1\<rparr>\<rparr>)))"
proof -
  have h: "qe_head (q_producer q) = qe_tail (q_producer q)" using assms by (simp add: queue_wf_def)
  note av = available_producer [OF assms, unfolded h]
  show ?thesis
    using av by (subst producer_reserve.simps) (simp add: Let_def SoftBusAtomicCmpAndSwap32_def h)
qed

lemma wait_until_tail_here [simp]: "wait_until_tail qe (qe_tail qe) = Some ()"
  by (subst wait_until_tail.simps) simp

text \<open>
  With no other thread at work the compare-and-swap succeeds at once and there is nobody to wait
  for: the multi-producer routine returns, and does exactly what the single-producer one does.
\<close>

lemma QueueMultiProducerEnqueue_wf:
  assumes "queue_wf q"
  shows "QueueMultiProducerEnqueue (Some q) (Some x) =
     (if queue_len q = queue_cap q then Some (QUEUE_FULL, Some q)
      else Some (0, Some (enq_state q x)))"
proof -
  have w: "wait_until_tail ((q_producer q)\<lparr>qe_head := h\<rparr>) (qe_tail (q_producer q)) = Some ()" for h
    using wait_until_tail_here [of "(q_producer q)\<lparr>qe_head := h\<rparr>"] by simp
  show ?thesis
    by (simp add: QueueMultiProducerEnqueue_def producer_reserve_wf [OF assms]
        put_node_tail [OF assms] w enq_state_def)
qed

lemma get_node_head:
  assumes "queue_wf q"
  shows "get_node (q\<lparr>q_consumer := c\<rparr>) (qe_tail (q_consumer q) AND qe_mask (q_producer q)) =
     Some (q_nodes q ! ring_slot q 0)"
  using queue_wf_slot [OF assms] by (simp add: get_node_def ring_slot_def)

lemma queue_list_hd:
  assumes "queue_wf q" and "queue_len q \<noteq> 0"
  shows "q_nodes q ! ring_slot q 0 = Some (hd (queue_list q))"
proof -
  obtain n where n: "queue_len q = Suc n" using assms(2) by (cases "queue_len q") auto
  have "q_nodes q ! ring_slot q 0 \<noteq> None" using assms by (auto simp: queue_wf_def)
  then show ?thesis by (auto simp: queue_list_def n map_upt_Suc simp del: upt_Suc)
qed

lemma QueueSingleConsumerDequeue_wf:
  assumes "queue_wf q"
  shows "QueueSingleConsumerDequeue (Some q) (Some v) =
     (if queue_len q = 0 then Some (QUEUE_EMPTY, Some q, Some v)
      else Some (0, Some (deq_state q), Some (Some (hd (queue_list q)))))"
proof -
  have h: "qe_head (q_consumer q) = qe_tail (q_consumer q)" using assms by (simp add: queue_wf_def)
  note av = available_consumer [OF assms, unfolded h]
  show ?thesis
    using av by (simp add: QueueSingleConsumerDequeue_def Let_def h get_node_head [OF assms]
        queue_list_hd [OF assms] deq_state_def)
qed

lemma consumer_reserve_wf:
  assumes "queue_wf q"
  shows "consumer_reserve q =
     (if queue_len q = 0 then Some (Inl QUEUE_EMPTY)
      else Some (Inr (qe_tail (q_consumer q),
        q\<lparr>q_consumer := (q_consumer q)\<lparr>qe_head := qe_tail (q_consumer q) + 1\<rparr>\<rparr>)))"
proof -
  have h: "qe_head (q_consumer q) = qe_tail (q_consumer q)" using assms by (simp add: queue_wf_def)
  note av = available_consumer [OF assms, unfolded h]
  show ?thesis
    using av by (subst consumer_reserve.simps) (simp add: Let_def SoftBusAtomicCmpAndSwap32_def h)
qed

lemma QueueMultiConsumerDequeue_wf:
  assumes "queue_wf q"
  shows "QueueMultiConsumerDequeue (Some q) (Some v) =
     (if queue_len q = 0 then Some (QUEUE_EMPTY, Some q, Some v)
      else Some (0, Some (deq_state q), Some (Some (hd (queue_list q)))))"
proof -
  have w: "wait_until_tail ((q_consumer q)\<lparr>qe_head := h\<rparr>) (qe_tail (q_consumer q)) = Some ()" for h
    using wait_until_tail_here [of "(q_consumer q)\<lparr>qe_head := h\<rparr>"] by simp
  show ?thesis
    by (simp add: QueueMultiConsumerDequeue_def consumer_reserve_wf [OF assms]
        get_node_head [OF assms] queue_list_hd [OF assms] w deq_state_def)
qed

section \<open>The invariant and the contents after a step\<close>

lemma enq_state_simps [simp]:
  "q_unitNum (enq_state q x) = q_unitNum q"
  "q_consumer (enq_state q x) = q_consumer q"
  "qe_mask (q_producer (enq_state q x)) = qe_mask (q_producer q)"
  "length (q_nodes (enq_state q x)) = length (q_nodes q)"
  "queue_cap (enq_state q x) = queue_cap q"
  by (simp_all add: enq_state_def queue_cap_def)

lemma ring_slot_enq [simp]: "ring_slot (enq_state q x) i = ring_slot q i"
  by (simp add: ring_slot_def)

lemma unat_Suc_bound:
  fixes a :: u32
  assumes "unat a < n" "n < 2 ^ 32"
  shows "unat (a + 1) = Suc (unat a)"
proof -
  have "Suc (unat a) < 2 ^ 32" using assms by simp
  then show ?thesis by (simp add: unat_word_ariths)
qed

lemma queue_cap_bound: "queue_cap q < 2 ^ 32"
  by (simp add: queue_cap_def less_imp_diff_less)

lemma queue_len_enq:
  assumes "queue_len q < queue_cap q"
  shows "queue_len (enq_state q x) = Suc (queue_len q)"
proof -
  have "queue_len (enq_state q x) =
    unat ((qe_tail (q_producer q) - qe_tail (q_consumer q)) + 1)"
    by (simp add: queue_len_def enq_state_def algebra_simps)
  also have "\<dots> = Suc (queue_len q)"
    unfolding queue_len_def
    by (rule unat_Suc_bound [OF assms [unfolded queue_len_def] queue_cap_bound])
  finally show ?thesis .
qed

lemma enq_nodes:
  assumes "queue_wf q" "queue_len q < queue_cap q" "i \<le> queue_len q"
  shows "q_nodes (enq_state q x) ! ring_slot q i =
     (if i = queue_len q then Some x else q_nodes q ! ring_slot q i)"
proof -
  have l: "ring_slot q (queue_len q) < length (q_nodes q)"
    using queue_wf_slot [OF assms(1)] by (simp add: ring_slot_len)
  have "ring_slot q i \<noteq> ring_slot q (queue_len q)" if "i \<noteq> queue_len q"
    using ring_slot_neq [OF assms(1), of i "queue_len q"] that assms(2,3) by simp
  with l show ?thesis by (auto simp: enq_state_def)
qed

lemma queue_list_enq:
  assumes "queue_wf q" "queue_len q < queue_cap q"
  shows "queue_list (enq_state q x) = queue_list q @ [x]"
  using assms by (simp add: queue_list_def queue_len_enq enq_nodes)

lemma queue_wf_enq [wf_intros]:
  assumes "queue_wf q" "queue_len q < queue_cap q"
  shows "queue_wf (enq_state q x)"
proof -
  have "\<forall>i < queue_len (enq_state q x). q_nodes (enq_state q x) ! ring_slot (enq_state q x) i \<noteq> None"
    using assms by (auto simp: queue_len_enq enq_nodes less_Suc_eq_le) (auto simp: queue_wf_def)
  moreover have "queue_len (enq_state q x) \<le> queue_cap (enq_state q x)"
    using assms by (simp add: queue_len_enq)
  ultimately show ?thesis
    using assms(1) unfolding queue_wf_def by (simp add: enq_state_def)
qed

lemma deq_state_simps [simp]:
  "q_unitNum (deq_state q) = q_unitNum q"
  "q_producer (deq_state q) = q_producer q"
  "q_nodes (deq_state q) = q_nodes q"
  "queue_cap (deq_state q) = queue_cap q"
  by (simp_all add: deq_state_def queue_cap_def)

lemma ring_slot_deq [simp]: "ring_slot (deq_state q) i = ring_slot q (Suc i)"
  by (simp add: ring_slot_def deq_state_def algebra_simps)

lemma queue_len_deq:
  assumes "queue_len q \<noteq> 0"
  shows "queue_len (deq_state q) = queue_len q - 1"
proof -
  have "queue_len (deq_state q) = unat ((qe_tail (q_producer q) - qe_tail (q_consumer q)) - 1)"
    by (simp add: queue_len_def deq_state_def algebra_simps)
  also have "\<dots> = queue_len q - 1"
    using assms by (simp add: queue_len_def unat_minus_one unat_eq_zero)
  finally show ?thesis .
qed

lemma queue_list_deq:
  assumes "queue_len q \<noteq> 0"
  shows "queue_list (deq_state q) = tl (queue_list q)"
proof -
  obtain n where n: "queue_len q = Suc n" using assms by (cases "queue_len q") auto
  show ?thesis by (simp add: queue_list_def queue_len_deq n map_upt_Suc del: upt_Suc)
qed

lemma queue_wf_deq [wf_intros]:
  assumes "queue_wf q" "queue_len q \<noteq> 0"
  shows "queue_wf (deq_state q)"
proof -
  have "\<forall>i < queue_len (deq_state q). q_nodes (deq_state q) ! ring_slot (deq_state q) i \<noteq> None"
    using assms by (auto simp: queue_len_deq queue_wf_def less_diff_conv)
  moreover have "queue_len (deq_state q) \<le> queue_cap (deq_state q)"
    using assms by (auto simp: queue_len_deq queue_wf_def)
  ultimately show ?thesis
    using assms(1) unfolding queue_wf_def by (simp add: deq_state_def)
qed

section \<open>Creation\<close>

lemma and_not_63: "unat (x AND NOT 63 :: u32) = unat x - unat x mod 64"
proof -
  have m: "(63 :: u32) = mask 6" by (simp add: mask_eq_exp_minus_1)
  have "(x AND NOT 63) + (x AND 63) = (x AND NOT 63) OR (x AND 63)"
    by (rule disjunctive_add_eq_or) (rule bit_word_eqI, auto simp: bit_simps)
  also have "\<dots> = x"
    by (rule bit_word_eqI) (auto simp: bit_simps)
  finally have "x AND NOT 63 = x - take_bit 6 x"
    by (simp add: take_bit_eq_mask m eq_diff_eq)
  also have "unat \<dots> = unat x - unat (take_bit 6 x)"
    by (rule unat_sub) (simp add: word_le_nat_alt unsigned_take_bit_eq)
  also have "unat (take_bit 6 x) = unat x mod 64"
    by (simp add: unsigned_take_bit_eq take_bit_eq_mod [where a = "unat x"])
  finally show ?thesis .
qed

text \<open>The allocation covers the header and at least \<open>unitNum\<close> slots.\<close>

lemma QueueSizeCalc_room:
  assumes "unitNum \<le> QUEUE_SIZE_MAX"
  shows "\<exists>sz. QueueSizeCalc unitNum (Some v) = (0, Some sz) \<and>
     unat unitNum \<le> (unat sz - unat sizeof_LockFreeQueue) div 8"
proof -
  let ?size = "ucast (8 * (ucast unitNum :: u64) + sizeof_LockFreeQueue) :: u32"
  let ?sz = "(?size + 64 - 1) AND NOT (64 - 1)"
  have n: "unat unitNum \<le> 8192" using assms by (simp add: word_le_nat_alt)
  have u64: "unat (8 * (ucast unitNum :: u64) + sizeof_LockFreeQueue) = 8 * unat unitNum + 192"
    using n by (simp add: unat_word_ariths sizeof_LockFreeQueue_def unsigned_ucast_eq
        take_bit_nat_eq_self)
  have size: "unat ?size = 8 * unat unitNum + 192"
    using n by (simp add: unsigned_ucast_eq u64 take_bit_nat_eq_self)
  have "?size + 64 - 1 = ?size + 63" by simp
  then have up: "unat (?size + 64 - 1) = 8 * unat unitNum + 192 + 63"
    using n by (simp add: unat_word_ariths size)
  have "unat ?sz = (8 * unat unitNum + 255) - (8 * unat unitNum + 255) mod 64"
    using and_not_63 [of "?size + 64 - 1"] up by (simp add: add.commute)
  then have "8 * unat unitNum + 192 \<le> unat ?sz"
    using mod_less_divisor [of 64 "8 * unat unitNum + 255"] by linarith
  then have "unat unitNum \<le> (unat ?sz - 192) div 8" by linarith
  then show ?thesis
    using assms by (simp add: QueueSizeCalc_def Let_def sizeof_LockFreeQueue_def not_less)
qed

lemma CreateQueue_wf:
  assumes "IS_POWER_OF_2 unitNum" "unitNum \<noteq> 0" "unitNum \<le> QUEUE_SIZE_MAX"
  shows "\<exists>q. CreateQueue True unitNum = Some q \<and> queue_wf q \<and>
     queue_list q = [] \<and> queue_cap q = unat unitNum - 1"
proof -
  obtain sz where sz: "QueueSizeCalc unitNum (Some 0) = (0, Some sz)"
    and room: "unat unitNum \<le> (unat sz - unat sizeof_LockFreeQueue) div 8"
    using QueueSizeCalc_room [OF assms(3)] by blast
  let ?q = "the (snd (QueueInit (Some (calloc_queue sz :: 'a LockFreeQueue)) unitNum))"
  have c: "CreateQueue True unitNum = Some ?q"
    using assms(1) by (simp add: CreateQueue_def sz QueueInit_def)
  have "queue_len ?q = 0" using assms(1) by (simp add: queue_len_def QueueInit_def)
  then have "queue_wf ?q" "queue_list ?q = []" "queue_cap ?q = unat unitNum - 1"
    using assms room
    by (simp_all add: queue_wf_def queue_list_def queue_cap_def QueueInit_def calloc_queue_def)
  with c show ?thesis by blast
qed

section \<open>The interface: a bounded first-in first-out queue\<close>

text \<open>
  What a client may rely on. \<open>fifo_spec\<close> is the abstract behaviour, a list of at most \<open>cap\<close>
  elements; \<open>run_fifo\<close> drives an implementation through the same operations.
\<close>

datatype 'a fifo_op = Enq 'a | Deq

datatype 'a fifo_out = EnqRet int | DeqRet int "'a option"

fun fifo_spec :: "nat \<Rightarrow> 'a list \<Rightarrow> 'a fifo_op list \<Rightarrow> 'a list \<times> 'a fifo_out list" where
  "fifo_spec cap xs [] = (xs, [])"
| "fifo_spec cap xs (Enq x # ops) =
     (if length xs < cap
      then (case fifo_spec cap (xs @ [x]) ops of (ys, outs) \<Rightarrow> (ys, EnqRet 0 # outs))
      else (case fifo_spec cap xs ops of (ys, outs) \<Rightarrow> (ys, EnqRet QUEUE_FULL # outs)))"
| "fifo_spec cap xs (Deq # ops) =
     (case xs of
        [] \<Rightarrow> (case fifo_spec cap xs ops of (ys, outs) \<Rightarrow> (ys, DeqRet QUEUE_EMPTY None # outs))
      | y # xs' \<Rightarrow> (case fifo_spec cap xs' ops of (ys, outs) \<Rightarrow> (ys, DeqRet 0 (Some y) # outs)))"

fun run_fifo :: "('q \<Rightarrow> 'a \<Rightarrow> (int \<times> 'q) option) \<Rightarrow> ('q \<Rightarrow> (int \<times> 'q \<times> 'a option) option) \<Rightarrow>
    'q \<Rightarrow> 'a fifo_op list \<Rightarrow> ('q \<times> 'a fifo_out list) option" where
  "run_fifo enq deq q [] = Some (q, [])"
| "run_fifo enq deq q (Enq x # ops) =
     (case enq q x of
        None \<Rightarrow> None
      | Some (r, q') \<Rightarrow> map_option (\<lambda>(q'', outs). (q'', EnqRet r # outs)) (run_fifo enq deq q' ops))"
| "run_fifo enq deq q (Deq # ops) =
     (case deq q of
        None \<Rightarrow> None
      | Some (r, q', v) \<Rightarrow>
          map_option (\<lambda>(q'', outs). (q'', DeqRet r v # outs)) (run_fifo enq deq q' ops))"

locale bounded_fifo =
  fixes enq :: "'q \<Rightarrow> 'a \<Rightarrow> (int \<times> 'q) option"
    and deq :: "'q \<Rightarrow> (int \<times> 'q \<times> 'a option) option"
    and contents :: "'q \<Rightarrow> 'a list"
    and cap :: "'q \<Rightarrow> nat"
    and invar :: "'q \<Rightarrow> bool"
  assumes enq_room: "invar q \<Longrightarrow> length (contents q) < cap q \<Longrightarrow>
      \<exists>q'. enq q x = Some (0, q') \<and> invar q' \<and> contents q' = contents q @ [x] \<and> cap q' = cap q"
    and enq_full: "invar q \<Longrightarrow> length (contents q) = cap q \<Longrightarrow> enq q x = Some (QUEUE_FULL, q)"
    and deq_some: "invar q \<Longrightarrow> contents q = y # ys \<Longrightarrow>
      \<exists>q'. deq q = Some (0, q', Some y) \<and> invar q' \<and> contents q' = ys \<and> cap q' = cap q"
    and deq_empty: "invar q \<Longrightarrow> contents q = [] \<Longrightarrow> deq q = Some (QUEUE_EMPTY, q, None)"
    and within_cap: "invar q \<Longrightarrow> length (contents q) \<le> cap q"
begin

lemma enq_total:
  assumes "invar q"
  obtains r q' where "enq q x = Some (r, q')" "invar q'" "cap q' = cap q"
    "(r, contents q') = (if length (contents q) < cap q then (0, contents q @ [x])
                         else (QUEUE_FULL, contents q))"
proof (cases "length (contents q) < cap q")
  case True
  then show ?thesis using enq_room [OF assms, of x] that by fastforce
next
  case False
  then have "length (contents q) = cap q" using within_cap [OF assms] by simp
  then show ?thesis using enq_full [OF assms, of x] that assms False by fastforce
qed

lemma deq_total:
  assumes "invar q"
  obtains r q' v where "deq q = Some (r, q', v)" "invar q'" "cap q' = cap q"
    "(r, v, contents q') = (case contents q of [] \<Rightarrow> (QUEUE_EMPTY, None, [])
                            | y # ys \<Rightarrow> (0, Some y, ys))"
proof (cases "contents q")
  case Nil
  then show ?thesis using deq_empty [OF assms] that assms by fastforce
next
  case (Cons y ys)
  then show ?thesis using deq_some [OF assms Cons] that by fastforce
qed

text \<open>Every run of operations is defined and agrees with the abstract queue, output by output.\<close>

lemma run_refines:
  "invar q \<Longrightarrow> \<exists>q'. run_fifo enq deq q ops = Some (q', snd (fifo_spec (cap q) (contents q) ops)) \<and>
     invar q' \<and> contents q' = fst (fifo_spec (cap q) (contents q) ops)"
proof (induction ops arbitrary: q)
  case Nil
  then show ?case by simp
next
  case (Cons op ops)
  show ?case
  proof (cases op)
    case (Enq x)
    obtain r q' where q': "enq q x = Some (r, q')" "invar q'" "cap q' = cap q"
      "(r, contents q') = (if length (contents q) < cap q then (0, contents q @ [x])
                           else (QUEUE_FULL, contents q))"
      using enq_total [OF Cons.prems] .
    show ?thesis using Cons.IH [OF q'(2)] q' Enq by (auto split: if_splits prod.splits)
  next
    case Deq
    obtain r q' v where q': "deq q = Some (r, q', v)" "invar q'" "cap q' = cap q"
      "(r, v, contents q') = (case contents q of [] \<Rightarrow> (QUEUE_EMPTY, None, [])
                              | y # ys \<Rightarrow> (0, Some y, ys))"
      using deq_total [OF Cons.prems] .
    show ?thesis using Cons.IH [OF q'(2)] q' Deq by (auto split: list.splits prod.splits)
  qed
qed

end

text \<open>
  The ring queue as a client sees it: non-null pointers in, the return code, the changed queue and
  the fetched element out.
\<close>

definition lfq_enq :: "'a LockFreeQueue \<Rightarrow> 'a \<Rightarrow> (int \<times> 'a LockFreeQueue) option" where
  "lfq_enq q x = map_option (\<lambda>(r, q'). (r, the q')) (QueueMultiProducerEnqueue (Some q) (Some x))"

definition lfq_deq :: "'a LockFreeQueue \<Rightarrow> (int \<times> 'a LockFreeQueue \<times> 'a option) option" where
  "lfq_deq q = map_option (\<lambda>(r, q', v). (r, the q', the v))
     (QueueSingleConsumerDequeue (Some q) (Some None))"

interpretation lfq: bounded_fifo lfq_enq lfq_deq queue_list queue_cap queue_wf
proof
  fix q :: "'a LockFreeQueue" and x y ys
  assume wf: "queue_wf q"
  show "length (queue_list q) \<le> queue_cap q"
    using wf by (simp add: queue_wf_def)
  show "\<exists>q'. lfq_enq q x = Some (0, q') \<and> queue_wf q' \<and> queue_list q' = queue_list q @ [x] \<and>
      queue_cap q' = queue_cap q" if "length (queue_list q) < queue_cap q"
    using wf that
    by (auto simp: lfq_enq_def QueueMultiProducerEnqueue_wf queue_list_enq intro: queue_wf_enq)
  show "lfq_enq q x = Some (QUEUE_FULL, q)" if "length (queue_list q) = queue_cap q"
    using wf that by (simp add: lfq_enq_def QueueMultiProducerEnqueue_wf)
  show "\<exists>q'. lfq_deq q = Some (0, q', Some y) \<and> queue_wf q' \<and> queue_list q' = ys \<and>
      queue_cap q' = queue_cap q" if "queue_list q = y # ys"
  proof -
    have "queue_len q \<noteq> 0" using that length_queue_list [of q] by auto
    then show ?thesis
      using wf that
      by (auto simp: lfq_deq_def QueueSingleConsumerDequeue_wf queue_list_deq intro: queue_wf_deq)
  qed
  show "lfq_deq q = Some (QUEUE_EMPTY, q, None)" if "queue_list q = []"
  proof -
    have "queue_len q = 0" using that length_queue_list [of q] by simp
    then show ?thesis using wf by (simp add: lfq_deq_def QueueSingleConsumerDequeue_wf)
  qed
qed

lemma QueueCountGet_wf:
  assumes "queue_wf q"
  shows "QueueCountGet (Some q) (Some c) = (0, Some (of_nat (length (queue_list q))))"
proof -
  obtain k where k: "queue_cap q = 2 ^ k - 1"
    and mk: "\<And>x. unat (x AND qe_mask (q_producer q)) = unat x mod 2 ^ k"
    using queue_wf_pow2 [OF assms] by metis
  have "queue_len q < 2 ^ k"
    using assms k by (simp add: queue_wf_def less_eq_iff_succ_less le_less_trans)
  then have "unat ((qe_tail (q_producer q) - qe_tail (q_consumer q)) AND qe_mask (q_producer q))
    = unat (of_nat (queue_len q) :: u32)"
    using queue_len_bound [of q] by (simp add: mk queue_len_def)
  then show ?thesis
    by (simp add: QueueCountGet_def Let_def unsigned_word_eqI)
qed

section \<open>Properties\<close>

text \<open>
  C4: Any sequence of multi-producer enqueue and single-consumer dequeue calls on a well-formed ring
  queue, whatever the values of its free-running 32-bit counters, touches only allocated slots,
  returns from every call, and answers exactly as a first-in first-out list of \<open>unitNum - 1\<close> places:
  an element is refused with \<open>QUEUE_FULL\<close> only when that many are queued, and elements come out in
  the order in which they went in.
\<close>

theorem queue_refines_fifo:
  assumes "queue_wf q"
  shows "\<exists>q'. run_fifo lfq_enq lfq_deq q ops =
       Some (q', snd (fifo_spec (unat (q_unitNum q) - 1) (queue_list q) ops)) \<and>
     queue_wf q' \<and> queue_list q' = fst (fifo_spec (unat (q_unitNum q) - 1) (queue_list q) ops)"
  using lfq.run_refines [OF assms, of ops] by (simp add: queue_cap_def)

definition wrap_queue :: "nat LockFreeQueue" where
  "wrap_queue =
     \<lparr>q_magic = QUEUE_HEADER_MAGIC, q_unitNum = 4,
      q_producer = \<lparr>qe_size = 4, qe_mask = 3, qe_head = 0, qe_tail = 0\<rparr>,
      q_consumer = \<lparr>qe_size = 4, qe_mask = 3, qe_head = 0xFFFFFFFF, qe_tail = 0xFFFFFFFF\<rparr>,
      q_nodes = [None, None, None, Some 7]\<rparr>"

lemma wrap_queue_wf:
  "queue_wf wrap_queue" "queue_list wrap_queue = [7]" "unat (q_unitNum wrap_queue) - 1 = 3"
  by (simp_all add: wrap_queue_def queue_wf_def queue_len_def queue_cap_def queue_list_def
      ring_slot_def IS_POWER_OF_2_def)

theorem queue_refines_fifo_witness:
  "\<exists>q'. run_fifo lfq_enq lfq_deq wrap_queue [Enq 1, Enq 2, Enq 3, Deq, Deq] =
     Some (q', [EnqRet 0, EnqRet 0, EnqRet QUEUE_FULL, DeqRet 0 (Some 7), DeqRet 0 (Some 1)]) \<and>
   queue_list q' = [2]"
proof -
  have "fifo_spec 3 [7] [Enq 1, Enq 2, Enq 3, Deq, Deq] =
    ([2], [EnqRet 0, EnqRet 0, EnqRet QUEUE_FULL, DeqRet 0 (Some 7), DeqRet 0 (Some (1 :: nat))])"
    by simp
  with queue_refines_fifo [OF wrap_queue_wf(1), of "[Enq 1, Enq 2, Enq 3, Deq, Deq]"]
  show ?thesis unfolding wrap_queue_wf by auto
qed

text \<open>
  \<open>CreateQueue\<close> with a power of two between 1 and 8192 and memory available returns a well-formed
  empty queue of \<open>unitNum - 1\<close> places: the block whose size \<open>QueueSizeCalc\<close> computes has room for
  the header and for all \<open>unitNum\<close> slots.
\<close>

theorem CreateQueue_correct:
  assumes "IS_POWER_OF_2 unitNum" "unitNum \<noteq> 0" "unitNum \<le> 8192"
  shows "\<exists>q :: 'a LockFreeQueue. CreateQueue True unitNum = Some q \<and> queue_wf q \<and>
     queue_list q = [] \<and> queue_cap q = unat unitNum - 1 \<and> QueueCountGet (Some q) (Some c) = (0, Some 0) \<and>
     QueueIsEmpty (Some q) = 0"
proof -
  obtain q :: "'a LockFreeQueue" where q: "CreateQueue True unitNum = Some q" "queue_wf q"
    "queue_list q = []" "queue_cap q = unat unitNum - 1"
    using CreateQueue_wf [OF assms] by blast
  have c: "QueueCountGet (Some q) (Some c) = (0, Some 0)"
    using QueueCountGet_wf [OF q(2)] q(3) by simp
  then have "QueueIsEmpty (Some q) = 0"
    by (simp add: QueueCountGet_def QueueIsEmpty_def Let_def)
  with q c show ?thesis by blast
qed

theorem CreateQueue_correct_witness:
  "IS_POWER_OF_2 32 \<and> (\<exists>q :: nat LockFreeQueue. CreateQueue True 32 = Some q \<and> queue_wf q \<and>
     queue_list q = [] \<and> queue_cap q = 31)"
proof -
  have p: "IS_POWER_OF_2 32" by (simp add: IS_POWER_OF_2_def)
  show ?thesis using p CreateQueue_correct [OF p, where ?'a = nat] by auto
qed

text \<open>
  When no other thread is working on the queue, the multi-producer and multi-consumer routines,
  with their compare-and-swap loops and their waiting for the tail, return and leave exactly the
  result of the single-producer and single-consumer routines.
\<close>

theorem multi_equals_single:
  assumes "queue_wf q"
  shows "QueueMultiProducerEnqueue (Some q) node = QueueSingleProducerEnqueue (Some q) node \<and>
     QueueMultiConsumerDequeue (Some q) out = QueueSingleConsumerDequeue (Some q) out \<and>
     QueueMultiProducerEnqueue (Some q) node \<noteq> None \<and>
     QueueMultiConsumerDequeue (Some q) out \<noteq> None"
proof (intro conjI)
  show "QueueMultiProducerEnqueue (Some q) node = QueueSingleProducerEnqueue (Some q) node"
    by (cases node) (simp_all add: QueueMultiProducerEnqueue_wf [OF assms]
        QueueSingleProducerEnqueue_wf [OF assms], simp add: QueueMultiProducerEnqueue_def
        QueueSingleProducerEnqueue_def)
  show "QueueMultiConsumerDequeue (Some q) out = QueueSingleConsumerDequeue (Some q) out"
    by (cases out) (simp_all add: QueueMultiConsumerDequeue_wf [OF assms]
        QueueSingleConsumerDequeue_wf [OF assms], simp add: QueueMultiConsumerDequeue_def
        QueueSingleConsumerDequeue_def)
  show "QueueMultiProducerEnqueue (Some q) node \<noteq> None"
    by (cases node) (simp_all add: QueueMultiProducerEnqueue_wf [OF assms],
        simp add: QueueMultiProducerEnqueue_def)
  show "QueueMultiConsumerDequeue (Some q) out \<noteq> None"
    by (cases out) (simp_all add: QueueMultiConsumerDequeue_wf [OF assms],
        simp add: QueueMultiConsumerDequeue_def)
qed

theorem multi_equals_single_witness:
  "QueueMultiProducerEnqueue (Some wrap_queue) (Some 5) =
     QueueSingleProducerEnqueue (Some wrap_queue) (Some 5) \<and>
   QueueMultiConsumerDequeue (Some wrap_queue) (Some None) =
     QueueSingleConsumerDequeue (Some wrap_queue) (Some None) \<and>
   QueueSingleConsumerDequeue (Some wrap_queue) (Some None) =
     Some (0, Some (deq_state wrap_queue), Some (Some 7))"
  using multi_equals_single [OF wrap_queue_wf(1)]
  by (simp add: QueueSingleConsumerDequeue_wf [OF wrap_queue_wf(1)] wrap_queue_wf(2))
    (simp add: wrap_queue_def queue_len_def)

text \<open>
  The guard \<open>IS_POWER_OF_2\<close> lets zero through: the queue it creates then has no slot and an
  all-ones mask, and its first enqueue writes outside the allocation.
\<close>

lemma CreateQueue_zero:
  "\<exists>q :: 'a LockFreeQueue. CreateQueue True 0 = Some q \<and>
     QueueSingleProducerEnqueue (Some q) (Some x) = None"
  by (simp add: CreateQueue_def IS_POWER_OF_2_def QueueSizeCalc_def sizeof_LockFreeQueue_def
      QueueInit_def calloc_queue_def QueueSingleProducerEnqueue_def put_node_def Let_def)

end
