(* ===== verification/Sequence_Verification.thy ===== *)
theory Sequence_Verification
  imports Softbus_Prelude
begin

text \<open>
  The replay window of \<^verbatim>\<open>core/common/security/sequence_verification/softbus_sequence_verification.c\<close>.
  Sequence numbers are 32-bit two's complement values that \<open>flip\<close> from the largest positive to the
  smallest negative number, so they are \<open>32 word\<close>s compared with the signed order; the C arithmetic
  on them is read as wrapping. The routines are translated one by one; \<open>window_check\<close> is the reference
  definition (a window of offsets from the smallest missing number) they are proved equal to.
  A shift of a 64-bit value by 64 or more has no defined result (\<^const>\<open>None\<close>).
\<close>

section \<open>Model\<close>

abbreviation (input) MAX_SEQ_BIAS :: u32 where "MAX_SEQ_BIAS \<equiv> 60"

record SeqVerifyInfo =
  maxSeq :: u32
  minSeq :: u32
  recvBitmap :: u64

definition IsDifferentSign :: "u32 \<Rightarrow> u32 \<Rightarrow> bool" where
  "IsDifferentSign seqA seqB \<longleftrightarrow>
     \<not> ((0 \<le>s seqA \<and> 0 \<le>s seqB) \<or> (seqA <s 0 \<and> seqB <s 0))"

text \<open>
  The masked bit is stored in an \<open>int32_t\<close> before it is tested, which keeps its low 32 bits.
\<close>

definition IsPassDuplicateCheck :: "SeqVerifyInfo \<Rightarrow> u32 \<Rightarrow> (bool \<times> SeqVerifyInfo) option" where
  "IsPassDuplicateCheck info recvSeq =
     (let offset = unat (maxSeq info - recvSeq)
      in if 64 \<le> offset then None
         else
           let isRepeat = (ucast (recvBitmap info AND push_bit offset 1) :: u32)
           in if isRepeat \<noteq> 0 then Some (False, info)
              else Some (True, info\<lparr>recvBitmap := recvBitmap info OR push_bit offset 1\<rparr>))"

definition IsPassOverMaxCheck :: "SeqVerifyInfo \<Rightarrow> u32 \<Rightarrow> (bool \<times> SeqVerifyInfo) option" where
  "IsPassOverMaxCheck info recvSeq =
     (if recvSeq - maxSeq info <s 0 then Some (False, info)
      else if MAX_SEQ_BIAS \<le>s recvSeq - minSeq info then Some (False, info)
      else
        let seqOffset = unat (recvSeq - maxSeq info + 1)
        in if 64 \<le> seqOffset then None
           else Some (True, info\<lparr>maxSeq := recvSeq + 1,
                  recvBitmap := push_bit seqOffset (recvBitmap info) OR push_bit 1 1\<rparr>))"

definition IsPassAllRangeCheck :: "SeqVerifyInfo \<Rightarrow> u32 \<Rightarrow> (bool \<times> SeqVerifyInfo) option" where
  "IsPassAllRangeCheck info recvSeq =
     (if recvSeq = minSeq info then Some (True, info\<lparr>minSeq := recvSeq + 1\<rparr>)
      else if minSeq info <s recvSeq then
        (if recvSeq <s maxSeq info then IsPassDuplicateCheck info recvSeq
         else IsPassOverMaxCheck info recvSeq)
      else Some (False, info))"

definition IsPassNormalCheck :: "SeqVerifyInfo \<Rightarrow> u32 \<Rightarrow> (bool \<times> SeqVerifyInfo) option" where
  "IsPassNormalCheck info recvSeq =
     (if recvSeq = minSeq info
      then Some (True, info\<lparr>minSeq := recvSeq + 1, maxSeq := recvSeq + 1\<rparr>)
      else if \<not> IsDifferentSign recvSeq (minSeq info) then
        (if maxSeq info <s recvSeq then IsPassOverMaxCheck info recvSeq else Some (False, info))
      else IsPassOverMaxCheck info recvSeq)"

definition IsPassNoflipDisorderCheck :: "SeqVerifyInfo \<Rightarrow> u32 \<Rightarrow> (bool \<times> SeqVerifyInfo) option" where
  "IsPassNoflipDisorderCheck info recvSeq =
     (if 0 \<le>s minSeq info then
        (if 0 \<le>s recvSeq then IsPassAllRangeCheck info recvSeq
         else IsPassOverMaxCheck info recvSeq)
      else if maxSeq info <s 0 then
        (if recvSeq <s 0 then IsPassAllRangeCheck info recvSeq
         else IsPassOverMaxCheck info recvSeq)
      else Some (False, info))"

definition IsPassFlipPositiveCheck :: "SeqVerifyInfo \<Rightarrow> u32 \<Rightarrow> (bool \<times> SeqVerifyInfo) option" where
  "IsPassFlipPositiveCheck info recvSeq =
     (if 0 \<le>s recvSeq then
        (if recvSeq <s maxSeq info then IsPassDuplicateCheck info recvSeq
         else IsPassOverMaxCheck info recvSeq)
      else if recvSeq <s 0 then
        (if recvSeq = minSeq info then Some (True, info\<lparr>minSeq := recvSeq + 1\<rparr>)
         else if minSeq info <s recvSeq then IsPassDuplicateCheck info recvSeq
         else Some (False, info))
      else Some (False, info))"

definition IsPassFlipNegativeCheck :: "SeqVerifyInfo \<Rightarrow> u32 \<Rightarrow> (bool \<times> SeqVerifyInfo) option" where
  "IsPassFlipNegativeCheck info recvSeq =
     (if 0 \<le>s recvSeq then
        (if recvSeq = minSeq info then Some (True, info\<lparr>minSeq := recvSeq + 1\<rparr>)
         else if minSeq info <s recvSeq then IsPassDuplicateCheck info recvSeq
         else Some (False, info))
      else if recvSeq <s 0 then
        (if recvSeq <s maxSeq info then IsPassDuplicateCheck info recvSeq
         else IsPassOverMaxCheck info recvSeq)
      else Some (False, info))"

definition IsPassSeqCheck ::
  "SeqVerifyInfo option \<Rightarrow> u32 \<Rightarrow> (bool \<times> SeqVerifyInfo option) option" where
  "IsPassSeqCheck seqVerifyInfo recvSeq =
     (case seqVerifyInfo of
        None \<Rightarrow> Some (False, None)
      | Some info \<Rightarrow>
          map_option (\<lambda>(pass, info'). (pass, Some info'))
            (let isDifferentSign = IsDifferentSign (minSeq info) (maxSeq info)
             in if minSeq info = maxSeq info then IsPassNormalCheck info recvSeq
                else if minSeq info <s maxSeq info \<and> \<not> isDifferentSign
                  then IsPassNoflipDisorderCheck info recvSeq
                else if maxSeq info <s minSeq info \<and> isDifferentSign
                  then IsPassFlipNegativeCheck info recvSeq
                else if minSeq info <s maxSeq info \<and> isDifferentSign
                  then IsPassFlipPositiveCheck info recvSeq
                else Some (False, info)))"

section \<open>The window as offsets\<close>

text \<open>
  \<open>win_size\<close> is how far the largest number accepted reaches beyond the smallest number still
  missing, and \<open>win_off\<close> the distance of a received number from the latter, both modulo \<open>2^32\<close>.
\<close>

definition win_size :: "SeqVerifyInfo \<Rightarrow> nat" where
  "win_size info = unat (maxSeq info - minSeq info)"

definition win_off :: "SeqVerifyInfo \<Rightarrow> u32 \<Rightarrow> nat" where
  "win_off info s = unat (s - minSeq info)"

definition seq_wf :: "SeqVerifyInfo \<Rightarrow> bool" where
  "seq_wf info \<longleftrightarrow> win_size info \<le> 60"

text \<open>
  The reference definition. An offset of zero moves the window, an offset inside the window is
  checked against the bitmap, an offset up to 59 beyond it extends the window, everything else is
  refused, except that offsets just past \<open>2^31\<close> with the other sign shift the bitmap by an
  undefined amount when the window is not empty.
\<close>

definition window_check :: "SeqVerifyInfo \<Rightarrow> u32 \<Rightarrow> (bool \<times> SeqVerifyInfo) option" where
  "window_check info s =
     (let d = win_size info; r = win_off info s
      in if r = 0 then
           Some (True, if d = 0 then info\<lparr>minSeq := s + 1, maxSeq := s + 1\<rparr>
                       else info\<lparr>minSeq := s + 1\<rparr>)
         else if r < d then
           (if bit (recvBitmap info) (d - r) \<and> d - r < 32 then Some (False, info)
            else Some (True, info\<lparr>recvBitmap := set_bit (d - r) (recvBitmap info)\<rparr>))
         else if r < 60 then
           Some (True, info\<lparr>maxSeq := s + 1,
             recvBitmap := set_bit 1 (push_bit (Suc (r - d)) (recvBitmap info))\<rparr>)
         else if 2 ^ 31 \<le> r \<and> r < 2 ^ 31 + d \<and> IsDifferentSign s (minSeq info) then None
         else Some (False, info))"

section \<open>The routines agree with the reference definition\<close>

definition twos :: "nat \<Rightarrow> int" where
  "twos n = (if n < 2 ^ 31 then int n else int n - 2 ^ 32)"

lemma twos_of_int: "(if int n < 2 ^ 31 then int n else int n - 2 ^ 32) = twos n"
  by (auto simp: twos_def)

lemma sint_twos: "sint (x :: u32) = twos (unat x)"
proof -
  have u: "0 \<le> uint x" "uint x < 2 ^ 32" using uint_bounded [of x] by simp_all
  have "sint x = signed_take_bit 31 (uint x)"
    by (simp add: sint_uint)
  also have "\<dots> = (if uint x < 2 ^ 31 then uint x else uint x - 2 ^ 32)"
  proof (cases "uint x < 2 ^ 31")
    case True
    moreover have "- (2 ^ 31) \<le> uint x" by (rule order_trans [OF _ u(1)]) simp
    ultimately show ?thesis by (simp add: signed_take_bit_int_eq_self)
  next
    case False
    have "signed_take_bit 31 (uint x) = signed_take_bit 31 (uint x - 2 ^ 32)"
      by (simp add: signed_take_bit_eq_iff_take_bit_eq take_bit_eq_mod mod_diff_eq)
    also have "\<dots> = uint x - 2 ^ 32"
      using u False by (subst signed_take_bit_int_eq_self) auto
    finally show ?thesis using False by simp
  qed
  finally have "sint x = (if uint x < 2 ^ 31 then uint x else uint x - 2 ^ 32)" .
  then show ?thesis unfolding uint_nat by (simp only: twos_of_int)
qed

lemma twos_less:
  "a < 2 ^ 32 \<Longrightarrow> b < 2 ^ 32 \<Longrightarrow> twos a < twos b \<longleftrightarrow>
     (if a < 2 ^ 31 then b < 2 ^ 31 \<and> a < b else b < 2 ^ 31 \<or> a < b)"
  by (auto simp: twos_def)

lemma sless_unat:
  "(x :: u32) <s y \<longleftrightarrow>
     (if unat x < 2 ^ 31 then unat y < 2 ^ 31 \<and> unat x < unat y
      else unat y < 2 ^ 31 \<or> unat x < unat y)"
  unfolding word_sless_alt sint_twos by (rule twos_less) simp_all

lemma sle_unat: "(x :: u32) \<le>s y \<longleftrightarrow> \<not> y <s x"
  by (auto simp: word_sless_alt word_sle_eq)

lemma unat_diff32:
  "unat (x - y :: u32) = (if unat y \<le> unat x then unat x - unat y else unat x + 2 ^ 32 - unat y)"
  by (simp add: unat_sub_if')

lemma win_off_max:
  "unat (maxSeq info - s) = (if win_off info s \<le> win_size info then win_size info - win_off info s
     else win_size info + 2 ^ 32 - win_off info s)"
proof -
  have "maxSeq info - s = (maxSeq info - minSeq info) - (s - minSeq info)" by simp
  then show ?thesis
    by (simp only: unat_diff32 [of "maxSeq info - minSeq info"] win_size_def win_off_def)
qed

lemma win_off_over:
  "unat (s - maxSeq info) = (if win_size info \<le> win_off info s then win_off info s - win_size info
     else win_off info s + 2 ^ 32 - win_size info)"
proof -
  have "s - maxSeq info = (s - minSeq info) - (maxSeq info - minSeq info)" by simp
  then show ?thesis
    by (simp only: unat_diff32 [of "s - minSeq info"] win_size_def win_off_def)
qed

lemma win_off_bound: "win_off info s < 4294967296"
  by (simp add: win_off_def)

lemma ucast_and_bit:
  assumes "n < 64"
  shows "(ucast (b AND 2 ^ n :: u64) :: u32) = 0 \<longleftrightarrow> \<not> (bit b n \<and> n < 32)"
proof -
  have bits: "bit (ucast (b AND 2 ^ n :: u64) :: u32) k \<longleftrightarrow> k < 32 \<and> k = n \<and> bit b n" for k
    using assms by (auto simp: bit_unsigned_iff bit_and_iff bit_exp_iff)
  show ?thesis
  proof
    assume "(ucast (b AND 2 ^ n :: u64) :: u32) = 0"
    then show "\<not> (bit b n \<and> n < 32)" using bits [of n] by auto
  next
    assume "\<not> (bit b n \<and> n < 32)"
    then show "(ucast (b AND 2 ^ n :: u64) :: u32) = 0"
      by (intro bit_word_eqI) (auto simp: bits)
  qed
qed

lemma IsPassDuplicateCheck_window:
  assumes "seq_wf info" "0 < win_off info s" "win_off info s < win_size info"
  shows "IsPassDuplicateCheck info s = window_check info s"
proof -
  have "unat (maxSeq info - s) = win_size info - win_off info s"
    using assms(3) by (simp add: win_off_max)
  moreover have "win_size info - win_off info s < 64" using assms(1) by (simp add: seq_wf_def)
  ultimately show ?thesis
    using assms
    by (simp add: IsPassDuplicateCheck_def window_check_def Let_def ucast_and_bit set_bit_eq_or)
qed

lemma IsPassOverMaxCheck_window:
  assumes "seq_wf info" "win_size info \<le> win_off info s" "win_off info s \<noteq> 0"
  shows "IsPassOverMaxCheck info s =
     (if 2 ^ 31 \<le> win_off info s \<and> win_off info s < 2 ^ 31 + win_size info then None
      else window_check info s)"
proof -
  let ?d = "win_size info" and ?r = "win_off info s"
  have d: "?d \<le> 60" using assms(1) by (simp add: seq_wf_def)
  have over: "unat (s - maxSeq info) = ?r - ?d" using assms(2) by (simp add: win_off_over)
  have neg: "s - maxSeq info <s 0 \<longleftrightarrow> 2 ^ 31 + ?d \<le> ?r"
    using assms(2) by (auto simp: sless_unat over)
  have bias: "60 \<le>s s - minSeq info \<longleftrightarrow> 60 \<le> ?r \<and> ?r < 2 ^ 31"
    by (auto simp: sle_unat sless_unat win_off_def)
  have off: "unat (s - maxSeq info + 1) = Suc (?r - ?d)" if "?r < 2 ^ 31 + ?d"
  proof -
    have "unat (s - maxSeq info) < 2 ^ 31" using that by (simp add: over)
    then show ?thesis using over by (simp add: unat_word_ariths)
  qed
  consider (small) "?r < 60" | (mid) "60 \<le> ?r" "?r < 2 ^ 31"
    | (wrap) "2 ^ 31 \<le> ?r" "?r < 2 ^ 31 + ?d" | (behind) "2 ^ 31 + ?d \<le> ?r"
    by linarith
  then show ?thesis
  proof cases
    case small
    then have "unat (s - maxSeq info + 1) = Suc (?r - ?d)" "Suc (?r - ?d) < 64"
      using off by auto
    moreover have "\<not> s - maxSeq info <s 0" "\<not> 60 \<le>s s - minSeq info"
      using small unfolding neg bias by auto
    ultimately show ?thesis
      using small assms(2,3) by (simp add: IsPassOverMaxCheck_def window_check_def Let_def
          set_bit_eq_or)
  next
    case mid
    then have "\<not> s - maxSeq info <s 0" "60 \<le>s s - minSeq info"
      unfolding neg bias by auto
    then show ?thesis
      using mid assms(2,3) d by (simp add: IsPassOverMaxCheck_def window_check_def Let_def)
  next
    case wrap
    then have "64 \<le> unat (s - maxSeq info + 1)"
      using d off by auto
    moreover have "\<not> s - maxSeq info <s 0" "\<not> 60 \<le>s s - minSeq info"
      using wrap unfolding neg bias by auto
    ultimately show ?thesis
      using wrap by (simp add: IsPassOverMaxCheck_def Let_def)
  next
    case behind
    then have "s - maxSeq info <s 0" unfolding neg by simp
    then show ?thesis
      using behind assms(2,3) d by (simp add: IsPassOverMaxCheck_def window_check_def Let_def)
  qed
qed

lemma sign_unat:
  "(x :: u32) <s 0 \<longleftrightarrow> 2 ^ 31 \<le> unat x" "0 \<le>s x \<longleftrightarrow> unat x < 2 ^ 31"
  by (auto simp: sle_unat sless_unat)

lemma IsDifferentSign_unat:
  "IsDifferentSign a b \<longleftrightarrow> (unat a < 2 ^ 31) \<noteq> (unat b < 2 ^ 31)"
  by (auto simp: IsDifferentSign_def sign_unat)

lemma window_check_behind:
  assumes "win_size info \<le> win_off info s" "60 \<le> win_off info s" "\<not> IsDifferentSign s (minSeq info)"
  shows "window_check info s = Some (False, info)"
  using assms by (simp add: window_check_def Let_def)

lemma same_sign_behind:
  assumes "\<not> IsDifferentSign s (minSeq info)" "s <s minSeq info" "seq_wf info"
  shows "window_check info s = Some (False, info)"
proof -
  have "2 ^ 31 < win_off info s"
    using assms(1,2)
    by (auto simp: win_off_def IsDifferentSign_unat sless_unat unat_diff32 split: if_splits)
      (use unat_lt32 [of "minSeq info"] in linarith)
  then have "60 \<le> win_off info s" "win_size info \<le> win_off info s"
    using assms(3) by (auto simp: seq_wf_def)
  then show ?thesis using assms(1) by (intro window_check_behind)
qed

lemma same_sign_ahead:
  assumes "\<not> IsDifferentSign s (minSeq info)" "minSeq info <s s"
  shows "0 < win_off info s" "win_off info s < 2 ^ 31"
  using assms
  by (auto simp: win_off_def IsDifferentSign_unat sless_unat unat_diff32 split: if_splits)
    (use unat_lt32 [of s] in linarith)

lemma IsPassOverMaxCheck_near:
  assumes "seq_wf info" "win_size info \<le> win_off info s" "0 < win_off info s"
    "win_off info s < 2 ^ 31"
  shows "IsPassOverMaxCheck info s = window_check info s"
  using assms by (simp add: IsPassOverMaxCheck_window)

lemma IsPassOverMaxCheck_sign:
  assumes "seq_wf info" "win_size info \<le> win_off info s" "IsDifferentSign s (minSeq info)"
  shows "IsPassOverMaxCheck info s = window_check info s"
proof -
  have r: "0 < win_off info s"
    using assms(3)
    by (auto simp: win_off_def IsDifferentSign_unat unat_diff32)
      (use unat_lt32 [of "minSeq info"] in linarith)
  then show ?thesis
    using assms by (auto simp: IsPassOverMaxCheck_window window_check_def Let_def seq_wf_def)
qed

lemma IsPassAllRangeCheck_window:
  assumes "seq_wf info" "win_size info \<noteq> 0" "\<not> IsDifferentSign s (minSeq info)"
    "\<not> IsDifferentSign (maxSeq info) (minSeq info)" "minSeq info <s maxSeq info"
  shows "IsPassAllRangeCheck info s = window_check info s"
proof -
  consider (eq) "s = minSeq info" | (gt) "minSeq info <s s" | (lt) "s <s minSeq info"
    using word_sless_alt by (metis linorder_less_linear signed_word_eqI)
  then show ?thesis
  proof cases
    case eq
    then show ?thesis using assms(2)
      by (simp add: IsPassAllRangeCheck_def window_check_def Let_def win_off_def)
  next
    case gt
    note r = same_sign_ahead [OF assms(3) gt]
    have "s <s maxSeq info \<longleftrightarrow> win_off info s < win_size info"
      using gt assms(3,4,5)
      by (auto simp: win_off_def win_size_def unat_diff32 sless_unat IsDifferentSign_unat)
    then show ?thesis
      using gt r assms(1) IsPassDuplicateCheck_window [of info s] IsPassOverMaxCheck_near [of info s]
      by (auto simp: IsPassAllRangeCheck_def)
  next
    case lt
    then have "s \<noteq> minSeq info" "\<not> minSeq info <s s" by (auto simp: sless_unat split: if_splits)
    then show ?thesis
      using same_sign_behind [OF assms(3) lt assms(1)] by (simp add: IsPassAllRangeCheck_def)
  qed
qed

lemma IsPassNormalCheck_window:
  assumes "win_size info = 0"
  shows "IsPassNormalCheck info s = window_check info s"
proof -
  have wf: "seq_wf info" and eq: "maxSeq info = minSeq info"
    using assms by (auto simp: seq_wf_def win_size_def unat_eq_0)
  show ?thesis
  proof (cases "s = minSeq info")
    case True
    then show ?thesis using assms
      by (simp add: IsPassNormalCheck_def window_check_def Let_def win_off_def)
  next
    case False
    then have r: "0 < win_off info s" by (simp add: win_off_def unat_gt_0)
    have over: "IsPassOverMaxCheck info s = window_check info s"
      using wf r assms by (auto simp: IsPassOverMaxCheck_window)
    have "window_check info s = Some (False, info)"
      if "\<not> IsDifferentSign s (minSeq info)" "\<not> maxSeq info <s s"
    proof -
      have "s <s minSeq info" using that(2) False eq
        by (metis linorder_less_linear signed_word_eqI word_sless_alt)
      then show ?thesis using same_sign_behind that(1) wf by simp
    qed
    then show ?thesis using False over by (simp add: IsPassNormalCheck_def)
  qed
qed

lemma IsPassNoflipDisorderCheck_window:
  assumes "seq_wf info" "win_size info \<noteq> 0" "\<not> IsDifferentSign (minSeq info) (maxSeq info)"
    "minSeq info <s maxSeq info"
  shows "IsPassNoflipDisorderCheck info s = window_check info s"
proof (cases "IsDifferentSign s (minSeq info)")
  case True
  have "win_size info \<le> win_off info s"
    using True assms(3,4)
    by (auto simp: win_size_def win_off_def unat_diff32 IsDifferentSign_unat sless_unat
        split: if_splits)
      (use unat_lt32 [of "maxSeq info"] in linarith)
  then have "IsPassOverMaxCheck info s = window_check info s"
    using IsPassOverMaxCheck_sign assms(1) True by blast
  then show ?thesis
    using True assms(3)
    by (auto simp: IsPassNoflipDisorderCheck_def sign_unat IsDifferentSign_unat)
next
  case False
  have "IsPassAllRangeCheck info s = window_check info s"
    using assms False by (intro IsPassAllRangeCheck_window) (auto simp: IsDifferentSign_unat)
  then show ?thesis
    using False assms(3)
    by (auto simp: IsPassNoflipDisorderCheck_def sign_unat IsDifferentSign_unat)
qed

lemma flip_min_side:
  assumes "seq_wf info" "IsDifferentSign (minSeq info) (maxSeq info)"
    "\<not> IsDifferentSign s (minSeq info)"
  shows "(if s = minSeq info then Some (True, info\<lparr>minSeq := s + 1\<rparr>)
          else if minSeq info <s s then IsPassDuplicateCheck info s
          else Some (False, info)) = window_check info s"
proof -
  have d: "win_size info \<noteq> 0"
    using assms(2) by (auto simp: win_size_def unat_eq_0 IsDifferentSign_unat)
  consider (eq) "s = minSeq info" | (gt) "minSeq info <s s" | (lt) "s <s minSeq info"
    by (metis linorder_less_linear signed_word_eqI word_sless_alt)
  then show ?thesis
  proof cases
    case eq
    then show ?thesis using d by (simp add: window_check_def Let_def win_off_def)
  next
    case gt
    have "win_off info s < win_size info"
      using gt assms
      by (auto simp: win_off_def win_size_def unat_diff32 sless_unat IsDifferentSign_unat seq_wf_def
          split: if_splits)
        (use unat_lt32 [of s] in linarith)
    then show ?thesis
      using gt same_sign_ahead(1) [OF assms(3) gt] IsPassDuplicateCheck_window assms(1)
      by (auto simp: sless_unat)
  next
    case lt
    then have "s \<noteq> minSeq info" "\<not> minSeq info <s s" by (auto simp: sless_unat split: if_splits)
    then show ?thesis using same_sign_behind [OF assms(3) lt assms(1)] by simp
  qed
qed

lemma flip_max_side:
  assumes "seq_wf info" "IsDifferentSign (minSeq info) (maxSeq info)"
    "IsDifferentSign s (minSeq info)"
  shows "(if s <s maxSeq info then IsPassDuplicateCheck info s else IsPassOverMaxCheck info s) =
         window_check info s"
proof -
  have "s <s maxSeq info \<longleftrightarrow> win_off info s < win_size info"
    using assms
    by (auto simp: win_off_def win_size_def unat_diff32 sless_unat IsDifferentSign_unat seq_wf_def
        split: if_splits)
      (use unat_lt32 [of "minSeq info"] in linarith)
  moreover have "0 < win_off info s"
    using assms(3) by (auto simp: win_off_def unat_gt_0 IsDifferentSign_unat)
  ultimately show ?thesis
    using assms IsPassDuplicateCheck_window [of info s] IsPassOverMaxCheck_sign [of info s] by auto
qed

lemma IsPassFlipCheck_window:
  assumes "seq_wf info" "IsDifferentSign (minSeq info) (maxSeq info)"
  shows "maxSeq info <s minSeq info \<Longrightarrow> IsPassFlipNegativeCheck info s = window_check info s"
    and "minSeq info <s maxSeq info \<Longrightarrow> IsPassFlipPositiveCheck info s = window_check info s"
proof -
  assume "maxSeq info <s minSeq info"
  then show "IsPassFlipNegativeCheck info s = window_check info s"
    using assms flip_min_side [of info s] flip_max_side [of info s]
    by (cases "IsDifferentSign s (minSeq info)")
      (auto simp: IsPassFlipNegativeCheck_def IsDifferentSign_unat sign_unat sless_unat)
next
  assume "minSeq info <s maxSeq info"
  then show "IsPassFlipPositiveCheck info s = window_check info s"
    using assms flip_min_side [of info s] flip_max_side [of info s]
    by (cases "IsDifferentSign s (minSeq info)")
      (auto simp: IsPassFlipPositiveCheck_def IsDifferentSign_unat sign_unat sless_unat)
qed

lemma seq_check_window:
  assumes "seq_wf info"
  shows "IsPassSeqCheck (Some info) s =
     map_option (\<lambda>(pass, info'). (pass, Some info')) (window_check info s)"
proof -
  consider (same) "minSeq info = maxSeq info"
    | (noflip) "minSeq info <s maxSeq info" "\<not> IsDifferentSign (minSeq info) (maxSeq info)"
    | (neg) "maxSeq info <s minSeq info" "IsDifferentSign (minSeq info) (maxSeq info)"
    | (pos) "minSeq info <s maxSeq info" "IsDifferentSign (minSeq info) (maxSeq info)"
    | (never) "maxSeq info <s minSeq info" "\<not> IsDifferentSign (minSeq info) (maxSeq info)"
    by (metis linorder_less_linear signed_word_eqI word_sless_alt)
  then show ?thesis
  proof cases
    case same
    then show ?thesis
      using IsPassNormalCheck_window [of info s] by (simp add: IsPassSeqCheck_def win_size_def)
  next
    case noflip
    then have "minSeq info \<noteq> maxSeq info" "win_size info \<noteq> 0"
      by (auto simp: sless_unat win_size_def unat_eq_0 split: if_splits)
    then show ?thesis
      using noflip IsPassNoflipDisorderCheck_window [of info s] assms
      by (simp add: IsPassSeqCheck_def)
  next
    case neg
    then have "minSeq info \<noteq> maxSeq info" by (auto simp: sless_unat split: if_splits)
    then show ?thesis
      using neg IsPassFlipCheck_window(1) [of info s] assms by (simp add: IsPassSeqCheck_def)
  next
    case pos
    then have "minSeq info \<noteq> maxSeq info" "\<not> maxSeq info <s minSeq info"
      by (auto simp: sless_unat split: if_splits)
    then show ?thesis
      using pos IsPassFlipCheck_window(2) [of info s] assms by (simp add: IsPassSeqCheck_def)
  next
    case never
    then have "60 < win_size info"
      by (auto simp: win_size_def unat_diff32 sless_unat IsDifferentSign_unat split: if_splits)
        (use unat_lt32 [of "minSeq info"] in linarith)
    then show ?thesis using assms by (simp add: seq_wf_def)
  qed
qed

section \<open>Streams of sequence numbers\<close>

text \<open>
  \<open>recv_seqs\<close> checks the numbers of a stream one after the other, as a session does with the packets
  it receives, and collects the verdicts.
\<close>

fun recv_seqs :: "SeqVerifyInfo \<Rightarrow> u32 list \<Rightarrow> (bool list \<times> SeqVerifyInfo) option" where
  "recv_seqs info [] = Some ([], info)"
| "recv_seqs info (s # ss) =
     (case IsPassSeqCheck (Some info) s of
        Some (pass, Some info') \<Rightarrow> map_option (\<lambda>(ps, i). (pass # ps, i)) (recv_seqs info' ss)
      | _ \<Rightarrow> None)"

definition recorded :: "SeqVerifyInfo \<Rightarrow> u32 \<Rightarrow> bool" where
  "recorded info x \<longleftrightarrow> 0 < win_off info x \<and> win_off info x < win_size info \<and>
     bit (recvBitmap info) (win_size info - win_off info x)"

lemma recv_seqs_Cons:
  "seq_wf info \<Longrightarrow> recv_seqs info (s # ss) =
     (case window_check info s of None \<Rightarrow> None
      | Some (pass, info') \<Rightarrow> map_option (\<lambda>(ps, i). (pass # ps, i)) (recv_seqs info' ss))"
  by (simp add: seq_check_window split: option.splits)

text \<open>What an accepted number does to the offsets of the window and of the other numbers.\<close>

lemma unat_diff_Suc:
  assumes "x \<noteq> m"
  shows "unat (x - (m + 1) :: u32) = unat (x - m) - 1"
proof -
  have "x - (m + 1) = (x - m) - 1" by simp
  moreover have "unat ((x - m) - 1) = unat (x - m) - 1" using assms by (intro unat_minus_one) simp
  ultimately show ?thesis by (simp only:)
qed

lemma unat_Suc_diff:
  assumes "unat (s - m :: u32) < 60"
  shows "unat (s + 1 - m) = Suc (unat (s - m))"
proof -
  have "s + 1 - m = (s - m) + 1" by simp
  moreover have "unat ((s - m) + 1) = Suc (unat (s - m))"
    using assms by (simp only: unat_word_ariths) simp
  ultimately show ?thesis by (simp only:)
qed

lemma win_after_min:
  "win_off info x \<noteq> 0 \<Longrightarrow> win_off (info\<lparr>minSeq := minSeq info + 1\<rparr>) x = win_off info x - 1"
  using unat_diff_Suc [of x "minSeq info"] by (cases "x = minSeq info") (auto simp: win_off_def)

lemma win_size_after_min:
  "win_size info \<noteq> 0 \<Longrightarrow> win_size (info\<lparr>minSeq := minSeq info + 1\<rparr>) = win_size info - 1"
  using unat_diff_Suc [of "maxSeq info" "minSeq info"]
  by (cases "maxSeq info = minSeq info") (auto simp: win_size_def)

lemma win_size_after_max:
  "win_off info s < 60 \<Longrightarrow>
   win_size (info\<lparr>maxSeq := s + 1\<rparr>) = Suc (win_off info s)"
  by (simp add: win_size_def win_off_def unat_Suc_diff)

lemma win_off_zero: "win_off info s = 0 \<longleftrightarrow> s = minSeq info"
  by (auto simp: win_off_def unat_eq_0)

lemma win_off_frame [simp]:
  "win_off (info\<lparr>maxSeq := a\<rparr>) x = win_off info x"
  "win_off (info\<lparr>recvBitmap := b\<rparr>) x = win_off info x"
  "win_size (info\<lparr>recvBitmap := b\<rparr>) = win_size info"
  by (simp_all add: win_off_def win_size_def)

text \<open>The cases of an accepted number, as an elimination rule for the proofs about streams.\<close>

lemma window_check_cases:
  assumes "window_check info s = Some (p, info')"
  obtains (refused) "\<not> p" "info' = info"
  | (next_empty) "p" "s = minSeq info" "win_size info = 0"
      "info' = info\<lparr>minSeq := minSeq info + 1, maxSeq := minSeq info + 1\<rparr>"
  | (next_min) "p" "s = minSeq info" "win_size info \<noteq> 0" "info' = info\<lparr>minSeq := minSeq info + 1\<rparr>"
  | (inside) "p" "s \<noteq> minSeq info" "win_off info s < win_size info"
      "\<not> (bit (recvBitmap info) (win_size info - win_off info s) \<and>
          win_size info - win_off info s < 32)"
      "info' = info\<lparr>recvBitmap := set_bit (win_size info - win_off info s) (recvBitmap info)\<rparr>"
  | (ahead) "p" "s \<noteq> minSeq info" "win_size info \<le> win_off info s" "win_off info s < 60"
      "info' = info\<lparr>maxSeq := s + 1,
         recvBitmap := set_bit 1 (push_bit (Suc (win_off info s - win_size info)) (recvBitmap info))\<rparr>"
  using assms unfolding window_check_def Let_def
  by (auto simp: win_off_zero split: if_splits)

lemma window_check_wf:
  assumes "seq_wf info" "window_check info s = Some (p, info')"
  shows "seq_wf info'"
  using assms(2)
proof (cases rule: window_check_cases)
  case next_empty
  then show ?thesis by (simp add: seq_wf_def win_size_def)
next
  case next_min
  then show ?thesis using assms(1) by (simp add: seq_wf_def win_size_after_min)
next
  case ahead
  then show ?thesis by (simp add: seq_wf_def win_size_after_max)
qed (use assms(1) in \<open>auto simp: seq_wf_def\<close>)

lemma window_check_min:
  assumes "window_check info s = Some (p, info')" "s \<noteq> minSeq info"
  shows "minSeq info' = minSeq info"
  using assms by (cases rule: window_check_cases) auto

lemma recorded_step:
  assumes "seq_wf info" "window_check info s = Some (p, info')" "recorded info x" "s \<noteq> x - 1"
  shows "recorded info' x"
  using assms(2)
proof (cases rule: window_check_cases)
  case next_min
  have "win_off info x \<noteq> 1"
  proof
    assume "win_off info x = 1"
    then have "unat (x - minSeq info) = unat (1 :: u32)" by (simp add: win_off_def)
    then have "x - minSeq info = 1" by (rule unsigned_word_eqI)
    then have "x - 1 = minSeq info" by (simp add: algebra_simps)
    then show False using next_min(2) assms(4) by simp
  qed
  then show ?thesis
    using next_min assms(3)
    by (auto simp: recorded_def win_after_min win_size_after_min)
next
  case ahead
  then show ?thesis
    using assms(1,3)
    by (auto simp: recorded_def win_size_after_max bit_set_bit_iff bit_push_bit_iff seq_wf_def
        Suc_diff_le simp del: push_bit_Suc)
next
  case inside
  then show ?thesis
    using assms(3) by (auto simp: recorded_def bit_set_bit_iff)
qed (use assms(3) in \<open>auto simp: recorded_def\<close>)

lemma recorded_first:
  assumes "seq_wf info" "window_check info s = Some (True, info')" "s \<noteq> minSeq info"
  shows "recorded info' s"
  using assms(2)
proof (cases rule: window_check_cases)
  case ahead
  then show ?thesis
    using assms(3)
    by (auto simp: recorded_def win_size_after_max bit_set_bit_iff win_off_zero [symmetric])
next
  case inside
  then show ?thesis
    using assms(1,3)
    by (auto simp: recorded_def bit_set_bit_iff win_off_zero [symmetric] seq_wf_def)
qed (use assms(3) in auto)

lemma recv_seqs_run:
  assumes "seq_wf info" "recv_seqs info ss = Some (ps, info')"
  shows "seq_wf info' \<and> (\<forall>x. recorded info x \<longrightarrow> x - 1 \<notin> set ss \<longrightarrow> recorded info' x) \<and>
    (minSeq info \<notin> set ss \<longrightarrow> minSeq info' = minSeq info)"
  using assms
proof (induction ss arbitrary: info ps)
  case (Cons s ss)
  then obtain p i1 ps' where st: "window_check info s = Some (p, i1)"
    and rest: "recv_seqs i1 ss = Some (ps', info')"
    by (auto simp: recv_seqs_Cons simp del: recv_seqs.simps split: option.splits)
  have wf: "seq_wf i1" using window_check_wf Cons.prems(1) st by blast
  show ?case
    using Cons.IH [OF wf rest] recorded_step [OF Cons.prems(1) st] window_check_min [OF st]
    by auto
qed simp

section \<open>Properties\<close>

text \<open>
  C38: On every window of at most 60 numbers, wherever it lies in the 32-bit range and whether or not
  it straddles one of the two sign changes, the four cases of the code decide exactly as the reference
  window does, whose cases depend on offsets modulo 2^32 only.
\<close>

theorem IsPassSeqCheck_window:
  assumes "seq_wf info"
  shows "IsPassSeqCheck (Some info) s =
     map_option (\<lambda>(pass, info'). (pass, Some info')) (window_check info s)"
  using assms by (rule seq_check_window)

theorem IsPassSeqCheck_window_witness:
  "IsPassSeqCheck (Some \<lparr>maxSeq = 2147483650, minSeq = 2147483646, recvBitmap = 2\<rparr>) 2147483652 =
     Some (True, Some \<lparr>maxSeq = 2147483653, minSeq = 2147483646, recvBitmap = 18\<rparr>)"
  using IsPassSeqCheck_window
    [of "\<lparr>maxSeq = 2147483650, minSeq = 2147483646, recvBitmap = 2\<rparr>" 2147483652]
  by (simp add: seq_wf_def window_check_def win_size_def win_off_def Let_def set_bit_eq_or)

text \<open>
  C39: A number that was accepted out of order, ahead of the smallest missing one, is not accepted a second
  time while it lies at most 30 below the largest number accepted (\<open>maxSeq\<close> is one more than that, so
  fewer than 32 below \<open>maxSeq\<close>), whatever numbers arrive in between, as long as its predecessor is not among
  them.
\<close>

theorem replay_refused:
  assumes "seq_wf info" "x \<noteq> minSeq info"
    "IsPassSeqCheck (Some info) x = Some (True, Some info1)"
    "recv_seqs info1 ss = Some (ps, info2)" "x - 1 \<notin> set ss" "unat (maxSeq info2 - x) < 32"
  shows "IsPassSeqCheck (Some info2) x = Some (False, Some info2)"
proof -
  have st: "window_check info x = Some (True, info1)"
    using assms(1,3) by (auto simp: seq_check_window)
  have wf1: "seq_wf info1" using window_check_wf [OF assms(1) st] .
  have "recorded info1 x" using recorded_first [OF assms(1) st assms(2)] .
  then have r: "recorded info2 x" and wf2: "seq_wf info2"
    using recv_seqs_run [OF wf1 assms(4)] assms(5) by auto
  have "win_size info2 - win_off info2 x < 32"
    using r assms(6) by (simp add: recorded_def win_off_max)
  then have "window_check info2 x = Some (False, info2)"
    using r by (simp add: recorded_def window_check_def Let_def)
  then show ?thesis using wf2 by (simp add: seq_check_window)
qed

theorem replay_refused_witness:
  "IsPassSeqCheck (Some \<lparr>maxSeq = 9, minSeq = 5, recvBitmap = 10\<rparr>) 8 =
     Some (False, Some \<lparr>maxSeq = 9, minSeq = 5, recvBitmap = 10\<rparr>)"
  using replay_refused [of "\<lparr>maxSeq = 5, minSeq = 5, recvBitmap = 0\<rparr>" 8
      "\<lparr>maxSeq = 9, minSeq = 5, recvBitmap = 2\<rparr>" "[6]" "[True]"
      "\<lparr>maxSeq = 9, minSeq = 5, recvBitmap = 10\<rparr>"]
  by (simp add: seq_wf_def seq_check_window window_check_def win_size_def win_off_def Let_def
      set_bit_eq_or)

text \<open>
  C40: A stream that arrives in order is accepted in full, from any starting number and however often
  it passes the largest signed number or wraps around to zero, and leaves an empty window just after
  its last number.
\<close>

theorem in_order_accepted:
  assumes "minSeq info = maxSeq info"
  shows "recv_seqs info (map (\<lambda>i. minSeq info + of_nat i) [0..<k]) =
    Some (replicate k True, info\<lparr>minSeq := minSeq info + of_nat k, maxSeq := maxSeq info + of_nat k\<rparr>)"
  using assms
proof (induction k arbitrary: info)
  case (Suc k)
  let ?i = "info\<lparr>minSeq := minSeq info + 1, maxSeq := minSeq info + 1\<rparr>"
  have step: "window_check info (minSeq info) = Some (True, ?i)" and wf: "seq_wf info"
    using Suc.prems by (simp_all add: window_check_def win_size_def win_off_def seq_wf_def)
  have "map (\<lambda>i. minSeq info + of_nat i) [0..<Suc k] =
      minSeq info # map (\<lambda>i. minSeq ?i + of_nat i) [0..<k]"
    by (simp add: map_upt_Suc algebra_simps del: upt_Suc)
  then show ?case
    using Suc.IH [of ?i] step wf Suc.prems
    by (simp add: recv_seqs_Cons algebra_simps del: recv_seqs.simps upt_Suc)
qed simp

theorem in_order_accepted_witness:
  "recv_seqs \<lparr>maxSeq = 2147483647, minSeq = 2147483647, recvBitmap = 0\<rparr>
     (map (\<lambda>i. 2147483647 + of_nat i) [0..<3]) =
   Some ([True, True, True], \<lparr>maxSeq = 2147483650, minSeq = 2147483650, recvBitmap = 0\<rparr>)"
  using in_order_accepted [of "\<lparr>maxSeq = 2147483647, minSeq = 2147483647, recvBitmap = 0\<rparr>" 3]
  by (simp add: numeral_3_eq_3)

text \<open>
  The window never grows beyond 60 numbers, and a number that is still missing keeps its place at
  the bottom of the window: as long as it does not arrive, every number 60 or more ahead of it (and
  less than half the range) is refused.
\<close>

theorem missing_number_stalls:
  assumes "seq_wf info" "recv_seqs info ss = Some (ps, info')" "minSeq info \<notin> set ss"
    "60 \<le> unat (s - minSeq info)" "unat (s - minSeq info) < 2 ^ 31"
  shows "seq_wf info' \<and> minSeq info' = minSeq info \<and>
    IsPassSeqCheck (Some info') s = Some (False, Some info')"
proof -
  have wf: "seq_wf info'" and m: "minSeq info' = minSeq info"
    using recv_seqs_run [OF assms(1,2)] assms(3) by auto
  have r: "60 \<le> win_off info' s" "win_off info' s < 2 ^ 31"
    using assms(4,5) m by (simp_all add: win_off_def)
  then have "window_check info' s = Some (False, info')"
    using wf by (auto simp: window_check_def Let_def seq_wf_def)
  then show ?thesis using wf m by (simp add: seq_check_window)
qed

text \<open>Numbers 6 and 5 in the wrong order leave 6 at the bottom although 6 has been received.\<close>

theorem missing_number_stalls_witness:
  "recv_seqs \<lparr>maxSeq = 5, minSeq = 5, recvBitmap = 0\<rparr> [6, 5] =
     Some ([True, True], \<lparr>maxSeq = 7, minSeq = 6, recvBitmap = 2\<rparr>) \<and>
   recv_seqs \<lparr>maxSeq = 7, minSeq = 6, recvBitmap = 2\<rparr> [7] =
     Some ([True], \<lparr>maxSeq = 8, minSeq = 6, recvBitmap = 6\<rparr>) \<and>
   IsPassSeqCheck (Some \<lparr>maxSeq = 8, minSeq = 6, recvBitmap = 6\<rparr>) 66 =
     Some (False, Some \<lparr>maxSeq = 8, minSeq = 6, recvBitmap = 6\<rparr>)"
  using missing_number_stalls [of "\<lparr>maxSeq = 7, minSeq = 6, recvBitmap = 2\<rparr>" "[7]" "[True]"
      "\<lparr>maxSeq = 8, minSeq = 6, recvBitmap = 6\<rparr>" 66]
  by (simp add: seq_wf_def seq_check_window window_check_def win_size_def win_off_def Let_def
      set_bit_eq_or)

text \<open>
  The verdict on a duplicate is kept in a 32-bit integer, so the upper half of the bitmap is never
  read: a number that lies 32 or more below the largest one accepted passes each time it arrives.
\<close>

theorem far_replay_accepted:
  assumes "seq_wf info" "recorded info x" "32 \<le> unat (maxSeq info - x)"
  shows "IsPassSeqCheck (Some info) x = Some (True, Some info)"
proof -
  let ?n = "win_size info - win_off info x"
  have n: "32 \<le> ?n" "?n < 64" "bit (recvBitmap info) ?n"
    using assms by (auto simp: recorded_def win_off_max seq_wf_def)
  have "set_bit ?n (recvBitmap info) = recvBitmap info"
    using n by (intro bit_word_eqI) (auto simp: bit_set_bit_iff)
  then have "window_check info x = Some (True, info)"
    using assms(2) n by (simp add: recorded_def window_check_def Let_def)
  then show ?thesis using assms(1) by (simp add: seq_check_window)
qed

theorem far_replay_accepted_witness:
  "IsPassSeqCheck (Some \<lparr>maxSeq = 51, minSeq = 0, recvBitmap = 2 + 2 ^ 50\<rparr>) 1 =
     Some (True, Some \<lparr>maxSeq = 51, minSeq = 0, recvBitmap = 2 + 2 ^ 50\<rparr>)"
  using far_replay_accepted [of "\<lparr>maxSeq = 51, minSeq = 0, recvBitmap = 2 + 2 ^ 50\<rparr>" 1]
  by (simp add: seq_wf_def recorded_def win_size_def win_off_def)

end
