(* ===== verification/Softbus_Bitmap.thy ===== *)
theory Softbus_Bitmap
  imports Softbus_Prelude
begin

text \<open>
  The 32-bit bitmaps of \<^verbatim>\<open>core/common/bitmap/softbus_bitmap.c\<close>. The pointer to the bitmap is an
  option (\<^const>\<open>None\<close> is a null pointer) and the updated bitmap is the result. The range operations
  return \<^const>\<open>None\<close> on the outer level when the shift amount \<open>start - 1U\<close> wraps around to
  \<open>UINT32_MAX\<close>, which C leaves undefined. The single-bit operations are shown to implement a set of
  positions below 32.
\<close>

section \<open>Model\<close>

definition SoftbusBitmapSet :: "u32 option \<Rightarrow> u8 \<Rightarrow> u32 option" where
  "SoftbusBitmapSet bitmap pos =
     (case bitmap of None \<Rightarrow> None
      | Some b \<Rightarrow> if 32 \<le> pos then Some b else Some (b OR push_bit (unat pos) 1))"

definition SoftbusBitmapClr :: "u32 option \<Rightarrow> u8 \<Rightarrow> u32 option" where
  "SoftbusBitmapClr bitmap pos =
     (case bitmap of None \<Rightarrow> None
      | Some b \<Rightarrow> if 32 \<le> pos then Some b else Some (b AND NOT (push_bit (unat pos) 1)))"

definition SoftbusBitmapSetBits :: "u32 option \<Rightarrow> u8 \<Rightarrow> u8 \<Rightarrow> u32 option option" where
  "SoftbusBitmapSetBits bitmap start nums =
     (case bitmap of None \<Rightarrow> Some None
      | Some b \<Rightarrow>
          if 32 < start \<or> 32 < unat start + unat nums \<or> nums = 0 then Some (Some b)
          else if start = 0 then None
          else Some (Some (b OR (- 1 -
             ((push_bit (unat start + unat nums - 1) 1 - 1) AND
              NOT (push_bit (unat start - 1) 1 - 1))))))"

definition SoftbusBitmapClrBits :: "u32 option \<Rightarrow> u8 \<Rightarrow> u8 \<Rightarrow> u32 option option" where
  "SoftbusBitmapClrBits bitmap start nums =
     (case bitmap of None \<Rightarrow> Some None
      | Some b \<Rightarrow>
          if 32 < start \<or> 32 < unat start + unat nums \<or> nums = 0 then Some (Some b)
          else if start = 0 then None
          else Some (Some (b AND
             ((push_bit (unat start + unat nums - 1) 1 - 1) AND
              NOT (push_bit (unat start - 1) 1 - 1)))))"

lemma drop_bit_less: "0 < b \<Longrightarrow> unat (drop_bit (Suc 0) (b :: u32)) < unat b"
  by (simp add: drop_bit_Suc unat_div word_gt_0 unat_gt_0 [symmetric])

function low_bit_loop :: "u8 \<Rightarrow> u32 \<Rightarrow> u8" where
  "low_bit_loop pos bitmap =
     (if 0 < bitmap then
        (if bitmap AND 1 \<noteq> 0 then pos + 1 else low_bit_loop (pos + 1) (drop_bit 1 bitmap))
      else 0)"
  by auto
termination
  by (relation "measure (\<lambda>(pos, b). unat b)") (auto simp: drop_bit_less)

definition SoftbusLowBitGet :: "u32 \<Rightarrow> u8" where
  "SoftbusLowBitGet bitmap = low_bit_loop 0 bitmap"

function high_bit_loop :: "u8 \<Rightarrow> u32 \<Rightarrow> u8" where
  "high_bit_loop pos bitmap =
     (if 0 < bitmap then high_bit_loop (pos + 1) (drop_bit 1 bitmap) else pos)"
  by auto
termination
  by (relation "measure (\<lambda>(pos, b). unat b)") (auto simp: drop_bit_less)

definition SoftbusHighBitGet :: "u32 \<Rightarrow> u8" where
  "SoftbusHighBitGet bitmap = high_bit_loop 0 bitmap"

definition SoftbusIsBitmapSet :: "u32 option \<Rightarrow> u8 \<Rightarrow> bool" where
  "SoftbusIsBitmapSet bitmap pos =
     (case bitmap of None \<Rightarrow> False
      | Some b \<Rightarrow> if 32 \<le> pos then False else push_bit (unat pos) 1 AND b \<noteq> 0)"

declare low_bit_loop.simps [simp del] high_bit_loop.simps [simp del]

section \<open>Bits of the results\<close>

lemma bit_pushed_one: "bit ((2 :: u32) ^ n) k \<longleftrightarrow> k = n \<and> n < 32"
  by (auto simp: bit_exp_iff)

lemma and_pushed_one: "2 ^ n AND (b :: u32) \<noteq> 0 \<longleftrightarrow> bit b n"
proof -
  have bits: "bit (2 ^ n AND b) k \<longleftrightarrow> k = n \<and> bit b n" for k
    using bit_imp_le_length [of b n] by (auto simp: bit_and_iff bit_pushed_one)
  show ?thesis
  proof
    assume "bit b n"
    then show "2 ^ n AND b \<noteq> 0" using bits [of n] by auto
  next
    assume "2 ^ n AND b \<noteq> 0"
    then obtain k where "bit (2 ^ n AND b) k" by (metis bit_0_eq bit_word_eqI bot_apply bot_bool_def)
    then show "bit b n" using bits by simp
  qed
qed

lemma bit_range_mask:
  "bit ((push_bit hi (1 :: u32) - 1) AND NOT (push_bit lo 1 - 1)) k \<longleftrightarrow> lo \<le> k \<and> k < hi \<and> k < 32"
proof -
  have "push_bit n (1 :: u32) - 1 = mask n" for n by (simp add: mask_eq_exp_minus_1)
  then show ?thesis
    by (auto simp: bit_and_iff bit_not_iff bit_mask_iff)
qed

lemma minus_one_minus: "- 1 - (x :: u32) = NOT x"
  by (simp add: not_eq_complement)

section \<open>Single bits as a set of positions\<close>

datatype bm_op = BmSet u8 | BmClr u8

primrec pos_set_op :: "nat set \<Rightarrow> bm_op \<Rightarrow> nat set" where
  "pos_set_op A (BmSet p) = (if p < 32 then insert (unat p) A else A)"
| "pos_set_op A (BmClr p) = A - {unat p}"

text \<open>
  The contract of a store of small numbers: setting and clearing are insertion and removal, positions
  beyond the capacity are ignored, and the query is membership.
\<close>

locale pos_store =
  fixes set_pos :: "'s \<Rightarrow> u8 \<Rightarrow> 's"
    and clr_pos :: "'s \<Rightarrow> u8 \<Rightarrow> 's"
    and is_set :: "'s \<Rightarrow> u8 \<Rightarrow> bool"
    and positions :: "'s \<Rightarrow> nat set"
  assumes set_law: "positions (set_pos s p) = (if p < 32 then insert (unat p) (positions s) else positions s)"
    and clr_law: "positions (clr_pos s p) = positions s - {unat p}"
    and is_set_law: "is_set s p \<longleftrightarrow> unat p \<in> positions s"
begin

primrec apply_op :: "'s \<Rightarrow> bm_op \<Rightarrow> 's" where
  "apply_op s (BmSet p) = set_pos s p"
| "apply_op s (BmClr p) = clr_pos s p"

lemma positions_run: "positions (foldl apply_op s ops) = foldl pos_set_op (positions s) ops"
proof (induction ops arbitrary: s)
  case (Cons a ops)
  then show ?case by (cases a) (simp_all add: set_law clr_law)
qed simp

lemma is_set_run: "is_set (foldl apply_op s ops) p \<longleftrightarrow> unat p \<in> foldl pos_set_op (positions s) ops"
  by (simp add: is_set_law positions_run)

end

primrec bm_step :: "u32 option \<Rightarrow> bm_op \<Rightarrow> u32 option" where
  "bm_step b (BmSet p) = SoftbusBitmapSet b p"
| "bm_step b (BmClr p) = SoftbusBitmapClr b p"

text \<open>The laws hold for every bitmap that exists; a null pointer is not a store.\<close>

definition bm_set :: "u32 \<Rightarrow> u8 \<Rightarrow> u32" where
  "bm_set b p = the (SoftbusBitmapSet (Some b) p)"

definition bm_clr :: "u32 \<Rightarrow> u8 \<Rightarrow> u32" where
  "bm_clr b p = the (SoftbusBitmapClr (Some b) p)"

lemma bit_beyond: "bit (b :: u32) k \<Longrightarrow> k < 32"
  using bit_imp_le_length [of b k] by simp

lemma u8_le_32: "32 \<le> (p :: u8) \<longleftrightarrow> 32 \<le> unat p"
  by (simp add: word_le_nat_alt)

interpretation bm: pos_store bm_set bm_clr "\<lambda>b. SoftbusIsBitmapSet (Some b)" "\<lambda>b. {k. bit b k}"
proof (unfold_locales, goal_cases)
  case (1 b p)
  then show ?case
    by (auto simp: bm_set_def SoftbusBitmapSet_def bit_or_iff bit_pushed_one u8_le_32 word_less_nat_alt)
next
  case (2 b p)
  then show ?case
    by (auto simp: bm_clr_def SoftbusBitmapClr_def bit_and_iff bit_not_iff bit_pushed_one u8_le_32
        dest: bit_beyond)
next
  case (3 b p)
  then show ?case
    using and_pushed_one [of "unat p" b] bit_beyond [of b "unat p"]
    by (auto simp: SoftbusIsBitmapSet_def u8_le_32)
qed

lemma bm_step_total: "bm_step (Some b) a = Some (bm.apply_op b a)"
  by (cases a) (simp_all add: bm_set_def bm_clr_def SoftbusBitmapSet_def SoftbusBitmapClr_def)

lemma bm_step_run: "foldl bm_step (Some b) ops = Some (foldl bm.apply_op b ops)"
  by (induction ops arbitrary: b) (simp_all add: bm_step_total)

section \<open>The lowest and the highest bit\<close>

lemma bit_shifted: "bit (drop_bit (Suc 0) (b :: u32)) k = bit b (Suc k)"
  by (simp add: bit_drop_bit_eq)

lemma and_one_odd: "(b :: u32) AND 1 \<noteq> 0 \<longleftrightarrow> bit b 0"
  by (simp add: and_one_eq bit_0 odd_iff_mod_2_eq_one)

lemma u8_Suc: "unat (p :: u8) + n \<le> 255 \<Longrightarrow> 0 < n \<Longrightarrow> unat (p + 1) = Suc (unat p)"
  by (simp add: unat_word_ariths)

lemma low_bit_loop_spec:
  "b \<noteq> 0 \<Longrightarrow> \<forall>k. bit b k \<longrightarrow> k < n \<Longrightarrow> unat pos + n \<le> 255 \<Longrightarrow>
   \<exists>k. bit b k \<and> (\<forall>j < k. \<not> bit b j) \<and> unat (low_bit_loop pos b) = unat pos + Suc k"
proof (induction pos b arbitrary: n rule: low_bit_loop.induct)
  case (1 pos b)
  obtain k where k: "bit b k" using \<open>b \<noteq> 0\<close> by (metis bit_0_eq bit_word_eqI bot_apply bot_bool_def)
  then have n: "0 < n" using 1(3) by (metis gr_zeroI less_nat_zero_code)
  show ?case
  proof (cases "bit b 0")
    case True
    then have "unat (low_bit_loop pos b) = Suc (unat pos)"
      using u8_Suc [OF 1(4) n] 1(2) by (subst low_bit_loop.simps) (simp add: and_one_odd word_gt_0)
    then show ?thesis using True by (intro exI [of _ 0]) simp
  next
    case False
    have "k \<noteq> 0" using k False by (metis)
    then have nz: "drop_bit 1 b \<noteq> 0"
      using k bit_shifted [of b "k - 1"] by (metis One_nat_def Suc_pred bit_0_eq bot_apply bot_bool_def neq0_conv)
    have step: "low_bit_loop pos b = low_bit_loop (pos + 1) (drop_bit 1 b)"
      using False 1(2) by (subst low_bit_loop.simps) (simp add: and_one_odd word_gt_0)
    have "\<exists>k. bit (drop_bit 1 b) k \<and> (\<forall>j < k. \<not> bit (drop_bit 1 b) j) \<and>
        unat (low_bit_loop (pos + 1) (drop_bit 1 b)) = unat (pos + 1) + Suc k"
      using 1(2-4) False nz n u8_Suc [OF 1(4) n]
      by (intro 1(1) [of "n - 1"]) (auto simp: and_one_odd word_gt_0 bit_shifted)
    then obtain m where m: "bit b (Suc m)" "\<forall>j < m. \<not> bit b (Suc j)"
        "unat (low_bit_loop (pos + 1) (drop_bit 1 b)) = unat (pos + 1) + Suc m"
      by (auto simp: bit_shifted)
    have "\<forall>j < Suc m. \<not> bit b j" using m(2) False by (metis less_Suc_eq_0_disj)
    then show ?thesis using m step u8_Suc [OF 1(4) n] by (intro exI [of _ "Suc m"]) simp
  qed
qed

lemma high_bit_loop_spec:
  "\<forall>k. bit b k \<longrightarrow> k < n \<Longrightarrow> unat pos + n \<le> 255 \<Longrightarrow>
   \<exists>m \<le> n. (\<forall>k. bit b k \<longrightarrow> k < m) \<and> (0 < m \<longrightarrow> bit b (m - 1)) \<and>
     unat (high_bit_loop pos b) = unat pos + m"
proof (induction pos b arbitrary: n rule: high_bit_loop.induct)
  case (1 pos b)
  show ?case
  proof (cases "b = 0")
    case True
    then show ?thesis by (intro exI [of _ 0]) (subst high_bit_loop.simps, simp)
  next
    case False
    then obtain k where k: "bit b k" by (metis bit_0_eq bit_word_eqI bot_apply bot_bool_def)
    then have n: "0 < n" using 1(2) by (metis gr_zeroI less_nat_zero_code)
    have step: "high_bit_loop pos b = high_bit_loop (pos + 1) (drop_bit 1 b)"
      using False by (subst high_bit_loop.simps) (simp add: word_gt_0)
    have "\<exists>m \<le> n - 1. (\<forall>k. bit (drop_bit 1 b) k \<longrightarrow> k < m) \<and>
        (0 < m \<longrightarrow> bit (drop_bit 1 b) (m - 1)) \<and>
        unat (high_bit_loop (pos + 1) (drop_bit 1 b)) = unat (pos + 1) + m"
      using 1(2,3) False n u8_Suc [OF 1(3) n]
      by (intro 1(1)) (auto simp: word_gt_0 bit_shifted)
    then obtain m where m: "m \<le> n - 1" "\<forall>k. bit b (Suc k) \<longrightarrow> k < m" "0 < m \<longrightarrow> bit b m"
        "unat (high_bit_loop (pos + 1) (drop_bit 1 b)) = unat (pos + 1) + m"
      by (auto simp: bit_shifted)
    have below: "\<forall>j. bit b j \<longrightarrow> j < Suc m"
      using m(2) by (metis Suc_less_eq not0_implies_Suc zero_less_Suc)
    moreover have "bit b m"
      using m(3) below k by (cases m) auto
    ultimately show ?thesis
      using m(1,4) n step u8_Suc [OF 1(3) n] by (intro exI [of _ "Suc m"]) auto
  qed
qed

section \<open>Properties\<close>

text \<open>
  Any sequence of \<open>SoftbusBitmapSet\<close> and \<open>SoftbusBitmapClr\<close> calls on a bitmap maintains a set of
  positions below 32: setting inserts, clearing removes, positions of 32 and more are ignored, and
  \<open>SoftbusIsBitmapSet\<close> answers membership for every position.
\<close>

theorem bitmap_is_position_set:
  "SoftbusIsBitmapSet (foldl bm_step (Some b) ops) p \<longleftrightarrow>
     unat p \<in> foldl pos_set_op {k. bit b k} ops"
  unfolding bm_step_run by (rule bm.is_set_run)

text \<open>
  On a bitmap that is not zero \<open>SoftbusLowBitGet\<close> returns one plus the lowest position that is
  set and \<open>SoftbusHighBitGet\<close> one plus the highest; both return 0 on the empty bitmap.
\<close>

theorem low_high_bit:
  "(\<exists>lo hi. unat (SoftbusLowBitGet b) = lo \<and> unat (SoftbusHighBitGet b) = hi \<and> lo \<le> hi \<and> hi \<le> 32 \<and>
     (if b = 0 then lo = 0 \<and> hi = 0
      else 0 < lo \<and> {k. bit b k} \<subseteq> {lo - 1..hi - 1} \<and> bit b (lo - 1) \<and> bit b (hi - 1)))"
proof (cases "b = 0")
  case True
  then show ?thesis
    by (intro exI [of _ 0])
      (simp add: SoftbusLowBitGet_def SoftbusHighBitGet_def low_bit_loop.simps [of 0 0]
        high_bit_loop.simps [of 0 0])
next
  case False
  have bound: "\<forall>k. bit b k \<longrightarrow> k < 32" by (blast dest: bit_beyond)
  obtain k where k: "bit b k" "\<forall>j < k. \<not> bit b j" "unat (low_bit_loop 0 b) = Suc k"
    using low_bit_loop_spec [OF False bound, of 0] by auto
  obtain m where m: "\<forall>j. bit b j \<longrightarrow> j < m" "0 < m \<longrightarrow> bit b (m - 1)"
      "unat (high_bit_loop 0 b) = m" "m \<le> 32"
    using high_bit_loop_spec [OF bound, of 0] by auto
  have "unat (SoftbusLowBitGet b) = Suc k" "unat (SoftbusHighBitGet b) = m"
    using k(3) m(3) by (simp_all add: SoftbusLowBitGet_def SoftbusHighBitGet_def)
  moreover have "k < m" using m(1) k(1) by blast
  moreover have "k \<le> j \<and> j \<le> m - 1" if "bit b j" for j
  proof -
    have "j < m" "\<not> j < k" using that k(2) m(1) by blast+
    then show ?thesis by linarith
  qed
  then have "{j. bit b j} \<subseteq> {Suc k - 1..m - 1}" by auto
  ultimately show ?thesis
    using False k(1) m(2,4) by (intro exI [of _ "Suc k"] exI [of _ m]) simp
qed

text \<open>
  \<open>SoftbusBitmapSetBits\<close> sets every position outside the range of \<open>nums\<close> positions from \<open>start - 1\<close>
  and leaves the range itself as it was, and \<open>SoftbusBitmapClrBits\<close> clears every position outside it
  and keeps the range, for every call that passes the guards with a positive \<open>start\<close>.
\<close>

theorem range_ops_touch_complement:
  assumes "0 < start" "0 < nums" "unat start + unat nums \<le> 32"
  shows "\<exists>s c. SoftbusBitmapSetBits (Some b) start nums = Some (Some s) \<and>
     SoftbusBitmapClrBits (Some b) start nums = Some (Some c) \<and>
     (\<forall>k < 32. bit s k \<longleftrightarrow> bit b k \<or> \<not> (unat start \<le> Suc k \<and> Suc k < unat start + unat nums)) \<and>
     (\<forall>k < 32. bit c k \<longleftrightarrow> bit b k \<and> unat start \<le> Suc k \<and> Suc k < unat start + unat nums)"
proof -
  define m :: u32 where
    "m = (push_bit (unat start + unat nums - 1) 1 - 1) AND NOT (push_bit (unat start - 1) 1 - 1)"
  have ok: "\<not> (32 < start \<or> 32 < unat start + unat nums \<or> nums = 0)" "start \<noteq> 0" "0 < unat start"
    using assms by (auto simp: word_less_nat_alt)
  have s: "SoftbusBitmapSetBits (Some b) start nums = Some (Some (b OR NOT m))"
    and c: "SoftbusBitmapClrBits (Some b) start nums = Some (Some (b AND m))"
    using ok(1,2)
    by (simp_all only: SoftbusBitmapSetBits_def SoftbusBitmapClrBits_def option.case if_False m_def
        minus_one_minus)
  have "bit m k \<longleftrightarrow> unat start \<le> Suc k \<and> Suc k < unat start + unat nums" if "k < 32" for k
    using ok(3) that unfolding m_def bit_range_mask by auto
  then show ?thesis
    unfolding s c by (auto simp: bit_or_iff bit_and_iff bit_not_iff)
qed

theorem range_ops_touch_complement_witness:
  "SoftbusBitmapSetBits (Some 0) 1 4 = Some (Some 0xFFFFFFF0) \<and>
   (\<exists>s. SoftbusBitmapSetBits (Some 0) 1 4 = Some (Some s) \<and> \<not> bit s 0 \<and> bit s 31)"
proof -
  have "SoftbusBitmapSetBits (Some 0) 1 4 = Some (Some 0xFFFFFFF0)"
    by (simp add: SoftbusBitmapSetBits_def push_bit_eq_mult)
  moreover obtain s where "SoftbusBitmapSetBits (Some 0) 1 4 = Some (Some s)"
      "\<forall>k < 32. bit s k \<longleftrightarrow> bit (0 :: u32) k \<or> \<not> (unat (1 :: u8) \<le> Suc k \<and> Suc k < unat (1 :: u8) + unat (4 :: u8))"
    using range_ops_touch_complement [of 1 4 0] by auto
  ultimately show ?thesis by auto
qed

end
