(* ===== verification/Softbus_Utils.thy ===== *)
theory Softbus_Utils
  imports Softbus_Prelude
begin

text \<open>
  The helpers of \<^verbatim>\<open>core/common/utils/softbus_utils.c\<close> and
  \<^verbatim>\<open>core/common/network/softbus_network_utils.c\<close>: the table of timer callbacks, hexadecimal
  conversion, Bluetooth addresses, case-insensitive comparison, masking of addresses for the log, and
  Wi-Fi channels. Character arrays are lists of bytes, with the byte 0 at the end of a string where
  the code relies on one, and plain \<open>char\<close> is read as an unsigned byte. A read or a write beyond a
  list is \<^const>\<open>None\<close>. Of the C library, \<open>strtok_r\<close> and \<open>strtoul\<close> are modelled as the standard
  describes them; \<open>snprintf_s\<close> is a parameter.
\<close>

section \<open>Timer callbacks\<close>

abbreviation (input) SOFTBUS_MAX_TIMER_FUN_NUM :: nat where "SOFTBUS_MAX_TIMER_FUN_NUM \<equiv> 9"

type_synonym 'cb timer_table = "'cb option list"

definition RegisterTimeoutCallback :: "'cb timer_table \<Rightarrow> int \<Rightarrow> 'cb option \<Rightarrow> int \<times> 'cb timer_table" where
  "RegisterTimeoutCallback g_timerFunList timerFunId callback =
     (if callback = None \<or> int SOFTBUS_MAX_TIMER_FUN_NUM \<le> timerFunId \<or> timerFunId < 0
      then (SOFTBUS_ERR, g_timerFunList)
      else if g_timerFunList ! nat timerFunId \<noteq> None then (SOFTBUS_OK, g_timerFunList)
      else (SOFTBUS_OK, g_timerFunList[nat timerFunId := callback]))"

text \<open>The callbacks that one expiry of the timer runs, in the order of the calls.\<close>

definition HandleTimeoutFun :: "'cb timer_table \<Rightarrow> 'cb list" where
  "HandleTimeoutFun g_timerFunList =
     concat (map (\<lambda>i. case g_timerFunList ! i of None \<Rightarrow> [] | Some f \<Rightarrow> [f])
       [0..<SOFTBUS_MAX_TIMER_FUN_NUM])"

text \<open>
  \<open>created\<close> is the handle \<open>SoftBusCreateTimer\<close> returns and \<open>started\<close> the result of
  \<open>SoftBusStartTimer\<close>, both of the platform's adapter.
\<close>

definition SoftBusTimerInit :: "'h option \<Rightarrow> 'h option \<Rightarrow> int \<Rightarrow> int \<times> 'h option" where
  "SoftBusTimerInit g_timerId created started =
     (if g_timerId \<noteq> None then (SOFTBUS_OK, g_timerId)
      else if started \<noteq> SOFTBUS_OK then (SOFTBUS_ERR, None)
      else (SOFTBUS_OK, created))"

definition SoftBusTimerDeInit :: "'h option \<Rightarrow> 'h option" where
  "SoftBusTimerDeInit g_timerId = (if g_timerId \<noteq> None then None else g_timerId)"

section \<open>Hexadecimal conversion\<close>

abbreviation (input) HEXIFY_UNIT_LEN :: nat where "HEXIFY_UNIT_LEN \<equiv> 2"

definition UN_HEXIFY_LEN :: "u32 \<Rightarrow> u32" where
  "UN_HEXIFY_LEN len = len div 2"

definition HEXIFY_LEN :: "u32 \<Rightarrow> u32" where
  "HEXIFY_LEN len = len * 2 + 1"

text \<open>The digit cascade that \<open>ConvertHexStringToBytes\<close> applies to each of the two characters.\<close>

definition hex_digit :: "u8 \<Rightarrow> u8 option" where
  "hex_digit c =
     (if 0x30 \<le> c \<and> c \<le> 0x39 then Some (c - 0x30)
      else if 0x61 \<le> c \<and> c \<le> 0x66 then Some (c - (0x61 - 10))
      else if 0x41 \<le> c \<and> c \<le> 0x46 then Some (c - (0x41 - 10))
      else None)"

fun hex_to_bytes_loop :: "nat \<Rightarrow> nat \<Rightarrow> u8 list \<Rightarrow> u8 list \<Rightarrow> (int \<times> u8 list) option" where
  "hex_to_bytes_loop 0 pos out inp = Some (SOFTBUS_OK, out)"
| "hex_to_bytes_loop (Suc n) pos out inp =
     (case inp of [] \<Rightarrow> None
      | ch # rest \<Rightarrow> (case hex_digit ch of None \<Rightarrow> Some (SOFTBUS_ERR, out)
         | Some c \<Rightarrow> (case rest of [] \<Rightarrow> None
            | ch2 # rest2 \<Rightarrow> (case hex_digit ch2 of None \<Rightarrow> Some (SOFTBUS_ERR, out)
               | Some c2 \<Rightarrow>
                   if pos < length out
                   then hex_to_bytes_loop n (Suc pos) (out[pos := push_bit 4 c OR c2]) rest2
                   else None))))"

definition ConvertHexStringToBytes ::
  "u8 list option \<Rightarrow> u32 \<Rightarrow> u8 list option \<Rightarrow> u32 \<Rightarrow> (int \<times> u8 list option) option" where
  "ConvertHexStringToBytes outBuf outBufLen inBuf inLen =
     (case (outBuf, inBuf) of
        (Some out, Some inp) \<Rightarrow>
          if inLen mod 2 \<noteq> 0 then Some (SOFTBUS_ERR, outBuf)
          else map_option (\<lambda>(r, b). (r, Some b))
                 (hex_to_bytes_loop (unat (UN_HEXIFY_LEN inLen)) 0 out inp)
      | _ \<Rightarrow> Some (SOFTBUS_ERR, outBuf))"

definition hex_char :: "u8 \<Rightarrow> u8" where
  "hex_char h = (if h < 10 then 0x30 + h else 0x61 + h - 10)"

fun bytes_to_hex_loop :: "nat \<Rightarrow> nat \<Rightarrow> u8 list \<Rightarrow> u8 list \<Rightarrow> u8 list option" where
  "bytes_to_hex_loop 0 pos out inp = Some out"
| "bytes_to_hex_loop (Suc n) pos out inp =
     (case inp of [] \<Rightarrow> None
      | b # rest \<Rightarrow>
          if Suc pos < length out
          then bytes_to_hex_loop n (pos + 2)
                 ((out[pos := hex_char (b div 16)])[Suc pos := hex_char (b mod 16)]) rest
          else None)"

definition ConvertBytesToHexString ::
  "u8 list option \<Rightarrow> u32 \<Rightarrow> u8 list option \<Rightarrow> u32 \<Rightarrow> (int \<times> u8 list option) option" where
  "ConvertBytesToHexString outBuf outBufLen inBuf inLen =
     (case (outBuf, inBuf) of
        (Some out, Some inp) \<Rightarrow>
          if outBufLen < HEXIFY_LEN inLen then Some (SOFTBUS_ERR, outBuf)
          else map_option (\<lambda>b. (SOFTBUS_OK, Some b)) (bytes_to_hex_loop (unat inLen) 0 out inp)
      | _ \<Rightarrow> Some (SOFTBUS_ERR, outBuf))"

text \<open>
  \<open>rnd\<close> is what \<open>SoftBusGenerateRandomArray\<close> of the crypto adapter delivers for a length: its result
  code and the bytes.
\<close>

definition GenerateRandomStr ::
  "bool \<Rightarrow> (nat \<Rightarrow> int \<times> u8 list) \<Rightarrow> u8 list option \<Rightarrow> u32 \<Rightarrow> (int \<times> u8 list option) option" where
  "GenerateRandomStr alloc_ok rnd str len =
     (if str = None \<or> len < 2 then Some (SOFTBUS_INVALID_PARAM, str)
      else
        let hexLen = len div 2
        in if \<not> alloc_ok then Some (SOFTBUS_MEM_ERR, str)
           else
             let (r, hexAuthId) = rnd (unat hexLen)
             in if r \<noteq> SOFTBUS_OK then Some (SOFTBUS_ERR, str)
                else case ConvertBytesToHexString str len (Some hexAuthId) hexLen of
                    None \<Rightarrow> None
                  | Some (ret, str') \<Rightarrow>
                      if ret \<noteq> SOFTBUS_OK then Some (SOFTBUS_ERR, str') else Some (SOFTBUS_OK, str'))"

text \<open>The length of a string in a buffer; \<^const>\<open>None\<close> when no byte of the buffer ends it.\<close>

definition strlen :: "u8 list \<Rightarrow> nat option" where
  "strlen s = (if 0 \<in> set s then Some (length (takeWhile (\<lambda>c. c \<noteq> 0) s)) else None)"

definition IsValidString :: "u8 list option \<Rightarrow> u32 \<Rightarrow> bool option" where
  "IsValidString input maxLen =
     (case input of None \<Rightarrow> Some False
      | Some s \<Rightarrow> map_option (\<lambda>n. let len = (of_nat n :: u32) in \<not> maxLen \<le> len) (strlen s))"

section \<open>Bluetooth addresses\<close>

abbreviation (input) BT_MAC_LEN :: u32 where "BT_MAC_LEN \<equiv> 18"
abbreviation (input) BT_ADDR_LEN :: nat where "BT_ADDR_LEN \<equiv> 6"
abbreviation (input) COLON :: u8 where "COLON \<equiv> 0x3A"

text \<open>
  \<open>strtok_r\<close> with the single delimiter \<open>:\<close>: leading delimiters are skipped, the token ends before the
  next one, and the search continues behind it.
\<close>

definition strtok :: "u8 list \<Rightarrow> u8 list option \<times> u8 list" where
  "strtok s =
     (let s' = dropWhile (\<lambda>c. c = COLON) s
      in if s' = [] then (None, [])
         else (Some (takeWhile (\<lambda>c. c \<noteq> COLON) s'), drop 1 (dropWhile (\<lambda>c. c \<noteq> COLON) s')))"

fun strtoul_digits :: "nat \<Rightarrow> u8 list \<Rightarrow> nat" where
  "strtoul_digits acc [] = acc"
| "strtoul_digits acc (c # cs) =
     (case hex_digit c of None \<Rightarrow> acc | Some d \<Rightarrow> strtoul_digits (acc * 16 + unat d) cs)"

definition isspace :: "u8 \<Rightarrow> bool" where
  "isspace c \<longleftrightarrow> c = 0x20 \<or> (0x09 \<le> c \<and> c \<le> 0x0D)"

text \<open>\<open>strtoul\<close> in base 16: white space, a sign, a prefix \<open>0x\<close>, digits; too large a value saturates.\<close>

definition strtoul16 :: "u8 list \<Rightarrow> u64" where
  "strtoul16 s =
     (let s1 = dropWhile isspace s;
          neg = (case s1 of c # _ \<Rightarrow> c = 0x2D | [] \<Rightarrow> False);
          s2 = (case s1 of c # r \<Rightarrow> if c = 0x2D \<or> c = 0x2B then r else s1 | [] \<Rightarrow> s1);
          s3 = (case s2 of c # x # d # r \<Rightarrow>
                  if c = 0x30 \<and> (x = 0x78 \<or> x = 0x58) \<and> hex_digit d \<noteq> None then d # r else s2
                | _ \<Rightarrow> s2);
          v = strtoul_digits 0 s3
      in if 2 ^ 64 \<le> v then - 1 else if neg then - of_nat v else of_nat v)"

fun bt_mac_loop :: "nat \<Rightarrow> nat \<Rightarrow> u8 list \<Rightarrow> u8 list option \<times> u8 list \<Rightarrow> int \<times> u8 list" where
  "bt_mac_loop 0 i binMac st = (SOFTBUS_OK, binMac)"
| "bt_mac_loop (Suc n) i binMac (token, next) =
     (case token of None \<Rightarrow> (SOFTBUS_ERR, binMac)
      | Some t \<Rightarrow> bt_mac_loop n (Suc i) (binMac[i := ucast (strtoul16 t)]) (strtok next))"

definition ConvertBtMacToBinary ::
  "bool \<Rightarrow> u8 list option \<Rightarrow> u32 \<Rightarrow> u8 list option \<Rightarrow> u32 \<Rightarrow> (int \<times> u8 list option) option" where
  "ConvertBtMacToBinary alloc_ok strMac strMacLen binMac binMacLen =
     (case (strMac, binMac) of
        (Some s, Some b) \<Rightarrow>
          if strMacLen < BT_MAC_LEN \<or> binMacLen < of_nat BT_ADDR_LEN then Some (SOFTBUS_INVALID_PARAM, binMac)
          else if \<not> alloc_ok then Some (SOFTBUS_MALLOC_ERR, binMac)
          else if \<not> memcpy_s_ok (unat strMacLen) (unat strMacLen) then Some (SOFTBUS_MEM_ERR, binMac)
          else if length s < unat strMacLen \<or> length b < BT_ADDR_LEN then None
          else
            (let tmpMac = take (unat strMacLen) s
             in case strlen tmpMac of None \<Rightarrow> None
                | Some n \<Rightarrow>
                    let (ret, b') = bt_mac_loop BT_ADDR_LEN 0 b (strtok (take n tmpMac))
                    in Some (ret, Some b'))
      | _ \<Rightarrow> Some (SOFTBUS_INVALID_PARAM, binMac))"

text \<open>The text of the conversion \<open>%02x\<close> and of the whole format.\<close>

definition fmt_02x :: "u8 \<Rightarrow> u8 list" where
  "fmt_02x b = [hex_char (b div 16), hex_char (b mod 16)]"

definition fmt_mac :: "u8 list \<Rightarrow> u8 list" where
  "fmt_mac b = fmt_02x (b ! 0) @ [COLON] @ fmt_02x (b ! 1) @ [COLON] @ fmt_02x (b ! 2) @ [COLON] @
     fmt_02x (b ! 3) @ [COLON] @ fmt_02x (b ! 4) @ [COLON] @ fmt_02x (b ! 5)"

text \<open>
  \<open>snprintf_s dest destMax count text\<close> is the result and the destination after the call, where \<open>text\<close>
  is the formatted text without its end.
\<close>

definition ConvertBtMacToStr ::
  "(u8 list \<Rightarrow> nat \<Rightarrow> nat \<Rightarrow> u8 list \<Rightarrow> int \<times> u8 list) \<Rightarrow>
   u8 list option \<Rightarrow> u32 \<Rightarrow> u8 list option \<Rightarrow> u32 \<Rightarrow> (int \<times> u8 list option) option" where
  "ConvertBtMacToStr snprintf_s strMac strMacLen binMac binMacLen =
     (case (strMac, binMac) of
        (Some s, Some b) \<Rightarrow>
          if strMacLen < BT_MAC_LEN \<or> binMacLen < of_nat BT_ADDR_LEN then Some (SOFTBUS_INVALID_PARAM, strMac)
          else if length b < BT_ADDR_LEN then None
          else
            let (ret, s') = snprintf_s s (unat strMacLen) (unat strMacLen - 1) (fmt_mac b)
            in if ret < 0 then Some (SOFTBUS_ERR, Some s') else Some (SOFTBUS_OK, Some s')
      | _ \<Rightarrow> Some (SOFTBUS_INVALID_PARAM, strMac))"

section \<open>Comparison without case\<close>

definition toupper :: "u8 \<Rightarrow> u8" where
  "toupper c = (if 0x61 \<le> c \<and> c \<le> 0x7A then c - 0x20 else c)"

fun strnicmp_loop :: "u32 \<Rightarrow> u8 list \<Rightarrow> u8 list \<Rightarrow> int option" where
  "strnicmp_loop i (a # as) (b # bs) =
     (let ca = uint (toupper a); cb = uint (toupper b); i' = i - 1
      in if ca = cb \<and> 0 < i' then strnicmp_loop i' as bs else Some (ca - cb))"
| "strnicmp_loop i _ _ = None"

definition Strnicmp :: "u8 list option \<Rightarrow> u8 list option \<Rightarrow> u32 \<Rightarrow> int option" where
  "Strnicmp src1 src2 len =
     (case (src1, src2) of
        (Some s1, Some s2) \<Rightarrow>
          (case strlen s1 of None \<Rightarrow> None
           | Some n1 \<Rightarrow>
               if n1 + 1 < unat len then Some SOFTBUS_ERR
               else case strlen s2 of None \<Rightarrow> None
                  | Some n2 \<Rightarrow>
                      if n2 + 1 < unat len then Some SOFTBUS_ERR else strnicmp_loop len s1 s2)
      | _ \<Rightarrow> Some SOFTBUS_ERR)"

section \<open>Printing of signalling messages\<close>

record signaling_switch =
  g_signalingMsgSwitch :: bool

definition SetSignalingMsgSwitchOn :: "signaling_switch \<Rightarrow> signaling_switch" where
  "SetSignalingMsgSwitchOn g = g\<lparr>g_signalingMsgSwitch := True\<rparr>"

definition SetSignalingMsgSwitchOff :: "signaling_switch \<Rightarrow> signaling_switch" where
  "SetSignalingMsgSwitchOff g = g\<lparr>g_signalingMsgSwitch := False\<rparr>"

definition GetSignalingMsgSwitch :: "signaling_switch \<Rightarrow> bool" where
  "GetSignalingMsgSwitch g = g_signalingMsgSwitch g"

abbreviation (input) BUF_BYTE_LEN :: u8 where "BUF_BYTE_LEN \<equiv> 64"
abbreviation (input) BUF_HEX_LEN :: nat where "BUF_HEX_LEN \<equiv> 128"
abbreviation (input) SOFTBUS_LOG_CONN :: u32 where "SOFTBUS_LOG_CONN \<equiv> 2"
abbreviation (input) SOFTBUS_LOG_DISC :: u32 where "SOFTBUS_LOG_DISC \<equiv> 4"

text \<open>The hexadecimal text that is printed, if any; printing needs the end of the string.\<close>

definition SignalingMsgPrint :: "signaling_switch \<Rightarrow> u8 list option \<Rightarrow> u8 \<Rightarrow> u32 \<Rightarrow> u8 list option option" where
  "SignalingMsgPrint g data dataLen module =
     (let signalingMsgBuf = replicate BUF_HEX_LEN 0
      in if \<not> GetSignalingMsgSwitch g then Some None
         else
           case (if BUF_BYTE_LEN \<le> dataLen
                 then ConvertBytesToHexString (Some signalingMsgBuf) (of_nat (BUF_HEX_LEN + 1)) data (ucast BUF_BYTE_LEN)
                 else ConvertBytesToHexString (Some signalingMsgBuf) (of_nat (BUF_HEX_LEN + 1)) data (ucast dataLen)) of
             Some (ret, Some buf) \<Rightarrow>
               if ret \<noteq> SOFTBUS_OK then Some None
               else if module = SOFTBUS_LOG_DISC \<or> module = SOFTBUS_LOG_CONN
               then map_option (\<lambda>n. Some (take n buf)) (strlen buf)
               else Some None
           | _ \<Rightarrow> None)"

section \<open>Masking of addresses\<close>

abbreviation (input) STAR :: u8 where "STAR \<equiv> 0x2A"
abbreviation (input) MAC_DELIMITER :: u8 where "MAC_DELIMITER \<equiv> 0x3A"
abbreviation (input) IP_DELIMITER :: u8 where "IP_DELIMITER \<equiv> 0x2E"
abbreviation (input) ID_DELIMITER :: u8 where "ID_DELIMITER \<equiv> 0x20"

text \<open>
  The loop of \<open>MacInstead\<close> and \<open>IpInstead\<close>, which differ in the count of delimiters from which they
  mask and the one at which they stop.
\<close>

fun instead_loop :: "nat \<Rightarrow> nat \<Rightarrow> u8 \<Rightarrow> nat \<Rightarrow> nat \<Rightarrow> u8 list \<Rightarrow> u8 list option" where
  "instead_loop from stop delimiter delimiterCnt 0 data = Some data"
| "instead_loop from stop delimiter delimiterCnt (Suc n) data =
     (if delimiterCnt = stop then Some data
      else case data of [] \<Rightarrow> None
         | c # cs \<Rightarrow>
             let cnt = (if c = delimiter then Suc delimiterCnt else delimiterCnt);
                 c' = (if from \<le> cnt \<and> c \<noteq> delimiter then STAR else c)
             in map_option (\<lambda>r. c' # r) (instead_loop from stop delimiter cnt n cs))"

definition MacInstead :: "u8 list \<Rightarrow> u32 \<Rightarrow> u8 \<Rightarrow> u8 list option" where
  "MacInstead data len delimiter = instead_loop 2 4 delimiter 0 (unat len) data"

definition IpInstead :: "u8 list \<Rightarrow> u32 \<Rightarrow> u8 \<Rightarrow> u8 list option" where
  "IpInstead data len delimiter = instead_loop 1 3 delimiter 0 (unat len) data"

fun id_loop :: "nat \<Rightarrow> nat \<Rightarrow> nat \<Rightarrow> u8 list \<Rightarrow> u8 list option" where
  "id_loop halfLen i 0 data = Some data"
| "id_loop halfLen i (Suc n) data =
     (if halfLen < i then
        (if i < length data then id_loop halfLen (Suc i) n (data[i := STAR]) else None)
      else id_loop halfLen (Suc i) n data)"

definition IdInstead :: "u8 list \<Rightarrow> u32 \<Rightarrow> u8 list option" where
  "IdInstead data len = id_loop (unat (len div 2)) 0 (unat len) data"

definition DataMasking :: "bool \<Rightarrow> u8 list option \<Rightarrow> u32 \<Rightarrow> u8 \<Rightarrow> u8 list option option" where
  "DataMasking alloc_ok data len delimiter =
     (if \<not> alloc_ok then Some None
      else case data of None \<Rightarrow> Some None
         | Some d \<Rightarrow>
             if \<not> memcpy_s_ok (unat len) (unat len) then Some None
             else if length d < unat len then None
             else
               let dataStr = take (unat len) d @ [0]
               in map_option Some
                    (if delimiter = MAC_DELIMITER then MacInstead dataStr len delimiter
                     else if delimiter = IP_DELIMITER then IpInstead dataStr len delimiter
                     else if delimiter = ID_DELIMITER then IdInstead dataStr len
                     else Some dataStr))"

section \<open>Wi-Fi channels\<close>

definition SoftBusChannelToFrequency :: "int \<Rightarrow> int" where
  "SoftBusChannelToFrequency channel =
     (if 1 \<le> channel \<and> channel \<le> 13 then (channel - 1) * 5 + 2412
      else if 34 \<le> channel \<and> channel \<le> 165 then (channel - 34) * 5 + 5170
      else - 1)"

definition SoftBusFrequencyToChannel :: "int \<Rightarrow> int" where
  "SoftBusFrequencyToChannel frequency =
     (if 2412 \<le> frequency \<and> frequency \<le> 2472 then (frequency - 2412) div 5 + 1
      else if 5170 \<le> frequency \<and> frequency \<le> 5825 then (frequency - 5170) div 5 + 34
      else - 1)"

definition SoftBusIs5GBand :: "int \<Rightarrow> bool" where
  "SoftBusIs5GBand frequency = (5170 \<le> frequency \<and> frequency \<le> 5825)"

definition SoftBusIs2GBand :: "int \<Rightarrow> bool" where
  "SoftBusIs2GBand frequency = (2412 \<le> frequency \<and> frequency \<le> 2472)"

section \<open>Hexadecimal text\<close>

lemma hex_digit_char: "h < 16 \<Longrightarrow> hex_digit (hex_char h) = Some h"
proof -
  assume h: "h < 16"
  then have u: "unat h < 16" by (simp add: word_less_nat_alt)
  have "unat (hex_char h) = (if unat h < 10 then 48 + unat h else 87 + unat h)"
    using u by (auto simp: hex_char_def word_less_nat_alt unat_word_ariths unat_sub_if')
  then show ?thesis
    using u by (auto simp: hex_digit_def word_le_nat_alt unat_sub_if' split: if_splits
        intro!: unsigned_word_eqI [where ?'a = nat])
qed

lemma nibbles: "push_bit 4 (b div 16) OR (b mod 16) = (b :: u8)"
proof -
  have "push_bit 4 (drop_bit 4 b) OR take_bit 4 b = b"
    by (intro bit_word_eqI) (auto simp: bit_or_iff bit_push_bit_iff bit_drop_bit_eq bit_take_bit_iff)
  then show ?thesis by (simp add: drop_bit_eq_div take_bit_eq_mod)
qed

lemma nibble_bounds: "(b :: u8) div 16 < 16" "(b :: u8) mod 16 < 16"
proof -
  have "unat b < 256" using unsigned_less [where ?'a = nat, of b] by simp
  then show "b div 16 < 16" "b mod 16 < 16" by (auto simp: word_less_nat_alt unat_div unat_mod)
qed

lemma write_pair:
  assumes "Suc pos < length out"
  shows "take (Suc (Suc pos)) ((out[pos := x])[Suc pos := y]) = take pos out @ [x, y]"
    and "drop (Suc (Suc pos) + n) ((out[pos := x])[Suc pos := y]) = drop (Suc (Suc pos) + n) out"
  using assms by (simp_all add: take_Suc_conv_app_nth)

lemma write_one:
  assumes "pos < length out"
  shows "take (Suc pos) (out[pos := x]) = take pos out @ [x]"
    and "drop (Suc pos + n) (out[pos := x]) = drop (Suc pos + n) out"
  using assms by (simp_all add: take_Suc_conv_app_nth)

lemma bytes_to_hex_loop_eq:
  "n \<le> length inp \<Longrightarrow> pos + 2 * n \<le> length out \<Longrightarrow>
   bytes_to_hex_loop n pos out inp =
     Some (take pos out @ concat (map fmt_02x (take n inp)) @ drop (pos + 2 * n) out)"
proof (induction n arbitrary: pos out inp)
  case (Suc n)
  then obtain b rest where inp: "inp = b # rest" by (cases inp) auto
  let ?out = "(out[pos := hex_char (b div 16)])[Suc pos := hex_char (b mod 16)]"
  have "bytes_to_hex_loop n (Suc (Suc pos)) ?out rest =
      Some (take (Suc (Suc pos)) ?out @ concat (map fmt_02x (take n rest)) @
        drop (Suc (Suc pos) + 2 * n) ?out)"
    using Suc.prems inp by (intro Suc.IH) auto
  moreover have "Suc pos < length out" using Suc.prems by simp
  ultimately show ?case
    unfolding inp by (simp only: write_pair) (simp add: fmt_02x_def [of b])
qed simp

lemma hex_to_bytes_loop_eq:
  "pos + length bs \<le> length out \<Longrightarrow>
   hex_to_bytes_loop (length bs) pos out (concat (map fmt_02x bs) @ rest) =
     Some (SOFTBUS_OK, take pos out @ bs @ drop (pos + length bs) out)"
proof (induction bs arbitrary: pos out)
  case (Cons b bs)
  have "hex_to_bytes_loop (length bs) (Suc pos) (out[pos := b]) (concat (map fmt_02x bs) @ rest) =
      Some (SOFTBUS_OK, take (Suc pos) (out[pos := b]) @ bs @ drop (Suc pos + length bs) (out[pos := b]))"
    using Cons.prems by (intro Cons.IH) simp
  moreover have "pos < length out" using Cons.prems by simp
  ultimately show ?case
    by (simp only: write_one)
      (simp add: fmt_02x_def [of b] hex_digit_char nibble_bounds nibbles)
qed simp

lemma HEXIFY_LEN_unat: "unat len < 2 ^ 31 \<Longrightarrow> unat (HEXIFY_LEN len) = 2 * unat len + 1"
  by (simp add: HEXIFY_LEN_def unat_word_ariths)

lemma length_hex_text: "length (concat (map fmt_02x bs)) = 2 * length bs"
  by (induction bs) (simp_all add: fmt_02x_def)

lemma ConvertBytesToHexString_eq:
  assumes "unat inLen \<le> length inp" "2 * unat inLen < unat outBufLen" "2 * unat inLen \<le> length out"
  shows "ConvertBytesToHexString (Some out) outBufLen (Some inp) inLen =
    Some (SOFTBUS_OK, Some (concat (map fmt_02x (take (unat inLen) inp)) @ drop (2 * unat inLen) out))"
proof -
  have "2 * unat inLen < 4294967296" using assms(2) unat_lt32 [of outBufLen] by linarith
  then have "unat inLen < 2 ^ 31" by simp
  then have "\<not> outBufLen < HEXIFY_LEN inLen"
    using assms(2) by (simp add: word_less_nat_alt HEXIFY_LEN_unat)
  then show ?thesis
    using assms(1,3) by (simp add: ConvertBytesToHexString_def bytes_to_hex_loop_eq)
qed

section \<open>Properties of the conversions\<close>

text \<open>
  Hexadecimal text written by \<open>ConvertBytesToHexString\<close> is read back by
  \<open>ConvertHexStringToBytes\<close> to the bytes it was made of, for every input whose text fits the output
  buffer, without a read or a write outside the buffers.
\<close>

theorem hex_round_trip:
  assumes "unat len = length bytes" "2 * length bytes < unat textLen" "unat textLen \<le> length text"
    "length bytes \<le> length out"
  shows "\<exists>text'. ConvertBytesToHexString (Some text) textLen (Some bytes) len = Some (SOFTBUS_OK, Some text') \<and>
    length text' = length text \<and>
    ConvertHexStringToBytes (Some out) outLen (Some text') (2 * len) =
      Some (SOFTBUS_OK, Some (bytes @ drop (length bytes) out))"
proof -
  let ?text = "concat (map fmt_02x bytes) @ drop (2 * length bytes) text"
  have enc: "ConvertBytesToHexString (Some text) textLen (Some bytes) len = Some (SOFTBUS_OK, Some ?text)"
    using assms by (simp add: ConvertBytesToHexString_eq)
  have "2 * length bytes < 4294967296" using assms(2) unat_lt32 [of textLen] by linarith
  then have small: "unat (2 * len) = 2 * length bytes"
    using assms(1) by (simp add: unat_word_ariths)
  then have "unat (UN_HEXIFY_LEN (2 * len)) = length bytes" "2 * len mod 2 = 0"
    by (auto simp: UN_HEXIFY_LEN_def unat_div word_arith_nat_mod intro!: unsigned_word_eqI [where ?'a = nat])
  then have "ConvertHexStringToBytes (Some out) outLen (Some ?text) (2 * len) =
      Some (SOFTBUS_OK, Some (bytes @ drop (length bytes) out))"
    using assms(4) by (simp add: ConvertHexStringToBytes_def hex_to_bytes_loop_eq)
  moreover have "length ?text = length text" using assms(2,3) by (simp add: length_hex_text)
  ultimately show ?thesis using enc by blast
qed

theorem hex_round_trip_witness:
  "\<exists>text'. ConvertBytesToHexString (Some (replicate 8 0)) 8 (Some [0x1F, 0xA0]) 2 = Some (SOFTBUS_OK, Some text') \<and>
    length text' = 8 \<and>
    ConvertHexStringToBytes (Some [7, 7, 7]) 3 (Some text') 4 = Some (SOFTBUS_OK, Some [0x1F, 0xA0, 7])"
  using hex_round_trip [of 2 "[0x1F, 0xA0]" 8 "replicate 8 0" "[7, 7, 7]" 3] by simp

lemma hex_to_bytes_loop_sound:
  "hex_to_bytes_loop n pos out inp = Some (SOFTBUS_OK, out') \<Longrightarrow>
   2 * n \<le> length inp \<and> length out' = length out \<and>
   (\<forall>i < n. \<exists>h l. hex_digit (inp ! (2 * i)) = Some h \<and> hex_digit (inp ! (2 * i + 1)) = Some l \<and>
      (pos + i < length out \<and> out' ! (pos + i) = push_bit 4 h OR l)) \<and> (\<forall>i < pos. out' ! i = out ! i)"
proof (induction n arbitrary: pos out inp)
  case (Suc n)
  then obtain c1 c2 r h l where inp: "inp = c1 # c2 # r" "hex_digit c1 = Some h" "hex_digit c2 = Some l"
    and pos: "pos < length out"
    and rest: "hex_to_bytes_loop n (Suc pos) (out[pos := push_bit 4 h OR l]) r = Some (SOFTBUS_OK, out')"
    by (auto split: list.splits option.splits if_splits)
  note ih = Suc.IH [OF rest]
  have "out' ! pos = push_bit 4 h OR l" using ih pos by simp
  moreover have "\<exists>h l. hex_digit (inp ! (2 * i)) = Some h \<and> hex_digit (inp ! (2 * i + 1)) = Some l \<and>
      (pos + i < length out \<and> out' ! (pos + i) = push_bit 4 h OR l)" if "i < Suc n" "0 < i" for i
    using that ih inp by (cases i) auto
  ultimately have "\<forall>i < Suc n. \<exists>h l. hex_digit (inp ! (2 * i)) = Some h \<and>
      hex_digit (inp ! (2 * i + 1)) = Some l \<and> (pos + i < length out \<and> out' ! (pos + i) = push_bit 4 h OR l)"
    using inp pos by (metis One_nat_def Nat.add_0_right add.left_neutral gr_zeroI mult_0_right nth_Cons_0 nth_Cons_Suc)
  then show ?case using ih inp pos by auto
qed simp

text \<open>
  \<open>GenerateRandomStr\<close> succeeds for odd lengths only: it asks for \<open>len / 2\<close> bytes, whose text needs
  \<open>2 * (len / 2) + 1\<close> places. With an odd length it fills all places but the last with hexadecimal
  text of the random bytes; with an even length it returns an error and leaves the buffer as it was.
\<close>

theorem GenerateRandomStr_parity:
  assumes "2 \<le> len" "unat len \<le> length str" "rnd (unat (len div 2)) = (SOFTBUS_OK, bytes)"
    "length bytes = unat (len div 2)"
  shows "GenerateRandomStr True rnd (Some str) len =
    (if odd (unat len)
     then Some (SOFTBUS_OK, Some (concat (map fmt_02x bytes) @ drop (unat len - 1) str))
     else Some (SOFTBUS_ERR, Some str))"
proof -
  have guard: "\<not> (Some str = None \<or> len < 2)" using assms(1) by (simp add: not_less)
  have half: "unat (len div 2) = unat len div 2" by (simp add: unat_div)
  have big: "unat len div 2 < 2 ^ 31" using unat_lt32 [of len] by (simp add: less_mult_imp_div_less)
  show ?thesis
  proof (cases "odd (unat len)")
    case True
    then have two: "2 * (unat len div 2) = unat len - 1" "0 < unat len" by (auto elim: oddE)
    have "ConvertBytesToHexString (Some str) len (Some bytes) (len div 2) =
        Some (SOFTBUS_OK, Some (concat (map fmt_02x bytes) @ drop (unat len - 1) str))"
      using assms(2,4) two half
      by (subst ConvertBytesToHexString_eq) auto
    then show ?thesis using guard assms(3) True by (simp add: GenerateRandomStr_def Let_def)
  next
    case False
    then have "len < HEXIFY_LEN (len div 2)"
      using big half by (simp add: word_less_nat_alt HEXIFY_LEN_unat)
    then have "ConvertBytesToHexString (Some str) len (Some bytes) (len div 2) = Some (SOFTBUS_ERR, Some str)"
      by (simp add: ConvertBytesToHexString_def)
    then show ?thesis using guard assms(3) False by (simp add: GenerateRandomStr_def Let_def)
  qed
qed

theorem GenerateRandomStr_parity_witness:
  "GenerateRandomStr True (\<lambda>n. (SOFTBUS_OK, replicate n 0xAB)) (Some (replicate 4 0)) 4 =
     Some (SOFTBUS_ERR, Some (replicate 4 0))"
  using GenerateRandomStr_parity
    [of 4 "replicate 4 0" "\<lambda>n. (SOFTBUS_OK, replicate n 0xAB)" "replicate 2 0xAB"]
  by (simp add: unat_div)

lemma hex_to_bytes_loop_total:
  "2 * n \<le> length inp \<Longrightarrow> pos + n \<le> length out \<Longrightarrow>
   \<exists>out'. hex_to_bytes_loop n pos out inp =
     Some (if \<forall>i < 2 * n. hex_digit (inp ! i) \<noteq> None then SOFTBUS_OK else SOFTBUS_ERR, out')"
proof (induction n arbitrary: pos out inp)
  case (Suc n)
  then obtain c1 c2 r where inp: "inp = c1 # c2 # r"
    by (cases inp; cases "tl inp") auto
  have all: "(\<forall>i < 2 * Suc n. hex_digit (inp ! i) \<noteq> None) \<longleftrightarrow>
      hex_digit c1 \<noteq> None \<and> hex_digit c2 \<noteq> None \<and> (\<forall>i < 2 * n. hex_digit (r ! i) \<noteq> None)"
    unfolding mult_Suc_right numeral_2_eq_2 add_Suc add_0 All_less_Suc2 inp by simp
  show ?case
  proof (cases "hex_digit c1 = None \<or> hex_digit c2 = None")
    case True
    then show ?thesis using all inp by (auto split: option.splits)
  next
    case False
    then obtain h l where d: "hex_digit c1 = Some h" "hex_digit c2 = Some l" by auto
    have "\<exists>out'. hex_to_bytes_loop n (Suc pos) (out[pos := push_bit 4 h OR l]) r =
        Some (if \<forall>i < 2 * n. hex_digit (r ! i) \<noteq> None then SOFTBUS_OK else SOFTBUS_ERR, out')"
      using Suc.prems inp by (intro Suc.IH) auto
    then show ?thesis using all inp d Suc.prems by auto
  qed
qed simp

text \<open>
  \<open>ConvertHexStringToBytes\<close> on an even number of characters decides whether all of them are
  hexadecimal digits of either case, and in that case byte \<open>i\<close> of the output is made of the digits
  \<open>2 i\<close> and \<open>2 i + 1\<close>; the size it is given for the output plays no part.
\<close>

theorem ConvertHexStringToBytes_decides:
  assumes "even (unat inLen)" "unat inLen \<le> length inp" "unat inLen div 2 \<le> length out"
  shows "\<exists>r out'. ConvertHexStringToBytes (Some out) outLen (Some inp) inLen = Some (r, Some out') \<and>
    r = (if \<forall>i < unat inLen. hex_digit (inp ! i) \<noteq> None then SOFTBUS_OK else SOFTBUS_ERR) \<and>
    (r = SOFTBUS_OK \<longrightarrow> (\<forall>i < unat inLen div 2. \<exists>h l. hex_digit (inp ! (2 * i)) = Some h \<and>
       hex_digit (inp ! (2 * i + 1)) = Some l \<and> out' ! i = push_bit 4 h OR l))"
proof -
  let ?n = "unat inLen div 2"
  have n: "2 * ?n = unat inLen" using assms(1) by simp
  obtain out' where run: "hex_to_bytes_loop ?n 0 out inp =
      Some (if \<forall>i < unat inLen. hex_digit (inp ! i) \<noteq> None then SOFTBUS_OK else SOFTBUS_ERR, out')"
    using hex_to_bytes_loop_total [of ?n inp 0 out] assms n by auto
  have bytes: "\<forall>i < ?n. \<exists>h l. hex_digit (inp ! (2 * i)) = Some h \<and>
      hex_digit (inp ! (2 * i + 1)) = Some l \<and> out' ! i = push_bit 4 h OR l"
    if "\<forall>i < unat inLen. hex_digit (inp ! i) \<noteq> None"
  proof -
    have "hex_to_bytes_loop ?n 0 out inp = Some (SOFTBUS_OK, out')" using run that by presburger
    from hex_to_bytes_loop_sound [OF this] show ?thesis unfolding add_0 by blast
  qed
  have "inLen mod 2 = 0" "unat (UN_HEXIFY_LEN inLen) = ?n"
    using assms(1) by (auto simp: UN_HEXIFY_LEN_def unat_div unat_mod even_iff_mod_2_eq_zero
        intro!: unsigned_word_eqI [where ?'a = nat])
  then have "ConvertHexStringToBytes (Some out) outLen (Some inp) inLen =
      Some (if \<forall>i < unat inLen. hex_digit (inp ! i) \<noteq> None then SOFTBUS_OK else SOFTBUS_ERR, Some out')"
    using run by (simp add: ConvertHexStringToBytes_def)
  then show ?thesis using bytes
    by (cases "\<forall>i < unat inLen. hex_digit (inp ! i) \<noteq> None") simp_all
qed

theorem ConvertHexStringToBytes_decides_witness:
  "\<exists>r out'. ConvertHexStringToBytes (Some [0, 0]) 1 (Some [0x66, 0x46, 0x30, 0x67]) 4 = Some (r, Some out') \<and>
      r = SOFTBUS_ERR"
proof -
  have "hex_digit ([0x66, 0x46, 0x30, 0x67] ! 3) = None" by (simp add: hex_digit_def)
  then have bad: "\<not> (\<forall>i < unat (4 :: u32). hex_digit ([0x66, 0x46, 0x30, 0x67] ! i) \<noteq> None)"
    by (intro notI) (drule spec [of _ 3], simp)
  have "even (unat (4 :: u32))" "unat (4 :: u32) \<le> length [0x66 :: u8, 0x46, 0x30, 0x67]"
    "unat (4 :: u32) div 2 \<le> length [0 :: u8, 0]" by simp_all
  from ConvertHexStringToBytes_decides [OF this, of 1] bad show ?thesis by (simp only: if_False) blast
qed

section \<open>Bluetooth addresses there and back\<close>

lemma hex_char_range:
  assumes "h < 16"
  shows "hex_char h \<noteq> COLON" "hex_char h \<noteq> 0" "\<not> isspace (hex_char h)" "hex_char h \<noteq> 0x2D"
    "hex_char h \<noteq> 0x2B"
proof -
  have u: "unat h < 16" using assms by (simp add: word_less_nat_alt)
  have "unat (hex_char h) = (if unat h < 10 then 48 + unat h else 87 + unat h)"
    using u by (auto simp: hex_char_def word_less_nat_alt unat_word_ariths unat_sub_if')
  then have r: "(48 \<le> unat (hex_char h) \<and> unat (hex_char h) \<le> 57) \<or>
      (97 \<le> unat (hex_char h) \<and> unat (hex_char h) \<le> 102)"
    using u by auto
  then show "hex_char h \<noteq> COLON" "hex_char h \<noteq> 0" "hex_char h \<noteq> 0x2D" "hex_char h \<noteq> 0x2B" by auto
  show "\<not> isspace (hex_char h)" using r by (auto simp: isspace_def word_le_nat_alt)
qed

lemmas hex_char_facts = hex_char_range [OF nibble_bounds(1)] hex_char_range [OF nibble_bounds(2)]

lemma strtok_field:
  "strtok (fmt_02x b @ COLON # r) = (Some (fmt_02x b), r)"
  "strtok (fmt_02x b) = (Some (fmt_02x b), [])"
  by (simp_all add: strtok_def fmt_02x_def hex_char_facts)

lemma strtoul_field: "(ucast (strtoul16 (fmt_02x b)) :: u8) = b"
proof -
  have v: "strtoul_digits 0 (fmt_02x b) = unat b"
    by (simp add: fmt_02x_def hex_digit_char nibble_bounds unat_div unat_mod)
  have "unat b < 256" using unsigned_less [where ?'a = nat, of b] by simp
  then have "strtoul16 (fmt_02x b) = of_nat (unat b)"
    using v by (simp add: strtoul16_def fmt_02x_def hex_char_facts Let_def)
  then show ?thesis by (intro bit_word_eqI) (simp add: bit_unsigned_iff)
qed

lemma length_fmt_02x [simp]: "length (fmt_02x b) = 2"
  by (simp add: fmt_02x_def)

lemma fmt_mac_no_nul: "c \<in> set (fmt_mac b) \<Longrightarrow> c \<noteq> 0"
  by (auto simp: fmt_mac_def fmt_02x_def hex_char_facts)

lemma length_fmt_mac [simp]: "length (fmt_mac b) = 17"
  by (simp add: fmt_mac_def)

lemma bt_mac_loop_fmt:
  assumes "length m = 6" "length b = 6"
  shows "bt_mac_loop 6 0 b (strtok (fmt_mac m)) = (SOFTBUS_OK, m)"
proof -
  obtain m0 m1 m2 m3 m4 m5 where m: "m = [m0, m1, m2, m3, m4, m5]"
    using assms(1) by (auto simp: numeral_eq_Suc length_Suc_conv)
  obtain b0 b1 b2 b3 b4 b5 where b: "b = [b0, b1, b2, b3, b4, b5]"
    using assms(2) by (auto simp: numeral_eq_Suc length_Suc_conv)
  show ?thesis
    unfolding m b fmt_mac_def
    by (simp add: numeral_eq_Suc strtok_field strtoul_field)
qed

lemma strlen_prefix:
  assumes "\<forall>c \<in> set t. c \<noteq> 0"
  shows "strlen (t @ 0 # r) = Some (length t)"
  using assms by (simp add: strlen_def takeWhile_append2)

text \<open>
  A Bluetooth address printed by \<open>ConvertBtMacToStr\<close> is parsed back by \<open>ConvertBtMacToBinary\<close> to
  the six bytes it came from, whatever their values, provided \<open>snprintf_s\<close> writes a text that fits
  followed by the end of the string.
\<close>

theorem bt_mac_round_trip:
  assumes fits: "\<And>dest destMax cnt text. length text \<le> cnt \<Longrightarrow> cnt < destMax \<Longrightarrow> destMax \<le> length dest \<Longrightarrow>
      snprintf_s dest destMax cnt text = (int (length text), text @ 0 # drop (Suc (length text)) dest)"
    and "length mac = 6" "length bin = 6" "18 \<le> strLen" "unat strLen = length buf" "length buf \<le> SECUREC_MEM_MAX_LEN"
    and "6 \<le> macLen" "6 \<le> binLen"
  shows "\<exists>text. ConvertBtMacToStr snprintf_s (Some buf) strLen (Some mac) macLen = Some (SOFTBUS_OK, Some text) \<and>
    ConvertBtMacToBinary True (Some text) strLen (Some bin) binLen = Some (SOFTBUS_OK, Some mac)"
proof -
  let ?text = "fmt_mac mac @ 0 # drop 18 buf"
  have len: "18 \<le> unat strLen" using assms(4) by (simp add: word_le_nat_alt)
  have w: "snprintf_s buf (unat strLen) (unat strLen - 1) (fmt_mac mac) = (17, ?text)"
    using fits [of "fmt_mac mac" "unat strLen - 1" "unat strLen" buf] len assms(5) by simp
  have "ConvertBtMacToStr snprintf_s (Some buf) strLen (Some mac) macLen = Some (SOFTBUS_OK, Some ?text)"
    using w assms(2,4,7) by (simp add: ConvertBtMacToStr_def not_less)
  moreover have "length ?text = unat strLen" "buf \<noteq> []" using len assms(5) by auto
  moreover have "strlen ?text = Some 17"
    using strlen_prefix [of "fmt_mac mac" "drop 18 buf"] fmt_mac_no_nul by auto
  ultimately show ?thesis
    using assms(2-8) len bt_mac_loop_fmt [OF assms(2,3)]
    by (simp add: ConvertBtMacToBinary_def not_less memcpy_s_ok_def)
qed

text \<open>A \<open>snprintf_s\<close> that truncates nothing and reports text that does not fit.\<close>

definition snprintf_s_exact :: "u8 list \<Rightarrow> nat \<Rightarrow> nat \<Rightarrow> u8 list \<Rightarrow> int \<times> u8 list" where
  "snprintf_s_exact dest destMax cnt text =
     (if length text \<le> cnt \<and> cnt < destMax then (int (length text), text @ 0 # drop (Suc (length text)) dest)
      else (- 1, dest))"

theorem bt_mac_round_trip_witness:
  "\<exists>text. ConvertBtMacToStr snprintf_s_exact (Some (replicate 18 0)) 18 (Some [1, 2, 0xFF, 4, 5, 6]) 6 =
      Some (SOFTBUS_OK, Some text) \<and>
    ConvertBtMacToBinary True (Some text) 18 (Some (replicate 6 0)) 6 = Some (SOFTBUS_OK, Some [1, 2, 0xFF, 4, 5, 6])"
  by (rule bt_mac_round_trip) (simp_all add: snprintf_s_exact_def)

section \<open>Comparison and masking\<close>

lemma uint_eq_u8: "uint (x :: u8) = uint y \<longleftrightarrow> x = y"
  by (auto intro: unsigned_word_eqI)

lemma strlen_less: "strlen s = Some n \<Longrightarrow> n < length s"
proof -
  have "0 \<in> set s \<Longrightarrow> length (takeWhile (\<lambda>c. c \<noteq> 0) s) < length s" by (induction s) auto
  then show "strlen s = Some n \<Longrightarrow> n < length s" by (auto simp: strlen_def split: if_splits)
qed

lemma strnicmp_loop_eq:
  "0 < unat i \<Longrightarrow> unat i \<le> length a \<Longrightarrow> unat i \<le> length b \<Longrightarrow>
   \<exists>d. strnicmp_loop i a b = Some d \<and>
     (d = 0 \<longleftrightarrow> map toupper (take (unat i) a) = map toupper (take (unat i) b))"
proof (induction i a b rule: strnicmp_loop.induct)
  case (1 i x xs y ys)
  have d: "unat (i - 1) = unat i - 1" using 1(2) by (intro unat_minus_one) auto
  obtain n where n: "unat i = Suc n" using 1(2) gr0_implies_Suc by blast
  show ?case
  proof (cases "toupper x = toupper y \<and> 0 < i - 1")
    case True
    then have "0 < unat (i - 1)" by (simp add: word_less_nat_alt)
    then show ?thesis using 1 True d n by (auto simp: Let_def uint_eq_u8)
  next
    case False
    then have "toupper x \<noteq> toupper y \<or> n = 0"
      using d n by (auto simp: word_less_nat_alt)
    then show ?thesis using False n by (auto simp: Let_def uint_eq_u8)
  qed
qed auto

text \<open>
  \<open>Strnicmp\<close> over at least one character, at most the whole of either string with its end, returns
  a value, and the value is zero exactly if the first \<open>len\<close> characters agree up to their case.
\<close>

theorem Strnicmp_equal_iff:
  assumes "strlen s1 = Some n1" "strlen s2 = Some n2" "0 < len" "unat len \<le> n1 + 1" "unat len \<le> n2 + 1"
  shows "\<exists>d. Strnicmp (Some s1) (Some s2) len = Some d \<and>
    (d = 0 \<longleftrightarrow> map toupper (take (unat len) s1) = map toupper (take (unat len) s2))"
proof -
  have "unat len \<le> length s1" "unat len \<le> length s2"
    using assms(4,5) strlen_less [OF assms(1)] strlen_less [OF assms(2)] by linarith+
  moreover have "0 < unat len" using assms(3) by (simp add: word_less_nat_alt)
  ultimately show ?thesis
    using strnicmp_loop_eq [of len s1 s2] assms by (simp add: Strnicmp_def)
qed

theorem Strnicmp_equal_iff_witness:
  "\<exists>d. Strnicmp (Some [0x61, 0x42, 0]) (Some [0x41, 0x62, 0]) 3 = Some d \<and> d = 0"
  using Strnicmp_equal_iff [of "[0x61, 0x42, 0]" 2 "[0x41, 0x62, 0]" 2 3]
  by (simp add: strlen_def toupper_def)

text \<open>
  The reference for the masks: the text is cut into fields at the delimiter, the fields with an index
  in a given range are replaced by as many stars, and the fields are joined again.
\<close>

fun fields :: "'a \<Rightarrow> 'a list \<Rightarrow> 'a list list" where
  "fields d [] = [[]]"
| "fields d (c # cs) =
     (if c = d then [] # fields d cs
      else case fields d cs of f # fs \<Rightarrow> (c # f) # fs | [] \<Rightarrow> [[c]])"

fun join_fields :: "'a \<Rightarrow> 'a list list \<Rightarrow> 'a list" where
  "join_fields d [] = []"
| "join_fields d [f] = f"
| "join_fields d (f # g # fs) = f @ d # join_fields d (g # fs)"

fun mask_fields :: "nat \<Rightarrow> nat \<Rightarrow> nat \<Rightarrow> u8 list list \<Rightarrow> u8 list list" where
  "mask_fields lo hi i [] = []"
| "mask_fields lo hi i (f # fs) =
     (if lo \<le> i \<and> i < hi then replicate (length f) STAR else f) # mask_fields lo hi (Suc i) fs"

lemma fields_nonempty: "fields d cs \<noteq> []"
  by (induction cs) (auto split: list.splits)

lemma join_fields_fields [simp]: "join_fields d (fields d cs) = cs"
proof (induction cs)
  case (Cons c cs)
  obtain f fs where fs: "fields d cs = f # fs" using fields_nonempty [of d cs] by (cases "fields d cs") auto
  then show ?case using Cons by (cases fs) auto
qed simp

lemma mask_fields_outside: "hi \<le> i \<Longrightarrow> mask_fields lo hi i fs = fs"
  by (induction fs arbitrary: i) auto

lemma join_fields_Cons: "join_fields d ((c # f) # fs) = c # join_fields d (f # fs)"
  by (cases fs) auto

lemma instead_loop_mask:
  assumes "d \<noteq> STAR" "cnt \<le> stop" "from \<le> stop"
  shows "instead_loop from stop d cnt (length cs) (cs @ r) =
    Some (join_fields d (mask_fields from stop cnt (fields d cs)) @ r)"
  using assms(2)
proof (induction cs arbitrary: cnt)
  case (Cons c cs)
  obtain f fs where fs: "fields d cs = f # fs"
    using fields_nonempty [of d cs] by (cases "fields d cs") auto
  show ?case
  proof (cases "cnt = stop")
    case True
    then show ?thesis by (simp add: mask_fields_outside del: fields.simps)
  next
    case False
    then have lt: "Suc cnt \<le> stop" "cnt < stop" using Cons.prems by simp_all
    show ?thesis
    proof (cases "c = d")
      case True
      then show ?thesis using False fs Cons.IH [OF lt(1)] by (simp add: Let_def)
    next
      case neq: False
      then show ?thesis
        using False fs Cons.IH [OF Cons.prems] lt(2) by (simp add: Let_def join_fields_Cons)
    qed
  qed
qed simp

lemma length_join_fields_mask: "length (join_fields d (mask_fields lo hi i fs)) = length (join_fields d fs)"
  by (induction d fs arbitrary: i rule: join_fields.induct) auto

text \<open>
  \<open>DataMasking\<close> returns a copy of the data with its end in which exactly the third and fourth
  fields of a Bluetooth address, respectively the second and third fields of an IP address, are
  replaced by stars; all other characters and the length stay.
\<close>

theorem DataMasking_fields:
  assumes "0 < len" "unat len = length data" "length data \<le> SECUREC_MEM_MAX_LEN"
  shows "DataMasking True (Some data) len MAC_DELIMITER =
      Some (Some (join_fields MAC_DELIMITER (mask_fields 2 4 0 (fields MAC_DELIMITER data)) @ [0])) \<and>
    DataMasking True (Some data) len IP_DELIMITER =
      Some (Some (join_fields IP_DELIMITER (mask_fields 1 3 0 (fields IP_DELIMITER data)) @ [0])) \<and>
    length (join_fields MAC_DELIMITER (mask_fields 2 4 0 (fields MAC_DELIMITER data))) = length data \<and>
    length (join_fields IP_DELIMITER (mask_fields 1 3 0 (fields IP_DELIMITER data))) = length data"
proof -
  have "0 < unat len" using assms(1) by (simp add: word_less_nat_alt)
  then have ok: "memcpy_s_ok (unat len) (unat len)" using assms(2,3) by (simp add: memcpy_s_ok_def)
  then show ?thesis
    using assms(2)
    by (simp add: DataMasking_def MacInstead_def IpInstead_def instead_loop_mask Let_def
        length_join_fields_mask)
qed

theorem DataMasking_fields_witness:
  "DataMasking True (Some [0x31, 0x2E, 0x32, 0x33, 0x2E, 0x34, 0x2E, 0x35]) 8 IP_DELIMITER =
     Some (Some [0x31, 0x2E, 0x2A, 0x2A, 0x2E, 0x2A, 0x2E, 0x35, 0])"
  using DataMasking_fields [of 8 "[0x31, 0x2E, 0x32, 0x33, 0x2E, 0x34, 0x2E, 0x35]"] by simp

text \<open>
  With printing of signalling messages on, a message of 64 bytes or more fills the whole buffer
  of 128 characters, so the print runs past its end; shorter messages print their full text.
\<close>

theorem SignalingMsgPrint_end:
  assumes "g_signalingMsgSwitch g" "module = SOFTBUS_LOG_DISC \<or> module = SOFTBUS_LOG_CONN"
    "unat dataLen \<le> length data"
  shows "SignalingMsgPrint g (Some data) dataLen module =
    (if 64 \<le> unat dataLen then None
     else Some (Some (concat (map fmt_02x (take (unat dataLen) data)))))"
proof (cases "64 \<le> unat dataLen")
  case True
  have "ConvertBytesToHexString (Some (replicate 128 0)) 129 (Some data) 64 =
      Some (SOFTBUS_OK, Some (concat (map fmt_02x (take 64 data))))"
    using True assms(3) by (subst ConvertBytesToHexString_eq) auto
  moreover have "strlen (concat (map fmt_02x (take 64 data))) = None"
    by (auto simp: strlen_def fmt_02x_def hex_char_facts)
  ultimately show ?thesis
    using True assms(1,2)
    by (auto simp: SignalingMsgPrint_def GetSignalingMsgSwitch_def Let_def word_le_nat_alt)
next
  case False
  let ?t = "concat (map fmt_02x (take (unat dataLen) data))"
  have "ConvertBytesToHexString (Some (replicate 128 0)) 129 (Some data) (ucast dataLen) =
      Some (SOFTBUS_OK, Some (?t @ replicate (128 - 2 * unat dataLen) 0))"
    using False assms(3) by (subst ConvertBytesToHexString_eq) (auto simp: unat_ucast_8_32)
  moreover have "strlen (?t @ replicate (128 - 2 * unat dataLen) 0) = Some (length ?t)"
  proof -
    have "0 < 128 - 2 * unat dataLen" using False by simp
    then obtain m where "128 - 2 * unat dataLen = Suc m" using gr0_implies_Suc by blast
    then show ?thesis by (simp add: strlen_prefix fmt_02x_def hex_char_facts)
  qed
  ultimately show ?thesis
    using False assms(1,2)
    by (auto simp: SignalingMsgPrint_def GetSignalingMsgSwitch_def Let_def word_le_nat_alt)
qed

theorem SignalingMsgPrint_end_witness:
  "SignalingMsgPrint \<lparr>g_signalingMsgSwitch = True\<rparr> (Some (replicate 64 0xAA)) 64 SOFTBUS_LOG_DISC = None"
  using SignalingMsgPrint_end [of "\<lparr>g_signalingMsgSwitch = True\<rparr>" SOFTBUS_LOG_DISC 64 "replicate 64 0xAA"]
  by simp

text \<open>
  Every channel of the two bands survives the way to its frequency and back, its frequency lies in
  its band, and a frequency names a channel exactly if it lies in one of the bands.
\<close>

theorem channel_round_trip:
  assumes "(1 \<le> ch \<and> ch \<le> 13) \<or> (34 \<le> ch \<and> ch \<le> 165)"
  shows "SoftBusFrequencyToChannel (SoftBusChannelToFrequency ch) = ch \<and>
    SoftBusIs2GBand (SoftBusChannelToFrequency ch) = (ch \<le> 13) \<and>
    SoftBusIs5GBand (SoftBusChannelToFrequency ch) = (34 \<le> ch) \<and>
    (SoftBusFrequencyToChannel f \<noteq> - 1 \<longleftrightarrow> SoftBusIs2GBand f \<or> SoftBusIs5GBand f)"
  using assms
  by (auto simp: SoftBusFrequencyToChannel_def SoftBusChannelToFrequency_def SoftBusIs2GBand_def
      SoftBusIs5GBand_def)

theorem channel_round_trip_witness:
  "SoftBusFrequencyToChannel (SoftBusChannelToFrequency 165) = 165 \<and> SoftBusChannelToFrequency 165 = 5825"
  using channel_round_trip [of 165 0] by (simp add: SoftBusChannelToFrequency_def)

section \<open>Registered timer callbacks\<close>

definition register_all :: "'cb timer_table \<Rightarrow> (int \<times> 'cb) list \<Rightarrow> 'cb timer_table" where
  "register_all t regs = foldl (\<lambda>t (i, cb). snd (RegisterTimeoutCallback t i (Some cb))) t regs"

lemma register_all_nth:
  "length t = 9 \<Longrightarrow> i < 9 \<Longrightarrow> length (register_all t regs) = 9 \<and>
   register_all t regs ! i = (case t ! i of Some cb \<Rightarrow> Some cb | None \<Rightarrow> map_of regs (int i))"
proof (induction regs arbitrary: t)
  case (Cons r regs)
  obtain j cb where r: "r = (j, cb)" by (cases r)
  let ?t = "snd (RegisterTimeoutCallback t j (Some cb))"
  have len: "length ?t = 9" using Cons.prems(1) by (simp add: RegisterTimeoutCallback_def)
  have "?t ! i = (case t ! i of Some x \<Rightarrow> Some x | None \<Rightarrow> if j = int i then Some cb else None)"
    using Cons.prems
    by (auto simp: RegisterTimeoutCallback_def nth_list_update split: option.splits)
  then show ?case
    using Cons.IH [OF len Cons.prems(2)] r
    by (auto simp: register_all_def split: option.splits)
qed (simp add: register_all_def split: option.splits)

text \<open>
  Whatever callbacks are registered in whatever order, an expiry of the timer runs, in the order of
  the slots, the callback that was registered first for each slot; later registrations of a slot are
  reported as successful and have no effect.
\<close>

theorem timer_runs_first_registered:
  "HandleTimeoutFun (register_all (replicate SOFTBUS_MAX_TIMER_FUN_NUM None) regs) =
     concat (map (\<lambda>i. case map_of regs (int i) of None \<Rightarrow> [] | Some cb \<Rightarrow> [cb]) [0..<SOFTBUS_MAX_TIMER_FUN_NUM])"
proof -
  have "register_all (replicate 9 None) regs ! i = map_of regs (int i)" if "i < 9" for i
    using register_all_nth [of "replicate 9 None" i regs] that by simp
  then show ?thesis
    unfolding HandleTimeoutFun_def by (intro arg_cong [where f = concat] map_cong) auto
qed

end
