(* ===== verification/Common_List.thy ===== *)
theory Common_List
  imports Softbus_Prelude
begin

text \<open>
  The intrusive circular list of \<^verbatim>\<open>core/common/include/common_list.h\<close> on an explicit store: a node is
  an address, the store gives its two pointers, and the operations are the C assignments in their
  order, which matters because the list head, its neighbours and the node may coincide. The address 0
  is the null pointer. The predicate \<open>dlist\<close> relates a store to the sequence of nodes linked to a
  list head, and each operation is shown to be the expected operation on sequences. The loops over a
  list follow pointers and need not end on an arbitrary store; they are partial functions and are
  shown to return on every well-linked list.
\<close>

section \<open>Model\<close>

type_synonym addr = nat

record ListNode =
  prev :: addr
  "next" :: addr

type_synonym node_store = "addr \<Rightarrow> ListNode"

definition ListInit :: "node_store \<Rightarrow> addr \<Rightarrow> node_store" where
  "ListInit h list =
     (let h1 = h(list := (h list)\<lparr>next := list\<rparr>)
      in h1(list := (h1 list)\<lparr>prev := list\<rparr>))"

definition GET_LIST_HEAD :: "node_store \<Rightarrow> addr \<Rightarrow> addr" where
  "GET_LIST_HEAD h object = next (h object)"

definition GET_LIST_TAIL :: "node_store \<Rightarrow> addr \<Rightarrow> addr" where
  "GET_LIST_TAIL h object = prev (h object)"

definition ListAdd :: "node_store \<Rightarrow> addr \<Rightarrow> addr \<Rightarrow> node_store" where
  "ListAdd h list node =
     (let h1 = h(node := (h node)\<lparr>next := next (h list)\<rparr>);
          h2 = h1(node := (h1 node)\<lparr>prev := list\<rparr>);
          n = next (h2 list);
          h3 = h2(n := (h2 n)\<lparr>prev := node\<rparr>)
      in h3(list := (h3 list)\<lparr>next := node\<rparr>))"

definition ListTailInsert :: "node_store \<Rightarrow> addr \<Rightarrow> addr \<Rightarrow> node_store" where
  "ListTailInsert h list node = ListAdd h (prev (h list)) node"

definition ListNodeInsert :: "node_store \<Rightarrow> addr \<Rightarrow> addr \<Rightarrow> node_store" where
  "ListNodeInsert h list node = ListAdd h list node"

definition ListDelete :: "node_store \<Rightarrow> addr \<Rightarrow> node_store" where
  "ListDelete h node =
     (let h1 =
            (if next (h node) \<noteq> 0 \<and> prev (h node) \<noteq> 0 then
               let n = next (h node);
                   h' = h(n := (h n)\<lparr>prev := prev (h node)\<rparr>);
                   p = prev (h' node)
               in h'(p := (h' p)\<lparr>next := next (h' node)\<rparr>)
             else h);
          h2 = h1(node := (h1 node)\<lparr>next := node\<rparr>)
      in h2(node := (h2 node)\<lparr>prev := node\<rparr>))"

definition IsListEmpty :: "node_store \<Rightarrow> addr \<Rightarrow> bool" where
  "IsListEmpty h node = (next (h node) = node)"

definition ListDel :: "node_store \<Rightarrow> addr \<Rightarrow> addr \<Rightarrow> node_store" where
  "ListDel h prevNode nextNode =
     (let h1 = h(nextNode := (h nextNode)\<lparr>prev := prevNode\<rparr>)
      in h1(prevNode := (h1 prevNode)\<lparr>next := nextNode\<rparr>))"

definition ListDelInit :: "node_store \<Rightarrow> addr \<Rightarrow> node_store" where
  "ListDelInit h list = ListInit (ListDel h (prev (h list)) (next (h list))) list"

text \<open>
  \<open>LIST_FOR_EACH\<close> and \<open>LIST_FOR_EACH_ENTRY\<close>: the nodes the loop visits. The last argument is the
  current item.
\<close>

partial_function (option) LIST_FOR_EACH :: "node_store \<Rightarrow> addr \<Rightarrow> addr \<Rightarrow> addr list option" where
  "LIST_FOR_EACH h list item =
     (if item = list then Some []
      else Option.bind (LIST_FOR_EACH h list (next (h item))) (\<lambda>xs. Some (item # xs)))"

text \<open>
  \<open>LIST_FOR_EACH_SAFE\<close> and \<open>LIST_FOR_EACH_ENTRY_SAFE\<close> with the body that the components use it for: an
  item that satisfies a condition is unlinked.
\<close>

partial_function (option) LIST_FOR_EACH_SAFE_DELETE ::
  "(addr \<Rightarrow> bool) \<Rightarrow> addr \<Rightarrow> node_store \<Rightarrow> addr \<Rightarrow> addr \<Rightarrow> node_store option" where
  "LIST_FOR_EACH_SAFE_DELETE cond list h item nextItem =
     (if item = list then Some h
      else
        let h' = (if cond item then ListDelete h item else h)
        in LIST_FOR_EACH_SAFE_DELETE cond list h' nextItem (next (h' nextItem)))"

section \<open>Well-linked lists\<close>

text \<open>\<open>links h a xs b\<close>: following the pointers from \<open>a\<close> leads through \<open>xs\<close> to \<open>b\<close>, and back.\<close>

fun links :: "node_store \<Rightarrow> addr \<Rightarrow> addr list \<Rightarrow> addr \<Rightarrow> bool" where
  "links h a [] b \<longleftrightarrow> next (h a) = b \<and> prev (h b) = a"
| "links h a (x # xs) b \<longleftrightarrow> next (h a) = x \<and> prev (h x) = a \<and> links h x xs b"

definition dlist :: "node_store \<Rightarrow> addr \<Rightarrow> addr list \<Rightarrow> bool" where
  "dlist h l xs \<longleftrightarrow> links h l xs l \<and> distinct (l # xs) \<and> 0 \<notin> set (l # xs)"

lemma links_append: "links h a (xs @ x # ys) b \<longleftrightarrow> links h a xs x \<and> links h x ys b"
  by (induction xs arbitrary: a) auto

lemma links_cong:
  assumes "links h a xs b"
    "\<And>n. n \<in> set (a # xs) \<Longrightarrow> next (h' n) = next (h n)"
    "\<And>n. n \<in> set (xs @ [b]) \<Longrightarrow> prev (h' n) = prev (h n)"
  shows "links h' a xs b"
  using assms by (induction xs arbitrary: a) auto

lemma links_next: "links h a xs b \<Longrightarrow> next (h a) = hd (xs @ [b])"
  by (cases xs) auto

lemma links_prev: "links h a xs b \<Longrightarrow> prev (h b) = last (a # xs)"
  by (induction xs arbitrary: a) auto

section \<open>Operations on well-linked lists\<close>

text \<open>Insertion after a node \<open>p\<close> of a segment; \<open>p\<close> and the end \<open>b\<close> may be the same node.\<close>

lemma ListAdd_fields:
  assumes "node \<noteq> p" "node \<noteq> next (h p)"
  shows "next (ListAdd h p node n) = (if n = p then node else if n = node then next (h p) else next (h n))"
    and "prev (ListAdd h p node n) = (if n = node then p else if n = next (h p) then node else prev (h n))"
  using assms by (simp_all add: ListAdd_def Let_def)

lemma ListAdd_segment:
  assumes "links h p vs b" "node \<notin> set (p # vs @ [b])" "p \<notin> set vs" "b \<notin> set vs" "distinct vs"
  shows "links (ListAdd h p node) p (node # vs) b"
proof (cases vs)
  case Nil
  then have n: "next (h p) = b" using assms(1) by simp
  have f: "node \<noteq> p" "node \<noteq> next (h p)" using assms(2) n by auto
  show ?thesis using f n Nil by (simp add: ListAdd_fields [of node p h, OF f])
next
  case (Cons v ws)
  have n: "next (h p) = v" and rest: "links h v ws b" using assms(1) Cons by simp_all
  have f: "node \<noteq> p" "node \<noteq> next (h p)" using assms(2) n Cons by auto
  have "links (ListAdd h p node) v ws b"
    using assms(2-) Cons n
    by (intro links_cong [OF rest]) (auto simp: ListAdd_fields [of node p h, OF f])
  then show ?thesis using f n Cons assms(3) by (simp add: ListAdd_fields [of node p h, OF f])
qed

lemma ListAdd_other_next: "n \<noteq> p \<Longrightarrow> n \<noteq> node \<Longrightarrow> next (ListAdd h p node n) = next (h n)"
  by (simp add: ListAdd_def Let_def)

lemma ListAdd_other_prev:
  "n \<noteq> next (h p) \<Longrightarrow> n \<noteq> node \<Longrightarrow> p \<noteq> node \<Longrightarrow> prev (ListAdd h p node n) = prev (h n)"
  by (simp add: ListAdd_def Let_def)

lemma ListAdd_head:
  assumes "dlist h l xs" "node \<notin> set (l # xs)" "node \<noteq> 0"
  shows "dlist (ListAdd h l node) l (node # xs)"
  using assms ListAdd_segment [of h l xs l node] by (simp add: dlist_def)

lemma ListAdd_after:
  assumes "dlist h l (us @ p # vs)" "node \<notin> set (l # us @ p # vs)" "node \<noteq> 0"
  shows "dlist (ListAdd h p node) l (us @ p # node # vs)"
proof -
  have seg: "links h l us p" "links h p vs l" using assms(1) by (auto simp: dlist_def links_append)
  have n: "next (h p) = hd (vs @ [l])" using links_next seg(2) by blast
  have q: "next (h p) \<notin> set (us @ [p])" using assms(1) n by (cases vs) (auto simp: dlist_def)
  have "links (ListAdd h p node) l us p"
    using assms q
    by (intro links_cong [OF seg(1)] ListAdd_other_next ListAdd_other_prev) (auto simp: dlist_def)
  moreover have "links (ListAdd h p node) p (node # vs) l"
    using assms seg(2) by (intro ListAdd_segment) (auto simp: dlist_def)
  ultimately show ?thesis
    using assms by (auto simp: dlist_def links_append)
qed

lemma ListTailInsert_tail:
  assumes "dlist h l xs" "node \<notin> set (l # xs)" "node \<noteq> 0"
  shows "dlist (ListTailInsert h l node) l (xs @ [node])"
proof (cases xs rule: rev_cases)
  case Nil
  then have "prev (h l) = l" using assms(1) by (simp add: dlist_def)
  then show ?thesis
    using assms Nil ListAdd_head [of h l "[]" node] by (simp add: ListTailInsert_def)
next
  case (snoc us p)
  then have "prev (h l) = p" using assms(1) links_prev [of h l xs l] by (simp add: dlist_def)
  then show ?thesis
    using assms snoc ListAdd_after [of h l us p "[]" node] by (simp add: ListTailInsert_def)
qed

lemma ListTailInsert_before:
  assumes "dlist h l (us @ x # vs)" "node \<notin> set (l # us @ x # vs)" "node \<noteq> 0"
  shows "dlist (ListTailInsert h x node) l (us @ node # x # vs)"
proof (cases us rule: rev_cases)
  case Nil
  then have "prev (h x) = l" using assms(1) by (simp add: dlist_def)
  then show ?thesis
    using assms Nil ListAdd_head [of h l "x # vs" node] by (simp add: ListTailInsert_def)
next
  case (snoc ws p)
  then have "prev (h x) = p"
    using assms(1) by (auto simp: dlist_def links_append)
  then show ?thesis
    using assms snoc ListAdd_after [of h l ws p "x # vs" node] by (simp add: ListTailInsert_def)
qed

lemma ListDelete_next:
  assumes "next (h node) \<noteq> 0" "prev (h node) \<noteq> 0" "next (h node) \<noteq> node" "prev (h node) \<noteq> node"
  shows "next (ListDelete h node n) =
    (if n = node then node else if n = prev (h node) then next (h node) else next (h n))"
    and "prev (ListDelete h node n) =
    (if n = node then node else if n = next (h node) then prev (h node) else prev (h n))"
  using assms by (auto simp: ListDelete_def Let_def)

lemma ListDelete_segment:
  assumes "links h x vs b" "prev (h x) = p" "p \<noteq> 0" "p \<noteq> x" "x \<notin> set vs" "b \<noteq> x" "p \<notin> set vs"
    "b \<notin> set vs" "distinct vs" "0 \<notin> set (b # vs)"
  shows "links (ListDelete h x) p vs b"
proof (cases vs)
  case Nil
  have n: "next (h x) = b" using assms(1) Nil by simp
  have f: "next (h x) \<noteq> 0" "prev (h x) \<noteq> 0" "next (h x) \<noteq> x" "prev (h x) \<noteq> x"
    using assms(2-) n by auto
  show ?thesis using assms(2,4,6) n Nil by (simp add: ListDelete_next [of h x, OF f])
next
  case (Cons v ws)
  have n: "next (h x) = v" and rest: "links h v ws b" using assms(1) Cons by simp_all
  have f: "next (h x) \<noteq> 0" "prev (h x) \<noteq> 0" "next (h x) \<noteq> x" "prev (h x) \<noteq> x"
    using assms(2-) n Cons by auto
  have "links (ListDelete h x) v ws b"
    using assms(2-) n Cons
    by (intro links_cong [OF rest]) (auto simp: ListDelete_next [of h x, OF f])
  then show ?thesis using assms(2-) n Cons by (simp add: ListDelete_next [of h x, OF f])
qed

lemma ListDelete_removes:
  assumes "dlist h l (us @ x # vs)"
  shows "dlist (ListDelete h x) l (us @ vs)"
    and "next (ListDelete h x x) = x" "prev (ListDelete h x x) = x"
proof -
  show "next (ListDelete h x x) = x" "prev (ListDelete h x x) = x"
    by (simp_all add: ListDelete_def Let_def)
  have seg: "links h l us x" "links h x vs l" using assms by (auto simp: dlist_def links_append)
  have d: "distinct (l # us @ x # vs)" "0 \<notin> set (l # us @ x # vs)" using assms by (auto simp: dlist_def)
  have "links (ListDelete h x) l (us @ vs) l"
  proof (cases us rule: rev_cases)
    case Nil
    then have "prev (h x) = l" using seg(1) by simp
    then show ?thesis using Nil d by (simp add: ListDelete_segment [OF seg(2)])
  next
    case (snoc ws q)
    have s1: "links h l ws q" and p: "prev (h x) = q" using seg(1) snoc by (simp_all add: links_append)
    have n: "next (h x) = hd (vs @ [l])" using links_next seg(2) by blast
    then have n': "next (h x) \<in> set (l # vs)" by (cases vs) auto
    have f: "next (h x) \<noteq> 0" "prev (h x) \<noteq> 0" "next (h x) \<noteq> x" "prev (h x) \<noteq> x"
      using d n' p snoc by auto
    have "links (ListDelete h x) l ws q"
      using d n' p snoc
      by (intro links_cong [OF s1]) (auto simp: ListDelete_next [of h x, OF f])
    moreover have "links (ListDelete h x) q vs l"
      using d snoc by (intro ListDelete_segment [OF seg(2) p]) auto
    ultimately show ?thesis using snoc by (simp add: links_append)
  qed
  then show "dlist (ListDelete h x) l (us @ vs)" using d by (auto simp: dlist_def)
qed

lemma ListInit_empty: "l \<noteq> 0 \<Longrightarrow> dlist (ListInit h l) l []"
  by (simp add: dlist_def ListInit_def Let_def)

lemma IsListEmpty_iff: "dlist h l xs \<Longrightarrow> IsListEmpty h l \<longleftrightarrow> xs = []"
  by (cases xs) (auto simp: dlist_def IsListEmpty_def)

lemma dlist_first: "dlist h l xs \<Longrightarrow> GET_LIST_HEAD h l = hd (xs @ [l])"
  by (auto simp: dlist_def GET_LIST_HEAD_def intro: links_next)

lemma dlist_last: "dlist h l xs \<Longrightarrow> GET_LIST_TAIL h l = last (l # xs)"
  unfolding dlist_def GET_LIST_TAIL_def by (blast intro: links_prev)

section \<open>The loops\<close>

lemma LIST_FOR_EACH_links:
  assumes "links h a xs l" "l \<notin> set xs"
  shows "LIST_FOR_EACH h l (next (h a)) = Some xs"
  using assms
proof (induction xs arbitrary: a)
  case Nil
  then show ?case by (subst LIST_FOR_EACH.simps) simp
next
  case (Cons x xs)
  then show ?case by (subst LIST_FOR_EACH.simps) simp
qed

lemma LIST_FOR_EACH_dlist: "dlist h l xs \<Longrightarrow> LIST_FOR_EACH h l (next (h l)) = Some xs"
  by (simp add: dlist_def LIST_FOR_EACH_links)

lemma dlist_next:
  assumes "dlist h l (us @ x # vs)"
  shows "next (h x) = hd (vs @ [l])"
  using assms by (auto simp: dlist_def links_append intro: links_next)

lemma LIST_FOR_EACH_SAFE_DELETE_dlist:
  assumes "dlist h l (us @ vs)"
  shows "\<exists>h'. LIST_FOR_EACH_SAFE_DELETE cond l h (hd (vs @ [l])) (next (h (hd (vs @ [l])))) = Some h' \<and>
    dlist h' l (us @ filter (\<lambda>x. \<not> cond x) vs)"
  using assms
proof (induction vs arbitrary: us h)
  case Nil
  then show ?case by (subst LIST_FOR_EACH_SAFE_DELETE.simps) simp
next
  case (Cons x vs)
  have ne: "x \<noteq> l" using Cons.prems by (auto simp: dlist_def)
  have n: "next (h x) = hd (vs @ [l])" using dlist_next Cons.prems by blast
  show ?case
  proof (cases "cond x")
    case True
    have "dlist (ListDelete h x) l (us @ vs)" using ListDelete_removes(1) Cons.prems by blast
    then show ?thesis
      using Cons.IH [of "ListDelete h x" us] True ne n
      by (subst LIST_FOR_EACH_SAFE_DELETE.simps) (simp add: Let_def)
  next
    case False
    have "dlist h l ((us @ [x]) @ vs)" using Cons.prems by simp
    then show ?thesis
      using Cons.IH [of h "us @ [x]"] False ne n
      by (subst LIST_FOR_EACH_SAFE_DELETE.simps) (simp add: Let_def)
  qed
qed

section \<open>Lists as sequences\<close>

datatype list_op = OpAdd addr | OpTail addr | OpDel addr

primrec seq_op :: "addr list \<Rightarrow> list_op \<Rightarrow> addr list" where
  "seq_op xs (OpAdd n) = n # xs"
| "seq_op xs (OpTail n) = xs @ [n]"
| "seq_op xs (OpDel n) = remove1 n xs"

text \<open>A node that is inserted is not linked yet, one that is removed is a member.\<close>

primrec op_ok :: "addr \<Rightarrow> addr list \<Rightarrow> list_op \<Rightarrow> bool" where
  "op_ok l xs (OpAdd n) \<longleftrightarrow> n \<noteq> 0 \<and> n \<notin> set (l # xs)"
| "op_ok l xs (OpTail n) \<longleftrightarrow> n \<noteq> 0 \<and> n \<notin> set (l # xs)"
| "op_ok l xs (OpDel n) \<longleftrightarrow> n \<in> set xs"

fun ops_ok :: "addr \<Rightarrow> addr list \<Rightarrow> list_op list \<Rightarrow> bool" where
  "ops_ok l xs [] \<longleftrightarrow> True"
| "ops_ok l xs (a # as) \<longleftrightarrow> op_ok l xs a \<and> ops_ok l (seq_op xs a) as"

text \<open>
  What the users of a list rely on: the store represents a sequence of nodes, the operations act on
  the sequence, a loop visits it, and removing while looping filters it.
\<close>

locale node_sequence =
  fixes init :: "'h \<Rightarrow> addr \<Rightarrow> 'h"
    and add :: "'h \<Rightarrow> addr \<Rightarrow> addr \<Rightarrow> 'h"
    and tail :: "'h \<Rightarrow> addr \<Rightarrow> addr \<Rightarrow> 'h"
    and del :: "'h \<Rightarrow> addr \<Rightarrow> 'h"
    and empty :: "'h \<Rightarrow> addr \<Rightarrow> bool"
    and visit :: "'h \<Rightarrow> addr \<Rightarrow> addr list option"
    and rep :: "'h \<Rightarrow> addr \<Rightarrow> addr list \<Rightarrow> bool"
  assumes init_rep: "l \<noteq> 0 \<Longrightarrow> rep (init h l) l []"
    and add_rep: "rep h l xs \<Longrightarrow> n \<noteq> 0 \<Longrightarrow> n \<notin> set (l # xs) \<Longrightarrow> rep (add h l n) l (n # xs)"
    and tail_rep: "rep h l xs \<Longrightarrow> n \<noteq> 0 \<Longrightarrow> n \<notin> set (l # xs) \<Longrightarrow> rep (tail h l n) l (xs @ [n])"
    and del_rep: "rep h l xs \<Longrightarrow> n \<in> set xs \<Longrightarrow> rep (del h n) l (remove1 n xs)"
    and empty_rep: "rep h l xs \<Longrightarrow> empty h l \<longleftrightarrow> xs = []"
    and visit_rep: "rep h l xs \<Longrightarrow> visit h l = Some xs"
begin

primrec do_op :: "addr \<Rightarrow> 'h \<Rightarrow> list_op \<Rightarrow> 'h" where
  "do_op l h (OpAdd n) = add h l n"
| "do_op l h (OpTail n) = tail h l n"
| "do_op l h (OpDel n) = del h n"

lemma do_op_rep: "rep h l xs \<Longrightarrow> op_ok l xs a \<Longrightarrow> rep (do_op l h a) l (seq_op xs a)"
  by (cases a) (auto intro: add_rep tail_rep del_rep)

lemma run_rep: "rep h l xs \<Longrightarrow> ops_ok l xs ops \<Longrightarrow> rep (foldl (do_op l) h ops) l (foldl seq_op xs ops)"
  by (induction ops arbitrary: h xs) (auto intro: do_op_rep)

lemma run_visit:
  assumes "l \<noteq> 0" "ops_ok l [] ops"
  shows "visit (foldl (do_op l) (init h l) ops) l = Some (foldl seq_op [] ops) \<and>
    (empty (foldl (do_op l) (init h l) ops) l \<longleftrightarrow> foldl seq_op [] ops = [])"
  using run_rep [OF init_rep [OF assms(1)] assms(2)] visit_rep empty_rep by blast

end

primrec list_step :: "addr \<Rightarrow> node_store \<Rightarrow> list_op \<Rightarrow> node_store" where
  "list_step l h (OpAdd n) = ListAdd h l n"
| "list_step l h (OpTail n) = ListTailInsert h l n"
| "list_step l h (OpDel n) = ListDelete h n"

interpretation cl: node_sequence ListInit ListAdd ListTailInsert ListDelete IsListEmpty
  "\<lambda>h l. LIST_FOR_EACH h l (next (h l))" dlist
proof (unfold_locales, goal_cases)
  case (4 h l xs n)
  then obtain us vs where xs: "xs = us @ n # vs" "n \<notin> set us" by (meson split_list_first)
  then have "remove1 n xs = us @ vs" by (simp add: remove1_append)
  then show ?case using 4(1) xs ListDelete_removes(1) by simp
qed (simp_all add: ListInit_empty ListAdd_head ListTailInsert_tail IsListEmpty_iff LIST_FOR_EACH_dlist)

lemma list_step_do_op: "list_step l h a = cl.do_op l h a"
  by (cases a) simp_all

section \<open>Properties\<close>

text \<open>
  C16: Starting from an initialised list head, any sequence of insertions at the front, insertions at
  the end and deletions of members keeps the pointers well linked in both directions: a loop over the
  list ends and visits exactly the nodes of the corresponding sequence in its order, and the list is
  reported empty exactly if the sequence is.
\<close>

theorem list_ops_are_sequence_ops:
  assumes "l \<noteq> 0" "ops_ok l [] ops"
  shows "LIST_FOR_EACH (foldl (list_step l) (ListInit h l) ops) l
      (next (foldl (list_step l) (ListInit h l) ops l)) = Some (foldl seq_op [] ops) \<and>
    (IsListEmpty (foldl (list_step l) (ListInit h l) ops) l \<longleftrightarrow> foldl seq_op [] ops = [])"
proof -
  have "list_step l = cl.do_op l" by (simp add: fun_eq_iff list_step_do_op)
  then show ?thesis using cl.run_visit [OF assms] by simp
qed

theorem list_ops_are_sequence_ops_witness:
  "LIST_FOR_EACH (foldl (list_step 1) (ListInit (\<lambda>_. \<lparr>prev = 0, next = 0\<rparr>) 1) [OpAdd 2, OpTail 3, OpAdd 4, OpDel 2]) 1
     (next (foldl (list_step 1) (ListInit (\<lambda>_. \<lparr>prev = 0, next = 0\<rparr>) 1) [OpAdd 2, OpTail 3, OpAdd 4, OpDel 2] 1)) =
   Some [4, 3]"
  using list_ops_are_sequence_ops [of 1 "[OpAdd 2, OpTail 3, OpAdd 4, OpDel 2]" "\<lambda>_. \<lparr>prev = 0, next = 0\<rparr>"]
  by simp

text \<open>
  C18: The loop that is safe against removal, with a body that unlinks the items that satisfy a
  condition, ends on every well-linked list and leaves the other items, well linked and in order.
\<close>

theorem safe_loop_filters:
  assumes "dlist h l xs"
  shows "\<exists>h'. LIST_FOR_EACH_SAFE_DELETE cond l h (next (h l)) (next (h (next (h l)))) = Some h' \<and>
    LIST_FOR_EACH h' l (next (h' l)) = Some (filter (\<lambda>x. \<not> cond x) xs) \<and>
    dlist h' l (filter (\<lambda>x. \<not> cond x) xs)"
proof -
  have "next (h l) = hd (xs @ [l])" using assms links_next unfolding dlist_def by blast
  then show ?thesis
    using LIST_FOR_EACH_SAFE_DELETE_dlist [of h l "[]" xs cond] assms LIST_FOR_EACH_dlist by fastforce
qed

theorem safe_loop_filters_witness:
  "\<exists>h'. LIST_FOR_EACH_SAFE_DELETE even 1
       (foldl (list_step 1) (ListInit (\<lambda>_. \<lparr>prev = 0, next = 0\<rparr>) 1) [OpTail 2, OpTail 3]) 2 3 = Some h' \<and>
     LIST_FOR_EACH h' 1 (next (h' 1)) = Some [3]"
proof -
  let ?h = "foldl (list_step 1) (ListInit (\<lambda>_. \<lparr>prev = 0, next = 0\<rparr>) 1) [OpTail 2, OpTail 3]"
  have d: "dlist ?h 1 [2, 3]"
    by (simp add: dlist_def ListInit_def ListTailInsert_def ListAdd_def Let_def)
  have n: "next (?h 1) = 2" "next (?h 2) = 3" using d by (simp_all add: dlist_def)
  show ?thesis using safe_loop_filters [OF d, of even] unfolding n by auto
qed

end
