(* ===== verification/Message_Handler.thy ===== *)
theory Message_Handler
  imports Common_List "HOL-Library.Multiset" "HOL-Library.Signed_Division"
begin

text \<open>
  The looper of \<^verbatim>\<open>core/common/message_handler/message_handler.c\<close>: a list of messages ordered by the
  time they are due, posting and removing of messages, one iteration of the loop thread, and the table
  of loopers. The list is the intrusive list of \<^verbatim>\<open>common_list.h\<close> on its store; a message node is named
  by the address of its list node, and \<open>node_msg\<close> gives the message of each allocated node. The fields
  \<open>stop\<close> and \<open>running\<close> hold 0 or 1 in the code and are booleans here. The work a handler does and the
  freeing of messages are outside the model; the message that is handed to a handler is an output.
\<close>

section \<open>Model\<close>

record 'h SoftBusMessage =
  what :: int
  arg1 :: u64
  arg2 :: u64
  "time" :: int
  handler :: "'h option"

record 'h SoftBusLooperContext =
  msgHead :: addr
  nodes :: node_store
  node_msg :: "addr \<Rightarrow> 'h SoftBusMessage option"
  name :: "u8 list"
  stop :: bool
  running :: bool
  currentMsg :: "'h SoftBusMessage option"
  msgSize :: u32

text \<open>
  Seconds and microseconds of \<open>SoftBusGetTime\<close> as one number of 64 bits; signed sums and products are
  read as wrapping.
\<close>

definition UptimeMicros :: "int \<times> int \<Rightarrow> int" where
  "UptimeMicros t = sint (word_of_int (fst t * 1000 * 1000 + snd t) :: u64)"

text \<open>
  \<open>looper_ok\<close> and \<open>context_ok\<close> say whether the two allocations succeed, \<open>thread_ret\<close> is the result of
  \<open>StartNewLooperThread\<close>, and \<open>head\<close> the address of the list head inside the new context.
\<close>

abbreviation (input) LOOP_NAME_LEN :: nat where "LOOP_NAME_LEN \<equiv> 16"

definition CreateNewLooper ::
  "bool \<Rightarrow> bool \<Rightarrow> int \<Rightarrow> addr \<Rightarrow> node_store \<Rightarrow> u8 list \<Rightarrow> 'h SoftBusLooperContext option" where
  "CreateNewLooper looper_ok context_ok thread_ret head h nm =
     (if \<not> looper_ok then None
      else if \<not> context_ok then None
      else if \<not> memcpy_s_ok LOOP_NAME_LEN (length nm) then None
      else if thread_ret \<noteq> 0 then None
      else Some \<lparr>msgHead = head, nodes = ListInit h head, node_msg = (\<lambda>_. None),
             name = nm @ replicate (LOOP_NAME_LEN - length nm) 0,
             stop = False, running = False, currentMsg = None, msgSize = 0\<rparr>)"

text \<open>
  The search of \<open>PostMessageAtTime\<close> for the first message that is due later; \<^const>\<open>None\<close> inside says
  that the loop ran to the end of the list.
\<close>

partial_function (option) post_scan ::
  "'h SoftBusLooperContext \<Rightarrow> int \<Rightarrow> addr \<Rightarrow> addr option option" where
  "post_scan ctx t item =
     (if item = msgHead ctx then Some None
      else case node_msg ctx item of None \<Rightarrow> None
         | Some msg \<Rightarrow>
             if t < time msg then Some (Some item)
             else post_scan ctx t (next (nodes ctx item)))"

text \<open>
  \<open>newNode\<close> is the address of the allocated message node, if the allocation succeeds. The flag in the
  result tells whether the message is now in the list; otherwise the code frees it.
\<close>

definition PostMessageAtTime ::
  "'h SoftBusLooperContext \<Rightarrow> 'h SoftBusMessage \<Rightarrow> addr option \<Rightarrow> bool \<Rightarrow>
   (bool \<times> 'h SoftBusLooperContext) option" where
  "PostMessageAtTime ctx msgPost newNode lock_ok =
     (if handler msgPost = None then Some (False, ctx)
      else case newNode of None \<Rightarrow> Some (False, ctx)
         | Some n \<Rightarrow>
             let ctx1 = ctx\<lparr>nodes := ListInit (nodes ctx) n, node_msg := (node_msg ctx)(n \<mapsto> msgPost)\<rparr>
             in if \<not> lock_ok \<or> stop ctx then Some (False, ctx)
                else case post_scan ctx1 (time msgPost) (next (nodes ctx1 (msgHead ctx1))) of
                    None \<Rightarrow> None
                  | Some insert_at \<Rightarrow>
                      let pos = (case insert_at of Some item \<Rightarrow> item | None \<Rightarrow> msgHead ctx1)
                      in Some (True, ctx1\<lparr>nodes := ListTailInsert (nodes ctx1) pos n,
                                 msgSize := msgSize ctx1 + 1\<rparr>))"

definition LooperPostMessage ::
  "'h SoftBusLooperContext \<Rightarrow> int \<times> int \<Rightarrow> 'h SoftBusMessage \<Rightarrow> addr option \<Rightarrow> bool \<Rightarrow>
   (bool \<times> 'h SoftBusLooperContext) option" where
  "LooperPostMessage ctx t msg newNode lock_ok =
     PostMessageAtTime ctx (msg\<lparr>time := UptimeMicros t\<rparr>) newNode lock_ok"

definition LooperPostMessageDelay ::
  "'h SoftBusLooperContext \<Rightarrow> int \<times> int \<Rightarrow> 'h SoftBusMessage \<Rightarrow> u64 \<Rightarrow> addr option \<Rightarrow> bool \<Rightarrow>
   (bool \<times> 'h SoftBusLooperContext) option" where
  "LooperPostMessageDelay ctx t msg delayMillis newNode lock_ok =
     PostMessageAtTime ctx (msg\<lparr>time := sint (word_of_int (UptimeMicros t + sint delayMillis * 1000) :: u64)\<rparr>) newNode lock_ok"

text \<open>The functions that select messages return 0 for a match.\<close>

definition WhatRemoveFunc :: "int \<Rightarrow> 'h SoftBusMessage \<Rightarrow> int" where
  "WhatRemoveFunc args msg = (if what msg = args then 0 else 1)"

partial_function (option) remove_loop ::
  "'h option \<Rightarrow> ('h SoftBusMessage \<Rightarrow> int) \<Rightarrow> 'h SoftBusLooperContext \<Rightarrow> addr \<Rightarrow> addr \<Rightarrow>
   'h SoftBusLooperContext option" where
  "remove_loop hdl customFunc ctx item nextItem =
     (if item = msgHead ctx then Some ctx
      else case node_msg ctx item of None \<Rightarrow> None
         | Some msg \<Rightarrow>
             let ctx' =
                   (if handler msg = hdl \<and> customFunc msg = 0
                    then ctx\<lparr>nodes := ListDelete (nodes ctx) item,
                           node_msg := (node_msg ctx)(item := None), msgSize := msgSize ctx - 1\<rparr>
                    else ctx)
             in remove_loop hdl customFunc ctx' nextItem (next (nodes ctx' nextItem)))"

definition LoopRemoveMessageCustom ::
  "'h SoftBusLooperContext \<Rightarrow> 'h option \<Rightarrow> ('h SoftBusMessage \<Rightarrow> int) \<Rightarrow> bool \<Rightarrow>
   'h SoftBusLooperContext option" where
  "LoopRemoveMessageCustom ctx hdl customFunc lock_ok =
     (if \<not> lock_ok then Some ctx
      else if \<not> running ctx \<or> stop ctx then Some ctx
      else
        let item = next (nodes ctx (msgHead ctx))
        in remove_loop hdl customFunc ctx item (next (nodes ctx item)))"

definition LooperRemoveMessage ::
  "'h SoftBusLooperContext \<Rightarrow> 'h option \<Rightarrow> int \<Rightarrow> bool \<Rightarrow> 'h SoftBusLooperContext option" where
  "LooperRemoveMessage ctx hdl w lock_ok = LoopRemoveMessageCustom ctx hdl (WhatRemoveFunc w) lock_ok"

text \<open>
  One round of the loop of \<open>LoopTask\<close> up to the call of the handler: it leaves the loop, waits for a
  message or for the time of the first message, or hands out the message it takes from the list.
\<close>

datatype 'h loop_outcome =
    LoopExit
  | LoopWait
  | LoopWaitUntil int int
  | LoopRun "'h SoftBusMessage"

definition LoopTask_round ::
  "bool \<Rightarrow> 'h SoftBusLooperContext \<Rightarrow> int \<times> int \<Rightarrow> ('h loop_outcome \<times> 'h SoftBusLooperContext) option" where
  "LoopTask_round g_isNeedDestroy ctx t =
     (if stop ctx then Some (LoopExit, ctx)
      else if g_isNeedDestroy then Some (LoopExit, ctx)
      else if IsListEmpty (nodes ctx) (msgHead ctx) then Some (LoopWait, ctx)
      else
        let now = UptimeMicros t; item = next (nodes ctx (msgHead ctx))
        in case node_msg ctx item of None \<Rightarrow> None
           | Some msg \<Rightarrow>
               if time msg \<le> now
               then Some (LoopRun msg,
                      ctx\<lparr>nodes := ListDelete (nodes ctx) item, node_msg := (node_msg ctx)(item := None),
                          msgSize := msgSize ctx - 1, currentMsg := Some msg\<rparr>)
               else Some (LoopWaitUntil (time msg sdiv 1000 sdiv 1000) (time msg smod (1000 * 1000)), ctx))"

definition LoopTask_start :: "'h SoftBusLooperContext \<Rightarrow> 'h SoftBusLooperContext" where
  "LoopTask_start ctx = ctx\<lparr>running := True\<rparr>"

definition LoopTask_handled :: "'h SoftBusLooperContext \<Rightarrow> 'h SoftBusLooperContext" where
  "LoopTask_handled ctx = ctx\<lparr>currentMsg := None\<rparr>"

definition LoopTask_leave :: "'h SoftBusLooperContext \<Rightarrow> 'h SoftBusLooperContext" where
  "LoopTask_leave ctx = ctx\<lparr>running := False\<rparr>"

text \<open>The table of loopers; a looper is named by its address.\<close>

type_synonym loop_config = "(int \<times> addr option) list"

definition g_loopConfig :: loop_config where
  "g_loopConfig = [(1, None), (2, None), (3, None), (4, None), (5, None)]"

fun GetLooper :: "loop_config \<Rightarrow> int \<Rightarrow> addr option" where
  "GetLooper [] type = None"
| "GetLooper ((t, l) # cfg) type = (if t = type then l else GetLooper cfg type)"

definition SetLooper :: "loop_config \<Rightarrow> int \<Rightarrow> addr option \<Rightarrow> loop_config" where
  "SetLooper cfg type looper = map (\<lambda>(t, l). if t = type then (t, looper) else (t, l)) cfg"

fun ReleaseLooper :: "loop_config \<Rightarrow> addr \<Rightarrow> loop_config" where
  "ReleaseLooper [] looper = []"
| "ReleaseLooper ((t, l) # cfg) looper =
     (if l = Some looper then (t, None) # cfg else (t, l) # ReleaseLooper cfg looper)"

definition LooperInit :: "loop_config \<Rightarrow> addr option \<Rightarrow> int \<times> loop_config" where
  "LooperInit cfg created =
     (case created of None \<Rightarrow> (- 1, cfg) | Some looper \<Rightarrow> (0, SetLooper cfg 1 (Some looper)))"

lemma GetLooper_SetLooper:
  "GetLooper (SetLooper cfg t l) t' = (if t = t' \<and> t \<in> fst ` set cfg then l else GetLooper cfg t')"
  by (induction cfg) (force simp: SetLooper_def)+

section \<open>The queue that a context represents\<close>

definition ctx_rep :: "'h SoftBusLooperContext \<Rightarrow> addr list \<Rightarrow> bool" where
  "ctx_rep ctx ns \<longleftrightarrow> dlist (nodes ctx) (msgHead ctx) ns \<and> (\<forall>n \<in> set ns. node_msg ctx n \<noteq> None)"

definition msgs_of :: "'h SoftBusLooperContext \<Rightarrow> addr list \<Rightarrow> 'h SoftBusMessage list" where
  "msgs_of ctx ns = map (\<lambda>n. the (node_msg ctx n)) ns"

definition msg_queue :: "'h SoftBusLooperContext \<Rightarrow> 'h SoftBusMessage list" where
  "msg_queue ctx =
     (case LIST_FOR_EACH (nodes ctx) (msgHead ctx) (next (nodes ctx (msgHead ctx))) of
        Some ns \<Rightarrow> msgs_of ctx ns | None \<Rightarrow> [])"

definition ctx_wf :: "'h SoftBusLooperContext \<Rightarrow> bool" where
  "ctx_wf ctx \<longleftrightarrow> (\<exists>ns. ctx_rep ctx ns \<and> msgSize ctx = of_nat (length ns) \<and>
     sorted (map time (msgs_of ctx ns)))"

lemma msg_queue_rep: "ctx_rep ctx ns \<Longrightarrow> msg_queue ctx = msgs_of ctx ns"
  using LIST_FOR_EACH_dlist [of "nodes ctx" "msgHead ctx" ns] by (auto simp: ctx_rep_def msg_queue_def)

text \<open>Insertion behind all messages that are due no later.\<close>

definition post_sorted :: "'h SoftBusMessage \<Rightarrow> 'h SoftBusMessage list \<Rightarrow> 'h SoftBusMessage list" where
  "post_sorted m q = takeWhile (\<lambda>x. time x \<le> time m) q @ m # dropWhile (\<lambda>x. time x \<le> time m) q"

lemma post_scan_eq:
  assumes "dlist (nodes ctx) (msgHead ctx) (us @ vs)" "\<forall>n \<in> set vs. node_msg ctx n \<noteq> None"
  shows "post_scan ctx t (hd (vs @ [msgHead ctx])) =
    Some (case dropWhile (\<lambda>n. time (the (node_msg ctx n)) \<le> t) vs of [] \<Rightarrow> None | x # _ \<Rightarrow> Some x)"
  using assms
proof (induction vs arbitrary: us)
  case Nil
  then show ?case by (subst post_scan.simps) simp
next
  case (Cons x vs)
  have ne: "x \<noteq> msgHead ctx" using Cons.prems(1) by (auto simp: dlist_def)
  have n: "next (nodes ctx x) = hd (vs @ [msgHead ctx])" using dlist_next Cons.prems(1) by blast
  obtain m where m: "node_msg ctx x = Some m" using Cons.prems(2) by auto
  have "post_scan ctx t (hd (vs @ [msgHead ctx])) =
    Some (case dropWhile (\<lambda>n. time (the (node_msg ctx n)) \<le> t) vs of [] \<Rightarrow> None | x # _ \<Rightarrow> Some x)"
    using Cons.IH [of "us @ [x]"] Cons.prems by simp
  then show ?case
    using ne n m by (subst post_scan.simps) simp
qed

text \<open>A node that is not linked can be initialised without any effect on the list.\<close>

lemma dlist_init_other:
  assumes "dlist h l xs" "n \<notin> set (l # xs)"
  shows "dlist (ListInit h n) l xs"
proof -
  have "links h l xs l" using assms(1) by (simp add: dlist_def)
  then have "links (ListInit h n) l xs l"
    by (rule links_cong) (use assms(2) in \<open>auto simp: ListInit_def Let_def\<close>)
  then show ?thesis using assms(1) by (simp add: dlist_def)
qed

lemma takeWhile_map_split:
  "map f (takeWhile (\<lambda>n. P (f n)) xs) = takeWhile P (map f xs)"
  "map f (dropWhile (\<lambda>n. P (f n)) xs) = dropWhile P (map f xs)"
  by (simp_all add: takeWhile_map dropWhile_map comp_def)

lemma PostMessageAtTime_rep:
  assumes rep: "ctx_rep ctx ns" and h: "handler m \<noteq> None" and new: "n \<noteq> 0" "n \<notin> set (msgHead ctx # ns)"
    and run: "\<not> stop ctx"
  shows "\<exists>ctx' ns'. PostMessageAtTime ctx m (Some n) True = Some (True, ctx') \<and> ctx_rep ctx' ns' \<and>
    msgs_of ctx' ns' = post_sorted m (msgs_of ctx ns) \<and> set ns' = insert n (set ns) \<and>
    msgHead ctx' = msgHead ctx \<and> stop ctx' = stop ctx \<and> running ctx' = running ctx \<and>
    currentMsg ctx' = currentMsg ctx \<and> msgSize ctx' = msgSize ctx + 1 \<and> length ns' = Suc (length ns)"
proof -
  let ?c = "ctx\<lparr>nodes := ListInit (nodes ctx) n, node_msg := (node_msg ctx)(n \<mapsto> m)\<rparr>"
  let ?P = "\<lambda>k. time (the (node_msg ctx k)) \<le> time m"
  define us vs where "us = takeWhile ?P ns" and "vs = dropWhile ?P ns"
  have d: "dlist (nodes ?c) (msgHead ?c) ([] @ ns)"
    using rep new by (simp add: ctx_rep_def dlist_init_other)
  have old: "node_msg ?c k = node_msg ctx k" if "k \<in> set ns" for k using that new by auto
  have first: "next (nodes ?c (msgHead ?c)) = hd (ns @ [msgHead ?c])"
    using d links_next unfolding dlist_def append_Nil by blast
  have "dropWhile (\<lambda>k. time (the (node_msg ?c k)) \<le> time m) ns = vs"
    unfolding vs_def using old by (intro dropWhile_cong) auto
  moreover have "\<forall>k \<in> set ns. node_msg ?c k \<noteq> None" using rep old by (auto simp: ctx_rep_def)
  ultimately have scan: "post_scan ?c (time m) (next (nodes ?c (msgHead ?c))) =
      Some (case vs of [] \<Rightarrow> None | x # _ \<Rightarrow> Some x)"
    using post_scan_eq [OF d, of "time m"] first by simp
  let ?pos = "case vs of [] \<Rightarrow> msgHead ctx | x # _ \<Rightarrow> x"
  let ?c' = "?c\<lparr>nodes := ListTailInsert (nodes ?c) ?pos n, msgSize := msgSize ?c + 1\<rparr>"
  have post: "PostMessageAtTime ctx m (Some n) True = Some (True, ?c')"
    using h run scan by (cases vs) (auto simp: PostMessageAtTime_def Let_def)
  have nsplit: "ns = us @ vs" by (simp add: us_def vs_def)
  have dl: "dlist (ListTailInsert (nodes ?c) ?pos n) (msgHead ctx) (us @ n # vs)"
  proof (cases vs)
    case Nil
    then have "ns = us" by (metis append_Nil2 nsplit)
    then show ?thesis using d new Nil ListTailInsert_tail [of "nodes ?c" "msgHead ctx" ns n] by simp
  next
    case (Cons x ws)
    then have "ns = us @ x # ws" by (metis nsplit)
    then show ?thesis
      using d new Cons ListTailInsert_before [of "nodes ?c" "msgHead ctx" us x ws n] by simp
  qed
  have memb: "k \<in> set us \<or> k \<in> set vs \<longleftrightarrow> k \<in> set ns" for k by (metis Un_iff nsplit set_append)
  have "ctx_rep ?c' (us @ n # vs)"
    using dl rep memb old by (auto simp: ctx_rep_def)
  moreover have "msgs_of ?c' (us @ n # vs) = post_sorted m (msgs_of ctx ns)"
  proof -
    have "map (\<lambda>k. the (node_msg ?c' k)) us = map (\<lambda>k. the (node_msg ctx k)) us"
      "map (\<lambda>k. the (node_msg ?c' k)) vs = map (\<lambda>k. the (node_msg ctx k)) vs"
      using memb new by (auto intro!: map_cong)
    then show ?thesis
      by (simp add: msgs_of_def post_sorted_def us_def vs_def
          takeWhile_map_split [where P = "\<lambda>x. time x \<le> time m" and f = "\<lambda>k. the (node_msg ctx k)", symmetric])
  qed
  moreover have "set (us @ n # vs) = insert n (set ns)" using memb by auto
  moreover have "length (us @ n # vs) = Suc (length ns)" by (metis add_Suc_right length_Cons length_append nsplit)
  ultimately show ?thesis using post by (intro exI [of _ ?c'] exI [of _ "us @ n # vs"]) simp
qed

lemma ctx_rep_unlink:
  assumes "ctx_rep ctx (us @ x # vs)"
  defines "ctx' \<equiv> ctx\<lparr>nodes := ListDelete (nodes ctx) x, node_msg := (node_msg ctx)(x := None),
      msgSize := msgSize ctx - 1\<rparr>"
  shows "ctx_rep ctx' (us @ vs)" "msgs_of ctx' us = msgs_of ctx us" "msgs_of ctx' vs = msgs_of ctx vs"
proof -
  have x: "x \<notin> set us" "x \<notin> set vs" using assms(1) by (auto simp: ctx_rep_def dlist_def)
  show "ctx_rep ctx' (us @ vs)"
    using assms(1) x ListDelete_removes(1) [of "nodes ctx" "msgHead ctx" us x vs]
    by (auto simp: ctx_rep_def ctx'_def)
  show "msgs_of ctx' us = msgs_of ctx us" "msgs_of ctx' vs = msgs_of ctx vs"
    using x by (auto simp: msgs_of_def ctx'_def)
qed

lemma remove_loop_rep:
  fixes ctx :: "'h SoftBusLooperContext"
  assumes "ctx_rep ctx (us @ vs)"
  shows "\<exists>ctx' vs'. remove_loop hdl f ctx (hd (vs @ [msgHead ctx])) (next (nodes ctx (hd (vs @ [msgHead ctx])))) = Some ctx' \<and>
    ctx_rep ctx' (us @ vs') \<and> msgs_of ctx' us = msgs_of ctx us \<and>
    msgs_of ctx' vs' = filter (\<lambda>m. \<not> (handler m = hdl \<and> f m = 0)) (msgs_of ctx vs) \<and>
    msgSize ctx' + of_nat (length vs) = msgSize ctx + of_nat (length vs') \<and>
    set vs' \<subseteq> set vs \<and> msgHead ctx' = msgHead ctx \<and> stop ctx' = stop ctx \<and> running ctx' = running ctx \<and>
    currentMsg ctx' = currentMsg ctx"
  using assms
proof (induction vs arbitrary: us ctx)
  case Nil
  then show ?case by (subst remove_loop.simps) (auto simp: msgs_of_def intro: exI [of _ "[]"])
next
  case (Cons x vs)
  have d: "dlist (nodes ctx) (msgHead ctx) (us @ x # vs)" using Cons.prems by (simp add: ctx_rep_def)
  have ne: "x \<noteq> msgHead ctx" using d by (auto simp: dlist_def)
  have n: "next (nodes ctx x) = hd (vs @ [msgHead ctx])" using dlist_next d by blast
  obtain m where m: "node_msg ctx x = Some m" using Cons.prems by (auto simp: ctx_rep_def)
  show ?case
  proof (cases "handler m = hdl \<and> f m = 0")
    case True
    let ?c = "ctx\<lparr>nodes := ListDelete (nodes ctx) x, node_msg := (node_msg ctx)(x := None),
      msgSize := msgSize ctx - 1\<rparr>"
    note u = ctx_rep_unlink [OF Cons.prems]
    have step: "remove_loop hdl f ctx x (next (nodes ctx x)) =
        remove_loop hdl f ?c (hd (vs @ [msgHead ?c])) (next (nodes ?c (hd (vs @ [msgHead ?c]))))"
      using ne n m True by (subst remove_loop.simps) (simp add: Let_def)
    from Cons.IH [OF u(1)] obtain c' vs' where r: "remove_loop hdl f ?c (hd (vs @ [msgHead ?c]))
        (next (nodes ?c (hd (vs @ [msgHead ?c])))) = Some c'" "ctx_rep c' (us @ vs')"
        "msgs_of c' us = msgs_of ?c us"
        "msgs_of c' vs' = filter (\<lambda>m. \<not> (handler m = hdl \<and> f m = 0)) (msgs_of ?c vs)"
        "msgSize c' + of_nat (length vs) = msgSize ?c + of_nat (length vs')" "set vs' \<subseteq> set vs"
        "msgHead c' = msgHead ?c" "stop c' = stop ?c" "running c' = running ?c" "currentMsg c' = currentMsg ?c"
      by blast
    have "msgSize c' + of_nat (length (x # vs)) = msgSize ctx + of_nat (length vs')"
      using r(5) by (simp add: algebra_simps)
    moreover have "msgs_of ctx (x # vs) = m # msgs_of ctx vs" using m by (simp add: msgs_of_def)
    ultimately show ?thesis
      using r step u(2,3) True
      by (intro exI [of _ c'] exI [of _ vs']) auto
  next
    case False
    have rep: "ctx_rep ctx ((us @ [x]) @ vs)" using Cons.prems by simp
    have step: "remove_loop hdl f ctx x (next (nodes ctx x)) =
        remove_loop hdl f ctx (hd (vs @ [msgHead ctx])) (next (nodes ctx (hd (vs @ [msgHead ctx]))))"
      using ne n m False by (subst remove_loop.simps) (auto simp: Let_def)
    from Cons.IH [OF rep] obtain c' vs' where r: "remove_loop hdl f ctx (hd (vs @ [msgHead ctx]))
        (next (nodes ctx (hd (vs @ [msgHead ctx])))) = Some c'" "ctx_rep c' ((us @ [x]) @ vs')"
        "msgs_of c' (us @ [x]) = msgs_of ctx (us @ [x])"
        "msgs_of c' vs' = filter (\<lambda>m. \<not> (handler m = hdl \<and> f m = 0)) (msgs_of ctx vs)"
        "msgSize c' + of_nat (length vs) = msgSize ctx + of_nat (length vs')" "set vs' \<subseteq> set vs"
        "msgHead c' = msgHead ctx" "stop c' = stop ctx" "running c' = running ctx" "currentMsg c' = currentMsg ctx"
      by blast
    have "msgs_of c' (x # vs') = filter (\<lambda>m. \<not> (handler m = hdl \<and> f m = 0)) (msgs_of ctx (x # vs))"
      using r(3,4) m False by (auto simp: msgs_of_def)
    moreover have "msgs_of c' us = msgs_of ctx us" using r(3) by (simp add: msgs_of_def)
    ultimately show ?thesis
      using r step by (intro exI [of _ c'] exI [of _ "x # vs'"]) auto
  qed
qed

section \<open>Stable order by time\<close>

lemma mset_post_sorted [simp]: "mset (post_sorted m q) = add_mset m (mset q)"
proof -
  let ?P = "\<lambda>x. time x \<le> time m"
  have "mset (post_sorted m q) = add_mset m (mset (takeWhile ?P q @ dropWhile ?P q))"
    by (simp add: post_sorted_def del: takeWhile_dropWhile_id)
  then show ?thesis by (simp only: takeWhile_dropWhile_id)
qed

lemma set_post_sorted [simp]: "set (post_sorted m q) = insert m (set q)"
  by (metis mset_post_sorted set_mset_add_mset_insert set_mset_mset)

lemma sorted_dropWhile_gt:
  assumes "sorted (map f q)" "x \<in> set (dropWhile (\<lambda>x. f x \<le> t) q)"
  shows "(t :: int) < f x"
  using assms
proof (induction q)
  case (Cons y q)
  then show ?case by (cases "f y \<le> t") force+
qed simp

lemma sorted_post_sorted:
  assumes "sorted (map time q)"
  shows "sorted (map time (post_sorted m q))"
proof -
  let ?P = "\<lambda>x. time x \<le> time m"
  have "sorted (map time (takeWhile ?P q @ dropWhile ?P q))" using assms by simp
  then have s: "sorted (map time (takeWhile ?P q))" "sorted (map time (dropWhile ?P q))"
    by (simp_all only: map_append sorted_append)
  moreover have "\<forall>x \<in> set (takeWhile ?P q). time x \<le> time m" by (auto dest: set_takeWhileD)
  moreover have "\<forall>x \<in> set (dropWhile ?P q). time m \<le> time x"
    using sorted_dropWhile_gt [OF assms] by (auto intro: less_imp_le)
  ultimately show ?thesis
    unfolding post_sorted_def by (fastforce simp: sorted_append)
qed

text \<open>Messages with the same time keep their order, the new one comes last.\<close>

lemma filter_post_sorted:
  assumes "sorted (map time q)"
  shows "filter (\<lambda>x. time x = t) (post_sorted m q) =
    filter (\<lambda>x. time x = t) q @ (if time m = t then [m] else [])"
proof (cases "time m = t")
  case True
  let ?P = "\<lambda>x. time x \<le> time m"
  have "filter (\<lambda>x. time x = t) (dropWhile ?P q) = []"
    using sorted_dropWhile_gt [OF assms] True by (fastforce simp: filter_empty_conv)
  moreover have "filter (\<lambda>x. time x = t) q = filter (\<lambda>x. time x = t) (takeWhile ?P q) @
      filter (\<lambda>x. time x = t) (dropWhile ?P q)"
    by (metis filter_append takeWhile_dropWhile_id)
  ultimately show ?thesis using True by (simp add: post_sorted_def)
next
  case False
  then show ?thesis
    by (simp add: post_sorted_def) (metis filter_append takeWhile_dropWhile_id)
qed

lemma post_all_sort:
  "foldl (\<lambda>q m. post_sorted m q) [] ms = sort_key time ms"
proof (induction ms rule: rev_induct)
  case (snoc m ms)
  let ?q = "sort_key time ms"
  have s: "sorted (map time ?q)" by simp
  have "sort_key time (ms @ [m]) = post_sorted m ?q"
  proof (rule properties_for_sort_key)
    show "mset (post_sorted m ?q) = mset (ms @ [m])" by simp
    show "sorted (map time (post_sorted m ?q))" by (rule sorted_post_sorted [OF s])
    fix k assume "k \<in> set (post_sorted m ?q)"
    have c: "(\<lambda>x. time k = time x) = (\<lambda>x. time x = time k)" by auto
    have "filter (\<lambda>x. time x = time k) ?q = filter (\<lambda>x. time x = time k) ms"
      by (rule sort_key_stable)
    then show "filter (\<lambda>x. time k = time x) (post_sorted m ?q) =
        filter (\<lambda>x. time k = time x) (ms @ [m])"
      using filter_post_sorted [OF s, of "time k" m] unfolding c by simp
  qed
  then show ?case using snoc by simp
qed simp

section \<open>Behaviour of the operations on the queue\<close>

lemma ctx_wf_queue:
  assumes "ctx_wf ctx"
  obtains ns where "ctx_rep ctx ns" "msg_queue ctx = msgs_of ctx ns" "msgSize ctx = of_nat (length ns)"
    "sorted (map time (msg_queue ctx))"
  using assms msg_queue_rep by (metis ctx_wf_def)

lemma ctx_wfI: "ctx_rep ctx ns \<Longrightarrow> msgSize ctx = of_nat (length ns) \<Longrightarrow> sorted (map time (msgs_of ctx ns)) \<Longrightarrow> ctx_wf ctx"
  by (auto simp: ctx_wf_def)

lemma length_msgs_of [simp]: "length (msgs_of ctx ns) = length ns"
  by (simp add: msgs_of_def)

text \<open>An address that no node of the list has, for the allocations of a run.\<close>

definition linked :: "'h SoftBusLooperContext \<Rightarrow> addr set" where
  "linked ctx = insert 0 (insert (msgHead ctx)
     (case LIST_FOR_EACH (nodes ctx) (msgHead ctx) (next (nodes ctx (msgHead ctx))) of
        Some ns \<Rightarrow> set ns | None \<Rightarrow> {}))"

lemma linked_rep: "ctx_rep ctx ns \<Longrightarrow> linked ctx = insert 0 (insert (msgHead ctx) (set ns))"
  using LIST_FOR_EACH_dlist [of "nodes ctx" "msgHead ctx" ns] by (auto simp: ctx_rep_def linked_def)

lemma post_queue:
  assumes "ctx_wf ctx" "handler m \<noteq> None" "n \<notin> linked ctx" "\<not> stop ctx"
  shows "\<exists>ctx'. PostMessageAtTime ctx m (Some n) True = Some (True, ctx') \<and> ctx_wf ctx' \<and>
    msg_queue ctx' = post_sorted m (msg_queue ctx) \<and> linked ctx' = insert n (linked ctx) \<and>
    stop ctx' = stop ctx \<and> running ctx' = running ctx \<and> currentMsg ctx' = currentMsg ctx"
proof -
  obtain ns where ns: "ctx_rep ctx ns" "msg_queue ctx = msgs_of ctx ns" "msgSize ctx = of_nat (length ns)"
    "sorted (map time (msg_queue ctx))" using ctx_wf_queue [OF assms(1)] .
  have "n \<noteq> 0" "n \<notin> set (msgHead ctx # ns)" using assms(3) linked_rep [OF ns(1)] by auto
  from PostMessageAtTime_rep [OF ns(1) assms(2) this assms(4)] obtain ctx' ns' where
    r: "PostMessageAtTime ctx m (Some n) True = Some (True, ctx')" "ctx_rep ctx' ns'"
      "msgs_of ctx' ns' = post_sorted m (msgs_of ctx ns)" "set ns' = insert n (set ns)"
      "msgHead ctx' = msgHead ctx" "stop ctx' = stop ctx" "running ctx' = running ctx"
      "currentMsg ctx' = currentMsg ctx" "msgSize ctx' = msgSize ctx + 1" "length ns' = Suc (length ns)"
    by blast
  have "ctx_wf ctx'"
    using r ns sorted_post_sorted [of "msgs_of ctx ns" m] by (intro ctx_wfI [of _ ns']) auto
  moreover have "linked ctx' = insert n (linked ctx)"
    using linked_rep [OF r(2)] linked_rep [OF ns(1)] r(4,5) by auto
  ultimately show ?thesis using r ns(2) msg_queue_rep [OF r(2)] by auto
qed

lemma remove_queue:
  assumes "ctx_wf ctx" "running ctx" "\<not> stop ctx"
  shows "\<exists>ctx'. LoopRemoveMessageCustom ctx hdl f True = Some ctx' \<and> ctx_wf ctx' \<and>
    msg_queue ctx' = filter (\<lambda>m. \<not> (handler m = hdl \<and> f m = 0)) (msg_queue ctx) \<and>
    linked ctx' \<subseteq> linked ctx \<and> stop ctx' = stop ctx \<and> running ctx' = running ctx \<and>
    currentMsg ctx' = currentMsg ctx"
proof -
  obtain ns where ns: "ctx_rep ctx ns" "msg_queue ctx = msgs_of ctx ns" "msgSize ctx = of_nat (length ns)"
    "sorted (map time (msg_queue ctx))" using ctx_wf_queue [OF assms(1)] .
  have "next (nodes ctx (msgHead ctx)) = hd (ns @ [msgHead ctx])"
    using ns(1) links_next unfolding ctx_rep_def dlist_def by blast
  then obtain ctx' ns' where
    r: "LoopRemoveMessageCustom ctx hdl f True = Some ctx'" "ctx_rep ctx' ns'"
      "msgs_of ctx' ns' = filter (\<lambda>m. \<not> (handler m = hdl \<and> f m = 0)) (msgs_of ctx ns)"
      "msgSize ctx' + of_nat (length ns) = msgSize ctx + of_nat (length ns')" "set ns' \<subseteq> set ns"
      "msgHead ctx' = msgHead ctx" "stop ctx' = stop ctx" "running ctx' = running ctx"
      "currentMsg ctx' = currentMsg ctx"
    using remove_loop_rep [of ctx "[]" ns hdl f] ns(1) assms(2,3)
    by (auto simp: LoopRemoveMessageCustom_def Let_def)
  have "ctx_wf ctx'"
    using r ns sorted_filter [of time "msgs_of ctx ns"] by (intro ctx_wfI [of _ ns']) auto
  moreover have "linked ctx' \<subseteq> linked ctx"
    using linked_rep [OF r(2)] linked_rep [OF ns(1)] r(5,6) by auto
  ultimately show ?thesis using r ns(2) msg_queue_rep [OF r(2)] by auto
qed

lemma round_queue:
  assumes "ctx_wf ctx" "\<not> stop ctx"
  shows "\<exists>ctx'. LoopTask_round False ctx t =
      Some (case msg_queue ctx of [] \<Rightarrow> LoopWait
            | m # q \<Rightarrow> if time m \<le> UptimeMicros t then LoopRun m
                else LoopWaitUntil (time m sdiv 1000 sdiv 1000) (time m smod (1000 * 1000)), ctx') \<and>
    ctx_wf ctx' \<and> linked ctx' \<subseteq> linked ctx \<and> stop ctx' = stop ctx \<and> running ctx' = running ctx \<and>
    msg_queue ctx' = (case msg_queue ctx of [] \<Rightarrow> []
            | m # q \<Rightarrow> if time m \<le> UptimeMicros t then q else m # q)"
proof -
  obtain ns where ns: "ctx_rep ctx ns" "msg_queue ctx = msgs_of ctx ns" "msgSize ctx = of_nat (length ns)"
    "sorted (map time (msg_queue ctx))" using ctx_wf_queue [OF assms(1)] .
  have d: "dlist (nodes ctx) (msgHead ctx) ns" using ns(1) by (simp add: ctx_rep_def)
  show ?thesis
  proof (cases ns)
    case Nil
    then show ?thesis
      using assms ns IsListEmpty_iff [OF d] by (simp add: LoopTask_round_def msgs_of_def)
  next
    case (Cons x vs)
    obtain m where m: "node_msg ctx x = Some m" using ns(1) Cons by (auto simp: ctx_rep_def)
    have first: "next (nodes ctx (msgHead ctx)) = x" using d Cons by (simp add: dlist_def)
    have q: "msg_queue ctx = m # msgs_of ctx vs" using ns(2) Cons m by (simp add: msgs_of_def)
    have ne: "\<not> IsListEmpty (nodes ctx) (msgHead ctx)" using IsListEmpty_iff [OF d] Cons by simp
    show ?thesis
    proof (cases "time m \<le> UptimeMicros t")
      case False
      then show ?thesis using assms q m first ne by (simp add: LoopTask_round_def Let_def)
    next
      case True
      let ?u = "ctx\<lparr>nodes := ListDelete (nodes ctx) x, node_msg := (node_msg ctx)(x := None),
          msgSize := msgSize ctx - 1\<rparr>"
      let ?c = "?u\<lparr>currentMsg := Some m\<rparr>"
      have u: "ctx_rep ?u vs" "msgs_of ?u vs = msgs_of ctx vs"
        using ctx_rep_unlink [of ctx "[]" x vs] ns(1) Cons by simp_all
      have rep: "ctx_rep ?c vs" and ms: "msgs_of ?c vs = msgs_of ctx vs"
        using u by (simp_all add: ctx_rep_def msgs_of_def)
      have "ctx_wf ?c"
        using rep ms ns(3,4) q Cons by (intro ctx_wfI [of _ vs]) auto
      moreover have "linked ?c \<subseteq> linked ctx"
        using linked_rep [OF rep] linked_rep [OF ns(1)] Cons by auto
      moreover have "LoopTask_round False ctx t = Some (LoopRun m, ?c)"
        using True assms m first ne by (simp add: LoopTask_round_def Let_def)
      ultimately show ?thesis using True q msg_queue_rep [OF rep] ms by auto
    qed
  qed
qed

section \<open>The contract of the looper's queue\<close>

text \<open>
  What the components that post messages rely on: a posted message is queued behind all messages that
  are due no later, and a round hands out the first message once it is due.
\<close>

locale timed_queue =
  fixes post :: "'s \<Rightarrow> 'h SoftBusMessage \<Rightarrow> addr \<Rightarrow> 's option"
    and pop :: "'s \<Rightarrow> int \<times> int \<Rightarrow> ('h SoftBusMessage option \<times> 's) option"
    and contents :: "'s \<Rightarrow> 'h SoftBusMessage list"
    and used :: "'s \<Rightarrow> addr set"
    and inv :: "'s \<Rightarrow> bool"
  assumes post_law: "inv s \<Longrightarrow> handler m \<noteq> None \<Longrightarrow> n \<notin> used s \<Longrightarrow>
      \<exists>s'. post s m n = Some s' \<and> inv s' \<and> contents s' = post_sorted m (contents s) \<and>
        used s' = insert n (used s)"
    and pop_law: "inv s \<Longrightarrow> \<exists>s'. inv s' \<and>
      (case contents s of
         [] \<Rightarrow> pop s t = Some (None, s') \<and> contents s' = []
       | m # q \<Rightarrow> if time m \<le> UptimeMicros t then pop s t = Some (Some m, s') \<and> contents s' = q
           else pop s t = Some (None, s') \<and> contents s' = m # q)"
begin

fun post_all :: "'s \<Rightarrow> ('h SoftBusMessage \<times> addr) list \<Rightarrow> 's option" where
  "post_all s [] = Some s"
| "post_all s ((m, n) # ms) = (case post s m n of None \<Rightarrow> None | Some s' \<Rightarrow> post_all s' ms)"

fun drain :: "'s \<Rightarrow> int \<times> int \<Rightarrow> nat \<Rightarrow> ('h SoftBusMessage list \<times> 's) option" where
  "drain s t 0 = Some ([], s)"
| "drain s t (Suc k) =
     (case pop s t of None \<Rightarrow> None
      | Some (out, s') \<Rightarrow>
          map_option (\<lambda>(ms, r). (case out of Some m \<Rightarrow> m # ms | None \<Rightarrow> ms, r)) (drain s' t k))"

lemma post_all_contents:
  assumes "inv s" "\<forall>(m, n) \<in> set ms. handler m \<noteq> None" "distinct (map snd ms)"
    "used s \<inter> snd ` set ms = {}"
  shows "\<exists>s'. post_all s ms = Some s' \<and> inv s' \<and>
    contents s' = foldl (\<lambda>q m. post_sorted m q) (contents s) (map fst ms)"
  using assms
proof (induction ms arbitrary: s)
  case (Cons a ms)
  obtain m n where a: "a = (m, n)" by (cases a)
  obtain s' where s': "post s m n = Some s'" "inv s'" "contents s' = post_sorted m (contents s)"
      "used s' = insert n (used s)"
    using post_law [of s m n] Cons.prems a by auto
  have "\<exists>s''. post_all s' ms = Some s'' \<and> inv s'' \<and>
      contents s'' = foldl (\<lambda>q m. post_sorted m q) (contents s') (map fst ms)"
    using Cons.prems a s'(2,4) by (intro Cons.IH) auto
  then show ?case using s' a by auto
qed simp

lemma drain_contents:
  assumes "inv s" "\<forall>m \<in> set (contents s). time m \<le> UptimeMicros t"
  shows "\<exists>s'. drain s t (length (contents s)) = Some (contents s, s') \<and> inv s' \<and> contents s' = []"
  using assms
proof (induction "contents s" arbitrary: s)
  case (Cons m q)
  have c: "contents s = m # q" using Cons.hyps(2) by simp
  then obtain s' where s': "pop s t = Some (Some m, s')" "inv s'" "contents s' = q"
    using pop_law [OF Cons.prems(1), of t] Cons.prems(2) by auto
  have "\<exists>s''. drain s' t (length (contents s')) = Some (contents s', s'') \<and> inv s'' \<and> contents s'' = []"
    using s' Cons.prems(2) c by (intro Cons.hyps(1)) auto
  then show ?case using s' c by auto
qed auto

lemma post_drain:
  assumes "inv s" "contents s = []" "\<forall>(m, n) \<in> set ms. handler m \<noteq> None \<and> time m \<le> UptimeMicros t"
    "distinct (map snd ms)" "used s \<inter> snd ` set ms = {}"
  shows "\<exists>s' s''. post_all s ms = Some s' \<and> drain s' t (length ms) = Some (sort_key time (map fst ms), s'') \<and>
    contents s'' = []"
proof -
  obtain s' where s': "post_all s ms = Some s'" "inv s'" "contents s' = sort_key time (map fst ms)"
    using post_all_contents [OF assms(1) _ assms(4,5)] assms(2,3) post_all_sort by fastforce
  then show ?thesis
    using drain_contents [OF s'(2), of t] assms(3) by fastforce
qed

end

definition looper_post :: "'h SoftBusLooperContext \<Rightarrow> 'h SoftBusMessage \<Rightarrow> addr \<Rightarrow> 'h SoftBusLooperContext option" where
  "looper_post ctx m n = map_option snd (PostMessageAtTime ctx m (Some n) True)"

definition looper_pop ::
  "'h SoftBusLooperContext \<Rightarrow> int \<times> int \<Rightarrow> ('h SoftBusMessage option \<times> 'h SoftBusLooperContext) option" where
  "looper_pop ctx t =
     map_option (\<lambda>(out, c). (case out of LoopRun m \<Rightarrow> Some m | _ \<Rightarrow> None, c)) (LoopTask_round False ctx t)"

interpretation lp: timed_queue looper_post looper_pop msg_queue linked "\<lambda>ctx. ctx_wf ctx \<and> \<not> stop ctx"
proof (unfold_locales, goal_cases)
  case (1 s m n)
  then show ?case using post_queue [of s m n] by (auto simp: looper_post_def)
next
  case (2 s t)
  then obtain s' where "LoopTask_round False s t =
      Some (case msg_queue s of [] \<Rightarrow> LoopWait
            | m # q \<Rightarrow> if time m \<le> UptimeMicros t then LoopRun m
                else LoopWaitUntil (time m sdiv 1000 sdiv 1000) (time m smod (1000 * 1000)), s')"
    "ctx_wf s'" "stop s' = stop s"
    "msg_queue s' = (case msg_queue s of [] \<Rightarrow> []
            | m # q \<Rightarrow> if time m \<le> UptimeMicros t then q else m # q)"
    using round_queue [of s t] by blast
  then show ?case
    using 2 by (intro exI [of _ s']) (auto simp: looper_pop_def split: list.splits)
qed

section \<open>Threads that share a looper\<close>

text \<open>
  Every operation works under the lock of the context, so the threads interleave operation by
  operation. \<open>looper_run ctx ps ds\<close> says that some interleaving leads from a new looper to \<open>ctx\<close>, where
  \<open>ps\<close> are the messages taken into the list and \<open>ds\<close> those handed out, each with the time of its round.
\<close>

inductive looper_run ::
  "'h SoftBusLooperContext \<Rightarrow> 'h SoftBusMessage list \<Rightarrow> ('h SoftBusMessage \<times> int) list \<Rightarrow> bool" where
  run_new: "CreateNewLooper a b r head h nm = Some ctx \<Longrightarrow> head \<noteq> 0 \<Longrightarrow> looper_run ctx [] []"
| run_start: "looper_run ctx ps ds \<Longrightarrow> looper_run (LoopTask_start ctx) ps ds"
| run_post: "looper_run ctx ps ds \<Longrightarrow> \<forall>k. n = Some k \<longrightarrow> k \<notin> linked ctx \<Longrightarrow>
    PostMessageAtTime ctx m n lk = Some (taken, ctx') \<Longrightarrow>
    looper_run ctx' (if taken then ps @ [m] else ps) ds"
| run_remove: "looper_run ctx ps ds \<Longrightarrow> LoopRemoveMessageCustom ctx hdl f lk = Some ctx' \<Longrightarrow>
    looper_run ctx' ps ds"
| run_round: "looper_run ctx ps ds \<Longrightarrow> LoopTask_round nd ctx t = Some (out, ctx') \<Longrightarrow>
    looper_run ctx' ps (ds @ (case out of LoopRun m \<Rightarrow> [(m, UptimeMicros t)] | _ \<Rightarrow> []))"
| run_handled: "looper_run ctx ps ds \<Longrightarrow> looper_run (LoopTask_handled ctx) ps ds"
| run_leave: "looper_run ctx ps ds \<Longrightarrow> looper_run (LoopTask_leave ctx) ps ds"
| run_stop: "looper_run ctx ps ds \<Longrightarrow> looper_run (ctx\<lparr>stop := True\<rparr>) ps ds"

lemma flags_keep_msgs [simp]:
  "msgs_of (ctx\<lparr>running := a\<rparr>) ns = msgs_of ctx ns" "msgs_of (ctx\<lparr>stop := a\<rparr>) ns = msgs_of ctx ns"
  "msgs_of (ctx\<lparr>currentMsg := c\<rparr>) ns = msgs_of ctx ns"
  by (simp_all add: msgs_of_def)

lemma flags_keep_queue [simp]:
  "ctx_wf (ctx\<lparr>running := a\<rparr>) = ctx_wf ctx" "msg_queue (ctx\<lparr>running := a\<rparr>) = msg_queue ctx"
  "ctx_wf (ctx\<lparr>stop := a\<rparr>) = ctx_wf ctx" "msg_queue (ctx\<lparr>stop := a\<rparr>) = msg_queue ctx"
  "ctx_wf (ctx\<lparr>currentMsg := c\<rparr>) = ctx_wf ctx" "msg_queue (ctx\<lparr>currentMsg := c\<rparr>) = msg_queue ctx"
  by (simp_all add: ctx_wf_def msg_queue_def ctx_rep_def split: option.split)

lemma new_looper:
  assumes "CreateNewLooper a b r head h nm = Some ctx" "head \<noteq> 0"
  shows "ctx_wf ctx" "msg_queue ctx = []" "\<not> stop ctx"
proof -
  have "ctx_rep ctx []" and m: "msgSize ctx = 0" and s: "\<not> stop ctx"
    using assms by (auto simp: CreateNewLooper_def ctx_rep_def ListInit_empty split: if_splits)
  then show "ctx_wf ctx" "msg_queue ctx = []"
    using msg_queue_rep [of ctx "[]"] by (auto intro!: ctx_wfI [of _ "[]"] simp: msgs_of_def)
  show "\<not> stop ctx" by (rule s)
qed

lemma post_cases:
  assumes "PostMessageAtTime ctx m n lk = Some (taken, ctx')" "ctx_wf ctx" "\<forall>k. n = Some k \<longrightarrow> k \<notin> linked ctx"
  shows "(taken \<and> ctx_wf ctx' \<and> msg_queue ctx' = post_sorted m (msg_queue ctx)) \<or> (\<not> taken \<and> ctx' = ctx)"
proof (cases "handler m = None \<or> n = None \<or> \<not> lk \<or> stop ctx")
  case True
  then show ?thesis
    using assms(1) by (auto simp: PostMessageAtTime_def Let_def split: option.splits if_splits)
next
  case False
  then obtain k where n: "n = Some k" "lk" by auto
  then show ?thesis using post_queue [OF assms(2), of m k] assms(1,3) False by auto
qed

lemma remove_cases:
  assumes "LoopRemoveMessageCustom ctx hdl f lk = Some ctx'" "ctx_wf ctx"
  shows "ctx' = ctx \<or> (ctx_wf ctx' \<and> msg_queue ctx' = filter (\<lambda>m. \<not> (handler m = hdl \<and> f m = 0)) (msg_queue ctx))"
proof (cases "lk \<and> running ctx \<and> \<not> stop ctx")
  case True
  then show ?thesis using remove_queue [OF assms(2), of hdl f] assms(1) by auto
next
  case False
  then show ?thesis using assms(1) by (auto simp: LoopRemoveMessageCustom_def split: if_splits)
qed

lemma round_cases:
  assumes "LoopTask_round nd ctx t = Some (out, ctx')" "ctx_wf ctx"
  shows "(\<exists>m q. out = LoopRun m \<and> msg_queue ctx = m # q \<and> time m \<le> UptimeMicros t \<and> ctx_wf ctx' \<and> msg_queue ctx' = q) \<or>
    ((\<forall>m. out \<noteq> LoopRun m) \<and> ctx_wf ctx' \<and> msg_queue ctx' = msg_queue ctx)"
proof (cases "stop ctx \<or> nd")
  case True
  then have "LoopTask_round nd ctx t = Some (LoopExit, ctx)" by (auto simp: LoopTask_round_def)
  then show ?thesis using assms by simp
next
  case False
  then show ?thesis
    using round_queue [OF assms(2), of t] assms(1) by (auto split: list.splits if_splits)
qed

lemma looper_run_inv:
  "looper_run ctx ps ds \<Longrightarrow> ctx_wf ctx \<and> mset (map fst ds) + mset (msg_queue ctx) \<subseteq># mset ps \<and>
     (\<forall>(m, now) \<in> set ds. time m \<le> now)"
proof (induction rule: looper_run.induct)
  case (run_new a b r head h nm ctx)
  then show ?case using new_looper by fastforce
next
  case (run_post ctx ps ds n m lk taken ctx')
  then show ?case using post_cases [of ctx m n lk taken ctx'] by auto
next
  case (run_remove ctx ps ds hdl f lk ctx')
  have "mset (filter P q) \<subseteq># mset q" for P and q :: "'a SoftBusMessage list"
    by (simp add: multiset_filter_subset)
  then have "mset (msg_queue ctx') \<subseteq># mset (msg_queue ctx)" "ctx_wf ctx'"
    using run_remove remove_cases [of ctx hdl f lk ctx'] by auto
  then show ?case
    using run_remove.IH by (meson subset_mset.add_left_mono subset_mset.order_trans)
next
  case (run_round ctx ps ds nd t out ctx')
  then show ?case using round_cases [of nd ctx t out ctx'] by (auto split: loop_outcome.splits)
qed (simp_all add: LoopTask_start_def LoopTask_handled_def LoopTask_leave_def)

text \<open>In a reachable state every operation returns, when a new node does not lie at a linked address.\<close>

lemma looper_ops_defined:
  assumes "ctx_wf ctx"
  shows "(\<forall>k. n = Some k \<longrightarrow> k \<notin> linked ctx) \<Longrightarrow> PostMessageAtTime ctx m n lk \<noteq> None"
    "LoopRemoveMessageCustom ctx hdl f lk \<noteq> None" "LoopTask_round nd ctx t \<noteq> None"
proof -
  show "PostMessageAtTime ctx m n lk \<noteq> None" if "\<forall>k. n = Some k \<longrightarrow> k \<notin> linked ctx"
  proof (cases "handler m = None \<or> n = None \<or> \<not> lk \<or> stop ctx")
    case True
    then show ?thesis by (auto simp: PostMessageAtTime_def Let_def split: option.split)
  next
    case False
    then obtain k where "n = Some k" "lk" by auto
    then show ?thesis using post_queue [OF assms, of m k] that False by auto
  qed
  show "LoopRemoveMessageCustom ctx hdl f lk \<noteq> None"
  proof (cases "lk \<and> running ctx \<and> \<not> stop ctx")
    case True
    then show ?thesis using remove_queue [OF assms, of hdl f] by auto
  next
    case False
    then show ?thesis by (auto simp: LoopRemoveMessageCustom_def)
  qed
  show "LoopTask_round nd ctx t \<noteq> None"
  proof (cases "stop ctx \<or> nd")
    case True
    then show ?thesis by (auto simp: LoopTask_round_def)
  next
    case False
    then show ?thesis using round_queue [OF assms, of t] by auto
  qed
qed

section \<open>Properties\<close>

text \<open>
  C12: Messages posted to an idle looper, whatever their times and the addresses of their nodes, are
  handed out by as many rounds in the order of their times, and messages with equal times in the order
  in which they were posted; the list is empty afterwards. No step leaves the defined behaviour.
\<close>

theorem looper_delivers_in_time_order:
  assumes "ctx_wf ctx" "\<not> stop ctx" "msg_queue ctx = []"
    "\<forall>(m, n) \<in> set ms. handler m \<noteq> None \<and> time m \<le> UptimeMicros t"
    "distinct (map snd ms)" "linked ctx \<inter> snd ` set ms = {}"
  shows "\<exists>ctx' ctx''. lp.post_all ctx ms = Some ctx' \<and>
    lp.drain ctx' t (length ms) = Some (sort_key time (map fst ms), ctx'') \<and> msg_queue ctx'' = []"
  using assms by (intro lp.post_drain) auto

theorem looper_delivers_in_time_order_witness:
  "\<exists>ctx ctx' ctx''. CreateNewLooper True True 0 1 (\<lambda>_. \<lparr>prev = 0, next = 0\<rparr>) [] = Some ctx \<and>
    lp.post_all ctx
      [(\<lparr>what = 1, arg1 = 0, arg2 = 0, time = 7, handler = Some ()\<rparr>, 2),
       (\<lparr>what = 2, arg1 = 0, arg2 = 0, time = 5, handler = Some ()\<rparr>, 3)] = Some ctx' \<and>
    lp.drain ctx' (0, 9) 2 =
      Some ([\<lparr>what = 2, arg1 = 0, arg2 = 0, time = 5, handler = Some ()\<rparr>,
             \<lparr>what = 1, arg1 = 0, arg2 = 0, time = 7, handler = Some ()\<rparr>], ctx'') \<and> msg_queue ctx'' = []"
proof -
  let ?ms = "[(\<lparr>what = 1, arg1 = 0, arg2 = 0, time = 7, handler = Some ()\<rparr>, 2),
       (\<lparr>what = 2, arg1 = 0, arg2 = 0, time = 5, handler = Some ()\<rparr>, 3)] :: (unit SoftBusMessage \<times> addr) list"
  obtain ctx :: "unit SoftBusLooperContext" where
    ctx: "CreateNewLooper True True 0 1 (\<lambda>_. \<lparr>prev = 0, next = 0\<rparr>) [] = Some ctx"
    by (simp add: CreateNewLooper_def memcpy_s_ok_def)
  note n = new_looper [OF ctx]
  have "ctx_rep ctx []" "msgHead ctx = 1"
    using ctx by (auto simp: CreateNewLooper_def ctx_rep_def ListInit_empty split: if_splits)
  then have l: "linked ctx = {0, 1}" using linked_rep by fastforce
  have "\<exists>ctx' ctx''. lp.post_all ctx ?ms = Some ctx' \<and>
      lp.drain ctx' (0, 9) (length ?ms) = Some (sort_key time (map fst ?ms), ctx'') \<and> msg_queue ctx'' = []"
    by (rule looper_delivers_in_time_order) (use n l in \<open>auto simp: UptimeMicros_def\<close>)
  moreover have "length ?ms = 2" by simp
  moreover have "sort_key time (map fst ?ms) = [\<lparr>what = 2, arg1 = 0, arg2 = 0, time = 5, handler = Some ()\<rparr>,
      \<lparr>what = 1, arg1 = 0, arg2 = 0, time = 7, handler = Some ()\<rparr>]" by simp
  ultimately show ?thesis using ctx by metis
qed

text \<open>
  C26: Under any interleaving of posting, removing, rounds of the loop thread and stopping, in any state
  that is reached: the list of messages is well linked and ordered by time, \<open>msgSize\<close> is its length,
  every message handed out was due, and the messages handed out together with those still queued are
  among the messages posted, so none is handed out twice. Every further post (of a node at an address
  that is not linked), removal and round returns.
\<close>

theorem looper_run_safe:
  assumes "looper_run ctx ps ds"
  shows "ctx_wf ctx \<and> sorted (map time (msg_queue ctx)) \<and> msgSize ctx = of_nat (length (msg_queue ctx)) \<and>
    mset (map fst ds) + mset (msg_queue ctx) \<subseteq># mset ps \<and> (\<forall>(m, now) \<in> set ds. time m \<le> now) \<and>
    (\<forall>m n lk. (\<forall>k. n = Some k \<longrightarrow> k \<notin> linked ctx) \<longrightarrow> (\<exists>taken ctx'. PostMessageAtTime ctx m n lk = Some (taken, ctx'))) \<and>
    (\<forall>hdl f lk. \<exists>ctx'. LoopRemoveMessageCustom ctx hdl f lk = Some ctx') \<and>
    (\<forall>nd t. \<exists>out ctx'. LoopTask_round nd ctx t = Some (out, ctx'))"
proof -
  have inv: "ctx_wf ctx" "mset (map fst ds) + mset (msg_queue ctx) \<subseteq># mset ps" "\<forall>(m, now) \<in> set ds. time m \<le> now"
    using looper_run_inv [OF assms] by auto
  obtain ns where "ctx_rep ctx ns" "msg_queue ctx = msgs_of ctx ns" "msgSize ctx = of_nat (length ns)"
    "sorted (map time (msg_queue ctx))" using ctx_wf_queue [OF inv(1)] .
  moreover have "\<exists>taken ctx'. PostMessageAtTime ctx m n lk = Some (taken, ctx')"
    if "\<forall>k. n = Some k \<longrightarrow> k \<notin> linked ctx" for m n lk
    using looper_ops_defined(1) [OF inv(1) that, of m lk] by auto
  ultimately show ?thesis
    using inv looper_ops_defined(2) [OF inv(1)] looper_ops_defined(3) [OF inv(1)] by auto
qed

text \<open>
  A run with two posts, a round that hands out the message that was posted last but is due first, and
  a removal.
\<close>

definition late_msg :: "unit SoftBusMessage" where
  "late_msg = \<lparr>what = 1, arg1 = 0, arg2 = 0, time = 7, handler = Some ()\<rparr>"

definition early_msg :: "unit SoftBusMessage" where
  "early_msg = \<lparr>what = 2, arg1 = 0, arg2 = 0, time = 5, handler = Some ()\<rparr>"

lemma two_posts_run:
  obtains ctx1 ctx2 where "looper_run ctx1 [late_msg, early_msg] [(early_msg, 6)]"
    "msg_queue ctx1 = [late_msg]" "LooperRemoveMessage ctx1 (Some ()) 1 True = Some ctx2"
    "looper_run ctx2 [late_msg, early_msg] [(early_msg, 6)]" "msg_queue ctx2 = []"
proof -
  obtain c0 :: "unit SoftBusLooperContext" where
    c0: "CreateNewLooper True True 0 1 (\<lambda>_. \<lparr>prev = 0, next = 0\<rparr>) [] = Some c0"
    by (simp add: CreateNewLooper_def memcpy_s_ok_def)
  let ?c = "LoopTask_start c0"
  have r0: "looper_run ?c [] []" using run_start [OF run_new [OF c0]] by simp
  have w: "ctx_wf ?c" "msg_queue ?c = []" "\<not> stop ?c" "running ?c"
    using new_looper [OF c0] by (simp_all add: LoopTask_start_def)
  have "ctx_rep ?c []" "msgHead ?c = 1"
    using c0 by (auto simp: CreateNewLooper_def ctx_rep_def ListInit_empty LoopTask_start_def split: if_splits)
  then have l: "linked ?c = {0, 1}" using linked_rep by fastforce
  have h: "handler late_msg \<noteq> None" "handler early_msg \<noteq> None" by (simp_all add: late_msg_def early_msg_def)
  obtain c1 where c1: "PostMessageAtTime ?c late_msg (Some 2) True = Some (True, c1)" "ctx_wf c1"
    "msg_queue c1 = [late_msg]" "linked c1 = {2, 0, 1}" "\<not> stop c1" "running c1"
    using post_queue [OF w(1) h(1), of 2] l w by (auto simp: post_sorted_def)
  have r1: "looper_run c1 [late_msg] []" using run_post [OF r0 _ c1(1)] l by simp
  obtain c2 where c2: "PostMessageAtTime c1 early_msg (Some 3) True = Some (True, c2)" "ctx_wf c2"
    "msg_queue c2 = [early_msg, late_msg]" "\<not> stop c2" "running c2"
    using post_queue [OF c1(2) h(2), of 3] c1(3-6)
    by (auto simp: post_sorted_def late_msg_def early_msg_def)
  have r2: "looper_run c2 [late_msg, early_msg] []" using run_post [OF r1 _ c2(1)] c1(4) by simp
  have u: "UptimeMicros (0, 6) = 6" by (simp add: UptimeMicros_def)
  obtain c3 where c3: "LoopTask_round False c2 (0, 6) = Some (LoopRun early_msg, c3)" "ctx_wf c3"
    "msg_queue c3 = [late_msg]" "\<not> stop c3" "running c3"
    using round_queue [OF c2(2,4), of "(0, 6)"] c2(3-5) u by (auto simp: early_msg_def)
  have r3: "looper_run c3 [late_msg, early_msg] [(early_msg, 6)]" using run_round [OF r2 c3(1)] u by simp
  obtain c4 where c4: "LooperRemoveMessage c3 (Some ()) 1 True = Some c4" "msg_queue c4 = []"
    using remove_queue [OF c3(2,5,4), of "Some ()" "WhatRemoveFunc 1"] c3(3)
    by (auto simp: LooperRemoveMessage_def WhatRemoveFunc_def late_msg_def)
  have "looper_run c4 [late_msg, early_msg] [(early_msg, 6)]"
    using run_remove [OF r3, of "Some ()" "WhatRemoveFunc 1" True c4] c4(1) by (simp add: LooperRemoveMessage_def)
  with r3 c3(3) c4 show ?thesis by (intro that)
qed

theorem looper_run_safe_witness:
  "\<exists>ctx1 ctx2. looper_run ctx1 [late_msg, early_msg] [(early_msg, 6)] \<and> ctx_wf ctx1 \<and> msgSize ctx1 = 1 \<and>
     (\<exists>out ctx'. LoopTask_round False ctx1 (0, 9) = Some (out, ctx')) \<and>
     LooperRemoveMessage ctx1 (Some ()) 1 True = Some ctx2 \<and> ctx_wf ctx2 \<and> msgSize ctx2 = 0"
proof -
  obtain ctx1 ctx2 where "looper_run ctx1 [late_msg, early_msg] [(early_msg, 6)]" "msg_queue ctx1 = [late_msg]"
    "LooperRemoveMessage ctx1 (Some ()) 1 True = Some ctx2"
    "looper_run ctx2 [late_msg, early_msg] [(early_msg, 6)]" "msg_queue ctx2 = []"
    using two_posts_run .
  with looper_run_safe [of ctx1] looper_run_safe [of ctx2] show ?thesis
    by (intro exI [of _ ctx1] exI [of _ ctx2]) simp
qed

text \<open>
  On a running looper \<open>RemoveMessage\<close> takes out exactly the queued messages of the handler with the
  given \<open>what\<close>, keeps the others in their order, and returns on every well-linked list.
\<close>

theorem LooperRemoveMessage_filters:
  assumes "ctx_wf ctx" "running ctx" "\<not> stop ctx"
  shows "\<exists>ctx'. LooperRemoveMessage ctx hdl w True = Some ctx' \<and> ctx_wf ctx' \<and>
    msg_queue ctx' = filter (\<lambda>m. \<not> (handler m = hdl \<and> what m = w)) (msg_queue ctx)"
proof -
  obtain ctx' where "LoopRemoveMessageCustom ctx hdl (WhatRemoveFunc w) True = Some ctx'" "ctx_wf ctx'"
    "msg_queue ctx' = filter (\<lambda>m. \<not> (handler m = hdl \<and> WhatRemoveFunc w m = 0)) (msg_queue ctx)"
    using remove_queue [OF assms, of hdl "WhatRemoveFunc w"] by blast
  moreover have "(WhatRemoveFunc w m = 0) = (what m = w)" for m :: "'a SoftBusMessage"
    by (simp add: WhatRemoveFunc_def)
  ultimately show ?thesis by (auto simp: LooperRemoveMessage_def)
qed

theorem LooperRemoveMessage_filters_witness:
  "\<exists>ctx ctx' :: unit SoftBusLooperContext. running ctx \<and> LooperRemoveMessage ctx (Some ()) 3 True = Some ctx' \<and>
     msg_queue ctx' = []"
proof -
  obtain c :: "unit SoftBusLooperContext" where
    c: "CreateNewLooper True True 0 1 (\<lambda>_. \<lparr>prev = 0, next = 0\<rparr>) [] = Some c"
    by (simp add: CreateNewLooper_def memcpy_s_ok_def)
  note n = new_looper [OF c]
  have "ctx_wf (c\<lparr>running := True\<rparr>)" "running (c\<lparr>running := True\<rparr>)" "\<not> stop (c\<lparr>running := True\<rparr>)"
    using n by simp_all
  then obtain c' where "LooperRemoveMessage (c\<lparr>running := True\<rparr>) (Some ()) 3 True = Some c'"
      "msg_queue c' = filter (\<lambda>m. \<not> (handler m = Some () \<and> what m = 3)) (msg_queue (c\<lparr>running := True\<rparr>))"
    using LooperRemoveMessage_filters by blast
  then show ?thesis using n by (intro exI [of _ "c\<lparr>running := True\<rparr>"] exI [of _ c']) simp
qed

end
