(* ===== verification/Byte_Order.thy ===== *)
theory Byte_Order
  imports Softbus_Prelude
begin

text \<open>
  Byte order of packet heads: the swapping helpers of
  \<^verbatim>\<open>adapter/common/kernel/liteos_a/softbus_adapter_socket.c\<close> and the transformations of
  \<^verbatim>\<open>core/connection/common/src/softbus_datahead_transform.c\<close>. The byte order of the machine is the
  parameter \<open>le\<close> (true for little-endian); the image of a value in memory is a list of bytes that
  depends on it. Signed fields are words of their width.
\<close>

section \<open>Values in memory\<close>

fun le_bytes :: "nat \<Rightarrow> 'a::len word \<Rightarrow> u8 list" where
  "le_bytes 0 x = []"
| "le_bytes (Suc n) x = ucast x # le_bytes n (drop_bit 8 x)"

fun le_word :: "u8 list \<Rightarrow> 'a::len word" where
  "le_word [] = 0"
| "le_word (b # bs) = ucast b OR push_bit 8 (le_word bs)"

definition mem_bytes :: "bool \<Rightarrow> nat \<Rightarrow> 'a::len word \<Rightarrow> u8 list" where
  "mem_bytes le n x = (if le then le_bytes n x else rev (le_bytes n x))"

definition mem_word :: "bool \<Rightarrow> u8 list \<Rightarrow> 'a::len word" where
  "mem_word le bs = le_word (if le then bs else rev bs)"

section \<open>Swapping\<close>

fun shift_loop :: "nat \<Rightarrow> u8 list \<Rightarrow> int \<Rightarrow> int \<Rightarrow> u8 list" where
  "shift_loop 0 bs left right = bs"
| "shift_loop (Suc n) bs left right =
     (if left < right then
        let l = nat left; r = nat right;
            bs1 = bs[l := bs ! l XOR bs ! r];
            bs2 = bs1[r := bs1 ! r XOR bs1 ! l];
            bs3 = bs2[l := bs2 ! l XOR bs2 ! r]
        in shift_loop n bs3 (left + 1) (right - 1)
      else bs)"

text \<open>The two indices meet after at most half of the bytes, so the number of bytes is enough fuel.\<close>

definition ShiftByte :: "u8 list \<Rightarrow> u8 list" where
  "ShiftByte bs = shift_loop (length bs) bs 0 (int (length bs) - 1)"

definition ntohl :: "bool \<Rightarrow> u32 \<Rightarrow> u32" where
  "ntohl le x = mem_word False (mem_bytes le 4 x)"

definition htonl :: "bool \<Rightarrow> u32 \<Rightarrow> u32" where
  "htonl le x = mem_word le (mem_bytes False 4 x)"

definition IsLittleEndian :: "bool \<Rightarrow> bool" where
  "IsLittleEndian le = (let data = 1 in if data = ntohl le data then False else True)"

definition ProcByteOrder :: "bool \<Rightarrow> u8 list \<Rightarrow> u8 list" where
  "ProcByteOrder le bs = (if IsLittleEndian le then bs else ShiftByte bs)"

definition SoftBusHtoLs :: "bool \<Rightarrow> u16 \<Rightarrow> u16" where
  "SoftBusHtoLs le v = mem_word le (ProcByteOrder le (mem_bytes le 2 v))"

definition SoftBusHtoLl :: "bool \<Rightarrow> u32 \<Rightarrow> u32" where
  "SoftBusHtoLl le v = mem_word le (ProcByteOrder le (mem_bytes le 4 v))"

definition SoftBusHtoLll :: "bool \<Rightarrow> u64 \<Rightarrow> u64" where
  "SoftBusHtoLll le v = mem_word le (ProcByteOrder le (mem_bytes le 8 v))"

definition SoftBusLtoHs :: "bool \<Rightarrow> u16 \<Rightarrow> u16" where
  "SoftBusLtoHs le v = mem_word le (ProcByteOrder le (mem_bytes le 2 v))"

definition SoftBusLtoHl :: "bool \<Rightarrow> u32 \<Rightarrow> u32" where
  "SoftBusLtoHl le v = mem_word le (ProcByteOrder le (mem_bytes le 4 v))"

definition SoftBusLtoHll :: "bool \<Rightarrow> u64 \<Rightarrow> u64" where
  "SoftBusLtoHll le v = mem_word le (ProcByteOrder le (mem_bytes le 8 v))"

section \<open>Packet heads\<close>

abbreviation (input) MAGIC_NUMBER :: u32 where "MAGIC_NUMBER \<equiv> 0xBABEFACE"

record ConnPktHead =
  magic :: u32
  module :: u32
  seq :: u64
  flag :: u32
  len :: u32

definition PackConnPktHead :: "bool \<Rightarrow> ConnPktHead option \<Rightarrow> ConnPktHead option" where
  "PackConnPktHead le data =
     (case data of None \<Rightarrow> None
      | Some d \<Rightarrow> Some \<lparr>magic = SoftBusHtoLl le (magic d), module = SoftBusHtoLl le (module d),
          seq = SoftBusHtoLll le (seq d), flag = SoftBusHtoLl le (flag d), len = SoftBusHtoLl le (len d)\<rparr>)"

definition UnpackConnPktHead :: "bool \<Rightarrow> ConnPktHead option \<Rightarrow> ConnPktHead option" where
  "UnpackConnPktHead le data =
     (case data of None \<Rightarrow> None
      | Some d \<Rightarrow> Some \<lparr>magic = SoftBusLtoHl le (magic d), module = SoftBusLtoHl le (module d),
          seq = SoftBusLtoHll le (seq d), flag = SoftBusLtoHl le (flag d), len = SoftBusLtoHl le (len d)\<rparr>)"

text \<open>The packed structure in memory, 24 bytes.\<close>

definition head_bytes :: "bool \<Rightarrow> ConnPktHead \<Rightarrow> u8 list" where
  "head_bytes le d = mem_bytes le 4 (magic d) @ mem_bytes le 4 (module d) @ mem_bytes le 8 (seq d) @
     mem_bytes le 4 (flag d) @ mem_bytes le 4 (len d)"

definition head_of_bytes :: "bool \<Rightarrow> u8 list \<Rightarrow> ConnPktHead" where
  "head_of_bytes le bs =
     \<lparr>magic = mem_word le (take 4 bs), module = mem_word le (take 4 (drop 4 bs)),
      seq = mem_word le (take 8 (drop 8 bs)), flag = mem_word le (take 4 (drop 16 bs)),
      len = mem_word le (take 4 (drop 20 bs))\<rparr>"

record ProxyMessageHead =
  type :: u8
  chiper :: u8
  myId :: u16
  peerId :: u16
  reserved :: u16

definition PackProxyMessageHead :: "bool \<Rightarrow> ProxyMessageHead option \<Rightarrow> ProxyMessageHead option" where
  "PackProxyMessageHead le msg =
     (case msg of None \<Rightarrow> None
      | Some m \<Rightarrow> Some (m\<lparr>myId := SoftBusHtoLs le (myId m), peerId := SoftBusHtoLs le (peerId m),
          reserved := SoftBusHtoLs le (reserved m)\<rparr>))"

definition UnpackProxyMessageHead :: "bool \<Rightarrow> ProxyMessageHead option \<Rightarrow> ProxyMessageHead option" where
  "UnpackProxyMessageHead le msg =
     (case msg of None \<Rightarrow> None
      | Some m \<Rightarrow> Some (m\<lparr>peerId := SoftBusLtoHs le (peerId m), myId := SoftBusLtoHs le (myId m),
          reserved := SoftBusLtoHs le (reserved m)\<rparr>))"

section \<open>Facts about the byte order\<close>

lemma length_le_bytes [simp]: "length (le_bytes n x) = n"
  by (induction n arbitrary: x) auto

lemma length_mem_bytes [simp]: "length (mem_bytes le n x) = n"
  by (simp add: mem_bytes_def)

lemma bit_le_word_bytes:
  "bit (le_word (le_bytes n (x :: 'a::len word)) :: 'a word) k \<longleftrightarrow> bit x k \<and> k < 8 * n"
proof (induction n arbitrary: x k)
  case (Suc n)
  show ?case
    using Suc.IH [of "drop_bit 8 x" "k - 8"] bit_imp_le_length [of x k]
    by (auto simp: bit_or_iff bit_unsigned_iff bit_push_bit_iff bit_drop_bit_eq)
qed simp

lemma le_word_bytes: "LENGTH('a) \<le> 8 * n \<Longrightarrow> le_word (le_bytes n (x :: 'a::len word)) = x"
  by (intro bit_word_eqI) (auto simp: bit_le_word_bytes)

lemma mem_word_bytes:
  "LENGTH('a) \<le> 8 * n \<Longrightarrow> mem_word le (mem_bytes le n (x :: 'a::len word)) = x"
  by (simp add: mem_word_def mem_bytes_def le_word_bytes)

lemma le_bytes_word:
  assumes "8 * length bs \<le> LENGTH('a)"
  shows "le_bytes (length bs) (le_word bs :: 'a::len word) = bs"
  using assms
proof (induction bs)
  case (Cons b bs)
  have lo: "(ucast (le_word (b # bs) :: 'a word) :: u8) = b"
    using Cons.prems
    by (intro bit_word_eqI) (auto simp: bit_unsigned_iff bit_or_iff bit_push_bit_iff)
  have bound: "k < 8 * length bs" if "bit (le_word bs :: 'a word) k" for k
    using that
  proof (induction bs arbitrary: k)
    case (Cons c cs)
    then show ?case
      using bit_imp_le_length [of c k]
      by (cases "k < 8") (fastforce simp: bit_or_iff bit_unsigned_iff bit_push_bit_iff)+
  qed simp
  have hi: "drop_bit 8 (le_word (b # bs) :: 'a word) = le_word bs"
  proof (rule bit_word_eqI)
    fix k assume "k < LENGTH('a)"
    have "bit b (k + 8) = False" using bit_imp_le_length [of b "k + 8"] by auto
    then show "bit (drop_bit 8 (le_word (b # bs) :: 'a word)) k = bit (le_word bs :: 'a word) k"
      using bound [of k] Cons.prems
      by (auto simp: bit_drop_bit_eq bit_or_iff bit_unsigned_iff bit_push_bit_iff add.commute)
  qed
  have "le_bytes (length (b # bs)) (le_word (b # bs) :: 'a word) =
      (ucast (le_word (b # bs) :: 'a word) :: u8) # le_bytes (length bs) (drop_bit 8 (le_word (b # bs) :: 'a word))"
    by simp
  also have "\<dots> = b # bs" unfolding lo hi using Cons by simp
  finally show ?case .
qed simp

lemma xor_swap:
  assumes "l < length bs" "r < length bs" "l \<noteq> r"
  shows "(let bs1 = bs[l := bs ! l XOR bs ! r]; bs2 = bs1[r := bs1 ! r XOR bs1 ! l]
     in bs2[l := bs2 ! l XOR bs2 ! r]) = (bs :: u8 list)[l := bs ! r, r := bs ! l]"
proof -
  have "y XOR (x XOR y) = x" "(x XOR y) XOR x = y" for x y :: u8
    by (simp_all add: bit.xor_left_self xor.commute xor.left_commute)
  then show ?thesis
    using assms by (intro nth_equalityI) (auto simp: Let_def nth_list_update)
qed

lemma shift_loop_nth:
  assumes "int (length bs) - 1 = left + right" "0 \<le> left" "right - left < 2 * int n + 1" "i < length bs"
  shows "length (shift_loop n bs left right) = length bs \<and>
    shift_loop n bs left right ! i =
      (if left \<le> int i \<and> int i \<le> right then bs ! (length bs - 1 - i) else bs ! i)"
  using assms
proof (induction n bs left right rule: shift_loop.induct)
  case (1 bs left right)
  have "length bs - 1 - i = i" if "left \<le> int i" "int i \<le> right" using 1 that by auto
  then show ?case by simp
next
  case (2 n bs left right)
  show ?case
  proof (cases "left < right")
    case True
    let ?l = "nat left" and ?r = "nat right"
    let ?b = "bs[?l := bs ! ?r, ?r := bs ! ?l]"
    have lr: "?l < length bs" "?r < length bs" "?l \<noteq> ?r" "length bs - 1 - ?l = ?r" "length bs - 1 - ?r = ?l"
      using 2(2-5) True by auto
    have step: "shift_loop (Suc n) bs left right = shift_loop n ?b (left + 1) (right - 1)"
      using True xor_swap [OF lr(1-3)] by (simp add: Let_def)
    have ih: "length (shift_loop n ?b (left + 1) (right - 1)) = length ?b \<and>
        shift_loop n ?b (left + 1) (right - 1) ! i =
          (if left + 1 \<le> int i \<and> int i \<le> right - 1 then ?b ! (length ?b - 1 - i) else ?b ! i)"
      using 2(1) [OF True refl refl refl refl refl] 2(2-5) xor_swap [OF lr(1-3)]
      by (simp add: Let_def)
    consider (inner) "left + 1 \<le> int i" "int i \<le> right - 1" | (low) "i = ?l" | (high) "i = ?r"
      | (outer) "int i < left \<or> right < int i" using 2(3) True by linarith
    then show ?thesis
    proof cases
      case inner
      then have "length bs - 1 - i \<noteq> ?l" "length bs - 1 - i \<noteq> ?r" using 2(2,3) True by auto
      then show ?thesis using ih step inner by auto
    next
      case low
      then have "int i = left" using 2(3) by simp
      moreover have "?b ! i = bs ! (length bs - 1 - i)" using low lr by simp
      ultimately show ?thesis using ih step True by simp
    next
      case high
      then have "int i = right" using 2(3) True by simp
      moreover have "?b ! i = bs ! (length bs - 1 - i)" using high lr by simp
      ultimately show ?thesis using ih step True by simp
    next
      case outer
      then have "i \<noteq> ?l" "i \<noteq> ?r" using 2(3) True by linarith+
      then show ?thesis using ih step outer by auto
    qed
  next
    case False
    have "length bs - 1 - i = i" if "left \<le> int i" "int i \<le> right" using 2 False that by auto
    then show ?thesis using False by simp
  qed
qed

lemma ShiftByte_rev: "ShiftByte bs = rev bs"
proof (cases "bs = []")
  case False
  have l: "length (ShiftByte bs) = length bs"
    using shift_loop_nth [of bs 0 "int (length bs) - 1" "length bs" 0] False by (simp add: ShiftByte_def)
  show ?thesis
  proof (rule nth_equalityI)
    fix i assume "i < length (ShiftByte bs)"
    then have i: "i < length bs" using l by simp
    have "ShiftByte bs ! i = bs ! (length bs - 1 - i)"
      using shift_loop_nth [of bs 0 "int (length bs) - 1" "length bs" i] i by (simp add: ShiftByte_def)
    then show "ShiftByte bs ! i = rev bs ! i" using i by (simp add: rev_nth)
  qed (simp add: l)
qed (simp add: ShiftByte_def)

lemma IsLittleEndian_iff [simp]: "IsLittleEndian le = le"
proof -
  have "ntohl True 1 \<noteq> 1"
    by code_simp
  moreover have "ntohl False x = x" for x by (simp add: ntohl_def mem_word_bytes)
  ultimately show ?thesis by (cases le) (auto simp: IsLittleEndian_def Let_def)
qed

text \<open>The image in memory of a value converted to little-endian does not depend on the machine.\<close>

lemma mem_word_inv:
  "8 * length bs = LENGTH('a) \<Longrightarrow> mem_bytes le (length bs) (mem_word le bs :: 'a::len word) = bs"
proof (cases le)
  case True
  then show "8 * length bs = LENGTH('a) \<Longrightarrow> ?thesis"
    by (simp add: mem_word_def mem_bytes_def le_bytes_word)
next
  case False
  show "8 * length bs = LENGTH('a) \<Longrightarrow> ?thesis"
    using le_bytes_word [of "rev bs", where 'a = 'a] False by (simp add: mem_word_def mem_bytes_def)
qed

lemma convert_image:
  assumes "8 * n = LENGTH('a)"
  shows "mem_bytes le n (mem_word le (ProcByteOrder le (mem_bytes le n (v :: 'a::len word))) :: 'a word) = le_bytes n v"
proof -
  have "length (ProcByteOrder le (mem_bytes le n v)) = n"
    by (simp add: ProcByteOrder_def ShiftByte_rev)
  then show ?thesis
    using mem_word_inv [of "ProcByteOrder le (mem_bytes le n v)", where 'a = 'a and le = le] assms
    by (simp add: ProcByteOrder_def ShiftByte_rev) (simp add: mem_bytes_def)
qed

lemma convert_back:
  assumes "8 * n = LENGTH('a)"
  shows "mem_word le (ProcByteOrder le (le_bytes n (v :: 'a::len word))) = v"
  using assms by (simp add: ProcByteOrder_def ShiftByte_rev mem_word_def le_word_bytes)

lemmas to_little_defs = SoftBusHtoLs_def SoftBusHtoLl_def SoftBusHtoLll_def
lemmas to_host_defs = SoftBusLtoHs_def SoftBusLtoHl_def SoftBusLtoHll_def

lemma to_little_image:
  "mem_bytes le 2 (SoftBusHtoLs le a) = le_bytes 2 a"
  "mem_bytes le 4 (SoftBusHtoLl le b) = le_bytes 4 b"
  "mem_bytes le 8 (SoftBusHtoLll le c) = le_bytes 8 c"
  unfolding to_little_defs by (rule convert_image; simp)+

lemma to_host_image:
  "SoftBusLtoHs le (mem_word le (le_bytes 2 a)) = a"
  "SoftBusLtoHl le (mem_word le (le_bytes 4 b)) = b"
  "SoftBusLtoHll le (mem_word le (le_bytes 8 c)) = c"
proof -
  have "mem_bytes le 2 (mem_word le (le_bytes 2 a) :: u16) = le_bytes 2 a"
    using mem_word_inv [of "le_bytes 2 a", where 'a = 16] by simp
  then show "SoftBusLtoHs le (mem_word le (le_bytes 2 a)) = a"
    by (simp add: to_host_defs convert_back)
  have "mem_bytes le 4 (mem_word le (le_bytes 4 b) :: u32) = le_bytes 4 b"
    using mem_word_inv [of "le_bytes 4 b", where 'a = 32] by simp
  then show "SoftBusLtoHl le (mem_word le (le_bytes 4 b)) = b"
    by (simp add: to_host_defs convert_back)
  have "mem_bytes le 8 (mem_word le (le_bytes 8 c) :: u64) = le_bytes 8 c"
    using mem_word_inv [of "le_bytes 8 c", where 'a = 64] by simp
  then show "SoftBusLtoHll le (mem_word le (le_bytes 8 c)) = c"
    by (simp add: to_host_defs convert_back)
qed

text \<open>The wire image of a head: every field in little-endian order.\<close>

definition wire_head :: "ConnPktHead \<Rightarrow> u8 list" where
  "wire_head d = le_bytes 4 (magic d) @ le_bytes 4 (module d) @ le_bytes 8 (seq d) @
     le_bytes 4 (flag d) @ le_bytes 4 (len d)"

lemma length_wire_head [simp]: "length (wire_head d) = 24"
  by (simp add: wire_head_def)

lemma Pack_image:
  "PackConnPktHead le (Some d) = Some d' \<Longrightarrow> head_bytes le d' = wire_head d"
  by (auto simp: PackConnPktHead_def head_bytes_def wire_head_def to_little_image)

lemma Unpack_image:
  "UnpackConnPktHead le (Some (head_of_bytes le (wire_head d @ rest))) = Some d"
  by (simp add: UnpackConnPktHead_def head_of_bytes_def wire_head_def to_host_image)

lemma head_of_head_bytes: "head_of_bytes le (head_bytes le d @ rest) = d"
  by (simp add: head_of_bytes_def head_bytes_def mem_word_bytes)

text \<open>
  A packet head packed on a machine of either byte order, copied byte by byte to a machine of
  either byte order and unpacked there, gives the fields back; its bytes on the way are the same for
  both orders of the sender.
\<close>

theorem head_round_trip:
  "\<exists>d'. PackConnPktHead le1 (Some d) = Some d' \<and> head_bytes le1 d' = wire_head d \<and>
     UnpackConnPktHead le2 (Some (head_of_bytes le2 (head_bytes le1 d'))) = Some d"
proof -
  obtain d' where d': "PackConnPktHead le1 (Some d) = Some d'" by (simp add: PackConnPktHead_def)
  then show ?thesis using Pack_image [OF d'] Unpack_image [of le2 d "[]"] by simp
qed

end
