(* ===== verification/Br_Trans.thy ===== *)
theory Br_Trans
  imports Byte_Order
begin

text \<open>
  Reading and writing of frames on a Bluetooth stream,
  \<^verbatim>\<open>core/connection/br/src/br_trans_manager.c\<close>. The receive buffer of a connection collects bytes; a
  frame is a packet head followed by \<open>len\<close> bytes. The socket driver is a parameter: \<open>Read d n\<close> gives the
  returned length, the bytes it stored and the next state of the driver, \<open>Write d bytes\<close> the returned
  length and the next state. Signed 32-bit sums are read as wrapping. The JSON messages of
  \<open>BrPackRequestOrResponse\<close> are built by a library that is not part of the sources; their text is a
  parameter. The wait for the end of congestion has no effect on the data and is left out.
\<close>

section \<open>Model\<close>

abbreviation (input) BR_READ_SOCKET_CLOSED :: int where "BR_READ_SOCKET_CLOSED \<equiv> 0"
abbreviation (input) BR_READ_FAILED :: int where "BR_READ_FAILED \<equiv> -1"
abbreviation (input) sizeof_ConnPktHead :: nat where "sizeof_ConnPktHead \<equiv> 24"

text \<open>The fields of \<open>BrConnectionInfo\<close> that sending and receiving use.\<close>

record BrConnectionInfo =
  socketFd :: int
  recvBuf :: "u8 list"
  recvSize :: int
  recvPos :: int

definition ReceivedHeadCheck :: "bool \<Rightarrow> BrConnectionInfo \<Rightarrow> (int \<times> BrConnectionInfo) option" where
  "ReceivedHeadCheck le conn =
     (if recvPos conn < int sizeof_ConnPktHead then Some (SOFTBUS_ERR, conn)
      else if length (recvBuf conn) < sizeof_ConnPktHead then None
      else
        case UnpackConnPktHead le (Some (head_of_bytes le (recvBuf conn))) of None \<Rightarrow> None
        | Some head \<Rightarrow>
            let conn1 = conn\<lparr>recvBuf := head_bytes le head @ drop sizeof_ConnPktHead (recvBuf conn)\<rparr>
            in if magic head \<noteq> MAGIC_NUMBER then Some (SOFTBUS_ERR, conn1\<lparr>recvPos := 0\<rparr>)
               else if recvSize conn < sint (len head + of_nat sizeof_ConnPktHead)
               then Some (SOFTBUS_ERR, conn1\<lparr>recvPos := 0\<rparr>)
               else Some (SOFTBUS_OK, conn1))"

text \<open>The result of the inner type is the copied frame, \<^const>\<open>None\<close> for a null pointer.\<close>

definition BrRecvDataParse ::
  "bool \<Rightarrow> bool \<Rightarrow> BrConnectionInfo \<Rightarrow> (u8 list option \<times> BrConnectionInfo) option" where
  "BrRecvDataParse le sys_ok conn0 =
     (case ReceivedHeadCheck le conn0 of None \<Rightarrow> None
      | Some (ret, conn) \<Rightarrow>
          if ret \<noteq> SOFTBUS_OK then Some (None, conn)
          else
            let bufLen = recvPos conn;
                head = head_of_bytes le (recvBuf conn);
                packLen = sint (len head + of_nat sizeof_ConnPktHead)
            in if bufLen < packLen then Some (None, conn)
               else if \<not> SoftBusMalloc sys_ok (of_int packLen) then Some (None, conn)
               else if \<not> memcpy_s_ok (nat packLen) (nat packLen) then Some (None, conn)
               else if length (recvBuf conn) < nat bufLen then None
               else
                 let dataCopy = take (nat packLen) (recvBuf conn); restLen = nat (bufLen - packLen)
                 in if packLen < bufLen \<and> \<not> memcpy_s_ok (nat (recvSize conn)) restLen then Some (None, conn)
                    else
                      let buf = (if packLen < bufLen
                                 then take restLen (drop (nat packLen) (recvBuf conn)) @ drop restLen (recvBuf conn)
                                 else recvBuf conn)
                      in Some (Some dataCopy, conn\<lparr>recvBuf := buf, recvPos := bufLen - packLen\<rparr>))"

text \<open>
  The loop of \<open>BrTransReadOneFrame\<close>. It gives the returned length and the frame, the connection and the
  state of the driver. It may wait for ever.
\<close>

partial_function (option) br_read_loop ::
  "bool \<Rightarrow> bool \<Rightarrow> ('d \<Rightarrow> nat \<Rightarrow> int \<times> u8 list \<times> 'd) \<Rightarrow> BrConnectionInfo \<Rightarrow> 'd \<Rightarrow>
   (int \<times> u8 list option \<times> BrConnectionInfo \<times> 'd) option" where
  "br_read_loop le sys_ok Read conn d =
     (case BrRecvDataParse le sys_ok conn of None \<Rightarrow> None
      | Some (Some dataBuf, conn1) \<Rightarrow> Some (int (length dataBuf), Some dataBuf, conn1, d)
      | Some (None, conn1) \<Rightarrow>
          let room = recvSize conn1 - recvPos conn1
          in if 0 < room then
               (case Read d (nat room) of (recvLen, bytes, d1) \<Rightarrow>
                  if recvLen = BR_READ_SOCKET_CLOSED then Some (BR_READ_SOCKET_CLOSED, None, conn1, d1)
                  else if recvLen = BR_READ_FAILED then Some (BR_READ_SOCKET_CLOSED, None, conn1, d1)
                  else if nat room < length bytes then None
                  else
                    let buf = take (nat (recvPos conn1)) (recvBuf conn1) @ bytes @
                                drop (nat (recvPos conn1) + length bytes) (recvBuf conn1);
                        conn2 = conn1\<lparr>recvBuf := buf, recvPos := recvPos conn1 + recvLen\<rparr>
                    in (case BrRecvDataParse le sys_ok conn2 of None \<Rightarrow> None
                        | Some (Some dataBuf, conn3) \<Rightarrow> Some (int (length dataBuf), Some dataBuf, conn3, d1)
                        | Some (None, conn3) \<Rightarrow> br_read_loop le sys_ok Read conn3 d1))
             else (case BrRecvDataParse le sys_ok conn1 of None \<Rightarrow> None
                   | Some (Some dataBuf, conn3) \<Rightarrow> Some (int (length dataBuf), Some dataBuf, conn3, d)
                   | Some (None, conn3) \<Rightarrow> br_read_loop le sys_ok Read conn3 d))"

definition BrTransReadOneFrame ::
  "bool \<Rightarrow> bool \<Rightarrow> ('d \<Rightarrow> nat \<Rightarrow> int \<times> u8 list \<times> 'd) \<Rightarrow> BrConnectionInfo option \<Rightarrow> 'd \<Rightarrow>
   (int \<times> u8 list option \<times> BrConnectionInfo option \<times> 'd) option" where
  "BrTransReadOneFrame le sys_ok Read conn d =
     (case conn of None \<Rightarrow> Some (BR_READ_FAILED, None, None, d)
      | Some c \<Rightarrow> map_option (\<lambda>(r, f, c', d'). (r, f, Some c', d')) (br_read_loop le sys_ok Read c d))"

text \<open>The loop of \<open>BrTransSend\<close>; the pieces handed to the driver are collected.\<close>

partial_function (option) br_send_loop ::
  "('d \<Rightarrow> u8 list \<Rightarrow> int \<times> 'd) \<Rightarrow> int \<Rightarrow> u8 list \<Rightarrow> int \<Rightarrow> 'd \<Rightarrow> (int \<times> 'd) option" where
  "br_send_loop Write brSendPeerLen tempData tempLen d =
     (if 0 < tempLen then
        let sendLength = (if brSendPeerLen < tempLen then brSendPeerLen else tempLen)
        in if sendLength < 0 \<or> length tempData < nat sendLength then None
           else (case Write d (take (nat sendLength) tempData) of (writeRet, d1) \<Rightarrow>
                   if writeRet = - 1 then Some (SOFTBUS_ERR, d1)
                   else br_send_loop Write brSendPeerLen (drop (nat sendLength) tempData)
                          (tempLen - sendLength) d1)
      else Some (SOFTBUS_OK, d))"

definition BrTransSend ::
  "('d \<Rightarrow> u8 list \<Rightarrow> int \<times> 'd) \<Rightarrow> BrConnectionInfo option \<Rightarrow> int \<Rightarrow> u8 list \<Rightarrow> u32 \<Rightarrow> 'd \<Rightarrow> (int \<times> 'd) option" where
  "BrTransSend Write brConnInfo brSendPeerLen data dlen d =
     (case brConnInfo of None \<Rightarrow> Some (SOFTBUS_ERR, d)
      | Some c \<Rightarrow>
          if socketFd c = - 1 then Some (SOFTBUS_ERR, d)
          else br_send_loop Write brSendPeerLen data (sint dlen) d)"

text \<open>
  \<open>json\<close> is the text that \<open>BrAddNumToJson\<close> prints, without its end. The frame that is built starts with
  a packed head.
\<close>

abbreviation (input) MODULE_CONNECTION :: u32 where "MODULE_CONNECTION \<equiv> 11"

definition BrPackRequestOrResponse :: "bool \<Rightarrow> bool \<Rightarrow> u8 list option \<Rightarrow> (u8 list \<times> u32) option" where
  "BrPackRequestOrResponse le sys_ok json =
     (case json of None \<Rightarrow> None
      | Some data \<Rightarrow>
          let headSize = of_nat sizeof_ConnPktHead; dataLen = of_nat (length data) + 1 + headSize
          in if \<not> SoftBusCalloc sys_ok dataLen then None
             else
               let head = \<lparr>magic = MAGIC_NUMBER, module = MODULE_CONNECTION, seq = 1, flag = 0,
                           len = of_nat (length data + 1)\<rparr>
               in case PackConnPktHead le (Some head) of None \<Rightarrow> None
                  | Some h \<Rightarrow>
                      if \<not> memcpy_s_ok (unat dataLen) (unat headSize) then None
                      else if \<not> memcpy_s_ok (unat (dataLen - headSize)) (length data + 1) then None
                      else Some (head_bytes le h @ data @ [0], dataLen))"

section \<open>Frames and the contents of the receive buffer\<close>

definition conn_wf :: "BrConnectionInfo \<Rightarrow> bool" where
  "conn_wf conn \<longleftrightarrow> length (recvBuf conn) = nat (recvSize conn) \<and> 0 \<le> recvPos conn \<and>
     recvPos conn \<le> recvSize conn \<and> 24 \<le> recvSize conn \<and> recvSize conn \<le> 536870912"

definition content :: "BrConnectionInfo \<Rightarrow> u8 list" where
  "content conn = take (nat (recvPos conn)) (recvBuf conn)"

definition valid_frame :: "int \<Rightarrow> u8 list \<Rightarrow> bool" where
  "valid_frame sz f \<longleftrightarrow> (\<exists>h data. f = wire_head h @ data \<and> magic h = MAGIC_NUMBER \<and>
     len h = of_nat (length data) \<and> int (length f) \<le> sz)"

lemma length_content: "conn_wf conn \<Longrightarrow> int (length (content conn)) = recvPos conn"
  by (auto simp: conn_wf_def content_def)

lemma SoftBusLtoH_le [simp]:
  "SoftBusLtoHs True a = a" "SoftBusLtoHl True b = b" "SoftBusLtoHll True c = c"
  by (simp_all add: to_host_defs ProcByteOrder_def mem_word_bytes)

lemma Unpack_le [simp]: "UnpackConnPktHead True (Some h) = Some h"
  by (simp add: UnpackConnPktHead_def)

lemma take_pieces:
  "take n bs @ take m (drop n bs) = take (n + m) bs"
  by (simp add: take_add)

lemma head_bytes_le:
  assumes "24 \<le> length bs"
  shows "head_bytes True (head_of_bytes True bs) @ drop 24 bs = bs"
proof -
  have p: "mem_bytes True 4 (mem_word True (take 4 (drop k bs)) :: u32) = take 4 (drop k bs)" if "k + 4 \<le> 24" for k
    using mem_word_inv [of "take 4 (drop k bs)" True, where 'a = 32] assms that by simp
  have q: "mem_bytes True 8 (mem_word True (take 8 (drop 8 bs)) :: u64) = take 8 (drop 8 bs)"
    using mem_word_inv [of "take 8 (drop 8 bs)" True, where 'a = 64] assms by simp
  have "head_bytes True (head_of_bytes True bs) =
      take 4 bs @ take 4 (drop 4 bs) @ take 8 (drop 8 bs) @ take 4 (drop 16 bs) @ take 4 (drop 20 bs)"
    using p [of 0] p [of 4] p [of 16] p [of 20] q by (simp add: head_bytes_def head_of_bytes_def)
  also have "\<dots> = take 24 bs"
    using take_pieces [of 4 bs 4] take_pieces [of 8 bs 8] take_pieces [of 16 bs 4] take_pieces [of 20 bs 4]
    by (simp flip: append_assoc)
  finally show ?thesis by simp
qed

lemma head_of_prefix: "head_of_bytes True (wire_head h @ r) = h"
  using Unpack_image [of True h r] by simp

lemma head_of_take: "24 \<le> k \<Longrightarrow> head_of_bytes le (take k bs) = head_of_bytes le bs"
proof -
  assume k: "24 \<le> k"
  have "take 4 (drop j (take k bs)) = take 4 (drop j bs)" if "j + 4 \<le> 24" for j
    using that k by (simp add: drop_take min_def)
  moreover have "take 8 (drop 8 (take k bs)) = take 8 (drop 8 bs)"
    using k by (simp add: drop_take min_def)
  moreover have "take 4 (take k bs) = take 4 bs" using k by (simp add: min_def)
  ultimately show ?thesis by (simp add: head_of_bytes_def)
qed

lemma content_head:
  assumes "conn_wf conn" "24 \<le> recvPos conn"
  shows "head_of_bytes True (recvBuf conn) = head_of_bytes True (content conn)"
  using assms by (simp add: content_def head_of_take)

text \<open>A head with a length that fits is accepted and the buffer stays as it is.\<close>

lemma ReceivedHeadCheck_le:
  assumes "conn_wf conn" "24 \<le> recvPos conn" "h = head_of_bytes True (content conn)"
    "magic h = MAGIC_NUMBER" "sint (len h + 24) \<le> recvSize conn"
  shows "ReceivedHeadCheck True conn = Some (SOFTBUS_OK, conn)"
proof -
  have l: "24 \<le> length (recvBuf conn)" using assms(1) by (auto simp: conn_wf_def)
  show ?thesis
    using assms l content_head [OF assms(1,2)] head_bytes_le [OF l]
    by (simp add: ReceivedHeadCheck_def Let_def)
qed

lemma sint_frame_len:
  assumes "int n + 24 \<le> 536870912"
  shows "sint (of_nat n + 24 :: u32) = int n + 24"
proof -
  have "(of_nat n + 24 :: u32) = of_nat (n + 24)" by simp
  moreover have "uint (of_nat (n + 24) :: u32) = int (n + 24)"
    using assms by (simp add: uint_nat del: of_nat_add)
  moreover have "sint (x :: u32) = uint x" if "uint x < 2 ^ 31" for x
    using that by (subst sint_uint) (simp add: signed_take_bit_int_eq_self order_trans [of _ 0])
  ultimately show ?thesis using assms by simp
qed

lemma parse_short:
  assumes "recvPos conn < 24"
  shows "BrRecvDataParse True ok conn = Some (None, conn)"
  using assms by (simp add: BrRecvDataParse_def ReceivedHeadCheck_def)

lemma frame_head:
  assumes "valid_frame sz f" "sz \<le> 536870912" "24 \<le> length p" "p @ q = f @ r"
  shows "magic (head_of_bytes True p) = MAGIC_NUMBER"
    "sint (len (head_of_bytes True p) + 24) = int (length f)"
proof -
  obtain h data where f: "f = wire_head h @ data" "magic h = MAGIC_NUMBER" "len h = of_nat (length data)"
    "int (length f) \<le> sz" using assms(1) by (auto simp: valid_frame_def)
  have "take 24 p = take 24 (f @ r)" using assms(3,4) by (metis append_eq_conv_conj take_take min.absorb1 take_append
        append_take_drop_id diff_is_0_eq take0 append_Nil2)
  then have "head_of_bytes True p = head_of_bytes True (f @ r)"
    by (metis head_of_take order_refl)
  then have "head_of_bytes True p = h" using f(1) head_of_prefix by simp
  then show "magic (head_of_bytes True p) = MAGIC_NUMBER"
    "sint (len (head_of_bytes True p) + 24) = int (length f)"
    using f assms(2) sint_frame_len [of "length data"] by simp_all
qed

lemma parse_partial:
  assumes "conn_wf conn" "valid_frame (recvSize conn) f" "content conn @ q = f" "q \<noteq> []"
  shows "BrRecvDataParse True ok conn = Some (None, conn)"
proof (cases "recvPos conn < 24")
  case False
  have sz: "recvSize conn \<le> 536870912" using assms(1) by (simp add: conn_wf_def)
  have "24 \<le> length (content conn)" using False length_content [OF assms(1)] by linarith
  note h = frame_head [OF assms(2) sz this, of q "[]"]
  have lt: "recvPos conn < int (length f)"
    using assms(3,4) length_content [OF assms(1)] by auto
  have "int (length f) \<le> recvSize conn" using assms(2) by (auto simp: valid_frame_def)
  then have "ReceivedHeadCheck True conn = Some (SOFTBUS_OK, conn)"
    using ReceivedHeadCheck_le [OF assms(1) _ refl] h False assms(3) by simp
  then show ?thesis
    using h lt assms(3) content_head [OF assms(1)] False by (simp add: BrRecvDataParse_def Let_def)
qed (rule parse_short)

lemma parse_full:
  assumes "conn_wf conn" "valid_frame (recvSize conn) f" "content conn = f @ r"
  shows "\<exists>conn'. BrRecvDataParse True True conn = Some (Some f, conn') \<and> conn_wf conn' \<and>
    content conn' = r \<and> recvSize conn' = recvSize conn \<and> socketFd conn' = socketFd conn"
proof -
  have wf: "length (recvBuf conn) = nat (recvSize conn)" "0 \<le> recvPos conn" "recvPos conn \<le> recvSize conn"
    "24 \<le> recvSize conn" "recvSize conn \<le> 536870912" using assms(1) by (auto simp: conn_wf_def)
  have f: "24 \<le> length f" "int (length f) \<le> recvSize conn" using assms(2) by (auto simp: valid_frame_def)
  have pos: "recvPos conn = int (length f + length r)" using length_content [OF assms(1)] assms(3) by simp
  note h = frame_head [OF assms(2) wf(5), of "content conn" "[]" r]
  have check: "ReceivedHeadCheck True conn = Some (SOFTBUS_OK, conn)"
    using ReceivedHeadCheck_le [OF assms(1) _ refl] h f pos assms(3) by simp
  have head: "sint (len (head_of_bytes True (recvBuf conn)) + 24) = int (length f)"
    using h f pos assms(3) content_head [OF assms(1)] by simp
  have buf: "take (length f + length r) (recvBuf conn) = f @ r"
    using assms(3) unfolding content_def pos nat_int .
  then have "take (length f) (recvBuf conn) @ take (length r) (drop (length f) (recvBuf conn)) = f @ r"
    by (simp add: take_add)
  moreover have "length f \<le> length (recvBuf conn)" using f wf by linarith
  ultimately have t: "take (length f) (recvBuf conn) = f" "take (length r) (drop (length f) (recvBuf conn)) = r"
    by (simp_all add: append_eq_append_conv)
  have alloc: "SoftBusMalloc True (of_int (int (length f)))"
    using f wf(5) by (simp add: SoftBusMalloc_def not_less word_le_nat_alt unat_of_nat_word32)
  let ?buf = "if r \<noteq> [] then r @ drop (length r) (recvBuf conn) else recvBuf conn"
  let ?c = "conn\<lparr>recvBuf := ?buf, recvPos := int (length r)\<rparr>"
  have "BrRecvDataParse True True conn = Some (Some f, ?c)"
    using check head alloc f pos wf t
    by (auto simp: BrRecvDataParse_def Let_def memcpy_s_ok_def)
  moreover have "length r \<le> length (recvBuf conn)" using pos wf by linarith
  then have "conn_wf ?c" "content ?c = r" using wf pos by (auto simp: conn_wf_def content_def)
  ultimately show ?thesis by auto
qed

section \<open>Reading frames from a stream\<close>

text \<open>
  What the code relies on in a driver: while bytes are to come, a read returns at least one and at most
  as many as asked for, in order.
\<close>

definition driver_delivers :: "('d \<Rightarrow> nat \<Rightarrow> int \<times> u8 list \<times> 'd) \<Rightarrow> ('d \<Rightarrow> u8 list) \<Rightarrow> bool" where
  "driver_delivers Read stream \<longleftrightarrow> (\<forall>d n. 0 < n \<longrightarrow> stream d \<noteq> [] \<longrightarrow>
     (\<exists>bs d'. Read d n = (int (length bs), bs, d') \<and> bs \<noteq> [] \<and> length bs \<le> n \<and> stream d = bs @ stream d'))"

lemma append_bytes:
  assumes "conn_wf conn" "recvPos conn + int (length bs) \<le> recvSize conn"
  defines "conn' \<equiv> conn\<lparr>recvBuf := take (nat (recvPos conn)) (recvBuf conn) @ bs @
      drop (nat (recvPos conn) + length bs) (recvBuf conn), recvPos := recvPos conn + int (length bs)\<rparr>"
  shows "conn_wf conn'" "content conn' = content conn @ bs"
proof -
  have wf: "length (recvBuf conn) = nat (recvSize conn)" "0 \<le> recvPos conn" "recvPos conn \<le> recvSize conn"
    using assms(1) by (auto simp: conn_wf_def)
  then obtain p where p: "recvPos conn = int p" "p + length bs \<le> length (recvBuf conn)"
    using assms(2) by (auto simp: nonneg_eq_int elim!: nonneg_int_cases)
  show "conn_wf conn'" using assms(1,2) p by (auto simp: conn_wf_def conn'_def)
  have "nat (int p + int (length bs)) = p + length bs" by simp
  then show "content conn' = content conn @ bs" using p by (simp add: content_def conn'_def)
qed

lemma read_one_frame:
  assumes "driver_delivers Read stream" "conn_wf conn" "valid_frame (recvSize conn) f"
    "content conn @ stream d = f @ rest"
  shows "\<exists>conn' d'. br_read_loop True True Read conn d = Some (int (length f), Some f, conn', d') \<and>
    conn_wf conn' \<and> recvSize conn' = recvSize conn \<and> content conn' @ stream d' = rest"
  using assms(2-)
proof (induction "length f - length (content conn)" arbitrary: conn d rule: less_induct)
  case less
  note wf = less.prems(1) and fr = less.prems(2) and str = less.prems(3)
  show ?case
  proof (cases "length f \<le> length (content conn)")
    case True
    then obtain r where r: "content conn = f @ r" "r @ stream d = rest"
      using prefix_long [OF str] by blast
    then show ?thesis
      using parse_full [OF wf fr r(1)] by (subst br_read_loop.simps) auto
  next
    case False
    then obtain q where q: "content conn @ q = f" "q \<noteq> []" "stream d = q @ rest"
      using prefix_short [OF str] by (metis not_le)
    have none: "BrRecvDataParse True True conn = Some (None, conn)"
      using parse_partial [OF wf fr q(1,2)] .
    have room: "0 < recvSize conn - recvPos conn"
    proof -
      have "length (content conn) < length f" using q by auto
      moreover have "int (length f) \<le> recvSize conn" using fr by (auto simp: valid_frame_def)
      ultimately show ?thesis using length_content [OF wf] by linarith
    qed
    have "stream d \<noteq> []" "0 < nat (recvSize conn - recvPos conn)" using q room by auto
    then obtain bs d1 where rd: "Read d (nat (recvSize conn - recvPos conn)) = (int (length bs), bs, d1)"
      "bs \<noteq> []" "length bs \<le> nat (recvSize conn - recvPos conn)" "stream d = bs @ stream d1"
      using assms(1) unfolding driver_delivers_def by blast
    let ?c = "conn\<lparr>recvBuf := take (nat (recvPos conn)) (recvBuf conn) @ bs @
        drop (nat (recvPos conn) + length bs) (recvBuf conn), recvPos := recvPos conn + int (length bs)\<rparr>"
    have c: "conn_wf ?c" "content ?c = content conn @ bs"
      using append_bytes [OF wf, of bs] rd(3) room by auto
    have next_str: "content ?c @ stream d1 = f @ rest" using c(2) rd(4) str by simp
    have step: "br_read_loop True True Read conn d = br_read_loop True True Read ?c d1"
    proof -
      have "br_read_loop True True Read conn d =
          (case BrRecvDataParse True True ?c of None \<Rightarrow> None
           | Some (Some dataBuf, conn3) \<Rightarrow> Some (int (length dataBuf), Some dataBuf, conn3, d1)
           | Some (None, conn3) \<Rightarrow> br_read_loop True True Read conn3 d1)"
        using none room rd by (subst br_read_loop.simps) (simp add: Let_def)
      also have "\<dots> = br_read_loop True True Read ?c d1"
      proof (cases "length f \<le> length (content ?c)")
        case True
        then obtain r where "content ?c = f @ r"
          using prefix_long [OF next_str] by blast
        then show ?thesis using parse_full [OF c(1), of f r] fr by (subst (2) br_read_loop.simps) auto
      next
        case False
        then obtain q' where "content ?c @ q' = f" "q' \<noteq> []"
          using prefix_short [OF next_str] by (metis not_le)
        then show ?thesis using parse_partial [OF c(1), of f q'] fr by simp
      qed
      finally show ?thesis .
    qed
    have "length f - length (content ?c) < length f - length (content conn)"
    proof -
      have "0 < length bs" using rd(2) by simp
      then show ?thesis using False unfolding c(2) length_append by linarith
    qed
    from less.hyps [OF this c(1) _ next_str] fr step show ?thesis by simp
  qed
qed

fun read_frames ::
  "('d \<Rightarrow> nat \<Rightarrow> int \<times> u8 list \<times> 'd) \<Rightarrow> nat \<Rightarrow> BrConnectionInfo \<Rightarrow> 'd \<Rightarrow>
   (u8 list list \<times> BrConnectionInfo \<times> 'd) option" where
  "read_frames Read 0 conn d = Some ([], conn, d)"
| "read_frames Read (Suc k) conn d =
     (case BrTransReadOneFrame True True Read (Some conn) d of
        Some (r, Some f, Some conn', d') \<Rightarrow>
          map_option (\<lambda>(fs, c, e). (f # fs, c, e)) (read_frames Read k conn' d')
      | _ \<Rightarrow> None)"

lemma read_frames_stream:
  assumes "driver_delivers Read stream" "conn_wf conn" "\<forall>f \<in> set fs. valid_frame (recvSize conn) f"
    "content conn @ stream d = concat fs @ rest"
  shows "\<exists>conn' d'. read_frames Read (length fs) conn d = Some (fs, conn', d') \<and> conn_wf conn' \<and>
    recvSize conn' = recvSize conn \<and> content conn' @ stream d' = rest"
  using assms(2-)
proof (induction fs arbitrary: conn d)
  case (Cons f fs)
  have v: "valid_frame (recvSize conn) f" and s: "content conn @ stream d = f @ (concat fs @ rest)"
    using Cons.prems(2,3) by simp_all
  obtain c1 d1 where one: "br_read_loop True True Read conn d = Some (int (length f), Some f, c1, d1)"
    "conn_wf c1" "recvSize c1 = recvSize conn" "content c1 @ stream d1 = concat fs @ rest"
    using read_one_frame [OF assms(1) Cons.prems(1) v s] by blast
  then obtain c2 d2 where "read_frames Read (length fs) c1 d1 = Some (fs, c2, d2)" "conn_wf c2"
    "recvSize c2 = recvSize c1" "content c2 @ stream d2 = rest"
    using Cons.IH [OF one(2) _ one(4)] Cons.prems(2) by auto
  then show ?case using one by (auto simp: BrTransReadOneFrame_def)
qed auto

section \<open>Writing\<close>

lemma br_send_loop_log:
  assumes log: "\<And>d bs. \<exists>r d'. Write d bs = (r, d') \<and> writes d' = writes d @ [bs]"
    and "0 < peer"
  shows "tempLen = int (length data) \<Longrightarrow> \<exists>ret d' ps. br_send_loop Write peer data tempLen d = Some (ret, d') \<and>
    writes d' = writes d @ ps \<and> (\<forall>p \<in> set ps. 0 < length p \<and> int (length p) \<le> peer) \<and>
    (if ret = SOFTBUS_OK then concat ps = data else ret = SOFTBUS_ERR \<and> (\<exists>q. concat ps @ q = data))"
proof (induction "length data" arbitrary: data tempLen d rule: less_induct)
  case less
  show ?case
  proof (cases "data = []")
    case True
    then show ?thesis using less.prems by (subst br_send_loop.simps) simp
  next
    case False
    let ?n = "if peer < tempLen then peer else tempLen"
    have n: "0 < ?n" "?n \<le> tempLen" "?n \<le> peer" using False less.prems assms(2) by auto
    obtain r d1 where w: "Write d (take (nat ?n) data) = (r, d1)" "writes d1 = writes d @ [take (nat ?n) data]"
      using log by blast
    have p: "0 < length (take (nat ?n) data)" "int (length (take (nat ?n) data)) \<le> peer"
      using n less.prems by auto
    show ?thesis
    proof (cases "r = - 1")
      case True
      have "br_send_loop Write peer data tempLen d = Some (SOFTBUS_ERR, d1)"
        using n less.prems w True by (subst br_send_loop.simps) (auto simp: Let_def)
      moreover have "\<exists>q. concat [take (nat ?n) data] @ q = data"
        by (rule exI [of _ "drop (nat ?n) data"]) simp
      ultimately show ?thesis
        using w(2) p by (intro exI [of _ SOFTBUS_ERR] exI [of _ d1] exI [of _ "[take (nat ?n) data]"]) simp
    next
      case False
      have step: "br_send_loop Write peer data tempLen d =
          br_send_loop Write peer (drop (nat ?n) data) (tempLen - ?n) d1"
        using n less.prems w False by (subst br_send_loop.simps) (auto simp: Let_def)
      have "length (drop (nat ?n) data) < length data" using n less.prems by simp
      moreover have "tempLen - ?n = int (length (drop (nat ?n) data))" using n less.prems by simp
      ultimately obtain ret d' ps where ih: "br_send_loop Write peer (drop (nat ?n) data) (tempLen - ?n) d1 = Some (ret, d')"
        "writes d' = writes d1 @ ps" "\<forall>p \<in> set ps. 0 < length p \<and> int (length p) \<le> peer"
        "if ret = SOFTBUS_OK then concat ps = drop (nat ?n) data
         else ret = SOFTBUS_ERR \<and> (\<exists>q. concat ps @ q = drop (nat ?n) data)"
        using less.hyps [of "drop (nat ?n) data" "tempLen - ?n" d1] by blast
      have "if ret = SOFTBUS_OK then concat (take (nat ?n) data # ps) = data
         else ret = SOFTBUS_ERR \<and> (\<exists>q. concat (take (nat ?n) data # ps) @ q = data)"
        using ih(4) append_take_drop_id [of "nat ?n" data] by (metis append.assoc concat.simps(2))
      then show ?thesis
        using step ih(1-3) w(2) p
        by (intro exI [of _ ret] exI [of _ d'] exI [of _ "take (nat ?n) data # ps"]) auto
    qed
  qed
qed

text \<open>A full buffer that parses to nothing and stays as it is keeps the loop busy.\<close>

lemma read_loop_stuck:
  assumes "br_read_loop le ok Read conn d = Some y"
  shows "\<not> (recvPos conn = recvSize conn \<and> BrRecvDataParse le ok conn = Some (None, conn))"
  by (rule br_read_loop.raw_induct [where P = "\<lambda>le ok R c d y.
      \<not> (recvPos c = recvSize c \<and> BrRecvDataParse le ok c = Some (None, c))", OF _ assms])
    (auto simp: Let_def)

section \<open>Properties\<close>

text \<open>
  C31: Whatever pieces the driver delivers a stream in, reading on a little-endian machine returns the
  frames of the stream one after the other, complete, unchanged and in order, and keeps the bytes that
  follow for later calls, for every sequence of frames that fit the receive buffer; the allocations of
  the buffers for the frames succeed.
\<close>

theorem frames_survive_chunking:
  assumes "driver_delivers Read stream" "conn_wf conn" "\<forall>f \<in> set fs. valid_frame (recvSize conn) f"
    "content conn @ stream d = concat fs @ rest"
  shows "\<exists>conn' d'. read_frames Read (length fs) conn d = Some (fs, conn', d') \<and> conn_wf conn' \<and>
    content conn' @ stream d' = rest"
  using read_frames_stream [OF assms] by blast

text \<open>A driver that delivers at most three bytes at a time.\<close>

definition read_three :: "u8 list \<Rightarrow> nat \<Rightarrow> int \<times> u8 list \<times> u8 list" where
  "read_three d n = (let bs = take (min n 3) d in (int (length bs), bs, drop (min n 3) d))"

definition small_head :: ConnPktHead where
  "small_head = \<lparr>magic = MAGIC_NUMBER, module = 1, seq = 7, flag = 0, len = 2\<rparr>"

theorem frames_survive_chunking_witness:
  "\<exists>conn' d'. read_frames read_three 2 \<lparr>socketFd = 3, recvBuf = replicate 64 0, recvSize = 64, recvPos = 0\<rparr>
     (wire_head small_head @ [1, 2] @ wire_head small_head @ [3, 4] @ [0xCE]) =
       Some ([wire_head small_head @ [1, 2], wire_head small_head @ [3, 4]], conn', d') \<and>
     content conn' @ d' = [0xCE]"
proof -
  let ?c = "\<lparr>socketFd = 3, recvBuf = replicate 64 0, recvSize = 64, recvPos = 0\<rparr>"
  have "driver_delivers read_three (\<lambda>d. d)"
    by (auto simp: driver_delivers_def read_three_def Let_def)
  moreover have "conn_wf ?c" by (simp add: conn_wf_def)
  moreover have "\<forall>f \<in> set [wire_head small_head @ [1, 2], wire_head small_head @ [3, 4]]. valid_frame (recvSize ?c) f"
    by (auto simp: valid_frame_def small_head_def intro!: exI [of _ small_head])
  ultimately show ?thesis
    using frames_survive_chunking [of read_three "\<lambda>d. d" ?c
        "[wire_head small_head @ [1, 2], wire_head small_head @ [3, 4]]"
        "wire_head small_head @ [1, 2] @ wire_head small_head @ [3, 4] @ [0xCE]" "[0xCE]"]
    by (auto simp: content_def numeral_2_eq_2)
qed

text \<open>
  \<open>BrTransSend\<close> with a positive piece size returns for every driver; it hands the driver non-empty
  pieces of at most that size that make up the data in order, all of it if it reports success, and a
  prefix of it when a write fails.
\<close>

theorem BrTransSend_pieces:
  assumes "\<And>d bs. \<exists>r d'. Write d bs = (r, d') \<and> writes d' = writes d @ [bs]"
    "0 < peer" "unat dlen = length data" "length data < 2 ^ 31" "socketFd c \<noteq> - 1"
  shows "\<exists>ret d' ps. BrTransSend Write (Some c) peer data dlen d = Some (ret, d') \<and>
    writes d' = writes d @ ps \<and> (\<forall>p \<in> set ps. 0 < length p \<and> int (length p) \<le> peer) \<and>
    (if ret = SOFTBUS_OK then concat ps = data else ret = SOFTBUS_ERR \<and> (\<exists>q. concat ps @ q = data))"
proof -
  have "uint dlen = int (length data)" using assms(3) by (simp add: uint_nat)
  then have "sint dlen = int (length data)"
    using assms(4) by (subst sint_uint) (simp add: signed_take_bit_int_eq_self order_trans [of _ 0])
  then show ?thesis
    using br_send_loop_log [where Write = Write and writes = writes, OF assms(1,2), of "sint dlen" data d] assms(5)
    by (simp add: BrTransSend_def)
qed

definition write_log :: "u8 list list \<Rightarrow> u8 list \<Rightarrow> int \<times> u8 list list" where
  "write_log d bs = (int (length bs), d @ [bs])"

theorem BrTransSend_pieces_witness:
  "\<exists>ret d' ps. BrTransSend write_log (Some \<lparr>socketFd = 3, recvBuf = [], recvSize = 0, recvPos = 0\<rparr>) 2 [1, 2, 3] 3 [] =
      Some (ret, d') \<and> d' = [] @ ps \<and>
    (if ret = SOFTBUS_OK then concat ps = [1, 2, 3] else ret = SOFTBUS_ERR \<and> (\<exists>q. concat ps @ q = [1, 2, 3]))"
  using BrTransSend_pieces [of write_log "\<lambda>d. d" 2 3 "[1, 2, 3]"
      "\<lparr>socketFd = 3, recvBuf = [], recvSize = 0, recvPos = 0\<rparr>" "[]"]
  by (fastforce simp: write_log_def)

text \<open>
  A head whose length has its top bit set passes the size check, because the sum with the head's
  size is negative. Such a frame is never taken and never dropped, and once the buffer is full the
  reading loop runs for ever without reading.
\<close>

theorem negative_length_blocks_reader:
  assumes "conn_wf conn" "recvPos conn = recvSize conn"
    "magic (head_of_bytes True (content conn)) = MAGIC_NUMBER"
    "sint (len (head_of_bytes True (content conn)) + 24) \<le> 0"
  shows "BrRecvDataParse True ok conn = Some (None, conn) \<and> br_read_loop True ok Read conn d = None"
proof -
  have sz: "24 \<le> recvSize conn" using assms(1) by (simp add: conn_wf_def)
  let ?h = "head_of_bytes True (content conn)"
  have check: "ReceivedHeadCheck True conn = Some (SOFTBUS_OK, conn)"
    using ReceivedHeadCheck_le [OF assms(1) _ refl assms(3)] assms(2,4) sz by simp
  have stuck: "BrRecvDataParse True ok conn = Some (None, conn)"
  proof -
    have "\<not> (SoftBusMalloc ok (of_int (sint (len ?h + 24))) \<and> memcpy_s_ok (nat (sint (len ?h + 24))) (nat (sint (len ?h + 24))))"
      using assms(4) by (simp add: memcpy_s_ok_def)
    then show ?thesis
      using check content_head [OF assms(1)] assms(2,4) sz by (auto simp: BrRecvDataParse_def Let_def)
  qed
  then have "br_read_loop True ok Read conn d \<noteq> Some y" for y
    using read_loop_stuck assms(2) by metis
  then show ?thesis using stuck by (cases "br_read_loop True ok Read conn d") auto
qed

theorem negative_length_blocks_reader_witness:
  "\<exists>conn. recvSize conn = 24 \<and> br_read_loop True True read_three conn [1, 2, 3] = None"
proof -
  let ?h = "\<lparr>magic = MAGIC_NUMBER, module = 1, seq = 0, flag = 0, len = 0x80000000\<rparr> :: ConnPktHead"
  let ?c = "\<lparr>socketFd = 3, recvBuf = wire_head ?h, recvSize = 24, recvPos = 24\<rparr>"
  have c: "content ?c = wire_head ?h" by (simp add: content_def)
  have h: "head_of_bytes True (wire_head ?h) = ?h" using head_of_prefix [of ?h "[]"] by simp
  have "sint (0x80000000 + 24 :: u32) \<le> 0" by (simp add: sint_uint)
  then have "br_read_loop True True read_three ?c [1, 2, 3] = None"
    using negative_length_blocks_reader [of ?c True read_three "[1, 2, 3]"] c h
    by (simp add: conn_wf_def)
  then show ?thesis by (intro exI [of _ ?c]) simp
qed

end
