(* ===== verification/Ble_Trans.thy ===== *)
theory Ble_Trans
  imports Byte_Order "HOL-Library.Multiset"
begin

text \<open>
  Splitting and reassembly of messages on a Bluetooth Low Energy connection,
  \<^verbatim>\<open>core/connection/ble/src/softbus_ble_trans_manager.c\<close>. A message is cut into pieces that fit the
  transfer unit; each piece travels with a header (sequence number, size, offset, total) in network
  byte order. The receiver collects the pieces in one of three caches per connection. The look-up of
  the connection and the sending of a piece through the platform are parameters. Sums of the unsigned
  header fields wrap at 32 bits, and a write outside the 4096 bytes of a cache is \<^const>\<open>None\<close>.
\<close>

section \<open>Model\<close>

abbreviation (input) MAX_DATA_LEN :: u32 where "MAX_DATA_LEN \<equiv> 4096"
abbreviation (input) MAX_CACHE_NUM_PER_CONN :: nat where "MAX_CACHE_NUM_PER_CONN \<equiv> 3"
abbreviation (input) sizeof_BleTransHeader :: nat where "sizeof_BleTransHeader \<equiv> 16"
abbreviation (input) ERANGE :: int where "ERANGE \<equiv> 34"

record BleTransHeader =
  h_seq :: u32
  h_size :: u32
  h_offset :: u32
  h_total :: u32

record BleRecvCache =
  isUsed :: bool
  c_seq :: u32
  currentSize :: u32
  cache :: "u8 list option"

text \<open>The comparison of the size is in the 64-bit type of \<open>sizeof\<close>.\<close>

definition GetTransHeader :: "bool \<Rightarrow> u8 list \<Rightarrow> u32 \<Rightarrow> (int \<times> BleTransHeader) option" where
  "GetTransHeader le value vlen =
     (if length value < sizeof_BleTransHeader then None
      else
        let header =
              \<lparr>h_seq = ntohl le (mem_word le (take 4 value)),
               h_size = ntohl le (mem_word le (take 4 (drop 4 value))),
               h_offset = ntohl le (mem_word le (take 4 (drop 8 value))),
               h_total = ntohl le (mem_word le (take 4 (drop 12 value)))\<rparr>
        in if uint (h_size header) \<noteq> (uint vlen - 16) mod 2 ^ 64 \<or>
              h_total header < h_size header + h_offset header \<or>
              MAX_DATA_LEN < h_total header
           then Some (SOFTBUS_ERR, header)
           else Some (SOFTBUS_OK, header))"

text \<open>The search: the first free slot and the slot that holds the sequence number, if any.\<close>

fun cache_scan :: "u32 \<Rightarrow> nat \<Rightarrow> nat option \<Rightarrow> BleRecvCache list \<Rightarrow> nat option \<times> nat" where
  "cache_scan sq i available [] = (available, i)"
| "cache_scan sq i available (c # cs) =
     (if \<not> isUsed c then cache_scan sq (Suc i) (case available of Some a \<Rightarrow> Some a | None \<Rightarrow> Some i) cs
      else if c_seq c = sq then (available, i)
      else cache_scan sq (Suc i) available cs)"

definition FindAvailableCacheIndex ::
  "bool \<Rightarrow> BleRecvCache list \<Rightarrow> BleTransHeader \<Rightarrow> int \<times> nat \<times> BleRecvCache list" where
  "FindAvailableCacheIndex sys_ok recvCache header =
     (let (available, i) = cache_scan (h_seq header) 0 None recvCache
      in if i = MAX_CACHE_NUM_PER_CONN then
           (case available of None \<Rightarrow> (SOFTBUS_ERR, 0, recvCache)
            | Some a \<Rightarrow>
                let c = (recvCache ! a)\<lparr>isUsed := True, currentSize := 0, c_seq := h_seq header\<rparr>
                in if cache c = None then
                     (if SoftBusCalloc sys_ok MAX_DATA_LEN
                      then (SOFTBUS_OK, a, recvCache[a := c\<lparr>cache := Some (replicate 4096 0)\<rparr>])
                      else (SOFTBUS_ERR, 0, recvCache[a := c\<lparr>isUsed := False\<rparr>]))
                   else (SOFTBUS_OK, a, recvCache[a := c]))
         else (SOFTBUS_OK, i, recvCache))"

text \<open>
  The caches of the connection that was found for the device, or \<^const>\<open>None\<close>. The result is the data
  handed up (its bytes, the length that is reported and the index of the cache) and the caches.
\<close>

definition BleTransRecv ::
  "bool \<Rightarrow> bool \<Rightarrow> BleRecvCache list option \<Rightarrow> u8 list option \<Rightarrow> u32 \<Rightarrow>
   ((u8 list \<times> u32 \<times> int) option \<times> BleRecvCache list option) option" where
  "BleTransRecv le sys_ok targetNode value vlen =
     (case (value, targetNode) of
        (Some v, Some caches) \<Rightarrow>
          (case GetTransHeader le v vlen of None \<Rightarrow> None
           | Some (ret, header) \<Rightarrow>
               if ret \<noteq> SOFTBUS_OK then Some (None, targetNode)
               else if h_size header = h_total header
               then Some (Some (take (unat (h_total header)) (drop 16 v), h_total header, - 1), targetNode)
               else case FindAvailableCacheIndex sys_ok caches header of (r, i, caches1) \<Rightarrow>
                 if r \<noteq> SOFTBUS_OK then Some (None, Some caches1)
                 else case cache (caches1 ! i) of None \<Rightarrow> None
                   | Some buf \<Rightarrow>
                       if \<not> memcpy_s_ok (unat (MAX_DATA_LEN - h_offset header)) (unat (h_size header))
                       then Some (None, Some (caches1[i := (caches1 ! i)\<lparr>isUsed := False\<rparr>]))
                       else if length buf < unat (h_offset header) + unat (h_size header) \<or>
                               length v < 16 + unat (h_size header)
                       then None
                       else
                         let buf' = take (unat (h_offset header)) buf @
                                    take (unat (h_size header)) (drop 16 v) @
                                    drop (unat (h_offset header) + unat (h_size header)) buf;
                             cur = currentSize (caches1 ! i) + h_size header;
                             caches2 = caches1[i := (caches1 ! i)\<lparr>cache := Some buf', currentSize := cur\<rparr>]
                         in if cur = h_total header
                            then Some (Some (take (unat (h_total header)) buf', h_total header, int i), Some caches2)
                            else Some (None, Some caches2))
      | _ \<Rightarrow> Some (None, targetNode))"

definition BleTransCacheFree :: "BleRecvCache list option \<Rightarrow> int \<Rightarrow> BleRecvCache list option option" where
  "BleTransCacheFree targetNode index =
     (case targetNode of None \<Rightarrow> Some None
      | Some caches \<Rightarrow>
          if index < 0 \<or> int (length caches) \<le> index then None
          else Some (Some (caches[nat index := (caches ! nat index)\<lparr>cache := None, isUsed := False\<rparr>])))"

text \<open>The two ways to hand a packet to the platform, and the registration of the connection look-up.\<close>

definition BleHalSend ::
  "int \<Rightarrow> ('d \<Rightarrow> u8 list \<Rightarrow> int \<times> 'd) \<Rightarrow> ('d \<Rightarrow> u8 list \<Rightarrow> int \<times> 'd) \<Rightarrow> 'd \<Rightarrow> u8 list \<Rightarrow> int \<times> 'd" where
  "BleHalSend isServer SoftBusGattServerSend SoftBusGattClientSend d data =
     (if isServer = 1 then SoftBusGattServerSend d data else SoftBusGattClientSend d data)"

definition BleTransInit :: "'cb option \<Rightarrow> 'cb option \<Rightarrow> int \<times> 'cb option" where
  "BleTransInit g_softBusBleTransCb cb =
     (if cb = None then (SOFTBUS_ERR, g_softBusBleTransCb) else (SOFTBUS_OK, cb))"

text \<open>
  One packet of \<open>BleTransSend\<close> and the loop over the message. \<open>hal_send\<close> is \<open>BleHalSend\<close>, which passes
  the packet to the platform's server or client.
\<close>

definition ble_packet :: "bool \<Rightarrow> u32 \<Rightarrow> u32 \<Rightarrow> u32 \<Rightarrow> u32 \<Rightarrow> u8 list \<Rightarrow> u8 list" where
  "ble_packet le sq sendLength offset tot piece =
     mem_bytes le 4 (htonl le sq) @ mem_bytes le 4 (htonl le sendLength) @
     mem_bytes le 4 (htonl le offset) @ mem_bytes le 4 (htonl le tot) @ piece"

partial_function (option) ble_send_loop ::
  "bool \<Rightarrow> bool \<Rightarrow> ('d \<Rightarrow> u8 list \<Rightarrow> int \<times> 'd) \<Rightarrow> u32 \<Rightarrow> u32 \<Rightarrow> u32 \<Rightarrow> u32 \<Rightarrow> u32 \<Rightarrow> u8 list \<Rightarrow> 'd \<Rightarrow>
   (int \<times> 'd) option" where
  "ble_send_loop le sys_ok hal_send dataLenMax sq tot tempLen offset sendData d =
     (if 0 < tempLen then
        let sendLength = (if dataLenMax < tempLen then dataLenMax else tempLen)
        in if \<not> SoftBusCalloc sys_ok (sendLength + of_nat sizeof_BleTransHeader) then Some (SOFTBUS_MALLOC_ERR, d)
           else if \<not> memcpy_s_ok (unat sendLength) (unat sendLength) then Some (ERANGE, d)
           else if length sendData < unat sendLength then None
           else (case hal_send d (ble_packet le sq sendLength offset tot (take (unat sendLength) sendData)) of
                   (ret, d1) \<Rightarrow>
                     if ret \<noteq> SOFTBUS_OK then Some (ret, d1)
                     else ble_send_loop le sys_ok hal_send dataLenMax sq tot (tempLen - sendLength)
                            (offset + sendLength) (drop (unat sendLength) sendData) d1)
      else Some (SOFTBUS_OK, d))"

definition BleTransSend ::
  "bool \<Rightarrow> bool \<Rightarrow> ('d \<Rightarrow> u8 list \<Rightarrow> int \<times> 'd) \<Rightarrow> int \<Rightarrow> u8 list \<Rightarrow> u32 \<Rightarrow> u32 \<Rightarrow> 'd \<Rightarrow> (int \<times> 'd) option" where
  "BleTransSend le sys_ok hal_send mtu data dlen sq d =
     ble_send_loop le sys_ok hal_send (of_int (mtu - 3 - int sizeof_BleTransHeader)) sq dlen dlen 0 data d"

section \<open>Headers\<close>

definition be32 :: "u32 \<Rightarrow> u8 list" where
  "be32 x = mem_bytes False 4 x"

lemma length_be32 [simp]: "length (be32 x) = 4"
  by (simp add: be32_def)

lemma htonl_image [simp]: "mem_bytes le 4 (htonl le x) = be32 x"
  using mem_word_inv [of "mem_bytes False 4 x" le, where 'a = 32] by (simp add: htonl_def be32_def)

lemma ntohl_image [simp]: "ntohl le (mem_word le (be32 x)) = x"
  using mem_word_inv [of "be32 x" le, where 'a = 32]
  by (simp add: ntohl_def) (simp add: be32_def mem_word_bytes)

lemma ble_packet_eq: "ble_packet le sq n off tot p = be32 sq @ be32 n @ be32 off @ be32 tot @ p"
  by (simp add: ble_packet_def)

lemma GetTransHeader_packet:
  assumes "unat vlen = 16 + unat n" "unat n + unat off \<le> unat tot" "tot \<le> MAX_DATA_LEN"
  shows "GetTransHeader le (ble_packet le' sq n off tot p) vlen =
    Some (SOFTBUS_OK, \<lparr>h_seq = sq, h_size = n, h_offset = off, h_total = tot\<rparr>)"
proof -
  have n: "uint vlen - 16 = uint n" unfolding uint_nat using assms(1) by linarith
  have "0 \<le> uint n" "uint n < 2 ^ 64" using uint_lt2p [of n] by simp_all
  then have sz: "uint n = (uint vlen - 16) mod 2 ^ 64" unfolding n by (rule mod_pos_pos_trivial [symmetric])
  have "unat n + unat off < 4294967296" using assms(2) unat_lt32 [of tot] by linarith
  then have "unat (n + off) = unat n + unat off" by (simp add: unat_word_ariths)
  then have "\<not> tot < n + off" using assms(2) by (simp add: word_less_nat_alt)
  then show ?thesis
    using sz assms(3) by (simp add: GetTransHeader_def ble_packet_eq Let_def not_less)
qed

section \<open>Pieces of a message\<close>

function cut :: "nat \<Rightarrow> nat \<Rightarrow> u8 list \<Rightarrow> (nat \<times> u8 list) list" where
  "cut m off data = (if data = [] \<or> m = 0 then [] else (off, take m data) # cut m (off + m) (drop m data))"
  by auto
termination by (relation "measure (\<lambda>(m, off, data). length data)") auto

declare cut.simps [simp del]

lemma cut_Nil [simp]: "cut m off [] = []"
  by (simp add: cut.simps)

lemma cut_step: "data \<noteq> [] \<Longrightarrow> 0 < m \<Longrightarrow> cut m off data = (off, take m data) # cut m (off + m) (drop m data)"
  by (subst cut.simps) simp

definition piece_end :: "nat \<times> u8 list \<Rightarrow> nat" where
  "piece_end a = fst a + length (snd a)"

definition apart :: "nat \<times> u8 list \<Rightarrow> nat \<times> u8 list \<Rightarrow> bool" where
  "apart a b \<longleftrightarrow> piece_end a \<le> fst b \<or> piece_end b \<le> fst a"

lemma cut_range:
  "0 < m \<Longrightarrow> a \<in> set (cut m off data) \<Longrightarrow>
     off \<le> fst a \<and> piece_end a \<le> off + length data \<and> snd a \<noteq> [] \<and> length (snd a) \<le> m"
proof (induction m off data rule: cut.induct)
  case (1 m off data)
  show ?case
  proof (cases "data = []")
    case False
    then have "a = (off, take m data) \<or> a \<in> set (cut m (off + m) (drop m data))"
      using 1(2,3) cut_step by auto
    then show ?thesis
    proof
      assume "a = (off, take m data)"
      then show ?thesis using False 1(2) by (simp add: piece_end_def)
    next
      assume a: "a \<in> set (cut m (off + m) (drop m data))"
      then have "m < length data" by (cases "drop m data = []") auto
      then show ?thesis using 1(1) [OF _ 1(2) a] False 1(2) by auto
    qed
  qed (use 1 in simp)
qed

lemma cut_ordered: "0 < m \<Longrightarrow> sorted_wrt (\<lambda>a b. piece_end a \<le> fst b) (cut m off data)"
proof (induction m off data rule: cut.induct)
  case (1 m off data)
  show ?case
  proof (cases "data = []")
    case False
    have "\<forall>b \<in> set (cut m (off + m) (drop m data)). piece_end (off, take m data) \<le> fst b"
      using cut_range [OF 1(2)] by (fastforce simp: piece_end_def)
    then show ?thesis using 1(1) False 1(2) by (simp add: cut_step)
  qed simp
qed

lemma cut_length: "0 < m \<Longrightarrow> sum_list (map (\<lambda>a. length (snd a)) (cut m off data)) = length data"
proof (induction m off data rule: cut.induct)
  case (1 m off data)
  then show ?case by (cases "data = []") (auto simp: cut_step)
qed

text \<open>A buffer holds a piece if the piece's bytes stand at its offset.\<close>

definition holds :: "u8 list \<Rightarrow> nat \<times> u8 list \<Rightarrow> bool" where
  "holds buf a \<longleftrightarrow> take (length (snd a)) (drop (fst a) buf) = snd a"

definition put_piece :: "u8 list \<Rightarrow> nat \<times> u8 list \<Rightarrow> u8 list" where
  "put_piece buf a = take (fst a) buf @ snd a @ drop (piece_end a) buf"

lemma length_put_piece [simp]: "piece_end a \<le> length buf \<Longrightarrow> length (put_piece buf a) = length buf"
  by (auto simp: put_piece_def piece_end_def)

lemma put_piece_holds: "piece_end a \<le> length buf \<Longrightarrow> holds (put_piece buf a) a"
  by (auto simp: put_piece_def piece_end_def holds_def)

lemma put_piece_other:
  assumes "holds buf b" "apart a b" "piece_end a \<le> length buf" "piece_end b \<le> length buf"
  shows "holds (put_piece buf a) b"
proof -
  have "take (length (snd b)) (drop (fst b) (put_piece buf a)) = take (length (snd b)) (drop (fst b) buf)"
  proof (rule nth_equalityI)
    fix i assume "i < length (take (length (snd b)) (drop (fst b) (put_piece buf a)))"
    then have i: "i < length (snd b)" by simp
    have "put_piece buf a ! (fst b + i) = buf ! (fst b + i)"
      using assms(2-4) i by (auto simp: put_piece_def apart_def piece_end_def nth_append)
    then show "take (length (snd b)) (drop (fst b) (put_piece buf a)) ! i = take (length (snd b)) (drop (fst b) buf) ! i"
      using i assms(3,4) by (simp add: piece_end_def)
  qed (use assms(3,4) in \<open>simp add: piece_end_def\<close>)
  then show ?thesis using assms(1) by (simp add: holds_def)
qed

lemma cut_rebuild:
  "0 < m \<Longrightarrow> off + length data \<le> length buf \<Longrightarrow> \<forall>a \<in> set (cut m off data). holds buf a \<Longrightarrow>
     take (length data) (drop off buf) = data"
proof (induction m off data rule: cut.induct)
  case (1 m off data)
  show ?case
  proof (cases "data = []")
    case False
    have first: "take (length (take m data)) (drop off buf) = take m data"
      using 1(4) False 1(2) by (simp add: cut_step holds_def)
    have rest: "take (length (drop m data)) (drop (off + m) buf) = drop m data"
    proof (cases "m < length data")
      case True
      then show ?thesis using 1 False by (intro 1(1)) (auto simp: cut_step)
    qed simp
    show ?thesis
    proof (cases "m < length data")
      case True
      then have "take (length data) (drop off buf) = take m (drop off buf) @ take (length data - m) (drop (off + m) buf)"
        by (metis add.commute drop_drop le_add_diff_inverse less_imp_le_nat take_add)
      then show ?thesis using first rest True by simp
    next
      case False
      then show ?thesis using first by simp
    qed
  qed simp
qed

section \<open>Caches\<close>

text \<open>Slot \<open>i\<close> alone collects the sequence number \<open>sq\<close>; \<open>cur\<close> bytes have arrived in \<open>buf\<close>.\<close>

definition collecting :: "BleRecvCache list \<Rightarrow> nat \<Rightarrow> u32 \<Rightarrow> nat \<Rightarrow> u8 list \<Rightarrow> bool" where
  "collecting caches i sq cur buf \<longleftrightarrow> length caches = 3 \<and> i < 3 \<and>
     isUsed (caches ! i) \<and> c_seq (caches ! i) = sq \<and> currentSize (caches ! i) = of_nat cur \<and>
     cache (caches ! i) = Some buf \<and> length buf = 4096 \<and>
     (\<forall>j < 3. j \<noteq> i \<longrightarrow> \<not> (isUsed (caches ! j) \<and> c_seq (caches ! j) = sq))"

text \<open>No slot collects \<open>sq\<close>, one is free, and the memory of a free slot has its full size.\<close>

definition can_start :: "BleRecvCache list \<Rightarrow> u32 \<Rightarrow> bool" where
  "can_start caches sq \<longleftrightarrow> length caches = 3 \<and> (\<exists>c \<in> set caches. \<not> isUsed c) \<and>
     (\<forall>c \<in> set caches. \<not> (isUsed c \<and> c_seq c = sq)) \<and>
     (\<forall>c \<in> set caches. \<forall>buf. cache c = Some buf \<longrightarrow> length buf = 4096)"

lemma cache_scan_hit:
  assumes "i < length cs" "isUsed (cs ! i)" "c_seq (cs ! i) = sq"
    "\<forall>j < length cs. j \<noteq> i \<longrightarrow> \<not> (isUsed (cs ! j) \<and> c_seq (cs ! j) = sq)"
  shows "snd (cache_scan sq k a cs) = k + i"
  using assms
proof (induction cs arbitrary: i k a)
  case (Cons c cs)
  show ?case
  proof (cases i)
    case 0
    then show ?thesis using Cons.prems by simp
  next
    case (Suc i')
    have "\<not> (isUsed c \<and> c_seq c = sq)" using Cons.prems(4) Suc by force
    moreover have "snd (cache_scan sq (Suc k) a' cs) = Suc k + i'" for a'
      using Cons.prems Suc by (intro Cons.IH) force+
    ultimately show ?thesis using Suc by auto
  qed
qed simp

lemma cache_scan_miss:
  assumes "\<forall>c \<in> set cs. \<not> (isUsed c \<and> c_seq c = sq)"
  shows "snd (cache_scan sq k a cs) = k + length cs \<and>
    (case fst (cache_scan sq k a cs) of
       None \<Rightarrow> a = None \<and> (\<forall>c \<in> set cs. isUsed c)
     | Some i \<Rightarrow> a = Some i \<or> (a = None \<and> k \<le> i \<and> i < k + length cs \<and> \<not> isUsed (cs ! (i - k))))"
  using assms
proof (induction cs arbitrary: k a)
  case (Cons c cs)
  show ?case
  proof (cases "isUsed c")
    case True
    then have "cache_scan sq k a (c # cs) = cache_scan sq (Suc k) a cs" using Cons.prems by auto
    then show ?thesis
      using Cons.IH [of "Suc k" a] Cons.prems True
      by (auto split: option.splits simp: Suc_le_eq nth_Cons' diff_Suc_Suc)
  next
    case False
    then have "cache_scan sq k a (c # cs) = cache_scan sq (Suc k) (case a of Some b \<Rightarrow> Some b | None \<Rightarrow> Some k) cs"
      by simp
    then show ?thesis
      using Cons.IH [of "Suc k" "case a of Some b \<Rightarrow> Some b | None \<Rightarrow> Some k"] Cons.prems False
      by (auto split: option.splits)
  qed
qed (auto split: option.splits)

lemma find_collecting:
  assumes "collecting caches i sq cur buf" "h_seq h = sq"
  shows "FindAvailableCacheIndex ok caches h = (SOFTBUS_OK, i, caches)"
proof -
  have "snd (cache_scan sq 0 None caches) = 0 + i"
    using assms(1) by (intro cache_scan_hit) (auto simp: collecting_def)
  then show ?thesis
    using assms by (auto simp: FindAvailableCacheIndex_def collecting_def split: prod.splits)
qed

lemma find_free:
  assumes "can_start caches sq" "h_seq h = sq"
  shows "\<exists>i caches' buf. FindAvailableCacheIndex True caches h = (SOFTBUS_OK, i, caches') \<and>
    collecting caches' i sq 0 buf"
proof -
  obtain av where av: "cache_scan sq 0 None caches = (Some av, 3)" "av < 3" "\<not> isUsed (caches ! av)"
    using cache_scan_miss [of caches sq 0 None] assms(1)
    by (cases "cache_scan sq 0 None caches") (auto simp: can_start_def split: option.splits)
  let ?c = "(caches ! av)\<lparr>isUsed := True, currentSize := 0, c_seq := sq\<rparr>"
  have len: "length caches = 3" using assms(1) by (simp add: can_start_def)
  have others: "\<not> (isUsed (caches ! j) \<and> c_seq (caches ! j) = sq)" if "j < 3" for j
    using assms(1) that by (auto simp: can_start_def)
  show ?thesis
  proof (cases "cache (caches ! av)")
    case None
    then have "FindAvailableCacheIndex True caches h =
        (SOFTBUS_OK, av, caches[av := ?c\<lparr>cache := Some (replicate 4096 0)\<rparr>])"
      using av assms(2) by (simp add: FindAvailableCacheIndex_def SoftBusCalloc_def SoftBusMalloc_def)
    moreover have "collecting (caches[av := ?c\<lparr>cache := Some (replicate 4096 0)\<rparr>]) av sq 0 (replicate 4096 0)"
      using len av others by (auto simp: collecting_def)
    ultimately show ?thesis by blast
  next
    case (Some buf)
    then have "FindAvailableCacheIndex True caches h = (SOFTBUS_OK, av, caches[av := ?c])"
      using av assms(2) by (simp add: FindAvailableCacheIndex_def)
    moreover have "length buf = 4096" using assms(1) Some av len by (auto simp: can_start_def)
    then have "collecting (caches[av := ?c]) av sq 0 buf"
      using len av others Some by (auto simp: collecting_def)
    ultimately show ?thesis by blast
  qed
qed

section \<open>Receiving pieces\<close>

definition packet_of :: "bool \<Rightarrow> u32 \<Rightarrow> nat \<Rightarrow> nat \<times> u8 list \<Rightarrow> u8 list" where
  "packet_of le sq tot a = ble_packet le sq (of_nat (length (snd a))) (of_nat (fst a)) (of_nat tot) (snd a)"

lemma length_packet_of [simp]: "length (packet_of le sq tot a) = 16 + length (snd a)"
  by (simp add: packet_of_def ble_packet_eq)

lemma packet_header:
  assumes "piece_end a \<le> tot" "tot \<le> 4096"
  shows "GetTransHeader le (packet_of le' sq tot a) (of_nat (length (packet_of le' sq tot a))) =
    Some (SOFTBUS_OK, \<lparr>h_seq = sq, h_size = of_nat (length (snd a)), h_offset = of_nat (fst a), h_total = of_nat tot\<rparr>)"
proof -
  have e: "fst a \<le> 4096" "length (snd a) \<le> 4096" using assms by (auto simp: piece_end_def)
  have "unat (of_nat (length (packet_of le' sq tot a)) :: u32) = 16 + length (snd a)"
    using e by (simp del: of_nat_add)
  then show ?thesis
    unfolding packet_of_def
    using assms e by (intro GetTransHeader_packet) (auto simp: piece_end_def word_le_nat_alt)
qed

lemma packet_body: "take (length (snd a)) (drop 16 (packet_of le sq tot a)) = snd a"
  by (simp add: packet_of_def ble_packet_eq)

lemma recv_into:
  assumes found: "FindAvailableCacheIndex True caches \<lparr>h_seq = sq, h_size = of_nat (length (snd a)),
      h_offset = of_nat (fst a), h_total = of_nat tot\<rparr> = (SOFTBUS_OK, i, caches1)"
    and col: "collecting caches1 i sq cur buf"
    and a: "piece_end a \<le> tot" "tot \<le> 4096" "length (snd a) < tot" "snd a \<noteq> []" "cur + length (snd a) \<le> tot"
  shows "\<exists>caches2. BleTransRecv le True (Some caches) (Some (packet_of le' sq tot a)) (of_nat (length (packet_of le' sq tot a))) =
      Some (if cur + length (snd a) = tot then Some (take tot (put_piece buf a), of_nat tot, int i) else None, Some caches2) \<and>
    collecting caches2 i sq (cur + length (snd a)) (put_piece buf a)"
proof -
  have "0 < length (snd a)" using a(4) by simp
  then have e: "fst a + length (snd a) \<le> 4096" "fst a < 4096" "length (snd a) < 4096" "0 < length (snd a)"
    using a(1-3) unfolding piece_end_def by linarith+
  have small: "unat (of_nat (length (snd a)) :: u32) = length (snd a)" "unat (of_nat (fst a) :: u32) = fst a"
    "unat (of_nat tot :: u32) = tot" using e a by simp_all
  have ne: "(of_nat (length (snd a)) :: u32) \<noteq> of_nat tot"
    using small a(3) by (metis less_irrefl)
  have room: "unat (4096 - of_nat (fst a) :: u32) = 4096 - fst a"
    using e small by (simp add: unat_sub_if')
  have cur: "((of_nat cur :: u32) + of_nat (length (snd a)) = of_nat tot) = (cur + length (snd a) = tot)"
  proof -
    have "unat (of_nat (cur + length (snd a)) :: u32) = cur + length (snd a)" using a by (simp del: of_nat_add)
    then show ?thesis using small(3) by (metis of_nat_add)
  qed
  have fits: "memcpy_s_ok (4096 - fst a) (length (snd a))" using e unfolding memcpy_s_ok_def by linarith
  let ?cs = "caches1[i := (caches1 ! i)\<lparr>cache := Some (put_piece buf a), currentSize := of_nat cur + of_nat (length (snd a))\<rparr>]"
  have c: "cache (caches1 ! i) = Some buf" "length buf = 4096" "currentSize (caches1 ! i) = of_nat cur"
    using col by (auto simp: collecting_def)
  have "collecting ?cs i sq (cur + length (snd a)) (put_piece buf a)"
    using col e by (auto simp: collecting_def piece_end_def)
  moreover have "BleTransRecv le True (Some caches) (Some v) vl =
      Some (if cur + length (snd a) = tot then Some (take tot (put_piece buf a), of_nat tot, int i) else None, Some ?cs)"
    if "GetTransHeader le v vl = Some (SOFTBUS_OK, \<lparr>h_seq = sq, h_size = of_nat (length (snd a)),
      h_offset = of_nat (fst a), h_total = of_nat tot\<rparr>)" "take (length (snd a)) (drop 16 v) = snd a"
      "length v = 16 + length (snd a)" for v vl
    using found ne room cur c e small that fits
    by (simp add: BleTransRecv_def Let_def put_piece_def piece_end_def)
  note this [OF packet_header [OF a(1,2)] packet_body length_packet_of]
  ultimately show ?thesis by blast
qed

fun recv_all ::
  "bool \<Rightarrow> BleRecvCache list \<Rightarrow> u8 list list \<Rightarrow> ((u8 list \<times> u32 \<times> int) option list \<times> BleRecvCache list) option" where
  "recv_all le caches [] = Some ([], caches)"
| "recv_all le caches (v # vs) =
     (case BleTransRecv le True (Some caches) (Some v) (of_nat (length v)) of
        Some (r, Some caches') \<Rightarrow> map_option (\<lambda>(rs, c). (r # rs, c)) (recv_all le caches' vs)
      | _ \<Rightarrow> None)"

abbreviation (input) piece_sum :: "(nat \<times> u8 list) list \<Rightarrow> nat" where
  "piece_sum ps \<equiv> sum_list (map (\<lambda>a. length (snd a)) ps)"

text \<open>The pieces still to come complete the message; only the last one hands it up.\<close>

lemma recv_rest:
  assumes "collecting caches i sq cur buf" "gs \<noteq> []" "cur + piece_sum gs = tot" "0 < cur" "tot \<le> 4096"
    "\<forall>a \<in> set gs. piece_end a \<le> tot \<and> snd a \<noteq> []" "\<forall>b \<in> set rs. holds buf b \<and> piece_end b \<le> tot"
    "sorted_wrt apart (rs @ gs)"
  shows "\<exists>buf' caches'. recv_all le caches (map (packet_of le' sq tot) gs) =
      Some (replicate (length gs - 1) None @ [Some (take tot buf', of_nat tot, int i)], caches') \<and>
    length buf' = 4096 \<and> (\<forall>b \<in> set (rs @ gs). holds buf' b)"
  using assms
proof (induction gs arbitrary: caches cur buf rs)
  case (Cons a gs)
  have a: "piece_end a \<le> tot" "snd a \<noteq> []" "length (snd a) < tot" "cur + length (snd a) \<le> tot"
    using Cons.prems(3,4,6) by auto
  have len: "length buf = 4096" using Cons.prems(1) by (simp add: collecting_def)
  obtain caches2 where r: "BleTransRecv le True (Some caches) (Some (packet_of le' sq tot a))
      (of_nat (length (packet_of le' sq tot a))) =
      Some (if cur + length (snd a) = tot then Some (take tot (put_piece buf a), of_nat tot, int i) else None, Some caches2)"
    "collecting caches2 i sq (cur + length (snd a)) (put_piece buf a)"
    using recv_into [OF find_collecting [OF Cons.prems(1)] Cons.prems(1) a(1) Cons.prems(5) a(3,2,4)] by fastforce
  have held: "\<forall>b \<in> set (rs @ [a]). holds (put_piece buf a) b \<and> piece_end b \<le> tot"
  proof
    fix b assume "b \<in> set (rs @ [a])"
    then consider "b = a" | "b \<in> set rs" by auto
    then show "holds (put_piece buf a) b \<and> piece_end b \<le> tot"
    proof cases
      case 1
      then show ?thesis using a(1) Cons.prems(5) len by (auto intro!: put_piece_holds)
    next
      case 2
      then have "apart b a" using Cons.prems(8) by (simp add: sorted_wrt_append)
      then have "apart a b" by (auto simp: apart_def)
      then show ?thesis
        using 2 Cons.prems(5,7) a(1) len by (auto intro!: put_piece_other)
    qed
  qed
  show ?case
  proof (cases "gs = []")
    case True
    then have "cur + length (snd a) = tot" using Cons.prems(3) by simp
    moreover have "length (put_piece buf a) = 4096" using a(1) Cons.prems(5) len by simp
    ultimately show ?thesis using r True held
      by (intro exI [of _ "put_piece buf a"] exI [of _ caches2]) auto
  next
    case False
    then have pos: "0 < piece_sum gs" using Cons.prems(6) by (cases gs) auto
    then have "cur + length (snd a) \<noteq> tot" using Cons.prems(3) by simp
    moreover have "\<exists>buf' caches'. recv_all le caches2 (map (packet_of le' sq tot) gs) =
        Some (replicate (length gs - 1) None @ [Some (take tot buf', of_nat tot, int i)], caches') \<and>
        length buf' = 4096 \<and> (\<forall>b \<in> set ((rs @ [a]) @ gs). holds buf' b)"
      by (rule Cons.IH [OF r(2) False _ _ Cons.prems(5) _ held]) (use Cons.prems in auto)
    ultimately show ?thesis using r(1) False
      by (cases gs) auto
  qed
qed simp

lemma recv_permuted:
  assumes "can_start caches sq" "mset gs = mset (cut m 0 data)" "0 < m" "m < length data" "length data \<le> 4096"
  shows "\<exists>i caches'. recv_all le caches (map (packet_of le' sq (length data)) gs) =
      Some (replicate (length gs - 1) None @ [Some (data, of_nat (length data), int i)], caches')"
proof -
  let ?ps = "cut m 0 data" and ?tot = "length data"
  have set_eq: "set gs = set ?ps" using assms(2) by (metis set_mset_mset)
  have range: "piece_end a \<le> ?tot \<and> snd a \<noteq> [] \<and> length (snd a) \<le> m" if "a \<in> set gs" for a
    using cut_range [OF assms(3), of a 0 data] that set_eq by auto
  have total: "piece_sum gs = ?tot"
    using cut_length [OF assms(3), of 0 data]
    unfolding sum_mset_sum_list [symmetric] mset_map assms(2) by simp
  have ap: "sorted_wrt apart ?ps"
    using cut_ordered [OF assms(3), of 0 data] by (rule sorted_wrt_mono_rel [rotated]) (simp add: apart_def)
  have lt: "fst a < piece_end a" if "a \<in> set ?ps" for a
    using cut_range [OF assms(3) that] by (auto simp: piece_end_def)
  have "sorted_wrt (\<lambda>a b. fst a < fst b) ?ps"
    by (rule sorted_wrt_mono_rel [OF _ cut_ordered [OF assms(3)]])
      (use lt in \<open>meson order.strict_trans2\<close>)
  then have "distinct (map fst ?ps)" using strict_sorted_iff [of "map fst ?ps"] by (simp add: sorted_wrt_map)
  then have dist: "distinct gs" using assms(2) by (metis distinct_map mset_eq_imp_distinct_iff)
  have apart: "sorted_wrt apart gs"
  proof (rule sorted_wrt_of_members [OF dist])
    fix a b assume "a \<in> set gs" "b \<in> set gs" "a \<noteq> b"
    then show "apart a b"
      using sorted_wrt_members [OF ap, of a b] set_eq by (auto simp: apart_def)
  qed
  obtain g gs' where gs: "gs = g # gs'" using total assms(4) by (cases gs) auto
  have g: "piece_end g \<le> ?tot" "snd g \<noteq> []" "length (snd g) < ?tot" "length (snd g) \<le> ?tot"
    using range [of g] gs assms(4) by auto
  have more: "gs' \<noteq> []" using total gs g(3) by auto
  obtain i caches1 buf where f: "FindAvailableCacheIndex True caches \<lparr>h_seq = sq, h_size = of_nat (length (snd g)),
      h_offset = of_nat (fst g), h_total = of_nat ?tot\<rparr> = (SOFTBUS_OK, i, caches1)" "collecting caches1 i sq 0 buf"
    using find_free [OF assms(1), of "\<lparr>h_seq = sq, h_size = of_nat (length (snd g)),
        h_offset = of_nat (fst g), h_total = of_nat ?tot\<rparr>"] by auto
  obtain caches2 where r: "BleTransRecv le True (Some caches) (Some (packet_of le' sq ?tot g))
      (of_nat (length (packet_of le' sq ?tot g))) = Some (None, Some caches2)"
    "collecting caches2 i sq (length (snd g)) (put_piece buf g)"
    using recv_into [OF f g(1) assms(5) g(3,2)] g by fastforce
  have "length buf = 4096" using f(2) by (simp add: collecting_def)
  then have h: "holds (put_piece buf g) g" using g(1) assms(5) by (auto intro!: put_piece_holds)
  obtain buf' caches' where rest: "recv_all le caches2 (map (packet_of le' sq ?tot) gs') =
      Some (replicate (length gs' - 1) None @ [Some (take ?tot buf', of_nat ?tot, int i)], caches')"
    "length buf' = 4096" "\<forall>b \<in> set ([g] @ gs'). holds buf' b"
    using recv_rest [OF r(2) more, of ?tot "[g]" le le'] total gs g h apart range assms(5) by auto
  have "take ?tot (drop 0 buf') = data"
    using rest(2,3) gs set_eq assms(3,5) by (intro cut_rebuild) auto
  then show ?thesis using gs r(1) rest(1) more by (cases gs') auto
qed

section \<open>Sending\<close>

lemma perm_of_map: "mset qs = image_mset f M \<Longrightarrow> \<exists>gs. mset gs = M \<and> qs = map f gs"
proof (induction qs arbitrary: M)
  case (Cons q qs)
  then have "image_mset f M = add_mset q (mset qs)" by simp
  then obtain a M1 where "M = add_mset a M1" "f a = q" "image_mset f M1 = mset qs"
    by (blast dest: msed_map_invR)
  moreover then obtain gs where "mset gs = M1" "qs = map f gs" using Cons.IH [of M1] by auto
  ultimately show ?case by (intro exI [of _ "a # gs"]) simp
qed simp

lemma calloc_small:
  assumes "n \<le> 4096"
  shows "SoftBusCalloc True (of_nat n + 16 :: u32)"
proof -
  have "unat (of_nat (n + 16) :: u32) = n + 16" using assms by (simp del: of_nat_add)
  then have "unat (of_nat n + 16 :: u32) = n + 16" by simp
  then show ?thesis using assms by (simp add: SoftBusCalloc_def SoftBusMalloc_def word_less_nat_alt not_less)
qed

lemma ble_send_loop_cut:
  assumes log: "\<And>d p. \<exists>d'. hal_send d p = (SOFTBUS_OK, d') \<and> sent d' = sent d @ [p]"
    and m: "0 < unat mx" "unat mx \<le> 4096" and tot: "tot \<le> 4096"
  shows "off + length data = tot \<Longrightarrow>
    \<exists>d'. ble_send_loop le True hal_send mx sq (of_nat tot) (of_nat (length data)) (of_nat off) data d = Some (SOFTBUS_OK, d') \<and>
      sent d' = sent d @ map (packet_of le sq tot) (cut (unat mx) off data)"
proof (induction "length data" arbitrary: data off d rule: less_induct)
  case less
  show ?case
  proof (cases "data = []")
    case True
    then show ?thesis by (subst ble_send_loop.simps) simp
  next
    case False
    let ?n = "min (unat mx) (length data)"
    let ?p = "(off, take ?n data)"
    have n: "0 < ?n" "?n \<le> 4096" "?n \<le> length data" using False m by auto
    have len: "unat (of_nat (length data) :: u32) = length data" using less.prems tot by simp
    have send: "(if mx < of_nat (length data) then mx else of_nat (length data)) = (of_nat ?n :: u32)"
      using len by (auto simp: word_less_nat_alt min_def)
    have un: "unat (of_nat ?n :: u32) = ?n" using n by simp
    have alloc: "SoftBusCalloc True (of_nat ?n + 16 :: u32)"
      using n(2) by (rule calloc_small)
    have copy: "memcpy_s_ok ?n ?n" using n by (simp add: memcpy_s_ok_def)
    obtain d1 where d1: "hal_send d (packet_of le sq tot ?p) = (SOFTBUS_OK, d1)"
      "sent d1 = sent d @ [packet_of le sq tot ?p]" using log by blast
    have pkt: "packet_of le sq tot ?p = ble_packet le sq (of_nat ?n) (of_nat off) (of_nat tot) (take ?n data)"
      using n by (simp add: packet_of_def)
    have pos: "(0 :: u32) < of_nat (length data)" using len False by (simp add: word_less_nat_alt)
    have step: "ble_send_loop le True hal_send mx sq (of_nat tot) (of_nat (length data)) (of_nat off) data d =
        ble_send_loop le True hal_send mx sq (of_nat tot) (of_nat (length (drop ?n data))) (of_nat (off + ?n)) (drop ?n data) d1"
      using pos send un alloc copy n d1(1) pkt
      by (subst ble_send_loop.simps) (simp add: Let_def of_nat_diff)
    have c: "cut (unat mx) off data = ?p # cut (unat mx) (off + ?n) (drop ?n data)"
      using False m(1) by (simp add: cut_step min_def)
    have "\<exists>d'. ble_send_loop le True hal_send mx sq (of_nat tot) (of_nat (length (drop ?n data))) (of_nat (off + ?n)) (drop ?n data) d1 =
        Some (SOFTBUS_OK, d') \<and> sent d' = sent d1 @ map (packet_of le sq tot) (cut (unat mx) (off + ?n) (drop ?n data))"
      using n less.prems by (intro less.hyps) auto
    then show ?thesis unfolding step c using d1(2) by auto
  qed
qed

section \<open>Properties\<close>

text \<open>
  C36: A message of up to 4096 bytes that does not fit one packet is cut by \<open>BleTransSend\<close> into packets
  of at most the transfer unit, and a receiver with a free cache that gets these packets in any order
  hands up the message, unchanged and with its length, at the last of them and nothing before,
  whatever the byte orders of the two machines are.
\<close>

theorem ble_message_round_trip:
  assumes "\<And>d p. \<exists>d'. hal_send d p = (SOFTBUS_OK, d') \<and> sent d' = sent d @ [p]"
    "20 \<le> mtu" "mtu \<le> 4096" "nat (mtu - 19) < length data" "length data \<le> 4096" "can_start caches sq"
  shows "\<exists>d' ps. BleTransSend le True hal_send mtu data (of_nat (length data)) sq d = Some (SOFTBUS_OK, d') \<and>
    sent d' = sent d @ ps \<and> (\<forall>p \<in> set ps. int (length p) \<le> mtu - 3) \<and>
    (\<forall>qs. mset qs = mset ps \<longrightarrow> (\<exists>i caches'. recv_all le' caches qs =
       Some (replicate (length qs - 1) None @ [Some (data, of_nat (length data), int i)], caches')))"
proof -
  let ?m = "nat (mtu - 19)"
  have mx: "unat (of_int (mtu - 3 - 16) :: u32) = ?m"
  proof -
    have "(of_int (mtu - 3 - 16) :: u32) = of_nat ?m" using assms(2) by (simp add: of_nat_nat)
    then show ?thesis using assms(3) by simp
  qed
  let ?ps = "map (packet_of le sq (length data)) (cut ?m 0 data)"
  have "?m \<le> 4096" using assms(3) by simp
  then obtain d' where send: "BleTransSend le True hal_send mtu data (of_nat (length data)) sq d = Some (SOFTBUS_OK, d')"
    "sent d' = sent d @ ?ps"
    using ble_send_loop_cut [where hal_send = hal_send and sent = sent and mx = "of_int (mtu - 3 - 16)"
        and tot = "length data" and off = 0 and data = data and le = le and sq = sq and d = d, OF assms(1)]
      mx assms(2,5)
    by (auto simp: BleTransSend_def)
  moreover have "\<forall>p \<in> set ?ps. int (length p) \<le> mtu - 3"
    using cut_range [of ?m _ 0 data] assms(2) by fastforce
  moreover have "\<exists>i caches'. recv_all le' caches qs =
      Some (replicate (length qs - 1) None @ [Some (data, of_nat (length data), int i)], caches')"
    if perm: "mset qs = mset ?ps" for qs
  proof -
    obtain gs where gs: "mset gs = mset (cut ?m 0 data)" "qs = map (packet_of le sq (length data)) gs"
      using perm perm_of_map [of qs "packet_of le sq (length data)" "mset (cut ?m 0 data)"] by auto
    then show ?thesis using recv_permuted [OF assms(6) gs(1) _ assms(4,5)] assms(2) by fastforce
  qed
  ultimately show ?thesis by blast
qed

definition log_send :: "u8 list list \<Rightarrow> u8 list \<Rightarrow> int \<times> u8 list list" where
  "log_send d p = (SOFTBUS_OK, d @ [p])"

definition idle_cache :: BleRecvCache where
  "idle_cache = \<lparr>isUsed = False, c_seq = 0, currentSize = 0, cache = None\<rparr>"

theorem ble_message_round_trip_witness:
  "\<exists>d' ps. BleTransSend True True log_send 20 [7, 8, 9] 3 5 [] = Some (SOFTBUS_OK, d') \<and> d' = [] @ ps \<and>
    (\<forall>qs. mset qs = mset ps \<longrightarrow> (\<exists>i caches'. recv_all False (replicate 3 idle_cache) qs =
       Some (replicate (length qs - 1) None @ [Some ([7, 8, 9], 3, int i)], caches')))"
proof -
  have "\<exists>d'. log_send d p = (SOFTBUS_OK, d') \<and> d' = d @ [p]" for d p by (simp add: log_send_def)
  moreover have "can_start (replicate 3 idle_cache) 5" by (simp add: can_start_def idle_cache_def)
  ultimately show ?thesis
    using ble_message_round_trip [of log_send "\<lambda>d. d" 20 "[7, 8, 9]" "replicate 3 idle_cache" 5 True "[]" False]
    by fastforce
qed

text \<open>
  C37: The sum of size and offset in the check of the header wraps at 32 bits. A packet whose offset lies
  beyond the cache but whose sum with the size wraps to at most the total passes the check and the
  bounds of the copy, and is written outside the cache.
\<close>

theorem wrapped_offset_writes_outside:
  assumes "can_start caches sq" "length v = 16 + unat n" "unat vlen = length v"
    "take 16 v = be32 sq @ be32 n @ be32 off @ be32 tot" "n \<noteq> tot" "0 < n"
    "4096 < unat off" "2 ^ 32 \<le> unat n + unat off" "unat n + unat off - 2 ^ 32 \<le> unat tot"
    "unat tot \<le> 4096" "unat n \<le> 0x70000000"
  shows "BleTransRecv le True (Some caches) (Some v) vlen = None"
proof -
  have v: "v = ble_packet le sq n off tot (drop 16 v)"
    using assms(4) by (metis append.assoc append_take_drop_id ble_packet_eq)
  have nu: "uint vlen - 16 = uint n" unfolding uint_nat using assms(2,3) by linarith
  have "0 \<le> uint n" "uint n < 2 ^ 64" using uint_lt2p [of n] by simp_all
  then have sz: "uint n = (uint vlen - 16) mod 2 ^ 64" unfolding nu by (rule mod_pos_pos_trivial [symmetric])
  have "unat n + unat off < 8589934592" using unat_lt32 [of n] unat_lt32 [of off] by linarith
  then have "unat (n + off) = unat n + unat off - 2 ^ 32"
    using assms(8) by (simp add: unat_word_ariths mod_if)
  then have sum: "\<not> tot < n + off" "\<not> 4096 < tot"
    using assms(9,10) by (auto simp: word_less_nat_alt)
  have hdr: "GetTransHeader le v vlen = Some (SOFTBUS_OK, \<lparr>h_seq = sq, h_size = n, h_offset = off, h_total = tot\<rparr>)"
    by (subst v) (use sz sum in \<open>simp add: GetTransHeader_def ble_packet_eq Let_def\<close>)
  obtain i caches1 buf where f: "FindAvailableCacheIndex True caches \<lparr>h_seq = sq, h_size = n, h_offset = off, h_total = tot\<rparr> =
      (SOFTBUS_OK, i, caches1)" "collecting caches1 i sq 0 buf"
    using find_free [OF assms(1), of "\<lparr>h_seq = sq, h_size = n, h_offset = off, h_total = tot\<rparr>"] by auto
  have c: "cache (caches1 ! i) = Some buf" "length buf = 4096" using f(2) by (auto simp: collecting_def)
  have "unat (4096 - off) = 4096 + 2 ^ 32 - unat off"
    using assms(7) unat_lt32 [of off] by (simp add: unat_sub_if' not_le)
  then have room: "unat (4096 - off) = 4294971392 - unat off" by simp
  have "4294967296 \<le> unat n + unat off" "unat n + unat off \<le> 4294971392" using assms(8-10) by simp_all
  then have "memcpy_s_ok (unat (4096 - off)) (unat n)"
    unfolding room memcpy_s_ok_def using assms(11) unat_lt32 [of off] by linarith
  then show ?thesis
    using hdr f(1) c assms(5,7) by (simp add: BleTransRecv_def)
qed

theorem wrapped_offset_writes_outside_witness:
  "BleTransRecv True True (Some (replicate 3 idle_cache))
     (Some (be32 5 @ be32 32 @ be32 0xFFFFFFF0 @ be32 4096 @ replicate 32 0xAA)) 48 = None"
proof (rule wrapped_offset_writes_outside [where sq = 5 and n = 32 and off = "0xFFFFFFF0" and tot = 4096])
  show "can_start (replicate 3 idle_cache) 5" by (simp add: can_start_def idle_cache_def)
qed simp_all

end
