(* ===== verification/Send_Queue.thy ===== *)
theory Send_Queue
  imports Softbus_Queue "HOL-Library.Multiset"
begin

text \<open>
  What the Bluetooth and the BLE send queues have in common
  (\<^verbatim>\<open>core/connection/br/src/br_connection_queue.c\<close>,
  \<^verbatim>\<open>core/connection/ble/src/softbus_ble_queue.c\<close>): one set of three priority rings for each process,
  one for the stack itself, and a list of the sets that is served round robin. The theory holds the
  shared data, the abstract specification (three lists for each set) and the locale \<open>send_queue\<close>,
  in which fairness and completeness of the service are proved once for both transports.
\<close>

section \<open>Data\<close>

abbreviation (input) CONN_DEFAULT :: int where "CONN_DEFAULT \<equiv> 0"
abbreviation (input) CONN_LOW :: int where "CONN_LOW \<equiv> 1"
abbreviation (input) CONN_MIDDLE :: int where "CONN_MIDDLE \<equiv> 2"
abbreviation (input) CONN_HIGH :: int where "CONN_HIGH \<equiv> 3"

abbreviation (input) HIGH_PRIORITY :: nat where "HIGH_PRIORITY \<equiv> 0"
abbreviation (input) MIDDLE_PRIORITY :: nat where "MIDDLE_PRIORITY \<equiv> 1"
abbreviation (input) LOW_PRIORITY :: nat where "LOW_PRIORITY \<equiv> 2"
abbreviation (input) QUEUE_NUM_PER_PID :: nat where "QUEUE_NUM_PER_PID \<equiv> 3"

text \<open>
  A set of rings. \<open>pq_addr\<close> is the address of the structure: a thread that waits, or has released
  the lock, holds on to it, and using it after the structure was freed has no defined result.
\<close>

record 'a PidQueue =
  pq_addr :: nat
  pq_pid :: int
  pq_queue :: "'a LockFreeQueue list"

text \<open>The static variables; \<open>sq_fresh\<close> is the next address the allocator hands out.\<close>

record 'a send_state =
  g_innerQueue :: "'a PidQueue option"
  g_queueList :: "'a PidQueue list"
  sq_fresh :: nat

definition all_sets :: "('a, 'z) send_state_scheme \<Rightarrow> 'a PidQueue list" where
  "all_sets st = (case g_innerQueue st of None \<Rightarrow> [] | Some q \<Rightarrow> [q]) @ g_queueList st"

text \<open>Reading and writing a ring of the set at an address; \<^const>\<open>None\<close> when it was freed.\<close>

definition ring_at :: "('a, 'z) send_state_scheme \<Rightarrow> nat \<Rightarrow> nat \<Rightarrow> 'a LockFreeQueue option" where
  "ring_at st a priority =
     (case find (\<lambda>q. pq_addr q = a) (all_sets st) of
        None \<Rightarrow> None
      | Some q \<Rightarrow> if priority < length (pq_queue q) then Some (pq_queue q ! priority) else None)"

definition set_ring_of :: "nat \<Rightarrow> nat \<Rightarrow> 'a LockFreeQueue \<Rightarrow> 'a PidQueue \<Rightarrow> 'a PidQueue" where
  "set_ring_of a priority r q =
     (if pq_addr q = a then q\<lparr>pq_queue := (pq_queue q)[priority := r]\<rparr> else q)"

definition set_ring ::
  "('a, 'z) send_state_scheme \<Rightarrow> nat \<Rightarrow> nat \<Rightarrow> 'a LockFreeQueue \<Rightarrow> ('a, 'z) send_state_scheme" where
  "set_ring st a priority r =
     st\<lparr>g_innerQueue := map_option (set_ring_of a priority r) (g_innerQueue st),
        g_queueList := map (set_ring_of a priority r) (g_queueList st)\<rparr>"

text \<open>
  The loop that creates the rings of a set. \<open>alloc\<close> says which of the successive allocations
  succeed; when one fails the rings made so far are freed again.
\<close>

fun create_rings :: "(nat \<Rightarrow> bool) \<Rightarrow> u32 list \<Rightarrow> nat \<Rightarrow> 'a LockFreeQueue list option" where
  "create_rings alloc [] i = Some []"
| "create_rings alloc (limit # limits) i =
     (case CreateQueue (alloc i) limit of
        None \<Rightarrow> None
      | Some r \<Rightarrow> map_option (Cons r) (create_rings alloc limits (Suc i)))"

definition create_set ::
  "u32 list \<Rightarrow> (nat \<Rightarrow> bool) \<Rightarrow> int \<Rightarrow> ('a, 'z) send_state_scheme \<Rightarrow>
     ('a PidQueue \<times> ('a, 'z) send_state_scheme) option" where
  "create_set limits alloc pid st =
     (if \<not> alloc 0 then None
      else case create_rings alloc limits 1 of
        None \<Rightarrow> None
      | Some rs \<Rightarrow> Some (\<lparr>pq_addr = sq_fresh st, pq_pid = pid, pq_queue = rs\<rparr>,
                        st\<lparr>sq_fresh := Suc (sq_fresh st)\<rparr>))"

section \<open>The abstract send queue\<close>

text \<open>
  A set is a list of message lists, highest priority first. Taking a message takes the oldest one
  of the first non-empty list; adding one appends it to the list of its priority.
\<close>

fun prio_pop :: "'a list list \<Rightarrow> ('a \<times> 'a list list) option" where
  "prio_pop [] = None"
| "prio_pop ([] # qs) = map_option (apsnd (Cons [])) (prio_pop qs)"
| "prio_pop ((x # xs) # qs) = Some (x, xs # qs)"

definition prio_push :: "nat \<Rightarrow> 'a \<Rightarrow> 'a list list \<Rightarrow> 'a list list" where
  "prio_push p x qs = qs[p := (qs ! p) @ [x]]"

definition set_lists :: "'a PidQueue \<Rightarrow> 'a list list" where
  "set_lists q = map queue_list (pq_queue q)"

definition inner_lists :: "('a, 'z) send_state_scheme \<Rightarrow> 'a list list" where
  "inner_lists st = (case g_innerQueue st of None \<Rightarrow> [] | Some q \<Rightarrow> set_lists q)"

definition pid_lists :: "('a, 'z) send_state_scheme \<Rightarrow> (int \<times> 'a list list) list" where
  "pid_lists st = map (\<lambda>q. (pq_pid q, set_lists q)) (g_queueList st)"

text \<open>The messages of a state and the service of one dequeue.\<close>

definition lists_msgs :: "'a list list \<Rightarrow> (int \<times> 'a list list) list \<Rightarrow> 'a multiset" where
  "lists_msgs inner pids = mset (concat inner) + mset (concat (concat (map snd pids)))"

lemma prio_pop_None_iff: "prio_pop qs = None \<longleftrightarrow> concat qs = []"
  by (induction qs rule: prio_pop.induct) auto

lemma prio_pop_mset: "prio_pop qs = Some (m, qs') \<Longrightarrow> mset (concat qs) = add_mset m (mset (concat qs'))"
  by (induction qs arbitrary: qs' rule: prio_pop.induct) auto

lemma prio_pop_length: "prio_pop qs = Some (m, qs') \<Longrightarrow> length qs' = length qs"
  by (induction qs arbitrary: qs' rule: prio_pop.induct) auto

text \<open>The message taken is the head of a list and every list before it is empty.\<close>

lemma prio_pop_Some_iff:
  "prio_pop qs = Some (m, qs') \<longleftrightarrow>
     (\<exists>i < length qs. (\<forall>j < i. qs ! j = []) \<and> qs ! i \<noteq> [] \<and> m = hd (qs ! i) \<and> qs' = qs[i := tl (qs ! i)])"
proof (induction qs arbitrary: qs' rule: prio_pop.induct)
  case (2 qs)
  show ?case
  proof
    assume "prio_pop ([] # qs) = Some (m, qs')"
    then obtain r where r: "prio_pop qs = Some (m, r)" "qs' = [] # r" by auto
    then obtain i where "i < length qs" "\<forall>j < i. qs ! j = []" "qs ! i \<noteq> []" "m = hd (qs ! i)"
      "r = qs[i := tl (qs ! i)]" using 2 by blast
    then show "\<exists>i < length ([] # qs). (\<forall>j < i. ([] # qs) ! j = []) \<and> ([] # qs) ! i \<noteq> [] \<and>
        m = hd (([] # qs) ! i) \<and> qs' = ([] # qs)[i := tl (([] # qs) ! i)]"
      using r by (intro exI [of _ "Suc i"]) (auto simp: nth_Cons split: nat.split)
  next
    assume "\<exists>i < length ([] # qs). (\<forall>j < i. ([] # qs) ! j = []) \<and> ([] # qs) ! i \<noteq> [] \<and>
        m = hd (([] # qs) ! i) \<and> qs' = ([] # qs)[i := tl (([] # qs) ! i)]"
    then obtain i where i: "i < length ([] # qs)" "\<forall>j < i. ([] # qs) ! j = []" "([] # qs) ! i \<noteq> []"
      "m = hd (([] # qs) ! i)" "qs' = ([] # qs)[i := tl (([] # qs) ! i)]" by blast
    then obtain k where k: "i = Suc k" by (cases i) auto
    have "\<forall>j < k. qs ! j = []" using i(2) k by (metis Suc_mono nth_Cons_Suc)
    then have "prio_pop qs = Some (m, qs[k := tl (qs ! k)])" using 2 i k by auto
    then show "prio_pop ([] # qs) = Some (m, qs')" using i k by simp
  qed
next
  case (3 x xs qs)
  show ?case
  proof
    assume "prio_pop ((x # xs) # qs) = Some (m, qs')"
    then show "\<exists>i < length ((x # xs) # qs). (\<forall>j < i. ((x # xs) # qs) ! j = []) \<and>
        ((x # xs) # qs) ! i \<noteq> [] \<and> m = hd (((x # xs) # qs) ! i) \<and>
        qs' = ((x # xs) # qs)[i := tl (((x # xs) # qs) ! i)]"
      by (intro exI [of _ 0]) auto
  next
    assume "\<exists>i < length ((x # xs) # qs). (\<forall>j < i. ((x # xs) # qs) ! j = []) \<and>
        ((x # xs) # qs) ! i \<noteq> [] \<and> m = hd (((x # xs) # qs) ! i) \<and>
        qs' = ((x # xs) # qs)[i := tl (((x # xs) # qs) ! i)]"
    then obtain i where i: "\<forall>j < i. ((x # xs) # qs) ! j = []" "m = hd (((x # xs) # qs) ! i)"
      "qs' = ((x # xs) # qs)[i := tl (((x # xs) # qs) ! i)]" by blast
    then have "i = 0" by (cases i) auto
    with i show "prio_pop ((x # xs) # qs) = Some (m, qs')" by simp
  qed
qed simp

section \<open>Service in turn\<close>

text \<open>
  One call of dequeue: the stack's own messages first; otherwise the first set gives its next
  message and goes to the end of the list, and an empty set is removed without giving one.
\<close>

definition serve_spec ::
  "'a list list \<Rightarrow> (int \<times> 'a list list) list \<Rightarrow> 'a option \<times> 'a list list \<times> (int \<times> 'a list list) list" where
  "serve_spec inner pids =
     (case prio_pop inner of
        Some (m, inner') \<Rightarrow> (Some m, inner', pids)
      | None \<Rightarrow>
          (case pids of
             [] \<Rightarrow> (None, inner, [])
           | (p, q) # rest \<Rightarrow>
               (case prio_pop q of
                  Some (m, q') \<Rightarrow> (Some m, inner, rest @ [(p, q')])
                | None \<Rightarrow> (None, inner, rest))))"

fun serve_specs ::
  "nat \<Rightarrow> 'a list list \<Rightarrow> (int \<times> 'a list list) list \<Rightarrow>
     'a option list \<times> 'a list list \<times> (int \<times> 'a list list) list" where
  "serve_specs 0 inner pids = ([], inner, pids)"
| "serve_specs (Suc n) inner pids =
     (case serve_spec inner pids of
        (v, inner', pids') \<Rightarrow>
          (case serve_specs n inner' pids' of (vs, r) \<Rightarrow> (v # vs, r)))"

lemma nth_serve_specs_Suc:
  "serve_spec inner pids = (v, inner', pids') \<Longrightarrow>
     fst (serve_specs (Suc k) inner pids) ! Suc j = fst (serve_specs k inner' pids') ! j"
  by (simp split: prod.split)

text \<open>A set that has a message gives it after the sets before it were served once each.\<close>

lemma serve_specs_fair:
  assumes "concat inner = []" "prio_pop q = Some (m, q')"
  shows "fst (serve_specs (Suc (length pre)) inner (pre @ (p, q) # post)) ! length pre = Some m"
proof (induction pre arbitrary: post)
  case Nil
  have "prio_pop inner = None" using assms(1) by (simp add: prio_pop_None_iff)
  then show ?case using assms(2) by (simp add: serve_spec_def)
next
  case (Cons a pre)
  obtain b c where a: "a = (b, c)" by fastforce
  have i: "prio_pop inner = None" using assms(1) by (simp add: prio_pop_None_iff)
  obtain v post' where "serve_spec inner ((a # pre) @ (p, q) # post) = (v, inner, pre @ (p, q) # post')"
    using i a by (cases "prio_pop c") (auto simp: serve_spec_def)
  from nth_serve_specs_Suc [OF this, of "Suc (length pre)" "length pre"]
  show ?case by (simp only: length_Cons Cons.IH)
qed

text \<open>The stack's own messages go first; after them the same holds.\<close>

lemma serve_specs_fair_after:
  assumes "prio_pop q = Some (m, q')"
  shows "fst (serve_specs (Suc (length (concat inner) + length pre)) inner (pre @ (p, q) # post)) !
    (length (concat inner) + length pre) = Some m"
proof (induction "length (concat inner)" arbitrary: inner)
  case 0
  then have "concat inner = []" by (metis length_0_conv)
  then show ?case using serve_specs_fair [OF _ assms, of inner pre p post] by (simp only: list.size add_0)
next
  case (Suc n)
  then have "prio_pop inner \<noteq> None" by (metis list.size(3) nat.distinct(1) prio_pop_None_iff)
  then obtain v inner' where pop: "prio_pop inner = Some (v, inner')" by auto
  have n: "length (concat inner) = Suc (length (concat inner'))"
    using arg_cong [OF prio_pop_mset [OF pop], of size] by (simp only: size_mset size_add_mset)
  have "serve_spec inner (pre @ (p, q) # post) = (Some v, inner', pre @ (p, q) # post)"
    using pop by (simp add: serve_spec_def)
  from nth_serve_specs_Suc [OF this, of "Suc (length (concat inner') + length pre)"
      "length (concat inner') + length pre"]
  show ?case using Suc.hyps(1) [of inner'] Suc.hyps(2) n by (simp only: add_Suc nat.inject)
qed

definition work_left :: "'a list list \<Rightarrow> (int \<times> 'a list list) list \<Rightarrow> nat" where
  "work_left inner pids = size (lists_msgs inner pids) + length pids"

lemma serve_spec_msgs:
  assumes "serve_spec inner pids = (v, inner', pids')"
  shows "lists_msgs inner pids = (case v of None \<Rightarrow> {#} | Some m \<Rightarrow> {#m#}) + lists_msgs inner' pids'"
  using assms
  by (auto simp: serve_spec_def lists_msgs_def prio_pop_None_iff
      split: option.splits list.splits prod.splits dest!: prio_pop_mset)

lemma serve_spec_work:
  assumes "serve_spec inner pids = (v, inner', pids')" "0 < work_left inner pids"
  shows "work_left inner' pids' < work_left inner pids"
proof (cases v)
  case None
  then have "prio_pop inner = None" and "inner' = inner" and "length pids = Suc (length pids')"
    using assms
    by (auto simp: serve_spec_def work_left_def lists_msgs_def prio_pop_None_iff
        split: option.splits list.splits prod.splits)
  then show ?thesis using serve_spec_msgs [OF assms(1)] None by (simp add: work_left_def)
next
  case (Some m)
  then have "length pids' = length pids"
    using assms(1) by (auto simp: serve_spec_def split: option.splits list.splits prod.splits)
  then show ?thesis using serve_spec_msgs [OF assms(1)] Some by (simp add: work_left_def)
qed

text \<open>
  As many calls as there are messages and sets deliver every queued message exactly once and leave
  nothing behind.
\<close>

lemma serve_specs_drain:
  assumes "work_left inner pids \<le> n" "serve_specs n inner pids = (vs, inner', pids')"
  shows "mset (List.map_filter id vs) = lists_msgs inner pids \<and> concat inner' = [] \<and> pids' = []"
  using assms
proof (induction n arbitrary: inner pids vs)
  case 0
  then show ?case by (auto simp: work_left_def lists_msgs_def List.map_filter_def)
next
  case (Suc n)
  obtain v i p where s: "serve_spec inner pids = (v, i, p)" by (cases "serve_spec inner pids")
  obtain ws where w: "serve_specs n i p = (ws, inner', pids')" "vs = v # ws"
    using Suc.prems(2) s by (auto split: prod.splits)
  have "work_left i p \<le> n"
  proof (cases "work_left inner pids")
    case 0
    then have "prio_pop inner = None" "pids = []"
      by (auto simp: work_left_def lists_msgs_def prio_pop_None_iff)
    then have "i = inner \<and> p = pids" using s by (simp add: serve_spec_def)
    with 0 show ?thesis by simp
  next
    case Suc
    then show ?thesis using serve_spec_work [OF s] \<open>work_left inner pids \<le> _\<close> by simp
  qed
  from Suc.IH [OF this w(1)] show ?case
    using serve_spec_msgs [OF s] w(2) by (cases v) (auto simp: List.map_filter_def)
qed

fun serve ::
  "('s \<Rightarrow> (int \<times> 's \<times> 'a option) option) \<Rightarrow> nat \<Rightarrow> 's \<Rightarrow> ('a option list \<times> 's) option" where
  "serve deq 0 s = Some ([], s)"
| "serve deq (Suc n) s =
     (case deq s of
        None \<Rightarrow> None
      | Some (r, s', v) \<Rightarrow>
          map_option (apfst (Cons (if r = SOFTBUS_OK then v else None))) (serve deq n s'))"

locale send_queue =
  fixes deq :: "'s \<Rightarrow> (int \<times> 's \<times> 'a option) option"
    and inner :: "'s \<Rightarrow> 'a list list"
    and pids :: "'s \<Rightarrow> (int \<times> 'a list list) list"
    and invar :: "'s \<Rightarrow> bool"
  assumes deq_spec: "invar s \<Longrightarrow> \<exists>r s' v. deq s = Some (r, s', v) \<and> invar s' \<and>
      (if r = SOFTBUS_OK then v else None, inner s', pids s') = serve_spec (inner s) (pids s)"
begin

lemma serve_total:
  assumes "invar s"
  shows "\<exists>vs s'. serve deq n s = Some (vs, s') \<and> invar s' \<and>
     (vs, inner s', pids s') = serve_specs n (inner s) (pids s)"
  using assms
proof (induction n arbitrary: s)
  case 0
  then show ?case by simp
next
  case (Suc n)
  obtain r s1 v where d: "deq s = Some (r, s1, v)" "invar s1"
    and sp: "(if r = SOFTBUS_OK then v else None, inner s1, pids s1) = serve_spec (inner s) (pids s)"
    using deq_spec [OF Suc.prems] by blast
  from Suc.IH [OF d(2)] obtain vs s' where "serve deq n s1 = Some (vs, s')" "invar s'"
    "(vs, inner s', pids s') = serve_specs n (inner s1) (pids s1)" by blast
  then show ?case using d(1) by (auto simp: sp [symmetric] split: prod.splits)
qed

lemma serve_fair:
  assumes "invar s" "concat (inner s) = []" "pids s = pre @ (p, q) # post" "prio_pop q = Some (m, q')"
  shows "\<exists>vs s'. serve deq (Suc (length pre)) s = Some (vs, s') \<and> invar s' \<and> vs ! length pre = Some m"
  using serve_total [OF assms(1), of "Suc (length pre)"]
    serve_specs_fair [OF assms(2) assms(4), of pre p post] assms(3)
  by (metis fst_conv)

lemma serve_fair_after:
  assumes "invar s" "pids s = pre @ (p, q) # post" "prio_pop q = Some (m, q')"
  shows "\<exists>vs s'. serve deq (Suc (length (concat (inner s)) + length pre)) s = Some (vs, s') \<and> invar s' \<and>
    vs ! (length (concat (inner s)) + length pre) = Some m"
  using serve_total [OF assms(1), of "Suc (length (concat (inner s)) + length pre)"]
    serve_specs_fair_after [OF assms(3), of "inner s" pre p post] assms(2)
  by (metis fst_conv)

lemma serve_drain:
  assumes "invar s" "work_left (inner s) (pids s) \<le> n"
  shows "\<exists>vs s'. serve deq n s = Some (vs, s') \<and> invar s' \<and>
     mset (List.map_filter id vs) = lists_msgs (inner s) (pids s) \<and>
     concat (inner s') = [] \<and> pids s' = []"
  using serve_total [OF assms(1), of n] serve_specs_drain [OF assms(2)] by metis

end

section \<open>Well-formed states\<close>

text \<open>
  The invariant: the stack's own set exists; every set has three well-formed rings of the capacities
  its limits give; addresses are distinct and below the allocator's next one; a process has at
  most one set.
\<close>

definition set_wf :: "nat list \<Rightarrow> 'a PidQueue \<Rightarrow> bool" where
  "set_wf caps q \<longleftrightarrow> (\<forall>r \<in> set (pq_queue q). queue_wf r) \<and> map queue_cap (pq_queue q) = caps"

definition send_wf :: "nat list \<Rightarrow> ('a, 'z) send_state_scheme \<Rightarrow> bool" where
  "send_wf caps st \<longleftrightarrow>
     g_innerQueue st \<noteq> None \<and> (\<forall>q \<in> set (all_sets st). set_wf caps q) \<and>
     distinct (map pq_addr (all_sets st)) \<and> (\<forall>q \<in> set (all_sets st). pq_addr q < sq_fresh st) \<and>
     distinct (map pq_pid (g_queueList st))"

text \<open>A set of a state sits at one place: it is the stack's own one or a member of the list.\<close>

lemma find_addr:
  assumes "distinct (map f (xs @ x # ys))"
  shows "find (\<lambda>q. f q = f x) (xs @ x # ys) = Some x"
  using assms by (induction xs) auto

lemma ring_at_inner:
  assumes "g_innerQueue st = Some q" "i < length (pq_queue q)"
  shows "ring_at st (pq_addr q) i = Some (pq_queue q ! i)"
  using assms by (simp add: ring_at_def all_sets_def)

lemma ring_at_member:
  assumes "distinct (map pq_addr (all_sets st))" "g_queueList st = pre @ q # post"
    and "i < length (pq_queue q)"
  shows "ring_at st (pq_addr q) i = Some (pq_queue q ! i)"
proof -
  have "find (\<lambda>x. pq_addr x = pq_addr q) (all_sets st) = Some q"
    using assms(1,2) find_addr [of pq_addr "(case g_innerQueue st of None \<Rightarrow> [] | Some q \<Rightarrow> [q]) @ pre" q post]
    by (simp add: all_sets_def)
  then show ?thesis using assms(3) by (simp add: ring_at_def)
qed

lemma set_ring_of_other: "pq_addr x \<noteq> a \<Longrightarrow> set_ring_of a i r x = x"
  by (simp add: set_ring_of_def)

lemma set_ring_inner:
  assumes "distinct (map pq_addr (all_sets st))" "g_innerQueue st = Some q"
  shows "set_ring st (pq_addr q) i r = st\<lparr>g_innerQueue := Some (q\<lparr>pq_queue := (pq_queue q)[i := r]\<rparr>)\<rparr>"
proof -
  have "map (set_ring_of (pq_addr q) i r) (g_queueList st) = g_queueList st"
    using assms by (intro map_idI set_ring_of_other) (auto simp: all_sets_def image_iff)
  then show ?thesis using assms(2) by (simp add: set_ring_def set_ring_of_def)
qed

lemma set_ring_member:
  assumes "distinct (map pq_addr (all_sets st))" "g_queueList st = pre @ q # post"
  shows "set_ring st (pq_addr q) i r =
     st\<lparr>g_queueList := pre @ q\<lparr>pq_queue := (pq_queue q)[i := r]\<rparr> # post\<rparr>"
proof -
  have "map (set_ring_of (pq_addr q) i r) pre = pre" "map (set_ring_of (pq_addr q) i r) post = post"
    "map_option (set_ring_of (pq_addr q) i r) (g_innerQueue st) = g_innerQueue st"
    using assms by (auto intro!: map_idI set_ring_of_other simp: all_sets_def image_iff split: option.splits)
  then show ?thesis using assms(2) by (simp add: set_ring_def set_ring_of_def)
qed

text \<open>Calling the ring's enqueue through a pointer to one ring of the set at an address.\<close>

definition ring_enqueue ::
  "('a, 'z) send_state_scheme \<Rightarrow> nat \<Rightarrow> nat \<Rightarrow> 'a \<Rightarrow> (int \<times> ('a, 'z) send_state_scheme) option" where
  "ring_enqueue st a priority msg =
     (case ring_at st a priority of
        None \<Rightarrow> None
      | Some q \<Rightarrow>
          (case QueueMultiProducerEnqueue (Some q) (Some msg) of
             None \<Rightarrow> None
           | Some (r, q') \<Rightarrow> Some (r, set_ring st a priority (the q'))))"

lemma QueueMultiProducerEnqueue_lfq:
  assumes "queue_wf q"
  obtains r q' where "QueueMultiProducerEnqueue (Some q) (Some x) = Some (r, Some q')"
    "queue_wf q'" "queue_cap q' = queue_cap q"
    "(r, queue_list q') = (if length (queue_list q) < queue_cap q then (0, queue_list q @ [x])
                           else (QUEUE_FULL, queue_list q))"
proof -
  obtain r q' where "lfq_enq q x = Some (r, q')" "queue_wf q'" "queue_cap q' = queue_cap q"
    "(r, queue_list q') = (if length (queue_list q) < queue_cap q then (0, queue_list q @ [x])
                           else (QUEUE_FULL, queue_list q))"
    using lfq.enq_total [OF assms] .
  moreover then have "QueueMultiProducerEnqueue (Some q) (Some x) = Some (r, Some q')"
    by (auto simp: lfq_enq_def QueueMultiProducerEnqueue_wf [OF assms] split: if_splits)
  ultimately show ?thesis using that by blast
qed

lemma set_wf_nth:
  "set_wf caps q \<Longrightarrow> i < length caps \<Longrightarrow> queue_wf (pq_queue q ! i) \<and> queue_cap (pq_queue q ! i) = caps ! i"
  by (auto simp: set_wf_def)

lemma set_wf_length: "set_wf caps q \<Longrightarrow> length (pq_queue q) = length caps"
  by (auto simp: set_wf_def)

lemma set_wf_update:
  assumes "set_wf caps q" "i < length caps" "queue_wf r" "queue_cap r = caps ! i"
  shows "set_wf caps (q\<lparr>pq_queue := (pq_queue q)[i := r]\<rparr>)"
  using assms by (auto simp: set_wf_def map_update dest!: set_update_subset_insert [THEN subsetD])

text \<open>The outcome of an enqueue into one ring, on the lists of the set it belongs to.\<close>

definition push_result :: "nat list \<Rightarrow> nat \<Rightarrow> 'a \<Rightarrow> 'a list list \<Rightarrow> int \<times> 'a list list" where
  "push_result caps i x qs =
     (if length (qs ! i) < caps ! i then (0, prio_push i x qs) else (QUEUE_FULL, qs))"

lemma set_enqueue:
  assumes "set_wf caps q" "i < length caps"
  obtains r q' where "QueueMultiProducerEnqueue (Some (pq_queue q ! i)) (Some x) = Some (r, Some q')"
    "set_wf caps (q\<lparr>pq_queue := (pq_queue q)[i := q']\<rparr>)"
    "(r, set_lists (q\<lparr>pq_queue := (pq_queue q)[i := q']\<rparr>)) = push_result caps i x (set_lists q)"
proof -
  note w = set_wf_nth [OF assms] and l = set_wf_length [OF assms(1)]
  obtain r q' where e: "QueueMultiProducerEnqueue (Some (pq_queue q ! i)) (Some x) = Some (r, Some q')"
    "queue_wf q'" "queue_cap q' = queue_cap (pq_queue q ! i)"
    "(r, queue_list q') = (if length (queue_list (pq_queue q ! i)) < queue_cap (pq_queue q ! i)
       then (0, queue_list (pq_queue q ! i) @ [x]) else (QUEUE_FULL, queue_list (pq_queue q ! i)))"
    using QueueMultiProducerEnqueue_lfq w by metis
  have "set_lists (q\<lparr>pq_queue := (pq_queue q)[i := q']\<rparr>) = (set_lists q)[i := queue_list q']"
    by (simp add: set_lists_def map_update)
  moreover have "set_lists q ! i = queue_list (pq_queue q ! i)"
    using assms(2) l by (simp add: set_lists_def)
  ultimately show ?thesis
    using that [OF e(1)] set_wf_update [OF assms e(2)] e w
    by (auto simp: push_result_def prio_push_def list_update_same_conv set_lists_def l assms(2)
        split: if_splits)
qed

lemma ring_enqueue_inner:
  assumes "send_wf caps st" "i < length caps"
  obtains r st' where "g_innerQueue st \<noteq> None"
    "ring_enqueue st (pq_addr (the (g_innerQueue st))) i x = Some (r, st')" "send_wf caps st'"
    "(r, inner_lists st') = push_result caps i x (inner_lists st)" "pid_lists st' = pid_lists st"
proof -
  obtain q where q: "g_innerQueue st = Some q" "set_wf caps q" and d: "distinct (map pq_addr (all_sets st))"
    using assms(1) by (auto simp: send_wf_def all_sets_def)
  obtain r q' where e: "QueueMultiProducerEnqueue (Some (pq_queue q ! i)) (Some x) = Some (r, Some q')"
    "set_wf caps (q\<lparr>pq_queue := (pq_queue q)[i := q']\<rparr>)"
    "(r, set_lists (q\<lparr>pq_queue := (pq_queue q)[i := q']\<rparr>)) = push_result caps i x (set_lists q)"
    using set_enqueue [OF q(2) assms(2)] .
  have "ring_enqueue st (pq_addr q) i x =
      Some (r, st\<lparr>g_innerQueue := Some (q\<lparr>pq_queue := (pq_queue q)[i := q']\<rparr>)\<rparr>)"
    using ring_at_inner [OF q(1)] set_wf_length [OF q(2)] assms(2) e(1)
    by (simp add: ring_enqueue_def set_ring_inner [OF d q(1)])
  moreover have "send_wf caps (st\<lparr>g_innerQueue := Some (q\<lparr>pq_queue := (pq_queue q)[i := q']\<rparr>)\<rparr>)"
    using assms(1) e(2) q(1) by (auto simp: send_wf_def all_sets_def)
  ultimately show ?thesis using that q(1) e(3) by (auto simp: inner_lists_def pid_lists_def)
qed

lemma ring_enqueue_member:
  assumes "send_wf caps st" "i < length caps" "g_queueList st = pre @ q # post"
  obtains r st' q' where "ring_enqueue st (pq_addr q) i x = Some (r, st')" "send_wf caps st'"
    "g_queueList st' = pre @ q' # post" "pq_addr q' = pq_addr q" "pq_pid q' = pq_pid q"
    "(r, set_lists q') = push_result caps i x (set_lists q)" "inner_lists st' = inner_lists st"
proof -
  have q: "set_wf caps q" and d: "distinct (map pq_addr (all_sets st))"
    using assms(1,3) by (auto simp: send_wf_def all_sets_def)
  obtain r q' where e: "QueueMultiProducerEnqueue (Some (pq_queue q ! i)) (Some x) = Some (r, Some q')"
    "set_wf caps (q\<lparr>pq_queue := (pq_queue q)[i := q']\<rparr>)"
    "(r, set_lists (q\<lparr>pq_queue := (pq_queue q)[i := q']\<rparr>)) = push_result caps i x (set_lists q)"
    using set_enqueue [OF q assms(2)] .
  have "ring_enqueue st (pq_addr q) i x =
      Some (r, st\<lparr>g_queueList := pre @ q\<lparr>pq_queue := (pq_queue q)[i := q']\<rparr> # post\<rparr>)"
    using ring_at_member [OF d assms(3)] set_wf_length [OF q] assms(2) e(1)
    by (simp add: ring_enqueue_def set_ring_member [OF d assms(3)])
  moreover have "send_wf caps (st\<lparr>g_queueList := pre @ q\<lparr>pq_queue := (pq_queue q)[i := q']\<rparr> # post\<rparr>)"
    using assms(1,3) e(2) by (auto simp: send_wf_def all_sets_def split: option.splits)
  ultimately show ?thesis using that e(3) by (auto simp: inner_lists_def)
qed

text \<open>A new set is well formed and empty, and its address is not in use.\<close>

lemma create_rings_wf:
  assumes "\<forall>l \<in> set limits. IS_POWER_OF_2 l \<and> l \<noteq> 0 \<and> l \<le> QUEUE_SIZE_MAX"
    and "create_rings alloc limits i = Some rs"
  shows "(\<forall>r \<in> set rs. queue_wf r \<and> queue_list r = []) \<and> map queue_cap rs = map (\<lambda>l. unat l - 1) limits"
  using assms
proof (induction limits arbitrary: i rs)
  case (Cons l limits)
  obtain r rs' where r: "CreateQueue (alloc i) l = Some r" "create_rings alloc limits (Suc i) = Some rs'"
    "rs = r # rs'" using Cons.prems(2) by (auto split: option.splits)
  then have "alloc i" by (auto simp: CreateQueue_def split: if_splits prod.splits)
  then have "queue_wf r \<and> queue_list r = [] \<and> queue_cap r = unat l - 1"
    using CreateQueue_wf [of l, where ?'a = 'a] Cons.prems(1) r(1) by auto
  then show ?case using Cons.IH [OF _ r(2)] Cons.prems(1) r(3) by auto
qed simp

lemma create_rings_ok:
  assumes "\<forall>l \<in> set limits. IS_POWER_OF_2 l \<and> l \<noteq> 0 \<and> l \<le> QUEUE_SIZE_MAX" "\<forall>n. alloc n"
  shows "\<exists>rs :: 'a LockFreeQueue list. create_rings alloc limits i = Some rs"
  using assms(1)
proof (induction limits arbitrary: i)
  case (Cons l limits)
  then obtain r :: "'a LockFreeQueue" where "CreateQueue True l = Some r" using CreateQueue_wf [of l] by auto
  moreover obtain rs :: "'a LockFreeQueue list" where "create_rings alloc limits (Suc i) = Some rs" using Cons by auto
  moreover have "alloc i" using assms(2) by blast
  ultimately show ?case by simp
qed simp

section \<open>Facts both queues use\<close>

lemma nat_less_3: "(i::nat) < 3 \<longleftrightarrow> i = 0 \<or> i = 1 \<or> i = 2"
  by auto

lemma QueueCountGet_unat:
  assumes "queue_wf q"
  obtains c where "QueueCountGet (Some q) (Some 0) = (0, Some c)" "unat c = length (queue_list q)"
  using QueueCountGet_wf [OF assms] queue_len_bound [of q] by simp

lemma QueueSingleConsumerDequeue_Nil:
  "queue_wf q \<Longrightarrow> queue_list q = [] \<Longrightarrow>
     QueueSingleConsumerDequeue (Some q) (Some out) = Some (QUEUE_EMPTY, Some q, Some out)"
  using length_queue_list [of q] by (simp add: QueueSingleConsumerDequeue_wf del: length_queue_list)

lemma QueueSingleConsumerDequeue_Cons:
  assumes "queue_wf q" "queue_list q = x # xs"
  obtains q' where "QueueSingleConsumerDequeue (Some q) (Some out) = Some (0, Some q', Some (Some x))"
    "queue_wf q'" "queue_list q' = xs" "queue_cap q' = queue_cap q"
proof -
  have "queue_len q \<noteq> 0" using assms(2) length_queue_list [of q] by auto
  then show ?thesis using that [of "deq_state q"] assms queue_list_deq [of q] queue_wf_deq [OF assms(1)]
    by (simp add: QueueSingleConsumerDequeue_wf)
qed

lemma send_wf_sets:
  assumes "send_wf caps st"
  obtains q where "g_innerQueue st = Some q" "set_wf caps q" "inner_lists st = set_lists q"
    "\<And>x. x \<in> set (g_queueList st) \<Longrightarrow> set_wf caps x"
  using assms by (auto simp: send_wf_def all_sets_def inner_lists_def)

lemma send_wf_inner_update:
  "send_wf caps st \<Longrightarrow> g_innerQueue st = Some q \<Longrightarrow> set_wf caps q' \<Longrightarrow> pq_addr q' = pq_addr q \<Longrightarrow>
     send_wf caps (st\<lparr>g_innerQueue := Some q'\<rparr>)"
  by (auto simp: send_wf_def all_sets_def)

lemma send_wf_drop_first:
  "send_wf caps st \<Longrightarrow> g_queueList st = x # rest \<Longrightarrow> send_wf caps (st\<lparr>g_queueList := rest\<rparr>)"
  by (auto simp: send_wf_def all_sets_def split: option.splits)

lemma send_wf_rotate:
  "send_wf caps st \<Longrightarrow> g_queueList st = x # rest \<Longrightarrow> set_wf caps x' \<Longrightarrow> pq_addr x' = pq_addr x \<Longrightarrow>
     pq_pid x' = pq_pid x \<Longrightarrow> send_wf caps (st\<lparr>g_queueList := rest @ [x']\<rparr>)"
  by (auto simp: send_wf_def all_sets_def split: option.splits)

text \<open>The abstract enqueue for a process: its set gets the message, a new set is made at the end.\<close>

definition add_msg :: "int \<Rightarrow> nat \<Rightarrow> 'a \<Rightarrow> (int \<times> 'a list list) list \<Rightarrow> (int \<times> 'a list list) list" where
  "add_msg p i m pids =
     (if p \<in> fst ` set pids then map (\<lambda>(p', q). (p', if p' = p then prio_push i m q else q)) pids
      else pids @ [(p, prio_push i m [[], [], []])])"

lemma ring_at_set:
  assumes "send_wf caps st" "q \<in> set (all_sets st)" "i < length caps"
  shows "ring_at st (pq_addr q) i = Some (pq_queue q ! i)"
proof -
  have l: "i < length (pq_queue q)" using assms set_wf_length [of caps q] by (simp add: send_wf_def)
  from assms(2) consider "g_innerQueue st = Some q" | "q \<in> set (g_queueList st)"
    by (auto simp: all_sets_def split: option.splits)
  then show ?thesis
  proof cases
    case 1
    then show ?thesis using ring_at_inner l by blast
  next
    case 2
    then obtain pre post where "g_queueList st = pre @ q # post" by (auto simp: in_set_conv_decomp)
    then show ?thesis using ring_at_member l assms(1) by (auto simp: send_wf_def)
  qed
qed

lemma set_lists_nth: "i < length (pq_queue q) \<Longrightarrow> set_lists q ! i = queue_list (pq_queue q ! i)"
  by (simp add: set_lists_def)

lemma find_pid:
  assumes "distinct (map pq_pid xs)" "find (\<lambda>x. pq_pid x = p) xs = Some x"
  obtains pre post where "xs = pre @ x # post" "pq_pid x = p"
    "\<And>y. y \<in> set pre \<union> set post \<Longrightarrow> pq_pid y \<noteq> p"
proof -
  from assms(2) have x: "x \<in> set xs" "pq_pid x = p" by (auto simp: find_Some_iff)
  then obtain pre post where xs: "xs = pre @ x # post" by (auto simp: in_set_conv_decomp)
  have "pq_pid y \<noteq> p" if "y \<in> set pre \<union> set post" for y
    using that assms(1) x(2) by (auto simp: xs image_iff)
  with xs x(2) show ?thesis by (rule that)
qed

lemma add_msg_present:
  assumes "xs = pre @ x # post" "pq_pid x = p" "\<And>y. y \<in> set pre \<union> set post \<Longrightarrow> pq_pid y \<noteq> p"
    and "pq_pid x' = p" "set_lists x' = prio_push i m (set_lists x)"
  shows "map (\<lambda>q. (pq_pid q, set_lists q)) (pre @ x' # post) =
     add_msg p i m (map (\<lambda>q. (pq_pid q, set_lists q)) xs)"
  using assms by (auto simp: add_msg_def)

lemma send_wf_append:
  assumes "send_wf caps st" "set_wf caps q" "pq_addr q = sq_fresh st"
    and "find (\<lambda>x. pq_pid x = pq_pid q) (g_queueList st) = None"
  shows "send_wf caps (st\<lparr>sq_fresh := Suc (sq_fresh st), g_queueList := g_queueList st @ [q]\<rparr>)"
  using assms
  by (fastforce simp: send_wf_def all_sets_def find_None_iff split: option.splits)

lemma map_of_pid_lists:
  "map_of (pid_lists st) p = map_option set_lists (find (\<lambda>x. pq_pid x = p) (g_queueList st))"
proof -
  have "map_of (map (\<lambda>q. (pq_pid q, set_lists q)) xs) p =
      map_option set_lists (find (\<lambda>x. pq_pid x = p) xs)" for xs :: "'a PidQueue list"
    by (induction xs) auto
  then show ?thesis by (simp add: pid_lists_def)
qed

text \<open>The addresses in use, and the enqueue through an address that is in use.\<close>

definition set_addrs :: "('a, 'z) send_state_scheme \<Rightarrow> nat set" where
  "set_addrs st = pq_addr ` set (all_sets st)"

lemma ring_enqueue_defined:
  assumes "send_wf caps st" "i < length caps" "a \<in> set_addrs st"
  shows "\<exists>r st'. ring_enqueue st a i x = Some (r, st') \<and> send_wf caps st' \<and> r \<in> {0, QUEUE_FULL}"
proof -
  obtain y where y: "y \<in> set (all_sets st)" "pq_addr y = a" using assms(3) by (auto simp: set_addrs_def)
  from y(1) consider "g_innerQueue st = Some y" | "y \<in> set (g_queueList st)"
    by (auto simp: all_sets_def split: option.splits)
  then show ?thesis
  proof cases
    case 1
    obtain r1 st1 where "ring_enqueue st (pq_addr y) i x = Some (r1, st1)" "send_wf caps st1"
      "(r1, inner_lists st1) = push_result caps i x (inner_lists st)"
      using ring_enqueue_inner [OF assms(1,2), of x] 1 by (metis option.sel)
    then show ?thesis using y(2) by (auto simp: push_result_def split: if_splits)
  next
    case 2
    then obtain pre post where l: "g_queueList st = pre @ y # post" by (auto simp: in_set_conv_decomp)
    obtain r1 st1 q' where "ring_enqueue st (pq_addr y) i x = Some (r1, st1)" "send_wf caps st1"
      "(r1, set_lists q') = push_result caps i x (set_lists y)"
      using ring_enqueue_member [OF assms(1,2) l, of x] by metis
    then show ?thesis using y(2) by (auto simp: push_result_def split: if_splits)
  qed
qed

text \<open>A service that never moves the stack's own set: a set that has left the list is gone.\<close>

lemma serve_keeps:
  assumes "\<forall>s r s' v. deq s = Some (r, s', v) \<longrightarrow> f s' = f s" "serve deq n s = Some (vs, s')"
  shows "f s' = f s"
  using assms(2) by (induction n arbitrary: s vs) (use assms(1) in \<open>fastforce split: option.splits\<close>)+

lemma serve_freed:
  assumes "\<forall>s r s' v. deq s = Some (r, s', v) \<longrightarrow>
      map_option pq_addr (g_innerQueue s') = map_option pq_addr (g_innerQueue s)"
    and "send_wf caps st" "serve deq n st = Some (vs, st')" "pid_lists st' = []" "x \<in> set (g_queueList st)"
  shows "find (\<lambda>y. pq_addr y = pq_addr x) (all_sets st') = None"
proof -
  obtain q where q: "g_innerQueue st = Some q" using assms(2) by (auto simp: send_wf_def)
  then have "pq_addr q \<noteq> pq_addr x" using assms(2,5) by (auto simp: send_wf_def all_sets_def)
  moreover obtain q' where "g_innerQueue st' = Some q'" "pq_addr q' = pq_addr q"
    using serve_keeps [where f = "\<lambda>s. map_option pq_addr (g_innerQueue s)", OF assms(1,3)] q by auto
  moreover have "g_queueList st' = []" using assms(4) by (simp add: pid_lists_def)
  ultimately show ?thesis by (simp add: all_sets_def)
qed

end
