(* ===== verification/Br_Queue.thy ===== *)
theory Br_Queue
  imports Send_Queue "HOL-Library.Signed_Division"
begin

text \<open>
  The send queue of the Bluetooth connection, \<^verbatim>\<open>core/connection/br/src/br_connection_queue.c\<close>:
  creation, waiting for room, enqueue and dequeue, as operations on the shared state of theory
  \<open>Send_Queue\<close>. A wait on a condition variable releases \<open>g_brQueueLock\<close>; what the other threads
  do meanwhile and how the wait ends are arguments of the operation.
\<close>

section \<open>Model\<close>

abbreviation (input) SOFTBUS_CONNECTION_ERR_SENDQUEUE_FULL :: int where
  "SOFTBUS_CONNECTION_ERR_SENDQUEUE_FULL \<equiv> -266338292"

record SendBrQueueNode =
  br_connectionId :: u32
  br_pid :: int
  br_flag :: int
  br_isInner :: bool
  br_module :: int
  br_seq :: u64
  br_len :: u32
  br_data :: "u8 list"

definition QUEUE_LIMIT :: "u32 list" where
  "QUEUE_LIMIT = [32, 32, 32]"

abbreviation (input) WAIT_QUEUE_BUFFER_PERIOD_LEN :: u32 where "WAIT_QUEUE_BUFFER_PERIOD_LEN \<equiv> 2"
abbreviation (input) WAIT_RETRY_NUM :: nat where "WAIT_RETRY_NUM \<equiv> 2"
abbreviation (input) WAIT_QUEUE_DELAY :: nat where "WAIT_QUEUE_DELAY \<equiv> 1000"
abbreviation (input) DEQUEUE_DELAY :: nat where "DEQUEUE_DELAY \<equiv> 1000"

text \<open>The two condition variables; \<open>br_signals\<close> lists the broadcasts, latest first.\<close>

datatype BrCond = SendWaitCond | SendCond

record br_state = "SendBrQueueNode send_state" +
  br_signals :: "BrCond list"

definition broadcast :: "BrCond \<Rightarrow> br_state \<Rightarrow> br_state" where
  "broadcast c st = st\<lparr>br_signals := c # br_signals st\<rparr>"

text \<open>
  One wait: the clock (\<^const>\<open>None\<close> when reading it fails), how the wait ends for a deadline
  (\<^const>\<open>None\<close> for no deadline), and what the other threads do while the lock is released. The
  deadline is computed in 64 bits; signed sums are read as wrapping.
\<close>

record br_wait =
  w_now :: "(int \<times> int) option"
  w_ret :: "(int \<times> int) option \<Rightarrow> int"
  w_others :: "br_state \<Rightarrow> br_state"

abbreviation (input) USECTONSEC :: int where "USECTONSEC \<equiv> 1000"

definition BrSoftBusCondWait :: "br_wait \<Rightarrow> nat \<Rightarrow> br_state \<Rightarrow> int \<times> br_state" where
  "BrSoftBusCondWait w timeMillis st =
     (if timeMillis = 0 then (w_ret w None, w_others w st)
      else case w_now w of
        None \<Rightarrow> (SOFTBUS_ERR, st)
      | Some (sec, usec) \<Rightarrow>
          let time = sint (word_of_int (sec * USECTONSEC * USECTONSEC + usec + int timeMillis * USECTONSEC) :: u64);
              tv = (time sdiv USECTONSEC sdiv USECTONSEC, time smod (USECTONSEC * USECTONSEC))
          in (w_ret w (Some tv), w_others w st))"

definition CreateBrQueue ::
  "(nat \<Rightarrow> bool) \<Rightarrow> int \<Rightarrow> br_state \<Rightarrow> (SendBrQueueNode PidQueue \<times> br_state) option" where
  "CreateBrQueue alloc pid st = create_set QUEUE_LIMIT alloc pid st"

definition GetPriority :: "int \<Rightarrow> nat" where
  "GetPriority flag =
     (if flag = CONN_HIGH then HIGH_PRIORITY
      else if flag = CONN_MIDDLE then MIDDLE_PRIORITY
      else LOW_PRIORITY)"

text \<open>
  The queue is named by the address of its set and its priority. \<open>waits k\<close> is the wait after \<open>k\<close>
  earlier ones. The result is \<^const>\<open>None\<close> when the ring is gone by the time it is looked at.
\<close>

function WaitQueueLength ::
  "(nat \<Rightarrow> br_wait) \<Rightarrow> nat \<Rightarrow> nat \<Rightarrow> u32 \<Rightarrow> u32 \<Rightarrow> nat \<Rightarrow> br_state \<Rightarrow> (int \<times> br_state) option" where
  "WaitQueueLength waits a priority maxLen diffLen retry st =
     (case ring_at st a priority of
        None \<Rightarrow> None
      | Some q \<Rightarrow>
          (case QueueCountGet (Some q) (Some 0) of
             (r, cnt) \<Rightarrow>
               if r \<noteq> 0 then Some (SOFTBUS_OK, st)
               else if the cnt < maxLen - diffLen then Some (SOFTBUS_OK, st)
               else if Suc retry > WAIT_RETRY_NUM then
                 (if the cnt < maxLen then Some (SOFTBUS_OK, st)
                  else Some (SOFTBUS_CONNECTION_ERR_SENDQUEUE_FULL, st))
               else
                 (case BrSoftBusCondWait (waits retry) WAIT_QUEUE_DELAY st of
                    (w, st') \<Rightarrow>
                      if w \<noteq> SOFTBUS_OK then Some (SOFTBUS_ERR, st')
                      else WaitQueueLength waits a priority maxLen diffLen (Suc retry) st')))"
  by pat_completeness auto
termination
  by (relation "measure (\<lambda>(_, _, _, _, _, retry, _). 3 - retry)") auto

declare WaitQueueLength.simps [simp del]

fun inner_all_empty :: "SendBrQueueNode LockFreeQueue list \<Rightarrow> bool" where
  "inner_all_empty [] = True"
| "inner_all_empty (q # qs) =
     (case QueueCountGet (Some q) (Some 0) of
        (r, cnt) \<Rightarrow>
          if r \<noteq> 0 then inner_all_empty qs
          else if the cnt > 0 then False
          else inner_all_empty qs)"

definition IsBrQueueEmpty :: "br_state \<Rightarrow> bool option" where
  "IsBrQueueEmpty st =
     (case g_innerQueue st of
        None \<Rightarrow> None
      | Some q \<Rightarrow> Some (inner_all_empty (pq_queue q) \<and> g_queueList st = []))"

text \<open>The common exit of the enqueue: it wakes the sender when the list was empty.\<close>

definition br_end :: "bool \<Rightarrow> int \<Rightarrow> br_state \<Rightarrow> int \<times> br_state" where
  "br_end isListEmpty ret st = (ret, if isListEmpty then broadcast SendCond st else st)"

definition BrEnqueueNonBlock ::
  "bool \<Rightarrow> (nat \<Rightarrow> bool) \<Rightarrow> (nat \<Rightarrow> br_wait) \<Rightarrow> SendBrQueueNode option \<Rightarrow> br_state \<Rightarrow>
     (int \<times> br_state) option" where
  "BrEnqueueNonBlock lock_ok alloc waits msg st =
     (case msg of
        None \<Rightarrow> Some (SOFTBUS_ERR, st)
      | Some queueNode \<Rightarrow>
          let priority = GetPriority (br_flag queueNode) in
          if \<not> lock_ok then Some (SOFTBUS_LOCK_ERR, st)
          else if br_pid queueNode = 0 \<and> br_isInner queueNode then
            (case g_innerQueue st of
               None \<Rightarrow> None
             | Some inner \<Rightarrow>
                 (case WaitQueueLength waits (pq_addr inner) priority (QUEUE_LIMIT ! priority)
                         WAIT_QUEUE_BUFFER_PERIOD_LEN 0 st of
                    None \<Rightarrow> None
                  | Some (ret, st1) \<Rightarrow>
                      if ret = SOFTBUS_OK then
                        map_option (\<lambda>(r, st2). br_end True r st2)
                          (ring_enqueue st1 (pq_addr inner) priority queueNode)
                      else Some (br_end True ret st1)))
          else
            let isListEmpty = (g_queueList st = []) in
            (case find (\<lambda>item. pq_pid item = br_pid queueNode) (g_queueList st) of
               None \<Rightarrow>
                 (case CreateBrQueue alloc (br_pid queueNode) st of
                    None \<Rightarrow> Some (br_end isListEmpty SOFTBUS_ERR st)
                  | Some (newQueue, st1) \<Rightarrow>
                      let st2 = st1\<lparr>g_queueList := g_queueList st1 @ [newQueue]\<rparr> in
                      map_option
                        (\<lambda>(r, st3). br_end isListEmpty (if r \<noteq> 0 then SOFTBUS_ERR else SOFTBUS_OK) st3)
                        (ring_enqueue st2 (pq_addr newQueue) priority queueNode))
             | Some item \<Rightarrow>
                 (case WaitQueueLength waits (pq_addr item) priority (QUEUE_LIMIT ! priority)
                         WAIT_QUEUE_BUFFER_PERIOD_LEN 0 st of
                    None \<Rightarrow> None
                  | Some (ret, st1) \<Rightarrow>
                      if ret \<noteq> SOFTBUS_OK then Some (br_end isListEmpty ret st1)
                      else
                        map_option
                          (\<lambda>(r, st2). br_end isListEmpty (if r \<noteq> 0 then ret else SOFTBUS_OK) st2)
                          (ring_enqueue st1 (pq_addr item) priority queueNode))))"

text \<open>
  The loop over the rings of a set, with the limits that go with them. It returns the changed rings,
  the out parameter and the flag that the ring of the message was nearly full.
\<close>

fun get_msg_loop ::
  "u32 list \<Rightarrow> 'a LockFreeQueue list \<Rightarrow> 'a option \<Rightarrow> bool \<Rightarrow>
     (int \<times> 'a LockFreeQueue list \<times> 'a option \<times> bool) option" where
  "get_msg_loop (limit # limits) (q # qs) msg isFull =
     (case QueueCountGet (Some q) (Some 0) of
        (r, queueCount) \<Rightarrow>
          if r \<noteq> 0 then
            map_option (\<lambda>(ret, qs', v). (ret, q # qs', v)) (get_msg_loop limits qs msg isFull)
          else
            let full = (the queueCount \<ge> limit - WAIT_QUEUE_BUFFER_PERIOD_LEN) in
            (case QueueSingleConsumerDequeue (Some q) (Some msg) of
               None \<Rightarrow> None
             | Some (d, q', m) \<Rightarrow>
                 if d \<noteq> 0 then
                   map_option (\<lambda>(ret, qs', v). (ret, the q' # qs', v)) (get_msg_loop limits qs (the m) full)
                 else Some (SOFTBUS_OK, the q' # qs, the m, full)))"
| "get_msg_loop _ qs msg isFull = Some (SOFTBUS_ERR, qs, msg, isFull)"

definition GetMsg ::
  "'a PidQueue \<Rightarrow> 'a option \<Rightarrow> bool \<Rightarrow> (int \<times> 'a PidQueue \<times> 'a option \<times> bool) option" where
  "GetMsg queue msg isFull =
     map_option (\<lambda>(ret, qs, v, full). (ret, queue\<lparr>pq_queue := qs\<rparr>, v, full))
       (get_msg_loop QUEUE_LIMIT (pq_queue queue) msg isFull)"

text \<open>
  \<open>msg\<close> is the out parameter: \<^const>\<open>None\<close> for a null pointer, otherwise what it points to. A queue
  set that has no message left is freed.
\<close>

definition BrDequeueNonBlock ::
  "bool \<Rightarrow> br_wait \<Rightarrow> SendBrQueueNode option option \<Rightarrow> br_state \<Rightarrow>
     (int \<times> br_state \<times> SendBrQueueNode option) option" where
  "BrDequeueNonBlock lock_ok w msg st =
     (case msg of
        None \<Rightarrow> Some (SOFTBUS_ERR, st, None)
      | Some out \<Rightarrow>
          if \<not> lock_ok then Some (SOFTBUS_LOCK_ERR, st, out)
          else case g_innerQueue st of
            None \<Rightarrow> None
          | Some inner \<Rightarrow>
              (case GetMsg inner out False of
                 None \<Rightarrow> None
               | Some (ret, inner', out1, isFull) \<Rightarrow>
                   let st1 = st\<lparr>g_innerQueue := Some inner'\<rparr> in
                   if ret = SOFTBUS_OK then
                     Some (SOFTBUS_OK, if isFull then broadcast SendWaitCond st1 else st1, out1)
                   else
                     (case g_queueList st1 of
                        [] \<Rightarrow>
                          (case BrSoftBusCondWait w DEQUEUE_DELAY st1 of
                             (wr, st2) \<Rightarrow>
                               if wr \<noteq> SOFTBUS_OK then Some (SOFTBUS_ERR, st2, out1)
                               else Some (SOFTBUS_TIMOUT, st2, out1))
                      | item # rest \<Rightarrow>
                          (case GetMsg item out1 isFull of
                             None \<Rightarrow> None
                           | Some (ret2, item', out2, isFull2) \<Rightarrow>
                               if ret2 \<noteq> SOFTBUS_OK then
                                 Some (SOFTBUS_ERR, st1\<lparr>g_queueList := rest\<rparr>, out2)
                               else
                                 let st2 = st1\<lparr>g_queueList := rest @ [item']\<rparr> in
                                 Some (SOFTBUS_OK,
                                   if isFull2 then broadcast SendWaitCond st2 else st2, out2)))))"

text \<open>
  \<open>inits\<close> are the results of initialising the lock and the two condition variables, in this order.
\<close>

definition BrInnerQueueInit ::
  "int \<times> int \<times> int \<Rightarrow> (nat \<Rightarrow> bool) \<Rightarrow> br_state \<Rightarrow> int \<times> br_state" where
  "BrInnerQueueInit inits alloc st =
     (case inits of
        (mutexInit, waitInit, sendInit) \<Rightarrow>
          if mutexInit \<noteq> SOFTBUS_OK then (SOFTBUS_LOCK_ERR, st)
          else if waitInit \<noteq> SOFTBUS_OK then (SOFTBUS_ERR, st)
          else if sendInit \<noteq> SOFTBUS_OK then (SOFTBUS_ERR, st)
          else case CreateBrQueue alloc 0 st of
            None \<Rightarrow> (SOFTBUS_ERR, st\<lparr>g_innerQueue := None\<rparr>)
          | Some (q, st') \<Rightarrow> (SOFTBUS_OK, st'\<lparr>g_innerQueue := Some q\<rparr>))"

definition BrInnerQueueDeinit :: "br_state \<Rightarrow> br_state" where
  "BrInnerQueueDeinit st = st\<lparr>g_innerQueue := None\<rparr>"

section \<open>Taking a message\<close>

definition br_caps :: "nat list" where "br_caps = [31, 31, 31]"

lemma length_br_caps [simp]: "length br_caps = 3"
  by (simp add: br_caps_def)

lemma br_caps_nth [simp]: "i < 3 \<Longrightarrow> br_caps ! i = 31"
  by (auto simp: br_caps_def nat_less_3)

abbreviation (input) br_wf :: "br_state \<Rightarrow> bool" where "br_wf st \<equiv> send_wf br_caps st"

text \<open>The ring a message is taken from: the first one that holds any.\<close>

definition first_ring :: "'a list list \<Rightarrow> 'a list" where
  "first_ring qs = hd (filter (\<lambda>l. l \<noteq> []) qs)"

lemma get_msg_loop_None:
  assumes "\<forall>q \<in> set qs. queue_wf q" "length limits = length qs" "prio_pop (map queue_list qs) = None"
  shows "\<exists>f. get_msg_loop limits qs msg isFull = Some (SOFTBUS_ERR, qs, msg, f)"
  using assms(2,1,3)
proof (induction limits qs arbitrary: isFull rule: list_induct2)
  case (Cons limit limits q qs)
  have q: "queue_wf q" "queue_list q = []" and r: "prio_pop (map queue_list qs) = None"
    using Cons.prems by (auto simp: prio_pop_None_iff)
  obtain c where "QueueCountGet (Some q) (Some 0) = (0, Some c)" using QueueCountGet_unat [OF q(1)] .
  then show ?case
    using Cons.IH [OF _ r] Cons.prems(1) QueueSingleConsumerDequeue_Nil [OF q] by fastforce
qed simp

lemma get_msg_loop_Some:
  assumes "\<forall>q \<in> set qs. queue_wf q" "length limits = length qs" "\<forall>l \<in> set limits. l = 32"
    and "prio_pop (map queue_list qs) = Some (m, ls)"
  shows "\<exists>qs' f. get_msg_loop limits qs msg isFull = Some (SOFTBUS_OK, qs', Some m, f) \<and>
     (\<forall>q \<in> set qs'. queue_wf q) \<and> map queue_cap qs' = map queue_cap qs \<and> map queue_list qs' = ls \<and>
     (f \<longleftrightarrow> 30 \<le> length (first_ring (map queue_list qs)))"
  using assms(2,1,3,4)
proof (induction limits qs arbitrary: isFull ls rule: list_induct2)
  case (Cons limit limits q qs)
  have q: "queue_wf q" and l: "limit = 32" using Cons.prems by auto
  obtain c where c: "QueueCountGet (Some q) (Some 0) = (0, Some c)" "unat c = length (queue_list q)"
    using QueueCountGet_unat [OF q] .
  show ?case
  proof (cases "queue_list q")
    case Nil
    then obtain ls' where ls: "prio_pop (map queue_list qs) = Some (m, ls')" "ls = [] # ls'"
      using Cons.prems(3) by auto
    from Cons.IH [OF _ _ ls(1)] Cons.prems obtain qs' f where
      "get_msg_loop limits qs msg (30 \<le> c) = Some (SOFTBUS_OK, qs', Some m, f)"
      "\<forall>q \<in> set qs'. queue_wf q" "map queue_cap qs' = map queue_cap qs" "map queue_list qs' = ls'"
      "f \<longleftrightarrow> 30 \<le> length (first_ring (map queue_list qs))" by fastforce
    then show ?thesis
      using c(1) l q Nil ls(2) QueueSingleConsumerDequeue_Nil [OF q Nil] by (simp add: first_ring_def)
  next
    case (Cons x xs)
    then obtain q' where "QueueSingleConsumerDequeue (Some q) (Some msg) = Some (0, Some q', Some (Some x))"
      "queue_wf q'" "queue_list q' = xs" "queue_cap q' = queue_cap q"
      using QueueSingleConsumerDequeue_Cons [OF q] by metis
    then show ?thesis
      using Cons Cons.prems c l by (simp add: first_ring_def word_le_nat_alt)
  qed
qed simp

lemma GetMsg_None:
  assumes "set_wf br_caps q" "prio_pop (set_lists q) = None"
  shows "\<exists>f. GetMsg q msg isFull = Some (SOFTBUS_ERR, q, msg, f)"
proof -
  have "length QUEUE_LIMIT = length (pq_queue q)"
    using set_wf_length [OF assms(1)] by (simp add: QUEUE_LIMIT_def)
  from get_msg_loop_None [OF _ this, of msg isFull] show ?thesis
    using assms unfolding GetMsg_def set_wf_def set_lists_def by fastforce
qed

lemma GetMsg_Some:
  assumes "set_wf br_caps q" "prio_pop (set_lists q) = Some (m, ls)"
  shows "\<exists>q' f. GetMsg q msg isFull = Some (SOFTBUS_OK, q', Some m, f) \<and> set_wf br_caps q' \<and>
     set_lists q' = ls \<and> pq_addr q' = pq_addr q \<and> pq_pid q' = pq_pid q \<and>
     (f \<longleftrightarrow> 30 \<le> length (first_ring (set_lists q)))"
proof -
  have l: "length QUEUE_LIMIT = length (pq_queue q)" "\<forall>l \<in> set QUEUE_LIMIT. l = 32"
    using set_wf_length [OF assms(1)] by (simp_all add: QUEUE_LIMIT_def)
  from assms(1) have w: "\<forall>r \<in> set (pq_queue q). queue_wf r" "map queue_cap (pq_queue q) = br_caps"
    unfolding set_wf_def by blast+
  obtain qs f where g: "get_msg_loop QUEUE_LIMIT (pq_queue q) msg isFull = Some (SOFTBUS_OK, qs, Some m, f)"
    and "\<forall>r \<in> set qs. queue_wf r" "map queue_cap qs = br_caps" "map queue_list qs = ls"
    and f: "f \<longleftrightarrow> 30 \<le> length (first_ring (set_lists q))"
    using get_msg_loop_Some [OF w(1) l, of m ls msg isFull] assms(2) w(2) unfolding set_lists_def by metis
  then have "set_wf br_caps (q\<lparr>pq_queue := qs\<rparr>)" "set_lists (q\<lparr>pq_queue := qs\<rparr>) = ls"
    unfolding set_wf_def set_lists_def by simp_all
  then show ?thesis using f g
    by (intro exI [of _ "q\<lparr>pq_queue := qs\<rparr>"] exI [of _ f]) (simp add: GetMsg_def)
qed

text \<open>A wait during which no other thread changes the queues.\<close>

definition quiet_wait :: br_wait where
  "quiet_wait = \<lparr>w_now = Some (0, 0), w_ret = (\<lambda>_. SOFTBUS_OK), w_others = id\<rparr>"

lemma broadcast_lists [simp]:
  "inner_lists (broadcast c st) = inner_lists st" "pid_lists (broadcast c st) = pid_lists st"
  "send_wf caps (broadcast c st) = send_wf caps st" "g_innerQueue (broadcast c st) = g_innerQueue st"
  "g_queueList (broadcast c st) = g_queueList st" "br_signals (broadcast c st) = c # br_signals st"
  by (simp_all add: broadcast_def inner_lists_def pid_lists_def send_wf_def all_sets_def)

text \<open>
  The three outcomes of a dequeue on a well-formed state. A broadcast on the condition of the
  waiting producers accompanies a message exactly when its ring held at least thirty.
\<close>

lemma BrDequeueNonBlock_inner:
  assumes "br_wf st" "prio_pop (inner_lists st) = Some (m, ls)"
  shows "\<exists>st'. BrDequeueNonBlock True w (Some out) st = Some (SOFTBUS_OK, st', Some m) \<and> br_wf st' \<and>
     inner_lists st' = ls \<and> pid_lists st' = pid_lists st \<and>
     br_signals st' = (if 30 \<le> length (first_ring (inner_lists st)) then [SendWaitCond] else []) @ br_signals st"
proof -
  obtain q where q: "g_innerQueue st = Some q" "set_wf br_caps q" "inner_lists st = set_lists q"
    using send_wf_sets [OF assms(1)] by metis
  then obtain q' f where g: "GetMsg q out False = Some (SOFTBUS_OK, q', Some m, f)" "set_wf br_caps q'"
    "set_lists q' = ls" "pq_addr q' = pq_addr q" "f \<longleftrightarrow> 30 \<le> length (first_ring (set_lists q))"
    using GetMsg_Some [OF q(2), of m ls out False] assms(2) by auto
  from send_wf_inner_update [OF assms(1) q(1) g(2,4)] show ?thesis
    using q g by (simp add: BrDequeueNonBlock_def Let_def)
      (simp add: inner_lists_def pid_lists_def)
qed

lemma BrDequeueNonBlock_pid:
  assumes "br_wf st" "prio_pop (inner_lists st) = None"
    and "g_queueList st = x # rest" "prio_pop (set_lists x) = Some (m, ls)"
  shows "\<exists>st' x'. BrDequeueNonBlock True w (Some out) st = Some (SOFTBUS_OK, st', Some m) \<and> br_wf st' \<and>
     inner_lists st' = inner_lists st \<and> g_queueList st' = rest @ [x'] \<and> set_lists x' = ls \<and>
     pq_pid x' = pq_pid x \<and> pq_addr x' = pq_addr x \<and>
     br_signals st' = (if 30 \<le> length (first_ring (set_lists x)) then [SendWaitCond] else []) @ br_signals st"
proof -
  obtain q where q: "g_innerQueue st = Some q" "set_wf br_caps q" "inner_lists st = set_lists q"
    and x: "set_wf br_caps x"
    using send_wf_sets [OF assms(1)] assms(3) by (metis list.set_intros(1))
  obtain f where g: "GetMsg q out False = Some (SOFTBUS_ERR, q, out, f)"
    using GetMsg_None [OF q(2), of out False] assms(2) q(3) by auto
  have same: "st\<lparr>g_innerQueue := Some q\<rparr> = st" using q(1) by simp
  obtain x' f' where h: "GetMsg x out f = Some (SOFTBUS_OK, x', Some m, f')" "set_wf br_caps x'"
    "set_lists x' = ls" "pq_addr x' = pq_addr x" "pq_pid x' = pq_pid x"
    "f' \<longleftrightarrow> 30 \<le> length (first_ring (set_lists x))"
    using GetMsg_Some [OF x assms(4), of out f] by blast
  from send_wf_rotate [OF assms(1,3) h(2,4,5)] show ?thesis
    using q(1) g h assms(3) by (simp add: BrDequeueNonBlock_def Let_def same)
      (simp add: inner_lists_def)
qed

lemma BrDequeueNonBlock_destroy:
  assumes "br_wf st" "prio_pop (inner_lists st) = None"
    and "g_queueList st = x # rest" "prio_pop (set_lists x) = None"
  shows "BrDequeueNonBlock True w (Some out) st = Some (SOFTBUS_ERR, st\<lparr>g_queueList := rest\<rparr>, out) \<and>
     br_wf (st\<lparr>g_queueList := rest\<rparr>)"
proof -
  obtain q where q: "g_innerQueue st = Some q" "set_wf br_caps q" "inner_lists st = set_lists q"
    and x: "set_wf br_caps x"
    using send_wf_sets [OF assms(1)] assms(3) by (metis list.set_intros(1))
  obtain f where g: "GetMsg q out False = Some (SOFTBUS_ERR, q, out, f)"
    using GetMsg_None [OF q(2), of out False] assms(2) q(3) by auto
  have same: "st\<lparr>g_innerQueue := Some q\<rparr> = st" using q(1) by simp
  obtain f' where h: "GetMsg x out f = Some (SOFTBUS_ERR, x, out, f')"
    using GetMsg_None [OF x assms(4), of out f] by blast
  from send_wf_drop_first [OF assms(1,3)] show ?thesis
    using q(1) g h assms(3) by (simp add: BrDequeueNonBlock_def Let_def same)
qed

lemma BrDequeueNonBlock_idle:
  assumes "br_wf st" "prio_pop (inner_lists st) = None" "g_queueList st = []"
  shows "BrDequeueNonBlock True w (Some out) st =
     (case BrSoftBusCondWait w DEQUEUE_DELAY st of
        (wr, st2) \<Rightarrow> Some (if wr \<noteq> SOFTBUS_OK then SOFTBUS_ERR else SOFTBUS_TIMOUT, st2, out))"
proof -
  obtain q where q: "g_innerQueue st = Some q" "set_wf br_caps q" "inner_lists st = set_lists q"
    using send_wf_sets [OF assms(1)] by metis
  obtain f where g: "GetMsg q out False = Some (SOFTBUS_ERR, q, out, f)"
    using GetMsg_None [OF q(2), of out False] assms(2) q(3) by auto
  have same: "st\<lparr>g_innerQueue := Some q\<rparr> = st" using q(1) by simp
  show ?thesis using q(1) g assms(3)
    by (simp add: BrDequeueNonBlock_def Let_def same split: prod.split)
qed

definition br_deq :: "br_state \<Rightarrow> (int \<times> br_state \<times> SendBrQueueNode option) option" where
  "br_deq st = BrDequeueNonBlock True quiet_wait (Some None) st"

interpretation brq: send_queue br_deq inner_lists pid_lists "send_wf br_caps"
proof
  fix st :: br_state
  assume wf: "br_wf st"
  show "\<exists>r s' v. br_deq st = Some (r, s', v) \<and> br_wf s' \<and>
     (if r = SOFTBUS_OK then v else None, inner_lists s', pid_lists s') =
       serve_spec (inner_lists st) (pid_lists st)"
  proof (cases "prio_pop (inner_lists st)")
    case (Some r)
    then obtain m ls where r: "prio_pop (inner_lists st) = Some (m, ls)" by (cases r) auto
    from BrDequeueNonBlock_inner [OF wf r, of quiet_wait None] show ?thesis
      using r by (auto simp: br_deq_def serve_spec_def)
  next
    case None
    note inner = this
    show ?thesis
    proof (cases "g_queueList st")
      case Nil
      then show ?thesis
        using inner wf BrDequeueNonBlock_idle [OF wf inner Nil, of quiet_wait None]
        by (auto simp: br_deq_def serve_spec_def pid_lists_def BrSoftBusCondWait_def quiet_wait_def Let_def)
    next
      case (Cons x rest)
      show ?thesis
      proof (cases "prio_pop (set_lists x)")
        case None
        from BrDequeueNonBlock_destroy [OF wf inner Cons None, of quiet_wait None] show ?thesis
          using inner None Cons
          by (auto simp: br_deq_def serve_spec_def pid_lists_def inner_lists_def)
      next
        case (Some r)
        then obtain m ls where r: "prio_pop (set_lists x) = Some (m, ls)" by (cases r) auto
        from BrDequeueNonBlock_pid [OF wf inner Cons r, of quiet_wait None] show ?thesis
          using inner r Cons by (auto simp: br_deq_def serve_spec_def pid_lists_def)
      qed
    qed
  qed
qed

section \<open>Adding a message\<close>

lemma GetPriority_less [simp]: "GetPriority flag < 3"
  by (simp add: GetPriority_def)

lemma QUEUE_LIMIT_nth [simp]: "i < 3 \<Longrightarrow> QUEUE_LIMIT ! i = 32"
  by (auto simp: QUEUE_LIMIT_def nat_less_3)

lemma WaitQueueLength_room:
  assumes "ring_at st a i = Some q" "queue_wf q" "length (queue_list q) < 30"
  shows "WaitQueueLength waits a i 32 WAIT_QUEUE_BUFFER_PERIOD_LEN retry st = Some (SOFTBUS_OK, st)"
proof -
  obtain c where "QueueCountGet (Some q) (Some 0) = (0, Some c)" "unat c = length (queue_list q)"
    using QueueCountGet_unat [OF assms(2)] .
  then show ?thesis using assms by (simp add: WaitQueueLength.simps word_less_nat_alt)
qed

lemma ring_at_wf:
  assumes "br_wf st" "ring_at st a i = Some q"
  shows "queue_wf q \<and> queue_cap q = 31"
proof -
  obtain x where x: "x \<in> set (all_sets st)" "i < length (pq_queue x)" "q = pq_queue x ! i"
    using assms(2) that
    by (auto simp: ring_at_def find_Some_iff split: option.splits if_splits intro: nth_mem)
  then have w: "set_wf br_caps x" using assms(1) by (simp add: send_wf_def)
  with x set_wf_length [OF w] have i: "i < 3" by simp
  show ?thesis using set_wf_nth [OF w, of i] i x(3) by simp
qed

lemma WaitQueueLength_set:
  assumes "br_wf st" "q \<in> set (all_sets st)" "i < 3" "length (set_lists q ! i) < 30"
  shows "WaitQueueLength waits (pq_addr q) i 32 WAIT_QUEUE_BUFFER_PERIOD_LEN retry st = Some (SOFTBUS_OK, st)"
proof -
  have w: "set_wf br_caps q" using assms(1,2) by (simp add: send_wf_def)
  have r: "ring_at st (pq_addr q) i = Some (pq_queue q ! i)"
    using ring_at_set [OF assms(1,2)] assms(3) by simp
  show ?thesis
    using WaitQueueLength_room [OF r] ring_at_wf [OF assms(1) r] assms(3,4) set_wf_length [OF w]
    by (simp add: set_lists_nth)
qed

lemma push_result_room:
  "i < 3 \<Longrightarrow> length (qs ! i) < 31 \<Longrightarrow> push_result br_caps i x qs = (0, prio_push i x qs)"
  by (simp add: push_result_def)

lemma BrEnqueueNonBlock_inner:
  assumes "br_wf st" "br_pid m = 0" "br_isInner m"
    and "length (inner_lists st ! GetPriority (br_flag m)) < 30"
  shows "\<exists>st'. BrEnqueueNonBlock True alloc waits (Some m) st = Some (SOFTBUS_OK, st') \<and> br_wf st' \<and>
     inner_lists st' = prio_push (GetPriority (br_flag m)) m (inner_lists st) \<and>
     pid_lists st' = pid_lists st"
proof -
  let ?i = "GetPriority (br_flag m)"
  obtain q where q: "g_innerQueue st = Some q" "inner_lists st = set_lists q"
    using send_wf_sets [OF assms(1)] by metis
  have w: "WaitQueueLength waits (pq_addr q) ?i 32 2 0 st = Some (SOFTBUS_OK, st)"
    using WaitQueueLength_set [OF assms(1), of q ?i] q assms(4) by (simp add: all_sets_def)
  obtain r st1 where e: "ring_enqueue st (pq_addr q) ?i m = Some (r, st1)" "br_wf st1"
    "(r, inner_lists st1) = push_result br_caps ?i m (inner_lists st)" "pid_lists st1 = pid_lists st"
    using ring_enqueue_inner [OF assms(1), of ?i m] q(1) by auto
  have "r = 0" "inner_lists st1 = prio_push ?i m (inner_lists st)"
    using e(3) push_result_room [of ?i "inner_lists st" m] assms(4) by simp_all
  then show ?thesis
    using assms(2,3) q(1) w e by (simp add: BrEnqueueNonBlock_def Let_def br_end_def)
qed

lemma BrEnqueueNonBlock_present:
  assumes "br_wf st" "\<not> (br_pid m = 0 \<and> br_isInner m)"
    and "find (\<lambda>x. pq_pid x = br_pid m) (g_queueList st) = Some x"
    and "length (set_lists x ! GetPriority (br_flag m)) < 30"
  shows "\<exists>st'. BrEnqueueNonBlock True alloc waits (Some m) st = Some (SOFTBUS_OK, st') \<and> br_wf st' \<and>
     inner_lists st' = inner_lists st \<and>
     pid_lists st' = add_msg (br_pid m) (GetPriority (br_flag m)) m (pid_lists st)"
proof -
  let ?i = "GetPriority (br_flag m)"
  have d: "distinct (map pq_pid (g_queueList st))" using assms(1) by (simp add: send_wf_def)
  obtain pre post where s: "g_queueList st = pre @ x # post" "pq_pid x = br_pid m"
    "\<And>y. y \<in> set pre \<union> set post \<Longrightarrow> pq_pid y \<noteq> br_pid m"
    using find_pid [OF d assms(3)] by metis
  have w: "WaitQueueLength waits (pq_addr x) ?i 32 2 0 st = Some (SOFTBUS_OK, st)"
    using WaitQueueLength_set [OF assms(1), of x ?i] s(1) assms(4) by (simp add: all_sets_def)
  have i3: "?i < length br_caps" by simp
  obtain r st1 x' where e: "ring_enqueue st (pq_addr x) ?i m = Some (r, st1)" "br_wf st1"
    "g_queueList st1 = pre @ x' # post" "pq_pid x' = pq_pid x"
    "(r, set_lists x') = push_result br_caps ?i m (set_lists x)" "inner_lists st1 = inner_lists st"
    using ring_enqueue_member [OF assms(1) i3 s(1)] by metis
  have r: "r = 0" "set_lists x' = prio_push ?i m (set_lists x)"
    using e(5) push_result_room [of ?i "set_lists x" m] assms(4) by simp_all
  have "pid_lists st1 = add_msg (br_pid m) ?i m (pid_lists st)"
    unfolding pid_lists_def e(3) using add_msg_present [OF s] e(4) r(2) s(2) by simp
  then show ?thesis
    using assms(2,3) w e r(1) by (auto simp: BrEnqueueNonBlock_def Let_def br_end_def)
qed

lemma QUEUE_LIMIT_ok: "\<forall>l \<in> set QUEUE_LIMIT. IS_POWER_OF_2 l \<and> l \<noteq> 0 \<and> l \<le> QUEUE_SIZE_MAX"
  by (simp add: QUEUE_LIMIT_def IS_POWER_OF_2_def)

lemma CreateBrQueue_ok:
  assumes "\<forall>n. alloc n"
  obtains q where "CreateBrQueue alloc pid st = Some (q, st\<lparr>sq_fresh := Suc (sq_fresh st)\<rparr>)"
    "set_wf br_caps q" "set_lists q = [[], [], []]" "pq_pid q = pid" "pq_addr q = sq_fresh st"
proof -
  obtain rs :: "SendBrQueueNode LockFreeQueue list" where rs: "create_rings alloc QUEUE_LIMIT 1 = Some rs"
    using create_rings_ok [OF QUEUE_LIMIT_ok assms] by blast
  have w: "\<forall>r \<in> set rs. queue_wf r \<and> queue_list r = []" "map queue_cap rs = br_caps"
    using create_rings_wf [OF QUEUE_LIMIT_ok rs] by (simp_all add: QUEUE_LIMIT_def br_caps_def)
  have "map queue_list rs = map (\<lambda>_. []) rs" using w(1) by simp
  moreover have "length rs = 3" using w(2) by (metis length_br_caps length_map)
  ultimately have "map queue_list rs = [[], [], []]" by (simp add: map_replicate_const numeral_3_eq_3)
  then show ?thesis
    using that [of "\<lparr>pq_addr = sq_fresh st, pq_pid = pid, pq_queue = rs\<rparr>"] assms rs w
    by (simp add: CreateBrQueue_def create_set_def set_wf_def set_lists_def)
qed

lemma BrEnqueueNonBlock_absent:
  assumes "br_wf st" "\<not> (br_pid m = 0 \<and> br_isInner m)" "\<forall>n. alloc n"
    and f: "find (\<lambda>x. pq_pid x = br_pid m) (g_queueList st) = None"
  shows "\<exists>st'. BrEnqueueNonBlock True alloc waits (Some m) st = Some (SOFTBUS_OK, st') \<and> br_wf st' \<and>
     inner_lists st' = inner_lists st \<and>
     pid_lists st' = add_msg (br_pid m) (GetPriority (br_flag m)) m (pid_lists st)"
proof -
  let ?i = "GetPriority (br_flag m)"
  obtain q where q: "CreateBrQueue alloc (br_pid m) st = Some (q, st\<lparr>sq_fresh := Suc (sq_fresh st)\<rparr>)"
    "set_wf br_caps q" "set_lists q = [[], [], []]" "pq_pid q = br_pid m" "pq_addr q = sq_fresh st"
    using CreateBrQueue_ok [OF assms(3)] .
  let ?st = "st\<lparr>sq_fresh := Suc (sq_fresh st), g_queueList := g_queueList st @ [q]\<rparr>"
  have w: "br_wf ?st" using send_wf_append [OF assms(1) q(2,5)] f q(4) by simp
  have l: "g_queueList ?st = g_queueList st @ q # []" by simp
  have i3: "?i < length br_caps" by simp
  obtain r st1 q' where e: "ring_enqueue ?st (pq_addr q) ?i m = Some (r, st1)" "br_wf st1"
    "g_queueList st1 = g_queueList st @ [q']" "pq_pid q' = pq_pid q"
    "(r, set_lists q') = push_result br_caps ?i m (set_lists q)" "inner_lists st1 = inner_lists ?st"
    using ring_enqueue_member [OF w i3 l] by metis
  have "length (set_lists q ! ?i) < 31" using q(3) GetPriority_less [of "br_flag m"]
    by (auto simp: nat_less_3)
  then have r: "r = 0" "set_lists q' = prio_push ?i m [[], [], []]"
    using e(5) push_result_room [of ?i "set_lists q" m] q(3) by simp_all
  have "br_pid m \<notin> fst ` set (pid_lists st)" using f by (auto simp: pid_lists_def find_None_iff)
  then have "pid_lists st1 = add_msg (br_pid m) ?i m (pid_lists st)"
    using e(3,4) r(2) q(4) by (simp add: pid_lists_def add_msg_def)
  moreover have "inner_lists st1 = inner_lists st" using e(6) by (simp add: inner_lists_def)
  ultimately show ?thesis
    using assms(2) f q(1) e(1,2) r(1) by (auto simp: BrEnqueueNonBlock_def Let_def br_end_def)
qed

section \<open>Waiting for room\<close>

lemma ring_at_cases:
  assumes "br_wf st" "ring_at st a i = Some q"
  obtains c where "QueueCountGet (Some q) (Some 0) = (0, Some c)" "unat c = length (queue_list q)" "c < 32"
proof -
  have w: "queue_wf q" "queue_cap q = 31" using ring_at_wf [OF assms] by auto
  obtain c where c: "QueueCountGet (Some q) (Some 0) = (0, Some c)" "unat c = length (queue_list q)"
    using QueueCountGet_unat [OF w(1)] .
  then have "c < 32" using lfq.within_cap [OF w(1)] w(2) by (simp add: word_less_nat_alt)
  with c show ?thesis by (rule that)
qed

text \<open>
  What the other threads may do during a wait for the ring of the set at an address: they keep the
  invariant and do not free that set.
\<close>

definition keeps_addr :: "nat \<Rightarrow> br_wait \<Rightarrow> bool" where
  "keeps_addr a w \<longleftrightarrow>
     (\<forall>s. br_wf s \<longrightarrow> br_wf (w_others w s) \<and> (a \<in> set_addrs s \<longrightarrow> a \<in> set_addrs (w_others w s)))"

text \<open>
  Then the wait ends, with success or with the failure of a condition wait, never with
  \<open>SENDQUEUE_FULL\<close>.
\<close>

lemma WaitQueueLength_defined:
  assumes "\<And>k. keeps_addr a (waits k)" "i < 3" "br_wf st" "a \<in> set_addrs st"
  shows "\<exists>r st'. WaitQueueLength waits a i 32 diffLen retry st = Some (r, st') \<and> br_wf st' \<and>
     a \<in> set_addrs st' \<and> r \<in> {SOFTBUS_OK, SOFTBUS_ERR}"
  using assms(3,4)
proof (induction "3 - retry" arbitrary: retry st rule: less_induct)
  case less
  obtain q where q: "ring_at st a i = Some q"
    using ring_at_set [OF less.prems(1)] less.prems(2) assms(2) by (auto simp: set_addrs_def)
  obtain c where c: "QueueCountGet (Some q) (Some 0) = (0, Some c)" "c < 32"
    using ring_at_cases [OF less.prems(1) q] .
  obtain w s where ws: "BrSoftBusCondWait (waits retry) WAIT_QUEUE_DELAY st = (w, s)" by fastforce
  then have s: "br_wf s" "a \<in> set_addrs s"
    using assms(1) [of retry] less.prems
    by (auto simp: keeps_addr_def BrSoftBusCondWait_def Let_def split: option.splits prod.splits)
  show ?case
  proof (cases "c < 32 - diffLen \<or> WAIT_RETRY_NUM < Suc retry \<or> w \<noteq> SOFTBUS_OK")
    case True
    then show ?thesis using less.prems q c ws s by (subst WaitQueueLength.simps) auto
  next
    case False
    then have "WaitQueueLength waits a i 32 diffLen retry st =
        WaitQueueLength waits a i 32 diffLen (Suc retry) s"
      using q c ws by (subst WaitQueueLength.simps) simp
    moreover have "3 - Suc retry < 3 - retry" using False by auto
    ultimately show ?thesis using less.hyps [of "Suc retry" s] s by simp
  qed
qed

definition undisturbed :: "br_wait \<Rightarrow> bool" where
  "undisturbed w \<longleftrightarrow> w_now w \<noteq> None \<and> (\<forall>t. w_ret w t = SOFTBUS_OK) \<and> w_others w = id"

lemma WaitQueueLength_undisturbed:
  assumes "\<And>k. undisturbed (waits k)" "br_wf st" "ring_at st a i = Some q"
  shows "WaitQueueLength waits a i 32 diffLen retry st = Some (SOFTBUS_OK, st)"
proof (induction "3 - retry" arbitrary: retry rule: less_induct)
  case less
  obtain c where c: "QueueCountGet (Some q) (Some 0) = (0, Some c)" "c < 32"
    using ring_at_cases [OF assms(2,3)] .
  have w: "BrSoftBusCondWait (waits retry) WAIT_QUEUE_DELAY st = (SOFTBUS_OK, st)"
    using assms(1) [of retry] by (auto simp: undisturbed_def BrSoftBusCondWait_def Let_def)
  show ?case
  proof (cases "WAIT_RETRY_NUM < Suc retry")
    case True
    then show ?thesis using assms(3) c by (subst WaitQueueLength.simps) simp
  next
    case False
    then show ?thesis using assms(3) c w less.hyps [of "Suc retry"]
      by (subst WaitQueueLength.simps) simp
  qed
qed

text \<open>
  With undisturbed waits, an enqueue for a process that has a set always answers \<open>SOFTBUS_OK\<close>; the
  message is there afterwards if its ring had room.
\<close>

lemma BrEnqueueNonBlock_undisturbed:
  assumes "\<And>k. undisturbed (waits k)" "br_wf st" "\<not> (br_pid m = 0 \<and> br_isInner m)"
    and "g_queueList st = pre @ x # post" "pq_pid x = br_pid m"
  shows "\<exists>st' x'. BrEnqueueNonBlock True alloc waits (Some m) st = Some (SOFTBUS_OK, st') \<and> br_wf st' \<and>
     inner_lists st' = inner_lists st \<and> g_queueList st' = pre @ x' # post \<and> pq_pid x' = pq_pid x \<and>
     pq_addr x' = pq_addr x \<and>
     set_lists x' = snd (push_result br_caps (GetPriority (br_flag m)) m (set_lists x))"
proof -
  let ?i = "GetPriority (br_flag m)"
  have d: "distinct (map pq_pid (g_queueList st))" using assms(2) by (simp add: send_wf_def)
  then have f: "find (\<lambda>y. pq_pid y = br_pid m) (g_queueList st) = Some x"
    unfolding assms(4) using find_addr [of pq_pid pre x post] assms(5) by simp
  have r: "ring_at st (pq_addr x) ?i = Some (pq_queue x ! ?i)"
    using ring_at_set [OF assms(2), of x ?i] assms(4) by (simp add: all_sets_def)
  have w: "WaitQueueLength waits (pq_addr x) ?i 32 2 0 st = Some (SOFTBUS_OK, st)"
    using WaitQueueLength_undisturbed [OF assms(1,2) r] .
  have i3: "?i < length br_caps" by simp
  obtain r st1 x' where e: "ring_enqueue st (pq_addr x) ?i m = Some (r, st1)" "br_wf st1"
    "g_queueList st1 = pre @ x' # post" "pq_addr x' = pq_addr x" "pq_pid x' = pq_pid x"
    "(r, set_lists x') = push_result br_caps ?i m (set_lists x)" "inner_lists st1 = inner_lists st"
    using ring_enqueue_member [OF assms(2) i3 assms(4)] by metis
  then have "set_lists x' = snd (push_result br_caps ?i m (set_lists x))" by (metis snd_conv)
  then show ?thesis
    using assms(3) f w e by (auto simp: BrEnqueueNonBlock_def Let_def br_end_def)
qed

text \<open>The state after initialisation.\<close>

definition br_start :: br_state where
  "br_start = snd (BrInnerQueueInit (SOFTBUS_OK, SOFTBUS_OK, SOFTBUS_OK) (\<lambda>_. True)
     \<lparr>g_innerQueue = None, g_queueList = [], sq_fresh = 0, br_signals = []\<rparr>)"

lemma br_start_wf: "br_wf br_start" "inner_lists br_start = [[], [], []]" "g_queueList br_start = []"
proof -
  define st0 :: br_state where
    "st0 = \<lparr>g_innerQueue = None, g_queueList = [], sq_fresh = 0, br_signals = []\<rparr>"
  obtain q where "CreateBrQueue (\<lambda>_. True) 0 st0 = Some (q, st0\<lparr>sq_fresh := Suc (sq_fresh st0)\<rparr>)"
    "set_wf br_caps q" "set_lists q = [[], [], []]" "pq_addr q = sq_fresh st0"
    using CreateBrQueue_ok [of "\<lambda>_. True" 0 st0] by auto
  then show "br_wf br_start" "inner_lists br_start = [[], [], []]" "g_queueList br_start = []"
    by (simp_all add: br_start_def BrInnerQueueInit_def st0_def [symmetric] inner_lists_def)
      (simp_all add: st0_def send_wf_def all_sets_def)
qed

text \<open>A process fills its high-priority ring: \<open>br_filled n\<close> has \<open>n\<close> messages queued.\<close>

definition br_msg :: "nat \<Rightarrow> SendBrQueueNode" where
  "br_msg n = \<lparr>br_connectionId = 1, br_pid = 7, br_flag = CONN_HIGH, br_isInner = False, br_module = 3,
     br_seq = of_nat n, br_len = 0, br_data = []\<rparr>"

fun br_filled :: "nat \<Rightarrow> br_state" where
  "br_filled 0 = br_start"
| "br_filled (Suc n) =
     snd (the (BrEnqueueNonBlock True (\<lambda>_. True) (\<lambda>_. quiet_wait) (Some (br_msg n)) (br_filled n)))"

lemma br_msg_simps [simp]:
  "br_pid (br_msg n) = 7" "br_isInner (br_msg n) = False" "GetPriority (br_flag (br_msg n)) = 0"
  by (simp_all add: br_msg_def GetPriority_def)

lemma quiet_undisturbed [simp]: "undisturbed quiet_wait"
  by (simp add: undisturbed_def quiet_wait_def)

lemma br_filled_wf:
  assumes "n < 31"
  shows "br_wf (br_filled (Suc n)) \<and> inner_lists (br_filled (Suc n)) = [[], [], []] \<and>
     (\<exists>x. g_queueList (br_filled (Suc n)) = [x] \<and> pq_pid x = 7 \<and>
        set_lists x = [map br_msg [0..<Suc n], [], []])"
  using assms
proof (induction n)
  case 0
  from BrEnqueueNonBlock_absent [OF br_start_wf(1), of "br_msg 0" "\<lambda>_. True" "\<lambda>_. quiet_wait"]
  show ?case using br_start_wf
    by (auto simp: pid_lists_def add_msg_def prio_push_def)
next
  case (Suc n)
  then obtain x where x: "br_wf (br_filled (Suc n))" "inner_lists (br_filled (Suc n)) = [[], [], []]"
    "g_queueList (br_filled (Suc n)) = [] @ x # []" "pq_pid x = 7"
    "set_lists x = [map br_msg [0..<Suc n], [], []]" by auto
  have r: "snd (push_result br_caps 0 (br_msg (Suc n)) (set_lists x)) =
      [map br_msg [0..<Suc (Suc n)], [], []]"
    using Suc.prems x(5) by (simp add: push_result_def prio_push_def)
  obtain st' x' where "BrEnqueueNonBlock True (\<lambda>_. True) (\<lambda>_. quiet_wait) (Some (br_msg (Suc n)))
      (br_filled (Suc n)) = Some (SOFTBUS_OK, st')" "br_wf st'"
    "inner_lists st' = [[], [], []]" "g_queueList st' = [x']" "pq_pid x' = 7"
    "set_lists x' = [map br_msg [0..<Suc (Suc n)], [], []]"
    using BrEnqueueNonBlock_undisturbed [of "\<lambda>_. quiet_wait", OF _ x(1) _ x(3), of "br_msg (Suc n)" "\<lambda>_. True"]
      x(2,4) r by auto
  then show ?case by (simp only: br_filled.simps(2) [of "Suc n"]) auto
qed

lemma CreateBrQueue_Some:
  assumes "CreateBrQueue alloc pid st = Some (q, st1)"
  shows "st1 = st\<lparr>sq_fresh := Suc (sq_fresh st)\<rparr> \<and> set_wf br_caps q \<and> pq_pid q = pid \<and>
     pq_addr q = sq_fresh st"
proof -
  obtain rs where "create_rings alloc QUEUE_LIMIT 1 = Some rs"
    and q: "q = \<lparr>pq_addr = sq_fresh st, pq_pid = pid, pq_queue = rs\<rparr>"
    "st1 = st\<lparr>sq_fresh := Suc (sq_fresh st)\<rparr>"
    using assms by (auto simp: CreateBrQueue_def create_set_def split: if_splits option.splits)
  from create_rings_wf [OF QUEUE_LIMIT_ok this(1)]
  have "set_wf br_caps q" by (simp add: q set_wf_def QUEUE_LIMIT_def br_caps_def)
  with q show ?thesis by simp
qed

lemma br_end_eq: "\<exists>st'. br_end b r st = (r, st') \<and> send_wf caps st' = send_wf caps st"
  by (simp add: br_end_def)

text \<open>Waiting for a ring and then using it, as both branches of the enqueue do.\<close>

lemma wait_and_push:
  assumes "\<And>k. keeps_addr a (waits k)" "i < 3" "br_wf st" "a \<in> set_addrs st"
  obtains ret st1 r2 st2 where
    "WaitQueueLength waits a i 32 WAIT_QUEUE_BUFFER_PERIOD_LEN 0 st = Some (ret, st1)" "br_wf st1"
    "ret \<in> {SOFTBUS_OK, SOFTBUS_ERR}" "ring_enqueue st1 a i m = Some (r2, st2)" "br_wf st2"
    "r2 \<in> {0, QUEUE_FULL}"
proof -
  obtain ret st1 where "WaitQueueLength waits a i 32 WAIT_QUEUE_BUFFER_PERIOD_LEN 0 st = Some (ret, st1)"
    "br_wf st1" "a \<in> set_addrs st1" "ret \<in> {SOFTBUS_OK, SOFTBUS_ERR}"
    using WaitQueueLength_defined [of a waits i st, OF assms] by blast
  moreover from this assms(2) obtain r2 st2 where "ring_enqueue st1 a i m = Some (r2, st2)" "br_wf st2"
    "r2 \<in> {0, QUEUE_FULL}" using ring_enqueue_defined [of br_caps st1 i a m] by auto
  ultimately show ?thesis using that by blast
qed

lemma BrEnqueueNonBlock_inner_defined:
  assumes "\<And>k. keeps_addr (pq_addr q) (waits k)" "br_wf st" "br_pid m = 0 \<and> br_isInner m"
    and "g_innerQueue st = Some q"
  shows "\<exists>r st'. BrEnqueueNonBlock True alloc waits (Some m) st = Some (r, st') \<and> br_wf st' \<and>
     r \<in> {SOFTBUS_OK, SOFTBUS_ERR, QUEUE_FULL}"
proof -
  let ?i = "GetPriority (br_flag m)"
  have a: "pq_addr q \<in> set_addrs st" using assms(4) by (simp add: set_addrs_def all_sets_def)
  obtain ret st1 r2 st2 where w: "WaitQueueLength waits (pq_addr q) ?i 32 2 0 st = Some (ret, st1)"
    "br_wf st1" "ret \<in> {SOFTBUS_OK, SOFTBUS_ERR}" "ring_enqueue st1 (pq_addr q) ?i m = Some (r2, st2)"
    "br_wf st2" "r2 \<in> {0, QUEUE_FULL}"
    using wait_and_push [OF assms(1) GetPriority_less assms(2) a] .
  then show ?thesis
    using assms(3,4) br_end_eq [of True r2 st2 br_caps] br_end_eq [of True ret st1 br_caps]
    by (auto simp: BrEnqueueNonBlock_def Let_def)
qed

lemma BrEnqueueNonBlock_set_defined:
  assumes "\<And>k. keeps_addr (pq_addr x) (waits k)" "br_wf st" "\<not> (br_pid m = 0 \<and> br_isInner m)"
    and "find (\<lambda>x. pq_pid x = br_pid m) (g_queueList st) = Some x"
  shows "\<exists>r st'. BrEnqueueNonBlock True alloc waits (Some m) st = Some (r, st') \<and> br_wf st' \<and>
     r \<in> {SOFTBUS_OK, SOFTBUS_ERR}"
proof -
  let ?i = "GetPriority (br_flag m)" and ?e = "g_queueList st = []"
  have "x \<in> set (g_queueList st)" using assms(4) by (auto simp: find_Some_iff)
  then have a: "pq_addr x \<in> set_addrs st" by (auto simp: set_addrs_def all_sets_def split: option.splits)
  obtain ret st1 r2 st2 where w: "WaitQueueLength waits (pq_addr x) ?i 32 2 0 st = Some (ret, st1)"
    "br_wf st1" "ret \<in> {SOFTBUS_OK, SOFTBUS_ERR}" "ring_enqueue st1 (pq_addr x) ?i m = Some (r2, st2)"
    "br_wf st2" "r2 \<in> {0, QUEUE_FULL}"
    using wait_and_push [OF assms(1) GetPriority_less assms(2) a] .
  then show ?thesis
    using assms(3,4) br_end_eq [of ?e SOFTBUS_OK st2 br_caps] br_end_eq [of ?e ret st1 br_caps]
    by (auto simp: BrEnqueueNonBlock_def Let_def)
qed

lemma BrEnqueueNonBlock_new_defined:
  assumes "br_wf st" "\<not> (br_pid m = 0 \<and> br_isInner m)"
    and "find (\<lambda>x. pq_pid x = br_pid m) (g_queueList st) = None"
  shows "\<exists>r st'. BrEnqueueNonBlock True alloc waits (Some m) st = Some (r, st') \<and> br_wf st' \<and>
     r \<in> {SOFTBUS_OK, SOFTBUS_ERR}"
proof (cases "CreateBrQueue alloc (br_pid m) st")
  case None
  then show ?thesis
    using assms br_end_eq [of "g_queueList st = []" SOFTBUS_ERR st br_caps]
    by (auto simp: BrEnqueueNonBlock_def Let_def)
next
  case (Some c)
  then obtain q st1 where c: "CreateBrQueue alloc (br_pid m) st = Some (q, st1)" by (cases c) auto
  let ?st = "st1\<lparr>g_queueList := g_queueList st1 @ [q]\<rparr>" and ?i = "GetPriority (br_flag m)"
  have w: "br_wf ?st" using CreateBrQueue_Some [OF c] send_wf_append [OF assms(1)] assms(3) by auto
  have a: "pq_addr q \<in> set_addrs ?st" by (simp add: set_addrs_def all_sets_def split: option.split)
  obtain r2 st2 where "ring_enqueue ?st (pq_addr q) ?i m = Some (r2, st2)" "br_wf st2"
    using ring_enqueue_defined [OF w _ a, of ?i m] by auto
  then show ?thesis
    using assms(2,3) c br_end_eq [of "g_queueList st = []" "if r2 \<noteq> 0 then SOFTBUS_ERR else SOFTBUS_OK" st2 br_caps]
    by (auto simp: BrEnqueueNonBlock_def Let_def)
qed

text \<open>The service never moves the stack's own set.\<close>

lemma br_deq_inner_addr:
  "\<forall>st r st' v. br_deq st = Some (r, st', v) \<longrightarrow>
     map_option pq_addr (g_innerQueue st') = map_option pq_addr (g_innerQueue st)"
  by (auto simp: br_deq_def BrDequeueNonBlock_def GetMsg_def BrSoftBusCondWait_def quiet_wait_def Let_def
      split: option.splits if_splits list.splits prod.splits)

section \<open>Properties\<close>

text \<open>The ring the next dequeue takes its message from.\<close>

definition served_ring :: "'a list list \<Rightarrow> (int \<times> 'a list list) list \<Rightarrow> 'a list" where
  "served_ring inner pids =
     (if concat inner \<noteq> [] then first_ring inner
      else case pids of [] \<Rightarrow> [] | (p, q) # _ \<Rightarrow> if concat q = [] then [] else first_ring q)"

text \<open>
  C19: With something queued, \<open>BrDequeueNonBlock\<close> returns, keeps the invariant (well-formed rings, one set
  for each process, no address used twice) and does one step of the abstract service: the stack's
  own messages first, by priority and then by age, otherwise the next message of the first process
  in the list, which goes to the end; an empty set is dropped. The producers that wait for room are
  woken exactly when the message comes from a ring of at least thirty messages, which is when a
  producer of that ring may be waiting.
\<close>

theorem BrDequeue_refines:
  assumes "br_wf st" "concat (inner_lists st) \<noteq> [] \<or> g_queueList st \<noteq> []"
  shows "\<exists>r st' v. BrDequeueNonBlock True w (Some out) st = Some (r, st', v) \<and> br_wf st' \<and>
     r \<in> {SOFTBUS_OK, SOFTBUS_ERR} \<and>
     (if r = SOFTBUS_OK then v else None, inner_lists st', pid_lists st') =
       serve_spec (inner_lists st) (pid_lists st) \<and>
     br_signals st' =
       (if 30 \<le> length (served_ring (inner_lists st) (pid_lists st)) then [SendWaitCond] else []) @ br_signals st"
proof (cases "prio_pop (inner_lists st)")
  case (Some r)
  then obtain m ls where r: "prio_pop (inner_lists st) = Some (m, ls)" by (cases r) auto
  then have "concat (inner_lists st) \<noteq> []" using prio_pop_None_iff [of "inner_lists st"] by simp
  then have "served_ring (inner_lists st) (pid_lists st) = first_ring (inner_lists st)"
    unfolding served_ring_def by (simp only: if_True simp_thms)
  then show ?thesis using BrDequeueNonBlock_inner [OF assms(1) r, of w out] r
    by (auto simp: serve_spec_def)
next
  case None
  note inner = this
  then have ce: "concat (inner_lists st) = []" by (simp only: prio_pop_None_iff)
  with assms(2) obtain x rest where l: "g_queueList st = x # rest" by (cases "g_queueList st") auto
  show ?thesis
  proof (cases "prio_pop (set_lists x)")
    case None
    then have "concat (set_lists x) = []" by (simp only: prio_pop_None_iff)
    then have "served_ring (inner_lists st) (pid_lists st) = []"
      using ce l by (simp add: served_ring_def pid_lists_def del: concat_eq_Nil_conv)
    then show ?thesis
      using BrDequeueNonBlock_destroy [OF assms(1) inner l None, of w out] inner None l
      by (simp add: serve_spec_def pid_lists_def inner_lists_def)
  next
    case (Some r)
    then obtain m ls where r: "prio_pop (set_lists x) = Some (m, ls)" by (cases r) auto
    then have "concat (set_lists x) \<noteq> []" using prio_pop_None_iff [of "set_lists x"] by simp
    then have "served_ring (inner_lists st) (pid_lists st) = first_ring (set_lists x)"
      using ce l by (simp add: served_ring_def pid_lists_def del: concat_eq_Nil_conv)
    then show ?thesis
      using BrDequeueNonBlock_pid [OF assms(1) inner l r, of w out] inner r l
      by (auto simp: serve_spec_def pid_lists_def)
  qed
qed

theorem BrDequeue_refines_witness:
  "br_wf (br_filled 30) \<and> concat (inner_lists (br_filled 30)) = [] \<and>
   (\<exists>st'. BrDequeueNonBlock True quiet_wait (Some None) (br_filled 30) = Some (SOFTBUS_OK, st', Some (br_msg 0)) \<and>
     pid_lists st' = [(7, [map br_msg [1..<30], [], []])] \<and>
     br_signals st' = SendWaitCond # br_signals (br_filled 30))"
proof -
  have f: "br_wf (br_filled 30)" "inner_lists (br_filled 30) = [[], [], []]"
    "pid_lists (br_filled 30) = [(7, [map br_msg [0..<30], [], []])]" "g_queueList (br_filled 30) \<noteq> []"
    using br_filled_wf [of 29] by (auto simp: pid_lists_def)
  have u: "map br_msg [0..<30] = br_msg 0 # map br_msg [1..<30]" by (simp add: upt_conv_Cons)
  have s: "serve_spec (inner_lists (br_filled 30)) (pid_lists (br_filled 30)) =
      (Some (br_msg 0), [[], [], []], [(7, [map br_msg [1..<30], [], []])])"
    unfolding f u serve_spec_def by (simp del: upt_rec_numeral)
  have r: "served_ring (inner_lists (br_filled 30)) (pid_lists (br_filled 30)) = map br_msg [0..<30]"
    unfolding f u by (simp add: served_ring_def first_ring_def del: upt_rec_numeral)
  from BrDequeue_refines [OF f(1), of quiet_wait None] show ?thesis
    unfolding s r using f(1,2,4) by (auto split: if_splits)
qed

text \<open>The lists a message is meant for, before it is added.\<close>

definition br_target :: "SendBrQueueNode \<Rightarrow> br_state \<Rightarrow> SendBrQueueNode list list" where
  "br_target m st =
     (if br_pid m = 0 \<and> br_isInner m then inner_lists st
      else case map_of (pid_lists st) (br_pid m) of None \<Rightarrow> [[], [], []] | Some q \<Rightarrow> q)"

text \<open>
  C22: When the ring a message goes to holds fewer than thirty messages, and the allocations succeed in
  case its process has no set yet, \<open>BrEnqueueNonBlock\<close> answers \<open>SOFTBUS_OK\<close> without waiting and the
  message is queued behind the messages of its process and priority, or of the stack; no other list
  changes, and the invariant is kept.
\<close>

theorem BrEnqueue_adds:
  assumes "br_wf st" "length (br_target m st ! GetPriority (br_flag m)) < 30"
    and "\<not> (br_pid m = 0 \<and> br_isInner m) \<and> br_pid m \<notin> fst ` set (pid_lists st) \<longrightarrow> (\<forall>n. alloc n)"
  shows "\<exists>st'. BrEnqueueNonBlock True alloc waits (Some m) st = Some (SOFTBUS_OK, st') \<and> br_wf st' \<and>
     (inner_lists st', pid_lists st') =
       (if br_pid m = 0 \<and> br_isInner m
        then (prio_push (GetPriority (br_flag m)) m (inner_lists st), pid_lists st)
        else (inner_lists st, add_msg (br_pid m) (GetPriority (br_flag m)) m (pid_lists st)))"
proof (cases "br_pid m = 0 \<and> br_isInner m")
  case True
  then show ?thesis
    using BrEnqueueNonBlock_inner [OF assms(1), of m alloc waits] assms(2) by (auto simp: br_target_def)
next
  case False
  show ?thesis
  proof (cases "find (\<lambda>x. pq_pid x = br_pid m) (g_queueList st)")
    case None
    then have "br_pid m \<notin> fst ` set (pid_lists st)" by (auto simp: pid_lists_def find_None_iff)
    then show ?thesis using BrEnqueueNonBlock_absent [OF assms(1) False _ None] assms(3) False by auto
  next
    case (Some x)
    then have "length (set_lists x ! GetPriority (br_flag m)) < 30"
      using assms(2) False by (auto simp: br_target_def map_of_pid_lists)
    then show ?thesis using BrEnqueueNonBlock_present [OF assms(1) False Some] False by auto
  qed
qed

text \<open>A message of another process, and one of the stack itself.\<close>

definition br_other :: SendBrQueueNode where
  "br_other = (br_msg 50)\<lparr>br_pid := 8\<rparr>"

definition br_own :: SendBrQueueNode where
  "br_own = (br_msg 60)\<lparr>br_pid := 0, br_isInner := True\<rparr>"

lemma br_other_simps [simp]:
  "br_pid br_other = 8" "br_isInner br_other = False" "GetPriority (br_flag br_other) = 0"
  "br_pid br_own = 0" "br_isInner br_own" "GetPriority (br_flag br_own) = 0"
  by (simp_all add: br_other_def br_own_def br_msg_def GetPriority_def)

theorem BrEnqueue_adds_witness:
  "br_wf (br_filled 31) \<and>
   (\<exists>st'. BrEnqueueNonBlock True (\<lambda>_. True) (\<lambda>_. quiet_wait) (Some br_other) (br_filled 31) = Some (SOFTBUS_OK, st') \<and>
     pid_lists st' = [(7, [map br_msg [0..<31], [], []]), (8, [[br_other], [], []])])"
proof -
  have f: "br_wf (br_filled 31)" "pid_lists (br_filled 31) = [(7, [map br_msg [0..<31], [], []])]"
    using br_filled_wf [of 30] by (auto simp: pid_lists_def)
  have "length (br_target br_other (br_filled 31) ! GetPriority (br_flag br_other)) < 30"
    by (simp add: br_target_def f(2) del: upt_rec_numeral)
  from BrEnqueue_adds [OF f(1) this, of "\<lambda>_. True" "\<lambda>_. quiet_wait"] f show ?thesis
    by (auto simp: add_msg_def prio_push_def simp del: upt_rec_numeral)
qed

text \<open>
  C20: No process starves: once the \<open>k\<close> messages of the stack itself that are queued have been served, the
  process at position \<open>n\<close> of the list is given a message by dequeue number \<open>k + n + 1\<close>, its oldest one of
  the highest priority it has, whatever the processes before it have queued.
\<close>

theorem br_no_starvation:
  assumes "br_wf st" "pid_lists st = pre @ (p, q) # post" "prio_pop q = Some (m, q')"
  shows "\<exists>vs st'. serve br_deq (Suc (length (concat (inner_lists st)) + length pre)) st = Some (vs, st') \<and>
     br_wf st' \<and> vs ! (length (concat (inner_lists st)) + length pre) = Some m"
  using assms by (rule brq.serve_fair_after)

text \<open>A process with 31 messages queued, behind it another one with one, and a message of the stack.\<close>

definition br_mixed :: br_state where
  "br_mixed = snd (the (BrEnqueueNonBlock True (\<lambda>_. True) (\<lambda>_. quiet_wait) (Some br_own)
     (snd (the (BrEnqueueNonBlock True (\<lambda>_. True) (\<lambda>_. quiet_wait) (Some br_other) (br_filled 31))))))"

lemma br_mixed_wf:
  "br_wf br_mixed" "inner_lists br_mixed = [[br_own], [], []]"
  "pid_lists br_mixed = [(7, [map br_msg [0..<31], [], []]), (8, [[br_other], [], []])]"
proof -
  obtain x where f: "br_wf (br_filled 31)" "inner_lists (br_filled 31) = [[], [], []]"
    "g_queueList (br_filled 31) = [x]" "pq_pid x = 7" "set_lists x = [map br_msg [0..<31], [], []]"
    using br_filled_wf [of 30] by auto
  obtain s1 where s1: "BrEnqueueNonBlock True (\<lambda>_. True) (\<lambda>_. quiet_wait) (Some br_other) (br_filled 31) =
      Some (SOFTBUS_OK, s1)" "br_wf s1" "inner_lists s1 = [[], [], []]"
    "pid_lists s1 = [(7, [map br_msg [0..<31], [], []]), (8, [[br_other], [], []])]"
    using BrEnqueueNonBlock_absent [OF f(1), of br_other "\<lambda>_. True" "\<lambda>_. quiet_wait"] f(2-5)
    by (auto simp: pid_lists_def add_msg_def prio_push_def simp del: upt_rec_numeral)
  obtain s2 where s2: "BrEnqueueNonBlock True (\<lambda>_. True) (\<lambda>_. quiet_wait) (Some br_own) s1 =
      Some (SOFTBUS_OK, s2)" "br_wf s2" "inner_lists s2 = [[br_own], [], []]" "pid_lists s2 = pid_lists s1"
    using BrEnqueueNonBlock_inner [OF s1(2), of br_own "\<lambda>_. True" "\<lambda>_. quiet_wait"] s1(3)
    by (auto simp: prio_push_def)
  have "br_mixed = s2" by (simp add: br_mixed_def s1(1) s2(1))
  then show "br_wf br_mixed" "inner_lists br_mixed = [[br_own], [], []]"
    "pid_lists br_mixed = [(7, [map br_msg [0..<31], [], []]), (8, [[br_other], [], []])]"
    using s2(2-4) s1(4) by (simp_all del: upt_rec_numeral)
qed

theorem br_no_starvation_witness:
  "br_wf br_mixed \<and> (\<exists>vs st'. serve br_deq 3 br_mixed = Some (vs, st') \<and> vs ! 2 = Some br_other)"
proof -
  have l: "pid_lists br_mixed = [(7, [map br_msg [0..<31], [], []])] @ (8, [[br_other], [], []]) # []"
    using br_mixed_wf(3) by (simp del: upt_rec_numeral)
  have p: "prio_pop [[br_other], [], []] = Some (br_other, [[], [], []])" by simp
  have n: "length (concat (inner_lists br_mixed)) + length [(7 :: int, [map br_msg [0..<31], [], []])] = 2"
    by (simp add: br_mixed_wf(2))
  show ?thesis using br_no_starvation [OF br_mixed_wf(1) l p] br_mixed_wf(1) unfolding n by auto
qed

text \<open>
  C21: Nothing is lost or sent twice: as many dequeues as there are queued messages and sets return every
  queued message exactly once and leave the queues empty and every set freed.
\<close>

theorem br_drain:
  assumes "br_wf st" "work_left (inner_lists st) (pid_lists st) \<le> n"
  shows "\<exists>vs st'. serve br_deq n st = Some (vs, st') \<and> br_wf st' \<and>
     mset (List.map_filter id vs) = lists_msgs (inner_lists st) (pid_lists st) \<and>
     concat (inner_lists st') = [] \<and> pid_lists st' = []"
  using assms by (rule brq.serve_drain)

theorem br_drain_witness:
  "\<exists>vs st'. serve br_deq 32 (br_filled 31) = Some (vs, st') \<and>
     mset (List.map_filter id vs) = mset (map br_msg [0..<31]) \<and> pid_lists st' = []"
proof -
  have f: "br_wf (br_filled 31)" "inner_lists (br_filled 31) = [[], [], []]"
    "pid_lists (br_filled 31) = [(7, [map br_msg [0..<31], [], []])]"
    using br_filled_wf [of 30] by (auto simp: pid_lists_def)
  have "work_left (inner_lists (br_filled 31)) (pid_lists (br_filled 31)) \<le> 32"
    "lists_msgs (inner_lists (br_filled 31)) (pid_lists (br_filled 31)) = mset (map br_msg [0..<31])"
    unfolding f by (simp_all add: work_left_def lists_msgs_def del: upt_rec_numeral)
  with br_drain [OF f(1), of 32] show ?thesis by metis
qed

text \<open>The set whose ring an enqueue may have to wait for.\<close>

definition br_set_of :: "SendBrQueueNode \<Rightarrow> br_state \<Rightarrow> SendBrQueueNode PidQueue option" where
  "br_set_of m st =
     (if br_pid m = 0 \<and> br_isInner m then g_innerQueue st
      else find (\<lambda>x. pq_pid x = br_pid m) (g_queueList st))"

text \<open>
  C23: Whatever other threads do while an enqueue waits for room, as long as they keep the invariant and do
  not free the set whose ring it waits for, the enqueue returns, keeps the invariant, and answers
  success, \<open>SOFTBUS_ERR\<close>, \<open>QUEUE_FULL\<close> (only for the stack's own messages) or a lock error (exactly
  when the lock could not be taken). The error \<open>SENDQUEUE_FULL\<close> is never given, since a ring of
  32 units holds at most 31 messages and the test asks for 32.
\<close>

theorem BrEnqueue_under_interference:
  assumes "br_wf st" "\<forall>k x. br_set_of m st = Some x \<longrightarrow> keeps_addr (pq_addr x) (waits k)"
  shows "\<exists>r st'. BrEnqueueNonBlock lock_ok alloc waits (Some m) st = Some (r, st') \<and> br_wf st' \<and>
     r \<in> {SOFTBUS_OK, SOFTBUS_ERR, SOFTBUS_LOCK_ERR, QUEUE_FULL} \<and> (r = SOFTBUS_LOCK_ERR \<longleftrightarrow> \<not> lock_ok) \<and>
     (r = QUEUE_FULL \<longrightarrow> br_pid m = 0 \<and> br_isInner m) \<and> r \<noteq> SOFTBUS_CONNECTION_ERR_SENDQUEUE_FULL"
proof (cases lock_ok)
  case False
  then show ?thesis using assms(1) by (auto simp: BrEnqueueNonBlock_def Let_def)
next
  case True
  show ?thesis
  proof (cases "br_pid m = 0 \<and> br_isInner m")
    case inner: True
    obtain q where q: "g_innerQueue st = Some q" using assms(1) by (auto simp: send_wf_def)
    have k: "keeps_addr (pq_addr q) (waits k)" for k using assms(2) inner q by (simp add: br_set_of_def)
    from BrEnqueueNonBlock_inner_defined [of q waits, OF k assms(1) inner q, of alloc] show ?thesis
      using True inner by auto
  next
    case pid: False
    show ?thesis
    proof (cases "find (\<lambda>x. pq_pid x = br_pid m) (g_queueList st)")
      case None
      from BrEnqueueNonBlock_new_defined [OF assms(1) pid None, of alloc waits] show ?thesis
        using True by auto
    next
      case (Some x)
      have k: "keeps_addr (pq_addr x) (waits k)" for k
        using assms(2) pid Some by (auto simp: br_set_of_def)
      from BrEnqueueNonBlock_set_defined [of x waits, OF k assms(1) pid Some, of alloc] show ?thesis
        using True by auto
    qed
  qed
qed

text \<open>A consumer that takes one message during the wait, but removes no set.\<close>

definition br_take :: "br_state \<Rightarrow> br_state" where
  "br_take s = (case br_deq s of Some (r, s', v) \<Rightarrow> if r = SOFTBUS_OK then s' else s | None \<Rightarrow> s)"

lemma br_take_keeps: "keeps_addr a (quiet_wait\<lparr>w_others := br_take\<rparr>)"
proof -
  have "set_addrs s' = set_addrs s" if "br_deq s = Some (SOFTBUS_OK, s', v)" for s s' v
    using that
    by (auto simp: set_addrs_def all_sets_def br_deq_def BrDequeueNonBlock_def GetMsg_def Let_def
        BrSoftBusCondWait_def quiet_wait_def broadcast_def
        split: option.splits if_splits list.splits prod.splits)
  then have "set_addrs (br_take s) = set_addrs s" for s
    by (simp add: br_take_def split: option.split) blast
  moreover have "br_wf (br_take s)" if "br_wf s" for s
    using brq.deq_spec [OF that] that by (auto simp: br_take_def)
  ultimately show ?thesis by (simp add: keeps_addr_def)
qed

theorem BrEnqueue_under_interference_witness:
  "br_wf (br_filled 31) \<and>
   (\<exists>r st'. BrEnqueueNonBlock True (\<lambda>_. True) (\<lambda>_. quiet_wait\<lparr>w_others := br_take\<rparr>) (Some (br_msg 31))
      (br_filled 31) = Some (r, st') \<and> br_wf st' \<and> r \<in> {SOFTBUS_OK, SOFTBUS_ERR})"
proof -
  have w: "br_wf (br_filled 31)" using br_filled_wf [of 30] by auto
  from BrEnqueue_under_interference [OF w, of "br_msg 31" "\<lambda>_. quiet_wait\<lparr>w_others := br_take\<rparr>" True "\<lambda>_. True"]
  show ?thesis using w br_take_keeps by auto
qed

text \<open>
  A message for a process whose ring is full is lost without an error: when the waits end without
  room having been made, \<open>BrEnqueueNonBlock\<close> answers \<open>SOFTBUS_OK\<close> although the ring refused the
  message, and no list has changed.
\<close>

theorem full_ring_loses_message:
  assumes "\<forall>k. undisturbed (waits k)" "br_wf st" "\<not> (br_pid m = 0 \<and> br_isInner m)"
    and "g_queueList st = pre @ x # post" "pq_pid x = br_pid m"
    and "length (set_lists x ! GetPriority (br_flag m)) = 31"
  shows "\<exists>st'. BrEnqueueNonBlock True alloc waits (Some m) st = Some (SOFTBUS_OK, st') \<and>
     inner_lists st' = inner_lists st \<and> pid_lists st' = pid_lists st"
proof -
  have "snd (push_result br_caps (GetPriority (br_flag m)) m (set_lists x)) = set_lists x"
    using assms(6) by (simp add: push_result_def)
  then obtain st' x' where "BrEnqueueNonBlock True alloc waits (Some m) st = Some (SOFTBUS_OK, st')"
    "inner_lists st' = inner_lists st" "g_queueList st' = pre @ x' # post" "pq_pid x' = pq_pid x"
    "set_lists x' = set_lists x"
    using BrEnqueueNonBlock_undisturbed [of waits, OF _ assms(2-5), of alloc] assms(1) by auto
  then show ?thesis using assms(4) by (auto simp: pid_lists_def)
qed

theorem full_ring_loses_message_witness:
  "\<exists>st'. BrEnqueueNonBlock True (\<lambda>_. True) (\<lambda>_. quiet_wait) (Some (br_msg 31)) (br_filled 31) =
     Some (SOFTBUS_OK, st') \<and> pid_lists st' = [(7, [map br_msg [0..<31], [], []])]"
proof -
  obtain x where x: "br_wf (br_filled 31)" "g_queueList (br_filled 31) = [] @ x # []" "pq_pid x = 7"
    "set_lists x = [map br_msg [0..<31], [], []]"
    using br_filled_wf [of 30] by auto
  have "pid_lists (br_filled 31) = [(7, [map br_msg [0..<31], [], []])]"
    using x by (simp add: pid_lists_def del: upt_rec_numeral)
  with full_ring_loses_message [of "\<lambda>_. quiet_wait", OF _ x(1) _ x(2), of "br_msg 31" "\<lambda>_. True"] x(3,4)
  show ?thesis by (simp del: upt_rec_numeral) blast
qed

text \<open>
  The wait for room does not protect the ring: when the consumer sends everything that is queued and
  then removes the empty set of the process while a producer of that process waits, the producer
  goes on with a ring that has been freed.
\<close>

theorem ring_freed_while_waiting:
  assumes "br_wf st" "\<not> (br_pid m = 0 \<and> br_isInner m)"
    and "g_queueList st = pre @ x # post" "pq_pid x = br_pid m"
    and "30 \<le> length (set_lists x ! GetPriority (br_flag m))"
    and "work_left (inner_lists st) (pid_lists st) \<le> n"
    and "w_now (waits 0) \<noteq> None" "\<forall>t. w_ret (waits 0) t = SOFTBUS_OK"
    and "w_others (waits 0) = (\<lambda>s. snd (the (serve br_deq n s)))"
  shows "BrEnqueueNonBlock True alloc waits (Some m) st = None"
proof -
  let ?i = "GetPriority (br_flag m)"
  obtain q where q: "g_innerQueue st = Some q" using assms(1) by (auto simp: send_wf_def)
  have f: "find (\<lambda>y. pq_pid y = br_pid m) (g_queueList st) = Some x"
    unfolding assms(3) using find_addr [of pq_pid pre x post] assms(1,3,4) by (simp add: send_wf_def)
  have r: "ring_at st (pq_addr x) ?i = Some (pq_queue x ! ?i)"
    using ring_at_set [OF assms(1), of x ?i] assms(3) by (simp add: all_sets_def)
  obtain c where c: "QueueCountGet (Some (pq_queue x ! ?i)) (Some 0) = (0, Some c)"
    "unat c = length (queue_list (pq_queue x ! ?i))" using ring_at_cases [OF assms(1) r] .
  have "set_wf br_caps x" using assms(1,3) by (simp add: send_wf_def all_sets_def)
  then have c30: "\<not> c < 30"
    using c(2) assms(5) set_wf_length [of br_caps x] by (simp add: set_lists_nth word_less_nat_alt)
  obtain vs st' where d: "serve br_deq n st = Some (vs, st')" "br_wf st'" "pid_lists st' = []"
    using brq.serve_drain [OF assms(1,6)] by blast
  have w: "BrSoftBusCondWait (waits 0) WAIT_QUEUE_DELAY st = (SOFTBUS_OK, st')"
    using assms(7-9) d(1) by (auto simp: BrSoftBusCondWait_def Let_def)
  have "ring_at st' (pq_addr x) ?i = None"
    using serve_freed [OF br_deq_inner_addr assms(1) d(1,3), of x] assms(3) by (simp add: ring_at_def)
  then have "WaitQueueLength waits (pq_addr x) ?i 32 2 0 st = None"
    using r c(1) c30 w by (subst WaitQueueLength.simps) (simp, subst WaitQueueLength.simps, simp)
  then show ?thesis using assms(2) f by (auto simp: BrEnqueueNonBlock_def Let_def)
qed

theorem ring_freed_while_waiting_witness:
  "BrEnqueueNonBlock True (\<lambda>_. True)
     (\<lambda>_. quiet_wait\<lparr>w_others := \<lambda>s. snd (the (serve br_deq 32 s))\<rparr>) (Some (br_msg 31)) (br_filled 31) = None"
proof -
  obtain x where x: "br_wf (br_filled 31)" "g_queueList (br_filled 31) = [] @ x # []" "pq_pid x = 7"
    "set_lists x = [map br_msg [0..<31], [], []]" "inner_lists (br_filled 31) = [[], [], []]"
    using br_filled_wf [of 30] by auto
  have "work_left (inner_lists (br_filled 31)) (pid_lists (br_filled 31)) \<le> 32"
    using x by (simp add: work_left_def lists_msgs_def pid_lists_def del: upt_rec_numeral)
  then show ?thesis
    using ring_freed_while_waiting [OF x(1) _ x(2), of "br_msg 31" 32] x(3,4)
    by (simp add: quiet_wait_def del: upt_rec_numeral)
qed

end
