(* ===== verification/Ble_Queue.thy ===== *)
theory Ble_Queue
  imports Send_Queue
begin

text \<open>
  The send queue of the BLE connection, \<^verbatim>\<open>core/connection/ble/src/softbus_ble_queue.c\<close>, as operations on
  the shared state of theory \<open>Send_Queue\<close>. The rings have different sizes here, nothing waits, and
  the lock is released before the message is put into its ring: what other threads do in between
  is an argument of the enqueue.
\<close>

section \<open>Model\<close>

record SendQueueNode =
  ble_halConnId :: int
  ble_connectionId :: u32
  ble_pid :: int
  ble_flag :: int
  ble_isServer :: int
  ble_isInner :: int
  ble_module :: int
  ble_seq :: int
  ble_len :: u32
  ble_data :: "u8 list"

type_synonym ble_state = "SendQueueNode send_state"

definition QUEUE_LIMIT :: "u32 list" where
  "QUEUE_LIMIT = [32, 32, 16]"

definition CreateBleQueue ::
  "(nat \<Rightarrow> bool) \<Rightarrow> int \<Rightarrow> ble_state \<Rightarrow> (SendQueueNode PidQueue \<times> ble_state) option" where
  "CreateBleQueue alloc pid st = create_set QUEUE_LIMIT alloc pid st"

definition GetPriority :: "int \<Rightarrow> nat" where
  "GetPriority flag =
     (if flag = CONN_HIGH then HIGH_PRIORITY
      else if flag = CONN_MIDDLE then MIDDLE_PRIORITY
      else LOW_PRIORITY)"

definition BleEnqueueNonBlock ::
  "bool \<Rightarrow> (nat \<Rightarrow> bool) \<Rightarrow> (ble_state \<Rightarrow> ble_state) \<Rightarrow> SendQueueNode option \<Rightarrow> ble_state \<Rightarrow>
     (int \<times> ble_state) option" where
  "BleEnqueueNonBlock lock_ok alloc others msg st =
     (case msg of
        None \<Rightarrow> Some (SOFTBUS_ERR, st)
      | Some queueNode \<Rightarrow>
          let priority = GetPriority (ble_flag queueNode) in
          if ble_pid queueNode = 0 then
            (case g_innerQueue st of
               None \<Rightarrow> None
             | Some inner \<Rightarrow> ring_enqueue st (pq_addr inner) priority queueNode)
          else if \<not> lock_ok then Some (SOFTBUS_ERR, st)
          else
            (case find (\<lambda>item. pq_pid item = ble_pid queueNode) (g_queueList st) of
               Some item \<Rightarrow> ring_enqueue (others st) (pq_addr item) priority queueNode
             | None \<Rightarrow>
                 (case CreateBleQueue alloc (ble_pid queueNode) st of
                    None \<Rightarrow> Some (SOFTBUS_ERR, st)
                  | Some (newQueue, st1) \<Rightarrow>
                      ring_enqueue (others (st1\<lparr>g_queueList := g_queueList st1 @ [newQueue]\<rparr>))
                        (pq_addr newQueue) priority queueNode)))"

fun get_msg_loop ::
  "'a LockFreeQueue list \<Rightarrow> 'a option \<Rightarrow> (int \<times> 'a LockFreeQueue list \<times> 'a option) option" where
  "get_msg_loop [] msg = Some (SOFTBUS_ERR, [], msg)"
| "get_msg_loop (q # qs) msg =
     (case QueueSingleConsumerDequeue (Some q) (Some msg) of
        None \<Rightarrow> None
      | Some (d, q', m) \<Rightarrow>
          if d = 0 then Some (SOFTBUS_OK, the q' # qs, the m)
          else map_option (\<lambda>(ret, qs', v). (ret, the q' # qs', v)) (get_msg_loop qs (the m)))"

definition GetMsg :: "'a PidQueue \<Rightarrow> 'a option \<Rightarrow> (int \<times> 'a PidQueue \<times> 'a option) option" where
  "GetMsg queue msg =
     map_option (\<lambda>(ret, qs, v). (ret, queue\<lparr>pq_queue := qs\<rparr>, v)) (get_msg_loop (pq_queue queue) msg)"

text \<open>
  The stack's own rings are looked at without the lock; \<open>others\<close> is what the other threads do before
  the lock is taken.
\<close>

definition BleDequeueNonBlock ::
  "bool \<Rightarrow> (ble_state \<Rightarrow> ble_state) \<Rightarrow> SendQueueNode option option \<Rightarrow> ble_state \<Rightarrow>
     (int \<times> ble_state \<times> SendQueueNode option) option" where
  "BleDequeueNonBlock lock_ok others msg st =
     (case msg of
        None \<Rightarrow> Some (SOFTBUS_ERR, st, None)
      | Some out \<Rightarrow>
          (case g_innerQueue st of
             None \<Rightarrow> None
           | Some inner \<Rightarrow>
               (case GetMsg inner out of
                  None \<Rightarrow> None
                | Some (ret, inner', out1) \<Rightarrow>
                    if ret = SOFTBUS_OK then Some (SOFTBUS_OK, st\<lparr>g_innerQueue := Some inner'\<rparr>, out1)
                    else
                      let st1 = others (st\<lparr>g_innerQueue := Some inner'\<rparr>) in
                      if \<not> lock_ok then Some (SOFTBUS_ERR, st1, out1)
                      else
                        (case g_queueList st1 of
                           [] \<Rightarrow> Some (SOFTBUS_ERR, st1, out1)
                         | item # rest \<Rightarrow>
                             (case GetMsg item out1 of
                                None \<Rightarrow> None
                              | Some (ret2, item', out2) \<Rightarrow>
                                  if ret2 = SOFTBUS_OK
                                  then Some (SOFTBUS_OK, st1\<lparr>g_queueList := rest @ [item']\<rparr>, out2)
                                  else Some (SOFTBUS_ERR, st1\<lparr>g_queueList := rest\<rparr>, out2))))))"

definition BleInnerQueueInit :: "int \<Rightarrow> (nat \<Rightarrow> bool) \<Rightarrow> ble_state \<Rightarrow> int \<times> ble_state" where
  "BleInnerQueueInit mutexInit alloc st =
     (if mutexInit \<noteq> 0 then (SOFTBUS_ERR, st)
      else case CreateBleQueue alloc 0 st of
        None \<Rightarrow> (SOFTBUS_ERR, st\<lparr>g_innerQueue := None\<rparr>)
      | Some (q, st') \<Rightarrow> (SOFTBUS_OK, st'\<lparr>g_innerQueue := Some q\<rparr>))"

definition BleInnerQueueDeinit :: "ble_state \<Rightarrow> ble_state" where
  "BleInnerQueueDeinit st = st\<lparr>g_innerQueue := None\<rparr>"

section \<open>Taking a message\<close>

definition ble_caps :: "nat list" where
  "ble_caps = [31, 31, 15]"

abbreviation (input) ble_wf :: "ble_state \<Rightarrow> bool" where "ble_wf st \<equiv> send_wf ble_caps st"

lemma length_ble_caps [simp]: "length ble_caps = 3"
  by (simp add: ble_caps_def)

lemma ble_get_msg_loop_spec:
  assumes "\<forall>q \<in> set qs. queue_wf q"
  shows "case prio_pop (map queue_list qs) of
       None \<Rightarrow> get_msg_loop qs msg = Some (SOFTBUS_ERR, qs, msg)
     | Some (m, ls) \<Rightarrow> \<exists>qs'. get_msg_loop qs msg = Some (SOFTBUS_OK, qs', Some m) \<and>
         (\<forall>q \<in> set qs'. queue_wf q) \<and> map queue_cap qs' = map queue_cap qs \<and> map queue_list qs' = ls"
  using assms
proof (induction qs)
  case (Cons q qs)
  then have q: "queue_wf q" by simp
  show ?case
  proof (cases "queue_list q")
    case Nil
    then show ?thesis using Cons QueueSingleConsumerDequeue_Nil [OF q Nil, of msg]
      by (fastforce split: option.splits)
  next
    case (Cons x xs)
    then obtain q' where "QueueSingleConsumerDequeue (Some q) (Some msg) = Some (0, Some q', Some (Some x))"
      "queue_wf q'" "queue_list q' = xs" "queue_cap q' = queue_cap q"
      using QueueSingleConsumerDequeue_Cons [OF q] by metis
    then show ?thesis using Cons Cons.prems by simp
  qed
qed simp

lemma ble_GetMsg_None:
  assumes "set_wf caps q" "prio_pop (set_lists q) = None"
  shows "GetMsg q msg = Some (SOFTBUS_ERR, q, msg)"
  using ble_get_msg_loop_spec [of "pq_queue q" msg] assms
  by (simp add: GetMsg_def set_wf_def set_lists_def)

lemma ble_GetMsg_Some:
  assumes "set_wf caps q" "prio_pop (set_lists q) = Some (m, ls)"
  shows "\<exists>q'. GetMsg q msg = Some (SOFTBUS_OK, q', Some m) \<and> set_wf caps q' \<and> set_lists q' = ls \<and>
     pq_addr q' = pq_addr q \<and> pq_pid q' = pq_pid q"
  using ble_get_msg_loop_spec [of "pq_queue q" msg] assms
  by (auto simp: GetMsg_def set_wf_def set_lists_def)

definition ble_deq :: "ble_state \<Rightarrow> (int \<times> ble_state \<times> SendQueueNode option) option" where
  "ble_deq st = BleDequeueNonBlock True id (Some None) st"

interpretation bleq: send_queue ble_deq inner_lists pid_lists "send_wf ble_caps"
proof
  fix st :: ble_state
  assume wf: "ble_wf st"
  obtain q where q: "g_innerQueue st = Some q" "set_wf ble_caps q" "inner_lists st = set_lists q"
    and l: "\<And>x. x \<in> set (g_queueList st) \<Longrightarrow> set_wf ble_caps x"
    using send_wf_sets [OF wf] by metis
  show "\<exists>r s' v. ble_deq st = Some (r, s', v) \<and> ble_wf s' \<and>
     (if r = SOFTBUS_OK then v else None, inner_lists s', pid_lists s') =
       serve_spec (inner_lists st) (pid_lists st)"
  proof (cases "prio_pop (inner_lists st)")
    case (Some r)
    then obtain m ls where r: "prio_pop (set_lists q) = Some (m, ls)" using q(3) by (cases r) auto
    then obtain q' where g: "GetMsg q None = Some (SOFTBUS_OK, q', Some m)" "set_wf ble_caps q'"
      "set_lists q' = ls" "pq_addr q' = pq_addr q" using ble_GetMsg_Some [OF q(2) r] by blast
    have "ble_wf (st\<lparr>g_innerQueue := Some q'\<rparr>)" using send_wf_inner_update [OF wf q(1) g(2,4)] .
    then show ?thesis using g(1,3) q(1,3) r
      by (simp add: ble_deq_def BleDequeueNonBlock_def Let_def serve_spec_def)
        (simp add: inner_lists_def pid_lists_def)
  next
    case None
    have g: "GetMsg q None = Some (SOFTBUS_ERR, q, None)" using ble_GetMsg_None [OF q(2)] None q(3) by simp
    have same: "st\<lparr>g_innerQueue := Some q\<rparr> = st" using q(1) by simp
    show ?thesis
    proof (cases "g_queueList st")
      case Nil
      then show ?thesis using g q(1) None wf
        by (simp add: ble_deq_def BleDequeueNonBlock_def Let_def serve_spec_def same pid_lists_def)
    next
      case (Cons x rest)
      then have x: "set_wf ble_caps x" using l by simp
      show ?thesis
      proof (cases "prio_pop (set_lists x)")
        case None
        have "ble_wf (st\<lparr>g_queueList := rest\<rparr>)" using send_wf_drop_first [OF wf Cons] .
        then show ?thesis using g q(1) None \<open>prio_pop (inner_lists st) = None\<close> Cons ble_GetMsg_None [OF x None]
          by (simp add: ble_deq_def BleDequeueNonBlock_def Let_def serve_spec_def same)
            (simp add: pid_lists_def inner_lists_def)
      next
        case (Some r)
        then obtain m ls where r: "prio_pop (set_lists x) = Some (m, ls)" by (cases r) auto
        then obtain x' where h: "GetMsg x None = Some (SOFTBUS_OK, x', Some m)" "set_wf ble_caps x'"
          "set_lists x' = ls" "pq_addr x' = pq_addr x" "pq_pid x' = pq_pid x"
          using ble_GetMsg_Some [OF x r] by blast
        have "ble_wf (st\<lparr>g_queueList := rest @ [x']\<rparr>)" using send_wf_rotate [OF wf Cons h(2,4,5)] .
        then show ?thesis using g q(1) h r \<open>prio_pop (inner_lists st) = None\<close> Cons
          by (simp add: ble_deq_def BleDequeueNonBlock_def Let_def serve_spec_def same pid_lists_def)
            (simp add: inner_lists_def)
      qed
    qed
  qed
qed

section \<open>Adding a message\<close>

lemma ble_GetPriority_less [simp]: "GetPriority flag < 3"
  by (simp add: GetPriority_def)

lemma ble_QUEUE_LIMIT_ok: "\<forall>l \<in> set QUEUE_LIMIT. IS_POWER_OF_2 l \<and> l \<noteq> 0 \<and> l \<le> QUEUE_SIZE_MAX"
  by (simp add: QUEUE_LIMIT_def IS_POWER_OF_2_def)

lemma CreateBleQueue_ok:
  assumes "\<forall>n. alloc n"
  obtains q where "CreateBleQueue alloc pid st = Some (q, st\<lparr>sq_fresh := Suc (sq_fresh st)\<rparr>)"
    "set_wf ble_caps q" "set_lists q = [[], [], []]" "pq_pid q = pid" "pq_addr q = sq_fresh st"
proof -
  obtain rs :: "SendQueueNode LockFreeQueue list" where rs: "create_rings alloc QUEUE_LIMIT 1 = Some rs"
    using create_rings_ok [OF ble_QUEUE_LIMIT_ok assms] by blast
  have w: "\<forall>r \<in> set rs. queue_wf r \<and> queue_list r = []" "map queue_cap rs = ble_caps"
    using create_rings_wf [OF ble_QUEUE_LIMIT_ok rs] by (simp_all add: QUEUE_LIMIT_def ble_caps_def)
  have "map queue_list rs = map (\<lambda>_. []) rs" using w(1) by simp
  moreover have "length rs = 3" using w(2) by (metis length_ble_caps length_map)
  ultimately have "map queue_list rs = [[], [], []]" by (simp add: map_replicate_const numeral_3_eq_3)
  then show ?thesis
    using that [of "\<lparr>pq_addr = sq_fresh st, pq_pid = pid, pq_queue = rs\<rparr>"] assms rs w
    by (simp add: CreateBleQueue_def create_set_def set_wf_def set_lists_def)
qed

text \<open>The lists a message is meant for, before it is added.\<close>

definition target_lists :: "int \<Rightarrow> ble_state \<Rightarrow> SendQueueNode list list" where
  "target_lists p st =
     (if p = 0 then inner_lists st
      else case map_of (pid_lists st) p of None \<Rightarrow> [[], [], []] | Some q \<Rightarrow> q)"

text \<open>
  What the other threads may do after the lock is released: they keep the invariant and do not free
  the set of process \<open>p\<close>.
\<close>

definition keeps_set :: "int \<Rightarrow> (ble_state \<Rightarrow> ble_state) \<Rightarrow> bool" where
  "keeps_set p others \<longleftrightarrow>
     (\<forall>s. ble_wf s \<longrightarrow> ble_wf (others s) \<and>
       (\<forall>x \<in> set (g_queueList s). pq_pid x = p \<longrightarrow>
          (\<exists>x' \<in> set (g_queueList (others s)). pq_addr x' = pq_addr x \<and> pq_pid x' = p)))"

text \<open>The state in which a process has a set, made if need be.\<close>

definition with_set :: "(nat \<Rightarrow> bool) \<Rightarrow> int \<Rightarrow> ble_state \<Rightarrow> ble_state" where
  "with_set alloc p st =
     (if p \<in> fst ` set (pid_lists st) then st
      else case CreateBleQueue alloc p st of
        None \<Rightarrow> st
      | Some (q, st1) \<Rightarrow> st1\<lparr>g_queueList := g_queueList st1 @ [q]\<rparr>)"

lemma CreateBleQueue_Some:
  assumes "CreateBleQueue alloc pid st = Some (q, st1)"
  shows "st1 = st\<lparr>sq_fresh := Suc (sq_fresh st)\<rparr> \<and> set_wf ble_caps q \<and> pq_pid q = pid \<and>
     pq_addr q = sq_fresh st"
proof -
  obtain rs where "create_rings alloc QUEUE_LIMIT 1 = Some rs"
    and q: "q = \<lparr>pq_addr = sq_fresh st, pq_pid = pid, pq_queue = rs\<rparr>"
    "st1 = st\<lparr>sq_fresh := Suc (sq_fresh st)\<rparr>"
    using assms by (auto simp: CreateBleQueue_def create_set_def split: if_splits option.splits)
  from create_rings_wf [OF ble_QUEUE_LIMIT_ok this(1)]
  have "set_wf ble_caps q" by (simp add: q set_wf_def QUEUE_LIMIT_def ble_caps_def)
  with q show ?thesis by simp
qed

lemma pid_in_lists: "p \<in> fst ` set (pid_lists st) \<longleftrightarrow> find (\<lambda>x. pq_pid x = p) (g_queueList st) \<noteq> None"
  by (auto simp: pid_lists_def find_None_iff image_iff)

lemma with_set_found:
  assumes "ble_wf st" "p \<in> fst ` set (pid_lists st) \<or> CreateBleQueue alloc p st \<noteq> None"
  obtains x where "ble_wf (with_set alloc p st)" "x \<in> set (g_queueList (with_set alloc p st))" "pq_pid x = p"
    "case find (\<lambda>item. pq_pid item = p) (g_queueList st) of
       Some item \<Rightarrow> item = x
     | None \<Rightarrow> \<exists>st1. CreateBleQueue alloc p st = Some (x, st1) \<and>
         with_set alloc p st = st1\<lparr>g_queueList := g_queueList st1 @ [x]\<rparr>"
proof (cases "find (\<lambda>x. pq_pid x = p) (g_queueList st)")
  case None
  then have n: "p \<notin> fst ` set (pid_lists st)" by (simp add: pid_in_lists)
  then obtain q st1 where c: "CreateBleQueue alloc p st = Some (q, st1)" using assms(2) by auto
  note q = CreateBleQueue_Some [OF c]
  have "ble_wf (with_set alloc p st)"
    using send_wf_append [OF assms(1), of q] q n None by (simp add: with_set_def c)
  then show ?thesis using that [of q] None n q c by (simp add: with_set_def)
next
  case (Some x)
  then have "x \<in> set (g_queueList st)" "pq_pid x = p" by (auto simp: find_Some_iff)
  then show ?thesis using that [of x] Some assms(1) by (simp add: with_set_def pid_in_lists)
qed

lemma ring_enqueue_pid:
  assumes "ble_wf s" "x \<in> set (g_queueList s)" "pq_pid x \<noteq> 0" "i < 3"
  shows "\<exists>r s'. ring_enqueue s (pq_addr x) i m = Some (r, s') \<and> ble_wf s' \<and> inner_lists s' = inner_lists s \<and>
     (r, pid_lists s') =
       (if length (target_lists (pq_pid x) s ! i) < ble_caps ! i
        then (0, add_msg (pq_pid x) i m (pid_lists s)) else (QUEUE_FULL, pid_lists s))"
proof -
  have d: "distinct (map pq_pid (g_queueList s))" using assms(1) by (simp add: send_wf_def)
  obtain pre0 post0 where "g_queueList s = pre0 @ x # post0"
    using assms(2) by (auto simp: in_set_conv_decomp)
  then have f: "find (\<lambda>y. pq_pid y = pq_pid x) (g_queueList s) = Some x"
    using find_addr [of pq_pid pre0 x post0] d by simp
  obtain pre post where l: "g_queueList s = pre @ x # post" "pq_pid x = pq_pid x"
    "\<And>y. y \<in> set pre \<union> set post \<Longrightarrow> pq_pid y \<noteq> pq_pid x"
    using find_pid [OF d f] by metis
  have t: "target_lists (pq_pid x) s = set_lists x"
    using assms(3) f by (simp add: target_lists_def map_of_pid_lists)
  have i3: "i < length ble_caps" using assms(4) by simp
  obtain r s' x' where e: "ring_enqueue s (pq_addr x) i m = Some (r, s')" "ble_wf s'"
    "g_queueList s' = pre @ x' # post" "pq_pid x' = pq_pid x"
    "(r, set_lists x') = push_result ble_caps i m (set_lists x)" "inner_lists s' = inner_lists s"
    using ring_enqueue_member [OF assms(1) i3 l(1)] by metis
  have "(r, pid_lists s') = (if length (set_lists x ! i) < ble_caps ! i
        then (0, add_msg (pq_pid x) i m (pid_lists s)) else (QUEUE_FULL, pid_lists s))"
  proof (cases "length (set_lists x ! i) < ble_caps ! i")
    case True
    then have "r = 0" "set_lists x' = prio_push i m (set_lists x)"
      using e(5) by (simp_all add: push_result_def)
    then show ?thesis unfolding pid_lists_def e(3) using add_msg_present [OF l] e(4) True by simp
  next
    case False
    then show ?thesis using e(3,4,5) l(1) by (simp add: pid_lists_def push_result_def)
  qed
  then show ?thesis using e t by auto
qed

lemma BleEnqueue_found:
  assumes "ble_wf st" "keeps_set (ble_pid m) others" "ble_pid m \<noteq> 0"
    and "ble_pid m \<in> fst ` set (pid_lists st) \<or> CreateBleQueue alloc (ble_pid m) st \<noteq> None"
  shows "\<exists>r st'. BleEnqueueNonBlock True alloc others (Some m) st = Some (r, st') \<and> ble_wf st' \<and>
     (r, inner_lists st', pid_lists st') =
       (let i = GetPriority (ble_flag m); s = others (with_set alloc (ble_pid m) st) in
        if length (target_lists (ble_pid m) s ! i) < ble_caps ! i
        then (0, inner_lists s, add_msg (ble_pid m) i m (pid_lists s))
        else (QUEUE_FULL, inner_lists s, pid_lists s))"
proof -
  let ?s = "others (with_set alloc (ble_pid m) st)" and ?i = "GetPriority (ble_flag m)"
  obtain x where x: "ble_wf (with_set alloc (ble_pid m) st)"
    "x \<in> set (g_queueList (with_set alloc (ble_pid m) st))" "pq_pid x = ble_pid m"
    "case find (\<lambda>item. pq_pid item = ble_pid m) (g_queueList st) of
       Some item \<Rightarrow> item = x
     | None \<Rightarrow> \<exists>st1. CreateBleQueue alloc (ble_pid m) st = Some (x, st1) \<and>
         with_set alloc (ble_pid m) st = st1\<lparr>g_queueList := g_queueList st1 @ [x]\<rparr>"
    using with_set_found [OF assms(1,4)] .
  obtain x' where x': "ble_wf ?s" "x' \<in> set (g_queueList ?s)" "pq_addr x' = pq_addr x" "pq_pid x' = ble_pid m"
    using assms(2) x(1-3) unfolding keeps_set_def by blast
  have code: "BleEnqueueNonBlock True alloc others (Some m) st = ring_enqueue ?s (pq_addr x') ?i m"
  proof (cases "find (\<lambda>item. pq_pid item = ble_pid m) (g_queueList st)")
    case None
    then show ?thesis using assms(3) x(4) x'(3) by (auto simp: BleEnqueueNonBlock_def Let_def)
  next
    case (Some y)
    then have "with_set alloc (ble_pid m) st = st" by (simp add: with_set_def pid_in_lists)
    then show ?thesis using Some assms(3) x(4) x'(3) by (auto simp: BleEnqueueNonBlock_def Let_def)
  qed
  have "GetPriority (ble_flag m) < 3" by (simp add: GetPriority_def)
  from ring_enqueue_pid [OF x'(1,2) _ this, of m] show ?thesis
    using x'(4) assms(3) unfolding code by (auto simp: Let_def)
qed

text \<open>The service never moves the stack's own set.\<close>

lemma ble_deq_inner_addr:
  "\<forall>st r st' v. ble_deq st = Some (r, st', v) \<longrightarrow>
     map_option pq_addr (g_innerQueue st') = map_option pq_addr (g_innerQueue st)"
  by (auto simp: ble_deq_def BleDequeueNonBlock_def GetMsg_def Let_def
      split: option.splits if_splits list.splits prod.splits)

section \<open>Properties\<close>

text \<open>
  C24: \<open>BleEnqueueNonBlock\<close> returns and keeps the invariant. A message of the stack goes to the stack's own
  rings. Any other message fails with \<open>SOFTBUS_ERR\<close> and changes nothing when the lock cannot be taken or
  its process has no set and none can be allocated; otherwise its process has a set from then on, and
  whatever the other threads do once the lock is released, as long as they keep the invariant and do
  not free that set, the call answers zero and puts the message behind those of its process and
  priority exactly when the ring then has room (31, 31 and 15 messages), and otherwise answers
  \<open>QUEUE_FULL\<close> and leaves the queues as the other threads left them.
\<close>

theorem BleEnqueue_outcome:
  assumes "ble_wf st" "keeps_set (ble_pid m) others"
  shows "\<exists>r st'. BleEnqueueNonBlock lock_ok alloc others (Some m) st = Some (r, st') \<and> ble_wf st' \<and>
     (r, inner_lists st', pid_lists st') =
       (let p = ble_pid m; i = GetPriority (ble_flag m) in
        if p = 0 then
          (if length (inner_lists st ! i) < ble_caps ! i
           then (0, prio_push i m (inner_lists st), pid_lists st)
           else (QUEUE_FULL, inner_lists st, pid_lists st))
        else if \<not> lock_ok \<or> p \<notin> fst ` set (pid_lists st) \<and> CreateBleQueue alloc p st = None then
          (SOFTBUS_ERR, inner_lists st, pid_lists st)
        else
          let s = others (with_set alloc p st) in
          if length (target_lists p s ! i) < ble_caps ! i
          then (0, inner_lists s, add_msg p i m (pid_lists s))
          else (QUEUE_FULL, inner_lists s, pid_lists s))"
proof (cases "ble_pid m = 0")
  case True
  let ?i = "GetPriority (ble_flag m)"
  have i3: "?i < length ble_caps" by simp
  obtain r st1 where "g_innerQueue st \<noteq> None"
    "ring_enqueue st (pq_addr (the (g_innerQueue st))) ?i m = Some (r, st1)" "ble_wf st1"
    "(r, inner_lists st1) = push_result ble_caps ?i m (inner_lists st)" "pid_lists st1 = pid_lists st"
    using ring_enqueue_inner [OF assms(1) i3] .
  then show ?thesis using True by (auto simp: BleEnqueueNonBlock_def Let_def push_result_def)
next
  case False
  note pid = this
  show ?thesis
  proof (cases "lock_ok \<and> (ble_pid m \<in> fst ` set (pid_lists st) \<or> CreateBleQueue alloc (ble_pid m) st \<noteq> None)")
    case True
    then show ?thesis using BleEnqueue_found [OF assms pid, of alloc] pid by (auto simp: Let_def)
  next
    case False
    then have "BleEnqueueNonBlock lock_ok alloc others (Some m) st = Some (SOFTBUS_ERR, st)"
      using pid by (auto simp: BleEnqueueNonBlock_def Let_def pid_in_lists split: option.split)
    then show ?thesis using False pid assms(1) by (auto simp: Let_def)
  qed
qed

definition ble_start :: ble_state where
  "ble_start = snd (BleInnerQueueInit 0 (\<lambda>_. True)
     \<lparr>g_innerQueue = None, g_queueList = [], sq_fresh = 0\<rparr>)"

lemma ble_start_wf: "ble_wf ble_start" "inner_lists ble_start = [[], [], []]" "g_queueList ble_start = []"
proof -
  define st0 :: ble_state where "st0 = \<lparr>g_innerQueue = None, g_queueList = [], sq_fresh = 0\<rparr>"
  obtain q where "CreateBleQueue (\<lambda>_. True) 0 st0 = Some (q, st0\<lparr>sq_fresh := Suc (sq_fresh st0)\<rparr>)"
    "set_wf ble_caps q" "set_lists q = [[], [], []]" "pq_addr q = sq_fresh st0"
    using CreateBleQueue_ok [of "\<lambda>_. True" 0 st0] by auto
  then show "ble_wf ble_start" "inner_lists ble_start = [[], [], []]" "g_queueList ble_start = []"
    by (simp_all add: ble_start_def BleInnerQueueInit_def st0_def [symmetric] inner_lists_def)
      (simp_all add: st0_def send_wf_def all_sets_def)
qed

definition ble_msg :: "nat \<Rightarrow> SendQueueNode" where
  "ble_msg n = \<lparr>ble_halConnId = 1, ble_connectionId = 1, ble_pid = 9, ble_flag = CONN_MIDDLE,
     ble_isServer = 0, ble_isInner = 0, ble_module = 3, ble_seq = int n, ble_len = 0, ble_data = []\<rparr>"

definition ble_one :: ble_state where
  "ble_one = snd (the (BleEnqueueNonBlock True (\<lambda>_. True) id (Some (ble_msg 0)) ble_start))"

lemma ble_one_wf:
  "ble_wf ble_one" "inner_lists ble_one = [[], [], []]" "\<exists>x. g_queueList ble_one = [x] \<and>
     pq_pid x = 9 \<and> set_lists x = [[], [ble_msg 0], []]"
proof -
  obtain q where q: "CreateBleQueue (\<lambda>_. True) 9 ble_start = Some (q, ble_start\<lparr>sq_fresh := Suc (sq_fresh ble_start)\<rparr>)"
    "set_lists q = [[], [], []]" "pq_pid q = 9" using CreateBleQueue_ok [of "\<lambda>_. True" 9 ble_start] by auto
  have w: "pid_lists (with_set (\<lambda>_. True) 9 ble_start) = [(9, [[], [], []])]"
    "inner_lists (with_set (\<lambda>_. True) 9 ble_start) = [[], [], []]"
    using q ble_start_wf by (simp_all add: with_set_def pid_lists_def) (simp add: inner_lists_def)
  have k: "keeps_set (ble_pid (ble_msg 0)) id" by (auto simp: keeps_set_def)
  from BleEnqueue_found [OF ble_start_wf(1) k, of "\<lambda>_. True"] q w
  obtain st' where "ble_one = st'" "ble_wf st'" "inner_lists st' = [[], [], []]"
    "pid_lists st' = [(9, [[], [ble_msg 0], []])]"
    by (auto simp: ble_one_def target_lists_def add_msg_def prio_push_def ble_msg_def GetPriority_def
        ble_caps_def Let_def)
  then show "ble_wf ble_one" "inner_lists ble_one = [[], [], []]" "\<exists>x. g_queueList ble_one = [x] \<and>
     pq_pid x = 9 \<and> set_lists x = [[], [ble_msg 0], []]"
    by (auto simp: pid_lists_def)
qed

text \<open>
  A consumer that takes a message but removes no set. It may run while the producer holds on to a ring.
\<close>

definition ble_take :: "ble_state \<Rightarrow> ble_state" where
  "ble_take s = (case ble_deq s of Some (r, s', v) \<Rightarrow> if r = SOFTBUS_OK then s' else s | None \<Rightarrow> s)"

lemma ble_take_keeps: "keeps_set p ble_take"
proof -
  have "(\<lambda>x. (pq_addr x, pq_pid x)) ` set (g_queueList s') = (\<lambda>x. (pq_addr x, pq_pid x)) ` set (g_queueList s)"
    if "ble_deq s = Some (SOFTBUS_OK, s', v)" for s s' v
    using that
    by (auto simp: ble_deq_def BleDequeueNonBlock_def GetMsg_def Let_def
        split: option.splits if_splits list.splits prod.splits)
  then have a: "(\<lambda>x. (pq_addr x, pq_pid x)) ` set (g_queueList (ble_take s)) =
      (\<lambda>x. (pq_addr x, pq_pid x)) ` set (g_queueList s)" for s
    by (simp add: ble_take_def split: option.split) blast
  have "\<exists>x' \<in> set (g_queueList (ble_take s)). pq_addr x' = pq_addr x \<and> pq_pid x' = p"
    if "x \<in> set (g_queueList s)" "pq_pid x = p" for x s
  proof -
    have "(pq_addr x, p) \<in> (\<lambda>x. (pq_addr x, pq_pid x)) ` set (g_queueList s)" using that by force
    then show ?thesis unfolding a [of s, symmetric] by auto
  qed
  moreover have "ble_wf (ble_take s)" if "ble_wf s" for s
    using bleq.deq_spec [OF that] that by (auto simp: ble_take_def)
  ultimately show ?thesis by (simp add: keeps_set_def)
qed

theorem BleEnqueue_outcome_witness:
  "ble_wf ble_one \<and>
   (\<exists>st'. BleEnqueueNonBlock True (\<lambda>_. True) ble_take (Some (ble_msg 1)) ble_one = Some (0, st') \<and>
     ble_wf st' \<and> pid_lists st' = [(9, [[], [ble_msg 1], []])])"
proof -
  have s: "serve_spec (inner_lists ble_one) (pid_lists ble_one) =
      (Some (ble_msg 0), [[], [], []], [(9, [[], [], []])])"
    using ble_one_wf by (auto simp: serve_spec_def pid_lists_def)
  have "pid_lists (ble_take ble_one) = [(9, [[], [], []])]"
    using bleq.deq_spec [OF ble_one_wf(1)] unfolding s by (auto simp: ble_take_def split: if_splits)
  moreover have "with_set (\<lambda>_. True) 9 ble_one = ble_one"
    using ble_one_wf(3) by (auto simp: with_set_def pid_lists_def)
  moreover have "ble_pid (ble_msg 1) = 9" "ble_flag (ble_msg 1) = CONN_MIDDLE" "9 \<in> fst ` set (pid_lists ble_one)"
    using ble_one_wf(3) by (auto simp: ble_msg_def pid_lists_def)
  ultimately show ?thesis
    using BleEnqueue_outcome [where m = "ble_msg 1" and lock_ok = True and alloc = "\<lambda>_. True", OF ble_one_wf(1) ble_take_keeps] ble_one_wf(1)
    by (auto simp: target_lists_def add_msg_def prio_push_def GetPriority_def ble_caps_def Let_def)
qed

text \<open>
  C25: The BLE consumer starves no process and loses nothing: with no message of the stack itself queued, the
  process at position \<open>n\<close> of the list is given its next message by the \<open>n + 1\<close>-th dequeue, and as
  many dequeues as there are messages and sets return every queued message exactly once and
  empty the queues.
\<close>

theorem ble_serves_all:
  assumes "ble_wf st"
  shows "(concat (inner_lists st) = [] \<longrightarrow> pid_lists st = pre @ (p, q) # post \<longrightarrow> prio_pop q = Some (m, q') \<longrightarrow>
       (\<exists>vs st'. serve ble_deq (Suc (length pre)) st = Some (vs, st') \<and> vs ! length pre = Some m)) \<and>
     (\<exists>vs st'. serve ble_deq (work_left (inner_lists st) (pid_lists st)) st = Some (vs, st') \<and> ble_wf st' \<and>
       mset (List.map_filter id vs) = lists_msgs (inner_lists st) (pid_lists st) \<and>
       concat (inner_lists st') = [] \<and> pid_lists st' = [])"
  using bleq.serve_fair [OF assms] bleq.serve_drain [OF assms order_refl] by blast

theorem ble_serves_all_witness:
  "ble_wf ble_one \<and> (\<exists>vs st'. serve ble_deq 1 ble_one = Some (vs, st') \<and> vs ! 0 = Some (ble_msg 0)) \<and>
   (\<exists>vs st'. serve ble_deq 2 ble_one = Some (vs, st') \<and> mset (List.map_filter id vs) = {#ble_msg 0#})"
proof -
  have p: "pid_lists ble_one = [] @ (9, [[], [ble_msg 0], []]) # []"
    using ble_one_wf(3) by (auto simp: pid_lists_def)
  have w: "work_left (inner_lists ble_one) (pid_lists ble_one) = 2"
    "lists_msgs (inner_lists ble_one) (pid_lists ble_one) = {#ble_msg 0#}"
    by (simp_all add: p ble_one_wf(2) work_left_def lists_msgs_def)
  from ble_serves_all [OF ble_one_wf(1), of "[]" 9 "[[], [ble_msg 0], []]" "[]" "ble_msg 0" "[[], [], []]"]
  show ?thesis unfolding w using ble_one_wf(1,2) p by auto
qed

text \<open>
  The lock is released between finding a ring and using it: when the consumer serves everything and
  removes the set in between, the producer puts its message into a ring that has been freed.
\<close>

theorem ble_ring_freed_before_use:
  assumes "ble_wf st" "ble_pid m \<noteq> 0" "g_queueList st = pre @ x # post" "pq_pid x = ble_pid m"
    and "work_left (inner_lists st) (pid_lists st) \<le> n"
  shows "BleEnqueueNonBlock True alloc (\<lambda>s. snd (the (serve ble_deq n s))) (Some m) st = None"
proof -
  have f: "find (\<lambda>y. pq_pid y = ble_pid m) (g_queueList st) = Some x"
    unfolding assms(3) using find_addr [of pq_pid pre x post] assms(1,3,4) by (simp add: send_wf_def)
  obtain vs st' where d: "serve ble_deq n st = Some (vs, st')" "ble_wf st'" "pid_lists st' = []"
    using bleq.serve_drain [OF assms(1,5)] by blast
  have "ring_at st' (pq_addr x) i = None" for i
    using serve_freed [OF ble_deq_inner_addr assms(1) d(1,3), of x] assms(3) by (simp add: ring_at_def)
  then show ?thesis using assms(2) f d(1)
    by (simp add: BleEnqueueNonBlock_def Let_def ring_enqueue_def)
qed

theorem ble_ring_freed_before_use_witness:
  "BleEnqueueNonBlock True (\<lambda>_. True) (\<lambda>s. snd (the (serve ble_deq 2 s))) (Some (ble_msg 1)) ble_one = None"
proof -
  obtain x where x: "g_queueList ble_one = [] @ x # []" "pq_pid x = 9" "set_lists x = [[], [ble_msg 0], []]"
    using ble_one_wf(3) by auto
  have "work_left (inner_lists ble_one) (pid_lists ble_one) \<le> 2"
    using x by (simp add: ble_one_wf(2) work_left_def lists_msgs_def pid_lists_def)
  then show ?thesis using ble_ring_freed_before_use [OF ble_one_wf(1) _ x(1), of "ble_msg 1" 2] x(2)
    by (simp add: ble_msg_def)
qed

end
