(* ===== verification/Lnn_Map.thy ===== *)
theory Lnn_Map
  imports Softbus_Prelude "HOL-Library.Multiset"
begin

text \<open>
  The string map of the bus centre, \<^verbatim>\<open>core/bus_center/utils/src/lnn_map.c\<close>: a chained hash table that
  grows when it holds as many nodes as buckets, and its iterator. The chain of a bucket is a list
  of nodes; the iterator's node pointer is the rest of the chain that starts at that node. Keys are
  the bytes of a C string before its terminator. The theorems relate the table to a partial map
  and the iterator to the multiset of the stored nodes. Plain \<open>char\<close> is signed.
\<close>

section \<open>Model\<close>

abbreviation (input) HDF_MIN_MAP_SIZE :: u32 where "HDF_MIN_MAP_SIZE \<equiv> 8"
abbreviation (input) HDF_ENLARGE_FACTOR :: nat where "HDF_ENLARGE_FACTOR \<equiv> 2"
abbreviation (input) HDF_MAP_KEY_MAX_SIZE :: u32 where "HDF_MAP_KEY_MAX_SIZE \<equiv> 1000"
abbreviation (input) HDF_MAP_VALUE_MAX_SIZE :: nat where "HDF_MAP_VALUE_MAX_SIZE \<equiv> 1000"
abbreviation (input) SHIFT_ALIGN_BYTE :: u32 where "SHIFT_ALIGN_BYTE \<equiv> 4"

record MapNode =
  mn_hash :: u32
  mn_valueSize :: u32
  mn_key :: "u8 list"
  mn_value :: "u8 list"

record Map =
  m_nodes :: "MapNode list list option"
  m_nodeSize :: u32
  m_bucketSize :: u32

definition MapHash :: "u8 list option \<Rightarrow> u32" where
  "MapHash key =
     (case key of
        None \<Rightarrow> 0
      | Some ks \<Rightarrow>
          let len = (of_nat (length ks) :: u32)
          in foldl (\<lambda>hash c. hash * 131 + scast c) 0 (take (unat len) ks) AND 0x7FFFFFFF)"

definition MapHashIdx :: "Map \<Rightarrow> u32 \<Rightarrow> u32" where
  "MapHashIdx m hash = hash AND (m_bucketSize m - 1)"

text \<open>
  A bucket of the table, and the table with a bucket replaced; \<^const>\<open>None\<close> when there is no table or
  the index lies outside it.
\<close>

definition bucket_at :: "Map \<Rightarrow> u32 \<Rightarrow> MapNode list option" where
  "bucket_at m idx =
     (case m_nodes m of
        None \<Rightarrow> None
      | Some bs \<Rightarrow> if unat idx < length bs then Some (bs ! unat idx) else None)"

definition bucket_put :: "Map \<Rightarrow> u32 \<Rightarrow> MapNode list \<Rightarrow> Map" where
  "bucket_put m idx chain = m\<lparr>m_nodes := map_option (\<lambda>bs. bs[unat idx := chain]) (m_nodes m)\<rparr>"

definition MapAddNode :: "Map \<Rightarrow> MapNode \<Rightarrow> Map option" where
  "MapAddNode m node =
     (let idx = MapHashIdx m (mn_hash node) in
      map_option (\<lambda>chain. bucket_put m idx (node # chain)) (bucket_at m idx))"

fun add_nodes :: "Map \<Rightarrow> MapNode list \<Rightarrow> Map option" where
  "add_nodes m [] = Some m"
| "add_nodes m (node # chain) =
     (case MapAddNode m node of None \<Rightarrow> None | Some m' \<Rightarrow> add_nodes m' chain)"

fun add_buckets :: "Map \<Rightarrow> MapNode list list \<Rightarrow> Map option" where
  "add_buckets m [] = Some m"
| "add_buckets m (chain # bs) =
     (case add_nodes m chain of None \<Rightarrow> None | Some m' \<Rightarrow> add_buckets m' bs)"

text \<open>The size of the table is computed in \<open>size_t\<close> and passed as \<open>unsigned int\<close>.\<close>

definition MapResize :: "bool \<Rightarrow> Map \<Rightarrow> u32 \<Rightarrow> (int \<times> Map) option" where
  "MapResize sys_ok m sz =
     (if \<not> SoftBusCalloc sys_ok (ucast ((ucast sz :: u64) * 8)) then Some (SOFTBUS_MEM_ERR, m)
      else
        let m' = m\<lparr>m_nodes := Some (replicate (unat sz) []), m_bucketSize := sz\<rparr> in
        (case m_nodes m of
           None \<Rightarrow> Some (SOFTBUS_OK, m')
         | Some tmp \<Rightarrow> map_option (Pair SOFTBUS_OK) (add_buckets m' (take (unat (m_bucketSize m)) tmp))))"

abbreviation (input) sizeof_MapNode :: u64 where "sizeof_MapNode \<equiv> 32"

text \<open>
  The outer \<open>option\<close> is about reading \<open>valueSize\<close> bytes from \<open>value\<close>, the inner one the null pointer
  the function may return.
\<close>

definition MapCreateNode :: "bool \<Rightarrow> u8 list \<Rightarrow> u32 \<Rightarrow> u8 list \<Rightarrow> u32 \<Rightarrow> MapNode option option" where
  "MapCreateNode sys_ok key hash value valueSize =
     (let keySize0 = (of_nat (length key + 1) :: u32);
          keySize = keySize0 + (SHIFT_ALIGN_BYTE - keySize0 mod SHIFT_ALIGN_BYTE)
      in if \<not> SoftBusCalloc sys_ok (ucast (sizeof_MapNode + ucast keySize + ucast valueSize)) then Some None
         else if \<not> memcpy_s_ok (unat keySize) (length key + 1) then Some None
         else if \<not> memcpy_s_ok (unat valueSize) (unat valueSize) then Some None
         else if length value < unat valueSize then None
         else Some (Some \<lparr>mn_hash = hash, mn_valueSize = valueSize, mn_key = key,
                         mn_value = take (unat valueSize) value\<rparr>))"

definition node_matches :: "u32 \<Rightarrow> u8 list \<Rightarrow> MapNode \<Rightarrow> bool" where
  "node_matches hash key node \<longleftrightarrow> mn_hash node = hash \<and> mn_key node = key"

text \<open>
  The search of \<open>LnnMapSet\<close> along a chain: \<open>Inl\<close> of the code it returns with and the changed chain
  when the key is found, \<open>Inr ()\<close> when it is not.
\<close>

fun set_search ::
  "u32 \<Rightarrow> u8 list \<Rightarrow> u8 list \<Rightarrow> u32 \<Rightarrow> MapNode list \<Rightarrow> ((int \<times> MapNode list) + unit) option" where
  "set_search hash key value valueSize [] = Some (Inr ())"
| "set_search hash key value valueSize (node # chain) =
     (if \<not> node_matches hash key node then
        map_option (map_sum (apsnd (Cons node)) id) (set_search hash key value valueSize chain)
      else if mn_valueSize node \<noteq> valueSize then Some (Inl (SOFTBUS_INVALID_PARAM, node # chain))
      else if \<not> memcpy_s_ok (unat (mn_valueSize node)) (unat valueSize)
      then Some (Inl (SOFTBUS_ERR, node # chain))
      else if length value < unat valueSize then None
      else Some (Inl (SOFTBUS_OK, node\<lparr>mn_value := take (unat valueSize) value\<rparr> # chain)))"

text \<open>The size the table grows to.\<close>

definition grown_size :: "u32 \<Rightarrow> u32" where
  "grown_size b = (if b < HDF_MIN_MAP_SIZE then HDF_MIN_MAP_SIZE else push_bit HDF_ENLARGE_FACTOR b)"

definition map_insert ::
  "bool \<Rightarrow> bool \<Rightarrow> Map \<Rightarrow> u8 list \<Rightarrow> u32 \<Rightarrow> u8 list \<Rightarrow> u32 \<Rightarrow> (int \<times> Map) option" where
  "map_insert tab_ok node_ok m ks hash vs valueSize =
     (case (if m_nodeSize m \<ge> m_bucketSize m
            then map_option snd (MapResize tab_ok m (grown_size (m_bucketSize m)))
            else Some m) of
        None \<Rightarrow> None
      | Some m1 \<Rightarrow>
          (case MapCreateNode node_ok ks hash vs valueSize of
             None \<Rightarrow> None
           | Some None \<Rightarrow> Some (SOFTBUS_INVALID_PARAM, m1)
           | Some (Some node) \<Rightarrow>
               map_option (\<lambda>m2. (SOFTBUS_OK, m2\<lparr>m_nodeSize := m_nodeSize m2 + 1\<rparr>)) (MapAddNode m1 node)))"

definition LnnMapSet ::
  "bool \<Rightarrow> bool \<Rightarrow> Map option \<Rightarrow> u8 list option \<Rightarrow> u8 list option \<Rightarrow> u32 \<Rightarrow> (int \<times> Map option) option" where
  "LnnMapSet tab_ok node_ok mp key value valueSize =
     (case (mp, key, value) of
        (Some m, Some ks, Some vs) \<Rightarrow>
          if valueSize = 0 then Some (SOFTBUS_INVALID_PARAM, mp)
          else if valueSize > HDF_MAP_KEY_MAX_SIZE \<or> length ks > HDF_MAP_VALUE_MAX_SIZE
          then Some (SOFTBUS_INVALID_PARAM, mp)
          else
            let hash = MapHash key in
            (case (if m_nodeSize m > 0 \<and> m_nodes m \<noteq> None
                   then Option.bind (bucket_at m (MapHashIdx m hash)) (set_search hash ks vs valueSize)
                   else Some (Inr ())) of
               None \<Rightarrow> None
             | Some (Inl (ret, chain)) \<Rightarrow> Some (ret, Some (bucket_put m (MapHashIdx m hash) chain))
             | Some (Inr _) \<Rightarrow> map_option (apsnd Some) (map_insert tab_ok node_ok m ks hash vs valueSize))
      | _ \<Rightarrow> Some (SOFTBUS_INVALID_PARAM, mp))"

fun get_search :: "u32 \<Rightarrow> u8 list \<Rightarrow> MapNode list \<Rightarrow> u8 list option" where
  "get_search hash key [] = None"
| "get_search hash key (node # chain) =
     (if node_matches hash key node then Some (mn_value node) else get_search hash key chain)"

definition LnnMapGet :: "Map option \<Rightarrow> u8 list option \<Rightarrow> u8 list option option" where
  "LnnMapGet mp key =
     (case (mp, key) of
        (Some m, Some ks) \<Rightarrow>
          if m_nodeSize m = 0 \<or> m_nodes m = None then Some None
          else
            let hash = MapHash key
            in map_option (get_search hash ks) (bucket_at m (MapHashIdx m hash))
      | _ \<Rightarrow> Some None)"

fun erase_search :: "u32 \<Rightarrow> u8 list \<Rightarrow> MapNode list \<Rightarrow> MapNode list option" where
  "erase_search hash key [] = None"
| "erase_search hash key (node # chain) =
     (if node_matches hash key node then Some chain
      else map_option (Cons node) (erase_search hash key chain))"

definition LnnMapErase :: "Map option \<Rightarrow> u8 list option \<Rightarrow> (int \<times> Map option) option" where
  "LnnMapErase mp key =
     (case (mp, key) of
        (Some m, Some ks) \<Rightarrow>
          if m_nodeSize m = 0 \<or> m_nodes m = None then Some (SOFTBUS_INVALID_PARAM, mp)
          else
            let hash = MapHash key; idx = MapHashIdx m hash in
            (case bucket_at m idx of
               None \<Rightarrow> None
             | Some chain \<Rightarrow>
                 (case erase_search hash ks chain of
                    Some chain' \<Rightarrow>
                      Some (SOFTBUS_OK, Some ((bucket_put m idx chain')\<lparr>m_nodeSize := m_nodeSize m - 1\<rparr>))
                  | None \<Rightarrow> Some (SOFTBUS_ERR, mp)))
      | _ \<Rightarrow> Some (SOFTBUS_INVALID_PARAM, mp))"

definition MapGetSize :: "Map option \<Rightarrow> u32" where
  "MapGetSize mp = (case mp of None \<Rightarrow> 0 | Some m \<Rightarrow> m_nodeSize m)"

definition LnnMapInit :: "Map option \<Rightarrow> Map option" where
  "LnnMapInit mp = map_option (\<lambda>m. m\<lparr>m_nodes := None, m_nodeSize := 0, m_bucketSize := 0\<rparr>) mp"

definition LnnMapDelete :: "Map option \<Rightarrow> Map option" where
  "LnnMapDelete mp =
     (case mp of
        None \<Rightarrow> None
      | Some m \<Rightarrow>
          if m_nodes m = None then Some m
          else Some (m\<lparr>m_nodes := None, m_nodeSize := 0, m_bucketSize := 0\<rparr>))"

text \<open>The iterator; \<open>it_node\<close> is empty for a null pointer. The mp it points to is an argument.\<close>

record MapIterator =
  it_node :: "MapNode list"
  it_nodeNum :: u32
  it_bucketNum :: u32

definition LnnMapInitIterator :: "bool \<Rightarrow> Map option \<Rightarrow> MapIterator option" where
  "LnnMapInitIterator alloc_ok mp =
     (if mp = None \<or> \<not> alloc_ok then None
      else Some \<lparr>it_node = [], it_nodeNum = 0, it_bucketNum = 0\<rparr>)"

definition LnnMapHasNext :: "Map \<Rightarrow> MapIterator \<Rightarrow> bool" where
  "LnnMapHasNext m it \<longleftrightarrow> it_nodeNum it < m_nodeSize m"

function next_bucket :: "Map \<Rightarrow> MapIterator \<Rightarrow> MapIterator option" where
  "next_bucket m it =
     (if it_bucketNum it < m_bucketSize m then
        (case bucket_at m (it_bucketNum it) of
           None \<Rightarrow> None
         | Some chain \<Rightarrow>
             let it1 = it\<lparr>it_bucketNum := it_bucketNum it + 1\<rparr> in
             if chain \<noteq> [] then Some (it1\<lparr>it_nodeNum := it_nodeNum it1 + 1, it_node := chain\<rparr>)
             else next_bucket m it1)
      else Some it)"
  by pat_completeness auto
termination
proof (relation "measure (\<lambda>(m, it). unat (m_bucketSize m) - unat (it_bucketNum it))", simp)
  fix m :: Map and it chain it1
  assume a: "it_bucketNum it < m_bucketSize m" "it1 = it\<lparr>it_bucketNum := it_bucketNum it + 1\<rparr>"
  then have "unat (it_bucketNum it + 1) = unat (it_bucketNum it) + 1"
    by (simp add: unat_Suc_less)
  with a show "((m, it1), m, it) \<in> measure (\<lambda>(m, it). unat (m_bucketSize m) - unat (it_bucketNum it))"
    by (simp add: word_less_nat_alt)
qed

declare next_bucket.simps [simp del]

definition LnnMapNext :: "Map \<Rightarrow> MapIterator option \<Rightarrow> MapIterator option option" where
  "LnnMapNext m iter =
     (case iter of
        None \<Rightarrow> Some None
      | Some it \<Rightarrow>
          if LnnMapHasNext m it then
            (case it_node it of
               _ # n # chain \<Rightarrow> Some (Some (it\<lparr>it_nodeNum := it_nodeNum it + 1, it_node := n # chain\<rparr>))
             | _ \<Rightarrow> map_option Some (next_bucket m it))
          else Some (Some it))"

section \<open>Well-formed tables\<close>

definition buckets :: "Map \<Rightarrow> MapNode list list" where
  "buckets m = (case m_nodes m of None \<Rightarrow> [] | Some bs \<Rightarrow> bs)"

definition map_nodes :: "Map \<Rightarrow> MapNode list" where
  "map_nodes m = concat (buckets m)"

definition node_kv :: "MapNode \<Rightarrow> u8 list \<times> u8 list" where
  "node_kv n = (mn_key n, mn_value n)"

text \<open>The partial map a table stands for.\<close>

definition map_abs :: "Map \<Rightarrow> (u8 list \<Rightarrow> u8 list option)" where
  "map_abs m = map_of (map node_kv (map_nodes m))"

definition node_wf :: "MapNode \<Rightarrow> bool" where
  "node_wf n \<longleftrightarrow> mn_hash n = MapHash (Some (mn_key n)) \<and> length (mn_value n) = unat (mn_valueSize n)"

text \<open>A table of a power-of-two size in which every node is in the bucket of its hash.\<close>

definition map_tab :: "Map \<Rightarrow> bool" where
  "map_tab m \<longleftrightarrow>
     m_nodes m \<noteq> None \<and> (\<exists>k \<le> 26. unat (m_bucketSize m) = 2 ^ k) \<and>
     length (buckets m) = unat (m_bucketSize m) \<and>
     (\<forall>i < length (buckets m). \<forall>n \<in> set (buckets m ! i).
        node_wf n \<and> unat (MapHashIdx m (mn_hash n)) = i)"

definition map_wf :: "Map \<Rightarrow> bool" where
  "map_wf m \<longleftrightarrow>
     m_nodes m = None \<and> m_nodeSize m = 0 \<and> m_bucketSize m = 0 \<or>
     map_tab m \<and> distinct (map mn_key (map_nodes m)) \<and> unat (m_nodeSize m) = length (map_nodes m)"

lemma map_tabD:
  "map_tab m \<Longrightarrow> i < length (buckets m) \<Longrightarrow> n \<in> set (buckets m ! i) \<Longrightarrow>
     node_wf n \<and> unat (MapHashIdx m (mn_hash n)) = i"
  by (simp add: map_tab_def)

lemma map_tab_idx:
  assumes "map_tab m"
  shows "unat (MapHashIdx m h) < length (buckets m)"
proof -
  obtain k where k: "unat (m_bucketSize m) = 2 ^ k" using assms by (auto simp: map_tab_def)
  then have "m_bucketSize m \<noteq> 0" by (metis power_not_zero unat_0 zero_neq_numeral)
  then have "unat (m_bucketSize m - 1) = 2 ^ k - 1" using k by (simp add: unat_minus_one)
  then have "unat (MapHashIdx m h) = unat h mod 2 ^ k" unfolding MapHashIdx_def by (rule unat_and_mask)
  then show ?thesis using assms k by (simp add: map_tab_def)
qed

lemma map_tab_bucket:
  assumes "map_tab m"
  shows "bucket_at m (MapHashIdx m h) = Some (buckets m ! unat (MapHashIdx m h))"
  using map_tab_idx [OF assms, of h] assms by (auto simp: bucket_at_def buckets_def map_tab_def)

lemma buckets_put: "m_nodes m \<noteq> None \<Longrightarrow> buckets (bucket_put m i c) = (buckets m)[unat i := c]"
  by (auto simp: buckets_def bucket_put_def)

lemma bucket_put_simps [simp]:
  "m_nodeSize (bucket_put m i c) = m_nodeSize m" "m_bucketSize (bucket_put m i c) = m_bucketSize m"
  "MapHashIdx (bucket_put m i c) h = MapHashIdx m h"
  "m_nodes (bucket_put m i c) = None \<longleftrightarrow> m_nodes m = None"
  by (simp_all add: bucket_put_def MapHashIdx_def)

lemma map_tab_put:
  assumes "map_tab m" "\<forall>n \<in> set c. node_wf n \<and> MapHashIdx m (mn_hash n) = i" "unat i < length (buckets m)"
  shows "map_tab (bucket_put m i c)"
proof -
  have n: "m_nodes m \<noteq> None" using assms(1) by (simp add: map_tab_def)
  have "node_wf x \<and> unat (MapHashIdx m (mn_hash x)) = j"
    if "j < length (buckets m)" "x \<in> set ((buckets m)[unat i := c] ! j)" for j x
    using that assms by (cases "j = unat i") (auto simp: map_tab_def)
  then show ?thesis using assms(1) n by (auto simp: map_tab_def buckets_put)
qed

lemma map_nodes_put:
  assumes "m_nodes m \<noteq> None" "unat i < length (buckets m)"
  shows "map_nodes (bucket_put m i c) =
     concat (take (unat i) (buckets m)) @ c @ concat (drop (Suc (unat i)) (buckets m))"
  using assms by (simp add: map_nodes_def buckets_put concat_update)

lemma map_nodes_decomp:
  "i < length (buckets m) \<Longrightarrow>
     map_nodes m = concat (take i (buckets m)) @ buckets m ! i @ concat (drop (Suc i) (buckets m))"
  unfolding map_nodes_def by (rule concat_nth_decomp)

text \<open>Every node lies in the bucket of its key's hash.\<close>

lemma map_tab_members:
  assumes "map_tab m" "n \<in> set (map_nodes m)"
  shows "node_wf n \<and> n \<in> set (buckets m ! unat (MapHashIdx m (MapHash (Some (mn_key n)))))"
proof -
  obtain c where "c \<in> set (buckets m)" "n \<in> set c" using assms(2) by (auto simp: map_nodes_def)
  then obtain i where i: "i < length (buckets m)" "n \<in> set (buckets m ! i)"
    by (metis in_set_conv_nth)
  then have "node_wf n" "unat (MapHashIdx m (mn_hash n)) = i" using map_tabD [OF assms(1)] by auto
  then show ?thesis using i(2) by (auto simp: node_wf_def)
qed

lemma get_search_map_of:
  "\<forall>n \<in> set chain. node_wf n \<Longrightarrow>
     get_search (MapHash (Some k)) k chain = map_of (map node_kv chain) k"
  by (induction chain) (auto simp: node_matches_def node_kv_def node_wf_def)

lemma map_of_none: "(\<And>n. n \<in> set xs \<Longrightarrow> mn_key n \<noteq> k) \<Longrightarrow> map_of (map node_kv xs) k = None"
  by (induction xs) (auto simp: node_kv_def)

text \<open>Where the other buckets are concerned, a key they do not hold is not looked up there.\<close>

lemma other_buckets:
  assumes "map_tab m" "i = unat (MapHashIdx m (MapHash (Some k)))" "j < length (buckets m)" "j \<noteq> i"
    and "n \<in> set (buckets m ! j)"
  shows "mn_key n \<noteq> k"
  using map_tabD [OF assms(1,3,5)] assms(2,4) by (auto simp: node_wf_def)

lemma outside_bucket:
  assumes "map_tab m" "i = unat (MapHashIdx m (MapHash (Some k)))"
    and "n \<in> set (concat (take i (buckets m))) \<union> set (concat (drop (Suc i) (buckets m)))"
  shows "mn_key n \<noteq> k"
proof -
  have "\<exists>j < length (buckets m). j \<noteq> i \<and> n \<in> set (buckets m ! j)"
  proof (cases "n \<in> set (concat (take i (buckets m)))")
    case True
    then obtain c where "c \<in> set (take i (buckets m))" "n \<in> set c" by auto
    then show ?thesis using in_set_take_nth [of c i "buckets m"] by blast
  next
    case False
    then obtain c where c: "c \<in> set (drop (Suc i) (buckets m))" "n \<in> set c" using assms(3) by auto
    then obtain j where "Suc i \<le> j" "j < length (buckets m)" "buckets m ! j = c"
      using in_set_drop_nth by metis
    then show ?thesis using c(2) by (intro exI [of _ j]) auto
  qed
  then show ?thesis using other_buckets [OF assms(1,2)] by blast
qed

lemma map_abs_bucket:
  assumes "map_tab m"
  shows "map_abs m k = map_of (map node_kv (buckets m ! unat (MapHashIdx m (MapHash (Some k))))) k"
proof -
  define i where "i = unat (MapHashIdx m (MapHash (Some k)))"
  have i: "i < length (buckets m)" unfolding i_def using map_tab_idx [OF assms] .
  have "map_of (map node_kv (concat (take i (buckets m)))) k = None"
    "map_of (map node_kv (concat (drop (Suc i) (buckets m)))) k = None"
    using outside_bucket [OF assms i_def] by (blast intro: map_of_none)+
  then show ?thesis
    unfolding map_abs_def map_nodes_decomp [OF i] i_def [symmetric]
    by (simp add: map_add_def split: option.split)
qed

section \<open>Operations on the table\<close>

lemma MapAddNode_tab:
  assumes "map_tab m" "node_wf n"
  shows "\<exists>m'. MapAddNode m n = Some m' \<and> map_tab m' \<and> m_nodeSize m' = m_nodeSize m \<and>
     mset (map_nodes m') = add_mset n (mset (map_nodes m))"
proof -
  define i where "i = MapHashIdx m (mn_hash n)"
  have i: "unat i < length (buckets m)" unfolding i_def using map_tab_idx [OF assms(1)] .
  have s: "m_nodes m \<noteq> None" using assms(1) by (simp add: map_tab_def)
  let ?c = "n # buckets m ! unat i"
  have "\<forall>x \<in> set ?c. node_wf x \<and> MapHashIdx m (mn_hash x) = i"
    using assms(2) i_def map_tabD [OF assms(1) i] by (auto intro: unsigned_word_eqI)
  then have "map_tab (bucket_put m i ?c)" using map_tab_put [OF assms(1) _ i] by blast
  moreover have "mset (map_nodes (bucket_put m i ?c)) = add_mset n (mset (map_nodes m))"
    by (simp add: map_nodes_put [OF s i] map_nodes_decomp [OF i])
  moreover have "MapAddNode m n = Some (bucket_put m i ?c)"
    using map_tab_bucket [OF assms(1)] by (simp add: MapAddNode_def Let_def i_def)
  ultimately show ?thesis by simp
qed

lemma add_nodes_tab:
  assumes "map_tab m" "\<forall>n \<in> set ns. node_wf n"
  shows "\<exists>m'. add_nodes m ns = Some m' \<and> map_tab m' \<and> m_nodeSize m' = m_nodeSize m \<and>
     mset (map_nodes m') = mset ns + mset (map_nodes m)"
  using assms
proof (induction ns arbitrary: m)
  case (Cons n ns)
  then obtain m1 where "MapAddNode m n = Some m1" "map_tab m1" "m_nodeSize m1 = m_nodeSize m"
    "mset (map_nodes m1) = add_mset n (mset (map_nodes m))" using MapAddNode_tab [of m n] by auto
  with Cons.IH [of m1] Cons.prems show ?case by auto
qed simp

lemma add_buckets_tab:
  assumes "map_tab m" "\<forall>n \<in> set (concat bs). node_wf n"
  shows "\<exists>m'. add_buckets m bs = Some m' \<and> map_tab m' \<and> m_nodeSize m' = m_nodeSize m \<and>
     mset (map_nodes m') = mset (concat bs) + mset (map_nodes m)"
  using assms
proof (induction bs arbitrary: m)
  case (Cons c bs)
  then obtain m1 where "add_nodes m c = Some m1" "map_tab m1" "m_nodeSize m1 = m_nodeSize m"
    "mset (map_nodes m1) = mset c + mset (map_nodes m)" using add_nodes_tab [of m c] by auto
  with Cons.IH [of m1] Cons.prems show ?case by auto
qed simp

text \<open>A new empty table of a power-of-two size.\<close>

lemma map_tab_fresh:
  assumes "k \<le> 26" "unat sz = 2 ^ k"
  shows "map_tab (m\<lparr>m_nodes := Some (replicate (unat sz) []), m_bucketSize := sz\<rparr>)"
    "map_nodes (m\<lparr>m_nodes := Some (replicate (unat sz) []), m_bucketSize := sz\<rparr>) = []"
  using assms by (auto simp: map_tab_def buckets_def map_nodes_def)

lemma MapResize_tab:
  assumes "map_wf m" "k \<le> 26" "unat sz = 2 ^ k" "SoftBusCalloc tab_ok (ucast ((ucast sz :: u64) * 8))"
  shows "\<exists>m'. MapResize tab_ok m sz = Some (SOFTBUS_OK, m') \<and> map_tab m' \<and> m_nodeSize m' = m_nodeSize m \<and>
     mset (map_nodes m') = mset (map_nodes m)"
proof -
  let ?m = "m\<lparr>m_nodes := Some (replicate (unat sz) []), m_bucketSize := sz\<rparr>"
  note f = map_tab_fresh [OF assms(2,3), of m]
  from assms(1) consider "m_nodes m = None" | bs where "m_nodes m = Some bs" "map_tab m"
    by (auto simp: map_wf_def map_tab_def)
  then show ?thesis
  proof cases
    case 1
    then show ?thesis using assms(4) f by (simp add: MapResize_def Let_def map_nodes_def buckets_def)
  next
    case 2
    then have b: "buckets m = bs" "map_nodes m = concat bs" "length bs = unat (m_bucketSize m)"
      by (simp_all add: buckets_def map_nodes_def map_tab_def)
    have "\<forall>n \<in> set (concat bs). node_wf n" using map_tab_members [OF 2(2)] b(2) by metis
    from add_buckets_tab [OF f(1) this] show ?thesis
      using 2(1) assms(4) b f(2) by (auto simp: MapResize_def Let_def)
  qed
qed

lemma map_abs_cong:
  assumes "mset (map_nodes m') = mset (map_nodes m)" "distinct (map mn_key (map_nodes m))"
  shows "map_abs m' = map_abs m \<and> distinct (map mn_key (map_nodes m'))"
proof -
  have k: "map fst (map node_kv xs) = map mn_key xs" for xs by (simp add: node_kv_def)
  have "mset (map mn_key (map_nodes m')) = mset (map mn_key (map_nodes m))"
    using assms(1) by (simp only: mset_map)
  then have d: "distinct (map mn_key (map_nodes m'))"
    using assms(2) mset_eq_imp_distinct_iff by blast
  have "set (map node_kv (map_nodes m')) = set (map node_kv (map_nodes m))"
    using assms(1) by (metis set_map set_mset_mset)
  then show ?thesis
    unfolding map_abs_def using map_of_inject_set [of "map node_kv (map_nodes m')" "map node_kv (map_nodes m)"]
      d assms(2) by (simp only: k)
qed

text \<open>Growing the table: it keeps its contents, and where there is a table afterwards it is well formed.\<close>

lemma grown_size_pow:
  assumes "b = 0 \<or> (\<exists>k \<le> 26. unat b = 2 ^ k)" "SoftBusCalloc tab_ok (ucast ((ucast (grown_size b) :: u64) * 8))"
  shows "\<exists>k \<le> 26. unat (grown_size b) = 2 ^ k"
proof (cases "b < 8")
  case True
  then show ?thesis by (intro exI [of _ 3]) (simp add: grown_size_def)
next
  case False
  then obtain k where k: "k \<le> 26" "unat b = 2 ^ k" using assms(1) by auto
  have p: "(2::nat) ^ k \<le> 2 ^ 26" using k(1) by (rule power_increasing) simp
  have "grown_size b = b * 4" using False by (simp add: grown_size_def push_bit_eq_mult mult.commute)
  moreover have "unat (b * 4) = 2 ^ k * 4" using p k(2) by (simp add: unat_word_ariths)
  ultimately have g: "unat (grown_size b) = 2 ^ (k + 2)" by (simp add: power_add)
  have "unat ((ucast (grown_size b) :: u64) * 8) = 2 ^ (k + 2) * 8"
    using g p by (simp add: unat_word_ariths unsigned_ucast_eq power_add take_bit_nat_eq_self)
  then have "unat (ucast ((ucast (grown_size b) :: u64) * 8) :: u32) = 2 ^ (k + 5)"
    using p by (simp add: unsigned_ucast_eq power_add take_bit_nat_eq_self)
  then have "2 ^ (k + 5) \<le> (536870912 :: nat)"
    using assms(2) by (simp add: SoftBusCalloc_def SoftBusMalloc_def word_le_nat_alt not_less split: if_splits)
  then have "(2::nat) ^ (k + 5) \<le> 2 ^ 29" by simp
  then have "k + 5 \<le> 29" by (rule power_le_imp_le_exp [rotated]) simp
  with g show ?thesis by (intro exI [of _ "k + 2"]) simp
qed

definition grow :: "bool \<Rightarrow> Map \<Rightarrow> Map option" where
  "grow tab_ok m =
     (if m_nodeSize m \<ge> m_bucketSize m then map_option snd (MapResize tab_ok m (grown_size (m_bucketSize m)))
      else Some m)"

lemma grow_tab:
  assumes "map_wf m" "m_nodes m \<noteq> None \<or> tab_ok"
  shows "\<exists>m1. grow tab_ok m = Some m1 \<and> map_tab m1 \<and> m_nodeSize m1 = m_nodeSize m \<and>
     mset (map_nodes m1) = mset (map_nodes m)"
proof -
  let ?sz = "grown_size (m_bucketSize m)"
  have b: "m_bucketSize m = 0 \<or> (\<exists>k \<le> 26. unat (m_bucketSize m) = 2 ^ k)"
    and t: "m_nodes m \<noteq> None \<longrightarrow> map_tab m"
    and e: "m_nodes m = None \<longrightarrow> m_nodeSize m = 0 \<and> m_bucketSize m = 0"
    using assms(1) by (auto simp: map_wf_def map_tab_def)
  show ?thesis
  proof (cases "m_nodeSize m \<ge> m_bucketSize m \<and> SoftBusCalloc tab_ok (ucast ((ucast ?sz :: u64) * 8))")
    case True
    then obtain k where "k \<le> 26" "unat ?sz = 2 ^ k" using grown_size_pow [OF b] by blast
    from MapResize_tab [OF assms(1) this, of tab_ok] True show ?thesis by (auto simp: grow_def)
  next
    case False
    have "m_nodes m \<noteq> None"
    proof
      assume n: "m_nodes m = None"
      then have "?sz = 8" using e by (simp add: grown_size_def)
      then have "SoftBusCalloc tab_ok (ucast ((ucast ?sz :: u64) * 8))"
        using assms(2) n by (simp add: SoftBusCalloc_def SoftBusMalloc_def)
      with False n e show False by simp
    qed
    then show ?thesis using t False by (auto simp: grow_def MapResize_def)
  qed
qed

lemma MapCreateNode_ok:
  assumes "0 < valueSize" "valueSize \<le> 1000" "length ks \<le> 1000" "unat valueSize \<le> length vs"
  shows "MapCreateNode node_ok ks hash vs valueSize =
     Some (if node_ok then Some \<lparr>mn_hash = hash, mn_valueSize = valueSize, mn_key = ks,
                                 mn_value = take (unat valueSize) vs\<rparr> else None)"
proof -
  define n where "n = length ks + 1"
  define k0 where "k0 = (of_nat n :: u32)"
  define k where "k = k0 + (4 - k0 mod 4)"
  have n: "n \<le> 1001" using assms(3) by (simp add: n_def)
  have v: "0 < unat valueSize" "unat valueSize \<le> 1000"
    using assms(1,2) by (simp_all add: word_less_nat_alt word_le_nat_alt)
  have u0: "unat k0 = n" unfolding k0_def using n by (simp add: unat_of_nat take_bit_nat_eq_self)
  have um: "unat (k0 mod 4) = n mod 4" by (simp add: unat_mod_distrib u0)
  have "k0 mod 4 \<le> 4" by (simp add: word_le_nat_alt um)
  then have "unat (4 - k0 mod 4) = 4 - n mod 4" by (simp add: unat_sub um)
  then have uk: "unat k = n + (4 - n mod 4)" unfolding k_def using n u0 by (simp add: unat_word_ariths)
  then have kb: "n \<le> unat k" "unat k \<le> 1005" using n by simp_all
  have "unat (32 + ucast k + ucast valueSize :: u64) = 32 + unat k + unat valueSize"
    using kb v by (simp add: unat_word_ariths unsigned_ucast_eq take_bit_nat_eq_self)
  then have sz: "unat (ucast (32 + ucast k + ucast valueSize :: u64) :: u32) = 32 + unat k + unat valueSize"
    using kb v by (simp add: unsigned_ucast_eq take_bit_nat_eq_self)
  have "SoftBusCalloc node_ok (ucast (32 + ucast k + ucast valueSize :: u64)) = node_ok"
    using kb v by (simp add: SoftBusCalloc_def SoftBusMalloc_def word_less_nat_alt sz)
  moreover have "memcpy_s_ok (unat k) n" "memcpy_s_ok (unat valueSize) (unat valueSize)"
    using kb v n_def by (simp_all add: memcpy_s_ok_def)
  ultimately show ?thesis
    using assms(4) unfolding MapCreateNode_def Let_def n_def [symmetric] k0_def [symmetric] k_def [symmetric]
    by simp
qed

text \<open>Adding a node for a key that is not there.\<close>

lemma map_insert_wf:
  assumes "map_wf m" "m_nodes m \<noteq> None \<or> tab_ok" "map_abs m ks = None" "m_nodeSize m < 0xFFFFFFFF"
    and "0 < valueSize" "valueSize \<le> 1000" "length ks \<le> 1000" "unat valueSize \<le> length vs"
  shows "\<exists>m'. map_insert tab_ok node_ok m ks (MapHash (Some ks)) vs valueSize =
       Some (if node_ok then SOFTBUS_OK else SOFTBUS_INVALID_PARAM, m') \<and> map_wf m' \<and>
     map_abs m' = (if node_ok then (map_abs m)(ks \<mapsto> take (unat valueSize) vs) else map_abs m) \<and>
     m_nodeSize m' = (if node_ok then m_nodeSize m + 1 else m_nodeSize m)"
proof -
  have d: "distinct (map mn_key (map_nodes m))" "unat (m_nodeSize m) = length (map_nodes m)"
    using assms(1) by (auto simp: map_wf_def map_nodes_def buckets_def)
  obtain m1 where g: "grow tab_ok m = Some m1" "map_tab m1" "m_nodeSize m1 = m_nodeSize m"
    "mset (map_nodes m1) = mset (map_nodes m)" using grow_tab [OF assms(1,2)] by blast
  have c: "map_abs m1 = map_abs m" "distinct (map mn_key (map_nodes m1))"
    using map_abs_cong [OF g(4) d(1)] by auto
  have l: "length (map_nodes m1) = length (map_nodes m)" using g(4) by (rule mset_eq_length)
  note cn = MapCreateNode_ok [OF assms(5-8), of node_ok "MapHash (Some ks)"]
  show ?thesis
  proof (cases node_ok)
    case False
    then show ?thesis using g c d l cn by (auto simp: map_insert_def grow_def [symmetric] map_wf_def)
  next
    case True
    define n where "n = \<lparr>mn_hash = MapHash (Some ks), mn_valueSize = valueSize, mn_key = ks,
                       mn_value = take (unat valueSize) vs\<rparr>"
    have nw: "node_wf n" using assms(8) by (simp add: node_wf_def n_def)
    obtain m2 where a: "MapAddNode m1 n = Some m2" "map_tab m2" "m_nodeSize m2 = m_nodeSize m1"
      "mset (map_nodes m2) = add_mset n (mset (map_nodes m1))" using MapAddNode_tab [OF g(2) nw] by blast
    have nk: "mn_key n = ks" "node_kv n = (ks, take (unat valueSize) vs)" by (simp_all add: n_def node_kv_def)
    have "ks \<notin> set (map mn_key (map_nodes m1))"
    proof -
      have "map_abs m1 ks = None" using assms(3) c(1) by simp
      then show ?thesis by (auto simp: map_abs_def map_of_eq_None_iff node_kv_def image_comp)
    qed
    then have d2: "distinct (map mn_key (n # map_nodes m1))" using c(2) nk(1) by simp
    define m3 where "m3 = m2\<lparr>m_nodeSize := m_nodeSize m2 + 1\<rparr>"
    have n3: "map_nodes m3 = map_nodes m2" "map_tab m3" "m_nodeSize m3 = m_nodeSize m + 1"
      using a(2,3) g(3) by (auto simp: m3_def map_nodes_def buckets_def map_tab_def MapHashIdx_def)
    have "distinct (map mn_key (map_nodes m2))"
      using d2 a(4) by (metis mset.simps(2) mset_eq_imp_distinct_iff mset_map)
    moreover have "unat (m_nodeSize m + 1) = length (map_nodes m2)"
      using unat_Suc_less [OF assms(4)] d(2) l mset_eq_length [of "map_nodes m2" "n # map_nodes m1"] a(4) by simp
    ultimately have w3: "map_wf m3" using n3 by (simp add: map_wf_def)
    have "map_abs m2 = map_of (map node_kv (n # map_nodes m1))"
      using map_abs_cong [of m2 "m2\<lparr>m_nodes := Some [n # map_nodes m1]\<rparr>"] d2 a(4)
      by (simp add: map_abs_def map_nodes_def buckets_def)
    then have "map_abs m3 = (map_abs m)(ks \<mapsto> take (unat valueSize) vs)"
      using c(1) nk(2) n3(1) by (simp add: map_abs_def)
    then show ?thesis
      using True g(1) cn a(1) w3 n3(3)
      by (simp add: map_insert_def grow_def [symmetric] n_def [symmetric] m3_def [symmetric])
  qed
qed

section \<open>Searching a chain\<close>

lemma chain_cases:
  obtains (none_found) "\<And>n. n \<in> set chain \<Longrightarrow> mn_key n \<noteq> k"
  | (found) pre n post where "chain = pre @ n # post" "mn_key n = k" "\<And>x. x \<in> set pre \<Longrightarrow> mn_key x \<noteq> k"
proof (cases "\<exists>n \<in> set chain. mn_key n = k")
  case True
  then obtain pre n post where "chain = pre @ n # post" "mn_key n = k" "\<forall>x \<in> set pre. mn_key x \<noteq> k"
    using split_list_first_prop [of chain "\<lambda>n. mn_key n = k"] by metis
  then show ?thesis by (intro found [of pre n post]) auto
next
  case False
  then show ?thesis by (intro none_found) auto
qed

lemma search_absent:
  assumes "\<And>n. n \<in> set chain \<Longrightarrow> mn_key n \<noteq> k"
  shows "set_search h k vs sz chain = Some (Inr ())" "erase_search h k chain = None"
  using assms by (induction chain) (auto simp: node_matches_def)

lemma search_present:
  assumes "\<forall>x \<in> set pre. mn_key x \<noteq> mn_key n" "node_wf n" "0 < sz" "sz \<le> 1000" "unat sz \<le> length vs"
  shows "set_search (MapHash (Some (mn_key n))) (mn_key n) vs sz (pre @ n # post) =
       Some (Inl (if mn_valueSize n = sz then (SOFTBUS_OK, pre @ n\<lparr>mn_value := take (unat sz) vs\<rparr> # post)
                  else (SOFTBUS_INVALID_PARAM, pre @ n # post)))"
proof -
  have "0 < unat sz" "unat sz \<le> 1000" using assms(3,4) by (simp_all add: word_less_nat_alt word_le_nat_alt)
  then have "memcpy_s_ok (unat sz) (unat sz)" by (simp add: memcpy_s_ok_def)
  then show ?thesis
    using assms(1,2,5) by (induction pre) (auto simp: node_matches_def node_wf_def)
qed

lemma erase_present:
  assumes "\<forall>x \<in> set pre. mn_key x \<noteq> mn_key n" "node_wf n"
  shows "erase_search (MapHash (Some (mn_key n))) (mn_key n) (pre @ n # post) = Some (pre @ post)"
  using assms by (induction pre) (auto simp: node_matches_def node_wf_def)

lemma map_of_update:
  assumes "distinct (map mn_key (xs @ n # ys))" "mn_key n' = mn_key n"
  shows "map_of (map node_kv (xs @ n' # ys)) = (map_of (map node_kv (xs @ n # ys)))(mn_key n \<mapsto> mn_value n')"
  using assms by (induction xs) (auto simp: node_kv_def fun_upd_twist)

lemma map_of_remove:
  assumes "distinct (map mn_key (xs @ n # ys))"
  shows "map_of (map node_kv (xs @ ys)) = (map_of (map node_kv (xs @ n # ys)))(mn_key n := None)"
  using assms
proof (induction xs)
  case Nil
  then have "map_of (map node_kv ys) (mn_key n) = None" by (intro map_of_none) (simp, metis imageI)
  moreover have "node_kv n = (mn_key n, mn_value n)" by (simp add: node_kv_def)
  ultimately show ?case by (auto simp: fun_eq_iff)
next
  case (Cons x xs)
  then show ?case by (auto simp: node_kv_def fun_upd_twist)
qed

text \<open>A bucket in which the node of a key is found or not.\<close>

lemma key_bucket:
  assumes "map_tab m" "distinct (map mn_key (map_nodes m))"
  obtains (absent) chain where "bucket_at m (MapHashIdx m (MapHash (Some k))) = Some chain"
      "\<And>n. n \<in> set chain \<Longrightarrow> mn_key n \<noteq> k" "map_abs m k = None"
  | (present) A pre n post B where "bucket_at m (MapHashIdx m (MapHash (Some k))) = Some (pre @ n # post)"
      "mn_key n = k" "\<And>x. x \<in> set pre \<Longrightarrow> mn_key x \<noteq> k" "node_wf n" "map_abs m k = Some (mn_value n)"
      "map_nodes m = A @ (pre @ n # post) @ B"
      "\<And>c. map_nodes (bucket_put m (MapHashIdx m (MapHash (Some k))) c) = A @ c @ B"
      "\<And>c. (\<And>x. x \<in> set c \<Longrightarrow> node_wf x \<and> (x \<in> set (pre @ n # post) \<or> mn_hash x = MapHash (Some k))) \<Longrightarrow>
         map_tab (bucket_put m (MapHashIdx m (MapHash (Some k))) c)"
proof -
  define i where "i = MapHashIdx m (MapHash (Some k))"
  define chain where "chain = buckets m ! unat i"
  have i: "unat i < length (buckets m)" unfolding i_def using map_tab_idx [OF assms(1)] .
  have s: "m_nodes m \<noteq> None" using assms(1) by (simp add: map_tab_def)
  have b: "bucket_at m i = Some chain" unfolding i_def chain_def using map_tab_bucket [OF assms(1)] .
  have a: "map_abs m k = map_of (map node_kv chain) k"
    unfolding chain_def i_def using map_abs_bucket [OF assms(1)] .
  show thesis
  proof (cases rule: chain_cases [of chain k])
    case none_found
    then show ?thesis using b a map_of_none [of chain k] by (intro absent [of chain]) (auto simp: i_def)
  next
    case (found pre n post)
    note 2 = this
    have c: "node_wf x \<and> MapHashIdx m (mn_hash x) = i" if "x \<in> set chain" for x
      using that map_tabD [OF assms(1) i] by (auto simp: chain_def intro: unsigned_word_eqI)
    have w: "node_wf n" using c 2(1) by simp
    have v: "map_abs m k = Some (mn_value n)"
      using 2 map_of_none [of pre k] by (simp add: a map_add_def node_kv_def split: option.split)
    have t: "map_tab (bucket_put m i d)"
      if "\<And>x. x \<in> set d \<Longrightarrow> node_wf x \<and> (x \<in> set (pre @ n # post) \<or> mn_hash x = MapHash (Some k))" for d
    proof (rule map_tab_put [OF assms(1) _ i])
      show "\<forall>x \<in> set d. node_wf x \<and> MapHashIdx m (mn_hash x) = i"
        using that c 2(1) i_def by metis
    qed
    show ?thesis
      by (rule present [of pre n post, OF _ 2(2,3) w v])
        (use b 2(1) t map_nodes_decomp [OF i] map_nodes_put [OF s i] in \<open>simp_all add: i_def chain_def\<close>)
  qed
qed

section \<open>The operations on a well-formed map\<close>

lemma map_wf_cases:
  assumes "map_wf m"
  obtains (empty) "m_nodes m = None" "m_nodeSize m = 0" "m_bucketSize m = 0" "map_abs m = Map.empty" "map_nodes m = []"
  | (table) "map_tab m" "distinct (map mn_key (map_nodes m))" "unat (m_nodeSize m) = length (map_nodes m)"
      "m_nodes m \<noteq> None"
  using assms
  by (auto simp: map_wf_def map_tab_def map_abs_def map_nodes_def buckets_def)

lemma LnnMapGet_wf:
  assumes "map_wf m"
  shows "LnnMapGet (Some m) (Some k) = Some (map_abs m k)"
  using assms
proof (cases rule: map_wf_cases)
  case empty
  then show ?thesis by (simp add: LnnMapGet_def)
next
  case table
  show ?thesis
  proof (cases "m_nodeSize m = 0")
    case True
    then have "map_nodes m = []" using table(3) by simp
    then show ?thesis using True by (simp add: LnnMapGet_def map_abs_def)
  next
    case False
    let ?i = "MapHashIdx m (MapHash (Some k))"
    have "\<forall>n \<in> set (buckets m ! unat ?i). node_wf n"
      using map_tabD [OF table(1) map_tab_idx [OF table(1)]] by blast
    then show ?thesis
      using False table(4) map_tab_bucket [OF table(1)] map_abs_bucket [OF table(1)]
      by (auto simp: LnnMapGet_def Let_def get_search_map_of)
  qed
qed

lemma LnnMapErase_wf:
  assumes "map_wf m"
  shows "\<exists>r m'. LnnMapErase (Some m) (Some k) = Some (r, Some m') \<and> map_wf m' \<and>
     map_abs m' = (map_abs m)(k := None) \<and> (r = SOFTBUS_OK \<longleftrightarrow> map_abs m k \<noteq> None) \<and>
     m_nodeSize m' = (if map_abs m k = None then m_nodeSize m else m_nodeSize m - 1)"
proof (cases "m_nodeSize m = 0 \<or> m_nodes m = None")
  case True
  have "map_nodes m = []"
  proof (cases rule: map_wf_cases [OF assms])
    case 1
    then show ?thesis by simp
  next
    case 2
    then show ?thesis using True by auto
  qed
  then have "map_abs m = Map.empty" by (simp add: map_abs_def)
  then show ?thesis using True assms by (simp add: LnnMapErase_def)
next
  case False
  with assms have t: "map_tab m" "distinct (map mn_key (map_nodes m))"
    "unat (m_nodeSize m) = length (map_nodes m)" by (auto simp: map_wf_def)
  show ?thesis
  proof (cases rule: key_bucket [OF t(1,2), of k])
    case (1 chain)
    have "(map_abs m)(k := None) = map_abs m" using 1(3) by (simp add: fun_upd_idem)
    then show ?thesis using 1 False assms search_absent(2) [OF 1(2)]
      by (auto simp: LnnMapErase_def Let_def)
  next
    case (2 A pre n post B)
    then have p: "\<forall>x \<in> set pre. mn_key x \<noteq> mn_key n" by simp
    define i where "i = MapHashIdx m (MapHash (Some k))"
    define m' where "m' = (bucket_put m i (pre @ post))\<lparr>m_nodeSize := m_nodeSize m - 1\<rparr>"
    have e: "LnnMapErase (Some m) (Some k) = Some (SOFTBUS_OK, Some m')"
      using False 2(1) erase_present [OF p 2(4), of post] 2(2)
      by (auto simp: LnnMapErase_def Let_def m'_def i_def)
    have n': "map_nodes m' = A @ (pre @ post) @ B"
      using 2(7) by (simp add: m'_def i_def map_nodes_def buckets_def)
    have "map_tab (bucket_put m i (pre @ post))"
      unfolding i_def using map_tab_members [OF t(1)] 2(6) by (intro 2(8)) auto
    then have t': "map_tab m'" by (auto simp: m'_def map_tab_def buckets_def MapHashIdx_def)
    have d: "distinct (map mn_key ((A @ pre) @ n # (post @ B)))" using t(2) 2(6) by simp
    have "map_abs m' = (map_abs m)(k := None)"
      unfolding map_abs_def n' 2(6) using map_of_remove [OF d] 2(2) by simp
    moreover have "unat (m_nodeSize m - 1) = length (map_nodes m')"
      using t(3) False n' 2(6) by (simp add: unat_minus_one)
    ultimately show ?thesis
      using e t' d n' 2(5) by (auto simp: map_wf_def m'_def)
  qed
qed

lemma LnnMapSet_wf:
  assumes "map_wf m" "m_nodes m \<noteq> None \<or> tab_ok" "m_nodeSize m < 0xFFFFFFFF"
    and "0 < sz" "sz \<le> 1000" "length ks \<le> 1000" "unat sz \<le> length vs"
  shows "\<exists>r m'. LnnMapSet tab_ok node_ok (Some m) (Some ks) (Some vs) sz = Some (r, Some m') \<and> map_wf m' \<and>
     (r = SOFTBUS_OK \<longleftrightarrow> (case map_abs m ks of None \<Rightarrow> node_ok | Some v \<Rightarrow> length v = unat sz)) \<and>
     r \<in> {SOFTBUS_OK, SOFTBUS_INVALID_PARAM} \<and>
     map_abs m' = (if r = SOFTBUS_OK then (map_abs m)(ks \<mapsto> take (unat sz) vs) else map_abs m) \<and>
     m_nodeSize m' = (if r = SOFTBUS_OK \<and> map_abs m ks = None then m_nodeSize m + 1 else m_nodeSize m)"
proof (cases "m_nodeSize m = 0 \<or> m_nodes m = None \<or> map_abs m ks = None")
  case True
  have a: "map_abs m ks = None"
    using True LnnMapGet_wf [OF assms(1), of ks] by (auto simp: LnnMapGet_def)
  have "(if m_nodeSize m > 0 \<and> m_nodes m \<noteq> None
         then Option.bind (bucket_at m (MapHashIdx m (MapHash (Some ks)))) (set_search (MapHash (Some ks)) ks vs sz)
         else Some (Inr ())) = Some (Inr ())"
  proof (cases "m_nodeSize m > 0 \<and> m_nodes m \<noteq> None")
    case True
    with assms(1) have t: "map_tab m" "distinct (map mn_key (map_nodes m))" by (auto simp: map_wf_def)
    show ?thesis using True a search_absent(1)
      by (cases rule: key_bucket [OF t, of ks]) auto
  qed auto
  moreover obtain m' where i: "map_insert tab_ok node_ok m ks (MapHash (Some ks)) vs sz =
       Some (if node_ok then SOFTBUS_OK else SOFTBUS_INVALID_PARAM, m')" "map_wf m'"
     "map_abs m' = (if node_ok then (map_abs m)(ks \<mapsto> take (unat sz) vs) else map_abs m)"
     "m_nodeSize m' = (if node_ok then m_nodeSize m + 1 else m_nodeSize m)"
    using map_insert_wf [OF assms(1,2) a assms(3-7), of node_ok] by blast
  ultimately have "LnnMapSet tab_ok node_ok (Some m) (Some ks) (Some vs) sz =
      Some (if node_ok then SOFTBUS_OK else SOFTBUS_INVALID_PARAM, Some m')"
    using assms(4-6) by (simp add: LnnMapSet_def Let_def word_gt_0 not_less)
  then show ?thesis using i(2-4) a by (cases node_ok) simp_all
next
  case False
  with assms(1) have t: "map_tab m" "distinct (map mn_key (map_nodes m))"
    "unat (m_nodeSize m) = length (map_nodes m)" by (auto simp: map_wf_def)
  show ?thesis
  proof (cases rule: key_bucket [OF t(1,2), of ks])
    case (1 chain)
    then show ?thesis using False by simp
  next
    case (2 A pre n post B)
    then have p: "\<forall>x \<in> set pre. mn_key x \<noteq> mn_key n" by simp
    define i where "i = MapHashIdx m (MapHash (Some ks))"
    define c where "c = (if mn_valueSize n = sz then pre @ n\<lparr>mn_value := take (unat sz) vs\<rparr> # post
                          else pre @ n # post)"
    have e: "LnnMapSet tab_ok node_ok (Some m) (Some ks) (Some vs) sz =
        Some (if mn_valueSize n = sz then SOFTBUS_OK else SOFTBUS_INVALID_PARAM, Some (bucket_put m i c))"
      using False assms(4-6) 2(1) search_present [OF p 2(4) assms(4,5,7), of post] 2(2)
      by (auto simp: LnnMapSet_def Let_def i_def c_def word_gt_0 not_less)
    have n': "map_nodes (bucket_put m i c) = A @ c @ B" using 2(7) by (simp add: i_def)
    have "map_tab (bucket_put m i c)"
      unfolding i_def using map_tab_members [OF t(1)] 2(2,4,6) assms(7)
      by (intro 2(8)) (auto simp: c_def node_wf_def split: if_splits)
    moreover have d: "distinct (map mn_key ((A @ pre) @ n # (post @ B)))" using t(2) 2(6) by simp
    ultimately have w: "map_wf (bucket_put m i c)"
      using t(3) 2(6) n' by (auto simp: map_wf_def c_def)
    have "map_abs (bucket_put m i c) = (if mn_valueSize n = sz then (map_abs m)(ks \<mapsto> take (unat sz) vs) else map_abs m)"
      unfolding map_abs_def n' 2(6) using map_of_update [OF d, of "n\<lparr>mn_value := take (unat sz) vs\<rparr>"] 2(2)
      by (simp add: c_def)
    moreover have "length (mn_value n) = unat sz \<longleftrightarrow> mn_valueSize n = sz"
      using 2(4) by (auto simp: node_wf_def intro: unsigned_word_eqI)
    ultimately show ?thesis using e w 2(5) by simp
  qed
qed

section \<open>The interface: a dictionary\<close>

text \<open>
  What the clients of the map use it for: a partial map whose values keep their size. \<open>put_spec\<close> and
  \<open>del_spec\<close> are the abstract operations with the codes they answer.
\<close>

definition put_spec :: "'k \<Rightarrow> 'v list \<Rightarrow> ('k \<Rightarrow> 'v list option) \<Rightarrow> int \<times> ('k \<Rightarrow> 'v list option)" where
  "put_spec k v d =
     (case d k of
        Some old \<Rightarrow> if length old = length v then (SOFTBUS_OK, d(k \<mapsto> v)) else (SOFTBUS_INVALID_PARAM, d)
      | None \<Rightarrow> (SOFTBUS_OK, d(k \<mapsto> v)))"

definition del_spec :: "'k \<Rightarrow> ('k \<Rightarrow> 'v option) \<Rightarrow> int \<times> ('k \<Rightarrow> 'v option)" where
  "del_spec k d =
     (if d k \<noteq> None then SOFTBUS_OK else if d = Map.empty then SOFTBUS_INVALID_PARAM else SOFTBUS_ERR,
      d(k := None))"

datatype ('k, 'v) map_op = Put 'k "'v list" | Get 'k | Del 'k

datatype 'v map_out = Ret int | Val "'v list option"

fun dict_spec ::
  "('k \<Rightarrow> 'v list option) \<Rightarrow> ('k, 'v) map_op list \<Rightarrow> ('k \<Rightarrow> 'v list option) \<times> 'v map_out list" where
  "dict_spec d [] = (d, [])"
| "dict_spec d (Put k v # ops) = apsnd (Cons (Ret (fst (put_spec k v d)))) (dict_spec (snd (put_spec k v d)) ops)"
| "dict_spec d (Get k # ops) = apsnd (Cons (Val (d k))) (dict_spec d ops)"
| "dict_spec d (Del k # ops) = apsnd (Cons (Ret (fst (del_spec k d)))) (dict_spec (snd (del_spec k d)) ops)"

fun run_dict ::
  "('s \<Rightarrow> 'k \<Rightarrow> 'v list \<Rightarrow> (int \<times> 's) option) \<Rightarrow> ('s \<Rightarrow> 'k \<Rightarrow> 'v list option option) \<Rightarrow>
     ('s \<Rightarrow> 'k \<Rightarrow> (int \<times> 's) option) \<Rightarrow> 's \<Rightarrow> ('k, 'v) map_op list \<Rightarrow> ('s \<times> 'v map_out list) option" where
  "run_dict put get del s [] = Some (s, [])"
| "run_dict put get del s (Put k v # ops) =
     (case put s k v of
        None \<Rightarrow> None | Some (r, s') \<Rightarrow> map_option (apsnd (Cons (Ret r))) (run_dict put get del s' ops))"
| "run_dict put get del s (Get k # ops) =
     (case get s k of
        None \<Rightarrow> None | Some v \<Rightarrow> map_option (apsnd (Cons (Val v))) (run_dict put get del s ops))"
| "run_dict put get del s (Del k # ops) =
     (case del s k of
        None \<Rightarrow> None | Some (r, s') \<Rightarrow> map_option (apsnd (Cons (Ret r))) (run_dict put get del s' ops))"

locale dictionary =
  fixes put :: "'s \<Rightarrow> 'k \<Rightarrow> 'v list \<Rightarrow> (int \<times> 's) option"
    and get :: "'s \<Rightarrow> 'k \<Rightarrow> 'v list option option"
    and del :: "'s \<Rightarrow> 'k \<Rightarrow> (int \<times> 's) option"
    and abs :: "'s \<Rightarrow> 'k \<Rightarrow> 'v list option"
    and used :: "'s \<Rightarrow> nat"
    and limit :: nat
    and admissible :: "'k \<Rightarrow> 'v list \<Rightarrow> bool"
    and invar :: "'s \<Rightarrow> bool"
  assumes put_law: "invar s \<Longrightarrow> admissible k v \<Longrightarrow> used s < limit \<Longrightarrow>
      \<exists>r s'. put s k v = Some (r, s') \<and> invar s' \<and> used s' \<le> Suc (used s) \<and> (r, abs s') = put_spec k v (abs s)"
    and get_law: "invar s \<Longrightarrow> get s k = Some (abs s k)"
    and del_law: "invar s \<Longrightarrow>
      \<exists>r s'. del s k = Some (r, s') \<and> invar s' \<and> used s' \<le> used s \<and> (r, abs s') = del_spec k (abs s)"
begin

lemma run_refines:
  assumes "invar s" "used s + length ops \<le> limit" "\<forall>k v. Put k v \<in> set ops \<longrightarrow> admissible k v"
  shows "\<exists>s'. run_dict put get del s ops = Some (s', snd (dict_spec (abs s) ops)) \<and> invar s' \<and>
     abs s' = fst (dict_spec (abs s) ops)"
  using assms
proof (induction ops arbitrary: s)
  case Nil
  then show ?case by simp
next
  case (Cons op ops)
  have ok: "\<forall>k v. Put k v \<in> set ops \<longrightarrow> admissible k v" using Cons.prems(3) by simp
  show ?case
  proof (cases op)
    case (Put k v)
    then obtain r s' where p: "put s k v = Some (r, s')" "invar s'" "used s' \<le> Suc (used s)"
      "(r, abs s') = put_spec k v (abs s)" using put_law [of s k v] Cons.prems by auto
    then have "fst (put_spec k v (abs s)) = r" "snd (put_spec k v (abs s)) = abs s'"
      by (metis fst_conv, metis snd_conv)
    moreover obtain s'' where "run_dict put get del s' ops = Some (s'', snd (dict_spec (abs s') ops))"
      "invar s''" "abs s'' = fst (dict_spec (abs s') ops)"
      using Cons.IH [OF p(2) _ ok] p(3) Cons.prems(2) by auto
    ultimately show ?thesis using Put p(1) by simp
  next
    case (Get k)
    then show ?thesis using get_law [OF Cons.prems(1), of k] Cons.IH [OF Cons.prems(1) _ ok] Cons.prems(2)
      by auto
  next
    case (Del k)
    then obtain r s' where p: "del s k = Some (r, s')" "invar s'" "used s' \<le> used s"
      "(r, abs s') = del_spec k (abs s)" using del_law [of s k] Cons.prems by auto
    then have "fst (del_spec k (abs s)) = r" "snd (del_spec k (abs s)) = abs s'"
      by (metis fst_conv, metis snd_conv)
    moreover obtain s'' where "run_dict put get del s' ops = Some (s'', snd (dict_spec (abs s') ops))"
      "invar s''" "abs s'' = fst (dict_spec (abs s') ops)"
      using Cons.IH [OF p(2) _ ok] p(3) Cons.prems(2) by auto
    ultimately show ?thesis using Del p(1) by simp
  qed
qed

end

text \<open>The operations as the interface has them, with successful allocations.\<close>

definition lnn_put :: "Map \<Rightarrow> u8 list \<Rightarrow> u8 list \<Rightarrow> (int \<times> Map) option" where
  "lnn_put m k v =
     map_option (apsnd the) (LnnMapSet True True (Some m) (Some k) (Some v) (of_nat (length v)))"

definition lnn_get :: "Map \<Rightarrow> u8 list \<Rightarrow> u8 list option option" where
  "lnn_get m k = LnnMapGet (Some m) (Some k)"

definition lnn_del :: "Map \<Rightarrow> u8 list \<Rightarrow> (int \<times> Map) option" where
  "lnn_del m k = map_option (apsnd the) (LnnMapErase (Some m) (Some k))"

definition lnn_admissible :: "u8 list \<Rightarrow> u8 list \<Rightarrow> bool" where
  "lnn_admissible k v \<longleftrightarrow> length k \<le> 1000 \<and> v \<noteq> [] \<and> length v \<le> 1000"

lemma map_abs_empty_iff:
  assumes "map_wf m"
  shows "map_abs m = Map.empty \<longleftrightarrow> m_nodeSize m = 0 \<or> m_nodes m = None"
  using assms
proof (cases rule: map_wf_cases)
  case table
  have "map_abs m = Map.empty \<longleftrightarrow> map_nodes m = []" by (auto simp: map_abs_def)
  also have "\<dots> \<longleftrightarrow> m_nodeSize m = 0" using table(3) by (metis length_0_conv unat_eq_0)
  finally show ?thesis using table(4) by auto
qed simp

lemma LnnMapErase_code:
  assumes "map_wf m" "LnnMapErase (Some m) (Some k) = Some (r, m')" "map_abs m k = None"
  shows "r = (if map_abs m = Map.empty then SOFTBUS_INVALID_PARAM else SOFTBUS_ERR)"
proof (cases "m_nodeSize m = 0 \<or> m_nodes m = None")
  case True
  then show ?thesis using assms(2) map_abs_empty_iff [OF assms(1)] by (auto simp: LnnMapErase_def)
next
  case False
  with assms(1) have t: "map_tab m" "distinct (map mn_key (map_nodes m))" by (auto simp: map_wf_def)
  show ?thesis using False assms map_abs_empty_iff [OF assms(1)] search_absent(2)
    by (cases rule: key_bucket [OF t, of k]) (auto simp: LnnMapErase_def Let_def)
qed

interpretation lnn: dictionary lnn_put lnn_get lnn_del map_abs "\<lambda>m. unat (m_nodeSize m)" "4294967295"
  lnn_admissible map_wf
proof
  fix m k v
  assume wf: "map_wf m"
  show "lnn_get m k = Some (map_abs m k)" using LnnMapGet_wf [OF wf] by (simp add: lnn_get_def)
  show "\<exists>r s'. lnn_del m k = Some (r, s') \<and> map_wf s' \<and> unat (m_nodeSize s') \<le> unat (m_nodeSize m) \<and>
      (r, map_abs s') = del_spec k (map_abs m)"
  proof -
    obtain r m' where e: "LnnMapErase (Some m) (Some k) = Some (r, Some m')" "map_wf m'"
      "map_abs m' = (map_abs m)(k := None)" "r = SOFTBUS_OK \<longleftrightarrow> map_abs m k \<noteq> None"
      "m_nodeSize m' = (if map_abs m k = None then m_nodeSize m else m_nodeSize m - 1)"
      using LnnMapErase_wf [OF wf, of k] by blast
    have "unat (m_nodeSize m') \<le> unat (m_nodeSize m)"
    proof (cases "map_abs m k = None")
      case False
      then have "m_nodeSize m \<noteq> 0" using map_abs_empty_iff [OF wf] by auto
      then show ?thesis using e(5) False by (simp add: unat_minus_one)
    qed (use e(5) in simp)
    then show ?thesis using e(1-4) LnnMapErase_code [OF wf e(1)] by (auto simp: lnn_del_def del_spec_def)
  qed
  show "\<exists>r s'. lnn_put m k v = Some (r, s') \<and> map_wf s' \<and> unat (m_nodeSize s') \<le> Suc (unat (m_nodeSize m)) \<and>
      (r, map_abs s') = put_spec k v (map_abs m)"
    if a: "lnn_admissible k v" and u: "unat (m_nodeSize m) < 4294967295"
  proof -
    let ?sz = "of_nat (length v) :: u32"
    have l: "unat ?sz = length v" using a by (simp add: lnn_admissible_def unat_of_nat take_bit_nat_eq_self)
    have n: "m_nodeSize m < 0xFFFFFFFF" using u by (simp add: word_less_nat_alt)
    have z: "0 < ?sz" "?sz \<le> 1000" "length k \<le> 1000" "unat ?sz \<le> length v"
      using a l by (simp_all add: lnn_admissible_def word_less_nat_alt word_le_nat_alt del: of_nat_0_less_iff)
    obtain r m' where s: "LnnMapSet True True (Some m) (Some k) (Some v) ?sz = Some (r, Some m')" "map_wf m'"
      "r = SOFTBUS_OK \<longleftrightarrow> (case map_abs m k of None \<Rightarrow> True | Some w \<Rightarrow> length w = unat ?sz)"
      "r \<in> {SOFTBUS_OK, SOFTBUS_INVALID_PARAM}"
      "map_abs m' = (if r = SOFTBUS_OK then (map_abs m)(k \<mapsto> take (unat ?sz) v) else map_abs m)"
      "m_nodeSize m' = (if r = SOFTBUS_OK \<and> map_abs m k = None then m_nodeSize m + 1 else m_nodeSize m)"
      using LnnMapSet_wf [OF wf _ n z, of True True] by blast
    have "unat (m_nodeSize m') \<le> Suc (unat (m_nodeSize m))"
      using s(6) unat_Suc_less [OF n] by (auto split: if_splits)
    then show ?thesis
      using s(1-5) l by (auto simp: lnn_put_def put_spec_def split: option.splits)
  qed
qed

section \<open>The iterator\<close>

text \<open>The loop of the clients: as long as there is a next element, go to it and visit it.\<close>

partial_function (option) iterate :: "Map \<Rightarrow> MapIterator \<Rightarrow> MapNode list option" where
  "iterate m it =
     (if LnnMapHasNext m it then
        Option.bind (LnnMapNext m (Some it)) (\<lambda>iter.
          case iter of
            None \<Rightarrow> None
          | Some it' \<Rightarrow>
              (case it_node it' of
                 [] \<Rightarrow> None
               | node # _ \<Rightarrow> Option.bind (iterate m it') (\<lambda>ns. Some (node # ns))))
      else Some [])"

text \<open>What is still to be visited.\<close>

definition it_rest :: "Map \<Rightarrow> MapIterator \<Rightarrow> MapNode list" where
  "it_rest m it = tl (it_node it) @ concat (drop (unat (it_bucketNum it)) (buckets m))"

lemma next_bucket_rest:
  assumes "map_tab m" "concat (drop (unat (it_bucketNum it)) (buckets m)) = x # xs"
  shows "\<exists>it'. next_bucket m it = Some it' \<and> it_node it' \<noteq> [] \<and> hd (it_node it') = x \<and> it_rest m it' = xs \<and>
     it_nodeNum it' = it_nodeNum it + 1"
  using assms(2)
proof (induction "unat (m_bucketSize m) - unat (it_bucketNum it)" arbitrary: it rule: less_induct)
  case less
  let ?b = "unat (it_bucketNum it)"
  have lb: "length (buckets m) = unat (m_bucketSize m)" using assms(1) by (simp add: map_tab_def)
  have "drop ?b (buckets m) \<noteq> []" using less.prems by auto
  then have b: "?b < length (buckets m)" by simp
  then have lt: "it_bucketNum it < m_bucketSize m" using lb by (simp add: word_less_nat_alt)
  have at: "bucket_at m (it_bucketNum it) = Some (buckets m ! ?b)"
    using b assms(1) by (auto simp: bucket_at_def buckets_def map_tab_def)
  have dr: "drop ?b (buckets m) = buckets m ! ?b # drop (Suc ?b) (buckets m)"
    using b by (simp add: Cons_nth_drop_Suc)
  have un: "unat (it_bucketNum it + 1) = Suc ?b" using unat_Suc_less [OF lt] by simp
  show ?case
  proof (cases "buckets m ! ?b")
    case Nil
    let ?it = "it\<lparr>it_bucketNum := it_bucketNum it + 1\<rparr>"
    have "next_bucket m it = next_bucket m ?it"
      using lt at Nil by (subst next_bucket.simps) (simp add: Let_def)
    moreover have "concat (drop (unat (it_bucketNum ?it)) (buckets m)) = x # xs"
      using less.prems dr Nil un by simp
    ultimately show ?thesis using less.hyps [of ?it] un b lb by simp
  next
    case (Cons y ys)
    then have "y = x" "ys @ concat (drop (Suc ?b) (buckets m)) = xs" using less.prems dr by simp_all
    then show ?thesis using lt at Cons un by (subst next_bucket.simps) (simp add: Let_def it_rest_def)
  qed
qed

lemma LnnMapNext_rest:
  assumes "map_tab m" "it_nodeNum it < m_nodeSize m" "it_rest m it = x # xs"
  shows "\<exists>it'. LnnMapNext m (Some it) = Some (Some it') \<and> it_node it' \<noteq> [] \<and> hd (it_node it') = x \<and>
     it_rest m it' = xs \<and> it_nodeNum it' = it_nodeNum it + 1"
proof -
  consider y z zs where "it_node it = y # z # zs" | "tl (it_node it) = []" "\<forall>y z zs. it_node it \<noteq> y # z # zs"
    by (metis list.exhaust list.sel(3) tl_Nil)
  then show ?thesis
  proof cases
    case 1
    then show ?thesis using assms by (auto simp: LnnMapNext_def LnnMapHasNext_def it_rest_def)
  next
    case 2
    then have "LnnMapNext m (Some it) = map_option Some (next_bucket m it)"
      using assms(2) by (auto simp: LnnMapNext_def LnnMapHasNext_def split: list.split)
    then show ?thesis using next_bucket_rest [OF assms(1), of it x xs] assms(3) 2(1)
      by (auto simp: it_rest_def)
  qed
qed

lemma iterate_rest:
  assumes "map_tab m" "unat (it_nodeNum it) + length (it_rest m it) = unat (m_nodeSize m)"
  shows "iterate m it = Some (it_rest m it)"
  using assms(2)
proof (induction "it_rest m it" arbitrary: it)
  case Nil
  then have "\<not> LnnMapHasNext m it" by (simp add: LnnMapHasNext_def word_less_nat_alt)
  then show ?case using Nil.hyps by (simp add: iterate.simps)
next
  case (Cons x xs)
  have r: "it_rest m it = x # xs" using Cons.hyps(2) by simp
  have lt: "it_nodeNum it < m_nodeSize m" using Cons.prems r by (simp add: word_less_nat_alt)
  obtain it' where n: "LnnMapNext m (Some it) = Some (Some it')" "it_node it' \<noteq> []" "hd (it_node it') = x"
    "it_rest m it' = xs" "it_nodeNum it' = it_nodeNum it + 1"
    using LnnMapNext_rest [OF assms(1) lt r] by blast
  have "unat (it_nodeNum it') + length (it_rest m it') = unat (m_nodeSize m)"
    using Cons.prems r n(4,5) unat_Suc_less [OF lt] by simp
  then have "iterate m it' = Some xs" using Cons.hyps(1) [of it'] n(4) by simp
  then show ?case using lt n r
    by (subst iterate.simps) (auto simp: LnnMapHasNext_def neq_Nil_conv)
qed

section \<open>Properties\<close>

text \<open>
  C27: With allocations that succeed, every sequence of \<open>LnnMapSet\<close>, \<open>LnnMapGet\<close> and \<open>LnnMapErase\<close> calls on a
  well-formed map (keys of at most 1000 bytes, values of 1 to 1000) stays inside the bucket table
  and answers exactly as a finite map: a value set is the value got until it is set or erased
  again, whatever other keys collide with it and however often the table grows; a value of
  another size than the stored one is refused.
\<close>

theorem lnn_map_is_dictionary:
  assumes "map_wf m" "unat (m_nodeSize m) + length ops \<le> 4294967295"
    and "\<forall>k v. Put k v \<in> set ops \<longrightarrow> lnn_admissible k v"
  shows "\<exists>m'. run_dict lnn_put lnn_get lnn_del m ops = Some (m', snd (dict_spec (map_abs m) ops)) \<and>
     map_wf m' \<and> map_abs m' = fst (dict_spec (map_abs m) ops)"
  using assms by (rule lnn.run_refines)

definition lnn_empty :: Map where
  "lnn_empty = the (LnnMapInit (Some \<lparr>m_nodes = Some [], m_nodeSize = 9, m_bucketSize = 3\<rparr>))"

lemma lnn_empty_wf: "map_wf lnn_empty" "map_abs lnn_empty = Map.empty" "m_nodeSize lnn_empty = 0"
  by (simp_all add: lnn_empty_def LnnMapInit_def map_wf_def map_abs_def map_nodes_def buckets_def)

theorem lnn_map_is_dictionary_witness:
  "map_wf lnn_empty \<and>
   (\<exists>m'. run_dict lnn_put lnn_get lnn_del lnn_empty
       [Put [97] [1, 2], Put [98] [3], Put [97] [5], Get [97], Del [98], Get [98], Del [98]] =
     Some (m', [Ret SOFTBUS_OK, Ret SOFTBUS_OK, Ret SOFTBUS_INVALID_PARAM, Val (Some [1, 2]),
                Ret SOFTBUS_OK, Val None, Ret SOFTBUS_ERR]))"
proof -
  let ?ops = "[Put [97] [1, 2], Put [98] [3], Put [97] [5], Get [97], Del [98], Get [98], Del [98]]
    :: (u8 list, u8) map_op list"
  have "snd (dict_spec (map_abs lnn_empty) ?ops) =
      [Ret SOFTBUS_OK, Ret SOFTBUS_OK, Ret SOFTBUS_INVALID_PARAM, Val (Some [1, 2]),
       Ret SOFTBUS_OK, Val None, Ret SOFTBUS_ERR]"
    by (simp add: lnn_empty_wf put_spec_def del_spec_def fun_eq_iff)
  moreover have "unat (m_nodeSize lnn_empty) + length ?ops \<le> 4294967295"
    "\<forall>k v. Put k v \<in> set ?ops \<longrightarrow> lnn_admissible k v"
    by (simp_all add: lnn_empty_wf lnn_admissible_def)
  ultimately show ?thesis using lnn_map_is_dictionary [OF lnn_empty_wf(1), of ?ops] lnn_empty_wf(1) by auto
qed

text \<open>
  On every outcome of the allocations, \<open>LnnMapSet\<close> on a map that has a table, or gets one, keeps the map
  well formed; it answers \<open>SOFTBUS_OK\<close> and stores the value exactly when the key is there with a
  value of the same size or is not there and its node can be allocated, and otherwise answers
  \<open>SOFTBUS_INVALID_PARAM\<close> and leaves every key with the value it had, also when the table could not
  be enlarged.
\<close>

theorem LnnMapSet_all_outcomes:
  assumes "map_wf m" "m_nodes m \<noteq> None \<or> tab_ok" "m_nodeSize m < 0xFFFFFFFF"
    and "0 < sz" "sz \<le> 1000" "length ks \<le> 1000" "unat sz \<le> length vs"
  shows "\<exists>r m'. LnnMapSet tab_ok node_ok (Some m) (Some ks) (Some vs) sz = Some (r, Some m') \<and> map_wf m' \<and>
     (r = SOFTBUS_OK \<longleftrightarrow> (case map_abs m ks of None \<Rightarrow> node_ok | Some v \<Rightarrow> length v = unat sz)) \<and>
     r \<in> {SOFTBUS_OK, SOFTBUS_INVALID_PARAM} \<and>
     map_abs m' = (if r = SOFTBUS_OK then (map_abs m)(ks \<mapsto> take (unat sz) vs) else map_abs m) \<and>
     MapGetSize (Some m') = (if r = SOFTBUS_OK \<and> map_abs m ks = None then m_nodeSize m + 1 else m_nodeSize m)"
  using LnnMapSet_wf [OF assms, of node_ok] by (simp add: MapGetSize_def)

theorem LnnMapSet_all_outcomes_witness:
  "\<exists>m'. LnnMapSet True False (Some lnn_empty) (Some [97]) (Some [1]) 1 = Some (SOFTBUS_INVALID_PARAM, Some m') \<and>
     map_wf m' \<and> map_abs m' = Map.empty"
  using LnnMapSet_all_outcomes [OF lnn_empty_wf(1), of True 1 "[97]" "[1]" False] lnn_empty_wf by auto

text \<open>
  C28: The iterator of a well-formed map visits every stored node exactly once: the loop over \<open>LnnMapHasNext\<close>
  and \<open>LnnMapNext\<close> ends, every pointer it follows is valid, and the nodes it meets are the nodes of the
  table.
\<close>

theorem iterator_visits_all:
  assumes "map_wf m" "LnnMapInitIterator True (Some m) = Some it"
  shows "\<exists>ns. iterate m it = Some ns \<and> mset ns = mset (map_nodes m) \<and> map_of (map node_kv ns) = map_abs m \<and>
     length ns = unat (m_nodeSize m) \<and> distinct (map mn_key ns)"
proof -
  have it: "it = \<lparr>it_node = [], it_nodeNum = 0, it_bucketNum = 0\<rparr>"
    using assms(2) by (simp add: LnnMapInitIterator_def)
  have d: "distinct (map mn_key (map_nodes m))" "unat (m_nodeSize m) = length (map_nodes m)"
    using assms(1) by (auto simp: map_wf_def map_nodes_def buckets_def)
  have "iterate m it = Some (map_nodes m)"
    using assms(1)
  proof (cases rule: map_wf_cases)
    case empty
    then show ?thesis by (subst iterate.simps) (simp add: LnnMapHasNext_def)
  next
    case table
    then show ?thesis using iterate_rest [OF table(1), of it] by (simp add: it it_rest_def map_nodes_def)
  qed
  then show ?thesis using d by (simp add: map_abs_def)
qed

definition lnn_two :: Map where
  "lnn_two = the (snd (the (LnnMapSet True True (Some (snd (the (lnn_put lnn_empty [97] [1])))) (Some [98]) (Some [2]) 1)))"

lemma lnn_two_wf: "map_wf lnn_two" "map_abs lnn_two = [[97] \<mapsto> [1], [98] \<mapsto> [2]]"
proof -
  obtain m1 where m1: "LnnMapSet True True (Some lnn_empty) (Some [97]) (Some [1]) 1 = Some (SOFTBUS_OK, Some m1)"
    "map_wf m1" "map_abs m1 = [[97] \<mapsto> [1]]" "m_nodeSize m1 = 1"
    using LnnMapSet_wf [OF lnn_empty_wf(1), of True 1 "[97]" "[1]" True] lnn_empty_wf by auto
  then obtain m2 where "LnnMapSet True True (Some m1) (Some [98]) (Some [2]) 1 = Some (SOFTBUS_OK, Some m2)"
    "map_wf m2" "map_abs m2 = [[97] \<mapsto> [1], [98] \<mapsto> [2]]"
    using LnnMapSet_wf [OF m1(2), of True 1 "[98]" "[2]" True] by auto
  then show "map_wf lnn_two" "map_abs lnn_two = [[97] \<mapsto> [1], [98] \<mapsto> [2]]"
    using m1(1) by (simp_all add: lnn_two_def lnn_put_def)
qed

theorem iterator_visits_all_witness:
  "\<exists>it ns. LnnMapInitIterator True (Some lnn_two) = Some it \<and> iterate lnn_two it = Some ns \<and>
     map_of (map node_kv ns) = [[97] \<mapsto> [1], [98] \<mapsto> [2]]"
  using iterator_visits_all [OF lnn_two_wf(1)] lnn_two_wf(2) by (auto simp: LnnMapInitIterator_def)

text \<open>
  \<open>LnnMapSet\<close> ignores a failed resize: when the allocation of the first table fails and that of the node
  succeeds, the node is added to a table that is not there.
\<close>

theorem first_resize_failure_crashes:
  assumes "m_nodes m = None" "m_nodeSize m = 0" "m_bucketSize m = 0"
    and "0 < sz" "sz \<le> 1000" "length ks \<le> 1000" "unat sz \<le> length vs"
  shows "LnnMapSet False True (Some m) (Some ks) (Some vs) sz = None"
  using assms MapCreateNode_ok [OF assms(4-7), of True "MapHash (Some ks)"]
  by (simp add: LnnMapSet_def Let_def map_insert_def MapResize_def SoftBusCalloc_def SoftBusMalloc_def
      MapAddNode_def bucket_at_def word_gt_0 not_less)

theorem first_resize_failure_crashes_witness:
  "LnnMapSet False True (Some lnn_empty) (Some [97]) (Some [1]) 1 = None"
  using first_resize_failure_crashes [of lnn_empty 1 "[97]" "[1]"] by (simp add: lnn_empty_def LnnMapInit_def)

end
