(* ===== verification/Adapter_Crypto.thy ===== *)
theory Adapter_Crypto
  imports Byte_Order
begin

text \<open>
  The AES-GCM adapter, \<^verbatim>\<open>adapter/common/mbedtls/softbus_adapter_crypto.c\<close>: the packet layout (nonce, cipher
  text, tag) and its bounds checks around the primitives of mbedtls, which are the fields of a
  record. What the library documents about them is the predicate \<open>gcm_correct\<close>. Output buffers are byte
  lists; writing outside one has no defined result.
\<close>

section \<open>Model\<close>

abbreviation (input) SOFTBUS_ENCRYPT_ERR :: int where "SOFTBUS_ENCRYPT_ERR \<equiv> -268369909"
abbreviation (input) SOFTBUS_DECRYPT_ERR :: int where "SOFTBUS_DECRYPT_ERR \<equiv> -268369908"
abbreviation (input) GCM_IV_LEN :: u32 where "GCM_IV_LEN \<equiv> 12"
abbreviation (input) TAG_LEN :: u32 where "TAG_LEN \<equiv> 16"
abbreviation (input) OVERHEAD_LEN :: u32 where "OVERHEAD_LEN \<equiv> 28"
abbreviation (input) iv_len :: nat where "iv_len \<equiv> 12"
abbreviation (input) tag_len :: nat where "tag_len \<equiv> 16"
abbreviation (input) KEY_BITS_UNIT :: u32 where "KEY_BITS_UNIT \<equiv> 8"
abbreviation (input) SESSION_KEY_LENGTH :: nat where "SESSION_KEY_LENGTH \<equiv> 32"

definition write_at :: "u8 list \<Rightarrow> nat \<Rightarrow> u8 list \<Rightarrow> u8 list option" where
  "write_at buf off bs =
     (if off + length bs \<le> length buf then Some (take off buf @ bs @ drop (off + length bs) buf) else None)"

definition read_at :: "u8 list \<Rightarrow> nat \<Rightarrow> nat \<Rightarrow> u8 list option" where
  "read_at buf off n = (if off + n \<le> length buf then Some (take n (drop off buf)) else None)"

record AesGcmCipherKey =
  ck_keyLen :: u32
  ck_key :: "u8 list"
  ck_iv :: "u8 list"

text \<open>
  The primitives of mbedtls: setting a key of some number of bits, encrypting under a nonce with a
  tag, decrypting with a check of the tag. A context is the key array and the number of bits. The bytes
  that come with a result are what the library writes to the output buffer, also when it fails.
\<close>

type_synonym gcm_ctx = "u8 list \<times> u32"

record gcm =
  gcm_setkey :: "gcm_ctx \<Rightarrow> int"
  gcm_crypt :: "gcm_ctx \<Rightarrow> u8 list \<Rightarrow> u8 list \<Rightarrow> int \<times> u8 list \<times> u8 list"
  gcm_auth :: "gcm_ctx \<Rightarrow> u8 list \<Rightarrow> u8 list \<Rightarrow> u8 list \<Rightarrow> int \<times> u8 list"

definition MbedAesGcmEncrypt ::
  "gcm \<Rightarrow> AesGcmCipherKey option \<Rightarrow> u8 list option \<Rightarrow> u32 \<Rightarrow> u8 list option \<Rightarrow> u32 \<Rightarrow>
     (int \<times> u8 list option) option" where
  "MbedAesGcmEncrypt g cipherkey plainText plainTextSize cipherText cipherTextLen =
     (case (cipherkey, plainText, cipherText) of
        (Some ck, Some pt, Some ct) \<Rightarrow>
          if plainTextSize = 0 \<or> cipherTextLen < plainTextSize + OVERHEAD_LEN
          then Some (SOFTBUS_INVALID_PARAM, cipherText)
          else
            let ctx = (ck_key ck, ck_keyLen ck * KEY_BITS_UNIT) in
            if gcm_setkey g ctx \<noteq> 0 then Some (SOFTBUS_ENCRYPT_ERR, cipherText)
            else case read_at pt 0 (unat plainTextSize) of
              None \<Rightarrow> None
            | Some msg \<Rightarrow>
                (case gcm_crypt g ctx (ck_iv ck) msg of
                   (ret, enc, tagBuf) \<Rightarrow>
                     case write_at ct iv_len enc of
                       None \<Rightarrow> None
                     | Some ct1 \<Rightarrow>
                         if ret \<noteq> 0 then Some (SOFTBUS_ENCRYPT_ERR, Some ct1)
                         else if \<not> memcpy_s_ok (unat cipherTextLen) iv_len
                         then Some (SOFTBUS_ENCRYPT_ERR, Some ct1)
                         else case write_at ct1 0 (ck_iv ck) of
                           None \<Rightarrow> None
                         | Some ct2 \<Rightarrow>
                             if \<not> memcpy_s_ok (unat (cipherTextLen - GCM_IV_LEN - plainTextSize)) tag_len
                             then Some (SOFTBUS_ENCRYPT_ERR, Some ct2)
                             else case write_at ct2 (iv_len + unat plainTextSize) tagBuf of
                               None \<Rightarrow> None
                             | Some ct3 \<Rightarrow> Some (sint (plainTextSize + OVERHEAD_LEN), Some ct3))
      | _ \<Rightarrow> Some (SOFTBUS_INVALID_PARAM, cipherText))"

text \<open>The tag is read behind the text, at a signed offset.\<close>

definition MbedAesGcmDecrypt ::
  "gcm \<Rightarrow> AesGcmCipherKey option \<Rightarrow> u8 list option \<Rightarrow> u32 \<Rightarrow> u8 list option \<Rightarrow> u32 \<Rightarrow>
     (int \<times> u8 list option) option" where
  "MbedAesGcmDecrypt g cipherkey cipherText cipherTextSize plain plainLen =
     (case (cipherkey, cipherText, plain) of
        (Some ck, Some ct, Some buf) \<Rightarrow>
          if cipherTextSize \<le> OVERHEAD_LEN \<or> plainLen < cipherTextSize - OVERHEAD_LEN
          then Some (SOFTBUS_INVALID_PARAM, plain)
          else
            let ctx = (ck_key ck, ck_keyLen ck * KEY_BITS_UNIT);
                actualPlainLen = sint (cipherTextSize - OVERHEAD_LEN) in
            if gcm_setkey g ctx \<noteq> 0 then Some (SOFTBUS_DECRYPT_ERR, plain)
            else if actualPlainLen < 0 then None
            else case (read_at ct (nat actualPlainLen + iv_len) tag_len,
                       read_at ct iv_len (unat (cipherTextSize - OVERHEAD_LEN))) of
              (Some tag, Some enc) \<Rightarrow>
                (case gcm_auth g ctx (ck_iv ck) tag enc of
                   (ret, msg) \<Rightarrow>
                     map_option (\<lambda>b. (if ret \<noteq> 0 then SOFTBUS_DECRYPT_ERR else actualPlainLen, Some b))
                       (write_at buf 0 msg))
            | _ \<Rightarrow> None
      | _ \<Rightarrow> Some (SOFTBUS_INVALID_PARAM, plain))"

text \<open>
  The random generator: the outcome of the lock, of the seeding and of the generator, and whether it
  was seeded before. The result has the new value of the static flag.
\<close>

record random_env =
  re_init :: bool
  re_lock :: int
  re_seed :: int
  re_drbg :: "u32 \<Rightarrow> int \<times> u8 list"

definition SoftBusGenerateRandomArray ::
  "random_env \<Rightarrow> u8 list option \<Rightarrow> u32 \<Rightarrow> int \<times> u8 list option \<times> bool" where
  "SoftBusGenerateRandomArray env randStr n =
     (if randStr = None \<or> n = 0 then (SOFTBUS_INVALID_PARAM, randStr, re_init env)
      else if re_lock env \<noteq> 0 then (SOFTBUS_ERR, randStr, re_init env)
      else if \<not> re_init env \<and> re_seed env \<noteq> 0 then (SOFTBUS_ERR, randStr, False)
      else case re_drbg env n of
        (ret, bs) \<Rightarrow> if ret \<noteq> 0 then (SOFTBUS_ERR, randStr, True) else (SOFTBUS_OK, Some bs, True))"

definition SoftBusGenerateSessionKey :: "random_env \<Rightarrow> u8 list option \<Rightarrow> u32 \<Rightarrow> int \<times> u8 list option" where
  "SoftBusGenerateSessionKey env key n =
     (case SoftBusGenerateRandomArray env key n of
        (ret, k, _) \<Rightarrow> if ret \<noteq> SOFTBUS_OK then (SOFTBUS_ENCRYPT_ERR, k) else (SOFTBUS_OK, k))"

definition SoftBusEncryptData ::
  "gcm \<Rightarrow> random_env \<Rightarrow> AesGcmCipherKey option \<Rightarrow> u8 list option \<Rightarrow> u32 \<Rightarrow> u8 list option \<Rightarrow> u32 option \<Rightarrow>
     (int \<times> u8 list option \<times> u32 option) option" where
  "SoftBusEncryptData g env cipherKey inp inLen encryptData encryptLen =
     (case cipherKey of
        None \<Rightarrow> Some (SOFTBUS_INVALID_PARAM, encryptData, encryptLen)
      | Some ck \<Rightarrow>
          if inp = None \<or> inLen = 0 \<or> encryptData = None \<or> encryptLen = None
          then Some (SOFTBUS_INVALID_PARAM, encryptData, encryptLen)
          else case SoftBusGenerateRandomArray env (Some (ck_iv ck)) GCM_IV_LEN of
            (ret, iv, _) \<Rightarrow>
              if ret \<noteq> SOFTBUS_OK then Some (SOFTBUS_ENCRYPT_ERR, encryptData, encryptLen)
              else
                (case MbedAesGcmEncrypt g (Some (ck\<lparr>ck_iv := the iv\<rparr>)) inp inLen encryptData
                        (inLen + OVERHEAD_LEN) of
                   None \<Rightarrow> None
                 | Some (result, ct) \<Rightarrow>
                     if result \<le> 0 then Some (SOFTBUS_ENCRYPT_ERR, ct, encryptLen)
                     else Some (SOFTBUS_OK, ct, Some (word_of_int result))))"

text \<open>The sequence number takes the first four bytes of the nonce, in the byte order of the host.\<close>

definition SoftBusEncryptDataWithSeq ::
  "bool \<Rightarrow> gcm \<Rightarrow> random_env \<Rightarrow> AesGcmCipherKey option \<Rightarrow> u8 list option \<Rightarrow> u32 \<Rightarrow> u8 list option \<Rightarrow>
     u32 option \<Rightarrow> u32 \<Rightarrow> (int \<times> u8 list option \<times> u32 option) option" where
  "SoftBusEncryptDataWithSeq le g env cipherKey inp inLen encryptData encryptLen seqNum =
     (case cipherKey of
        None \<Rightarrow> Some (SOFTBUS_INVALID_PARAM, encryptData, encryptLen)
      | Some ck \<Rightarrow>
          if inp = None \<or> inLen = 0 \<or> encryptData = None \<or> encryptLen = None
          then Some (SOFTBUS_INVALID_PARAM, encryptData, encryptLen)
          else case SoftBusGenerateRandomArray env (Some (ck_iv ck)) GCM_IV_LEN of
            (ret, iv, _) \<Rightarrow>
              if ret \<noteq> SOFTBUS_OK then Some (SOFTBUS_ENCRYPT_ERR, encryptData, encryptLen)
              else
                let iv' = mem_bytes le 4 seqNum @ drop 4 (the iv) in
                (case MbedAesGcmEncrypt g (Some (ck\<lparr>ck_iv := iv'\<rparr>)) inp inLen encryptData
                        (inLen + OVERHEAD_LEN) of
                   None \<Rightarrow> None
                 | Some (result, ct) \<Rightarrow>
                     if result \<le> 0 then Some (SOFTBUS_ENCRYPT_ERR, ct, encryptLen)
                     else Some (SOFTBUS_OK, ct, Some (word_of_int result))))"

definition SoftBusDecryptData ::
  "gcm \<Rightarrow> AesGcmCipherKey option \<Rightarrow> u8 list option \<Rightarrow> u32 \<Rightarrow> u8 list option \<Rightarrow> u32 option \<Rightarrow>
     (int \<times> u8 list option \<times> u32 option) option" where
  "SoftBusDecryptData g cipherKey inp inLen decryptData decryptLen =
     (case (cipherKey, inp) of
        (Some ck, Some ct) \<Rightarrow>
          if inLen < GCM_IV_LEN \<or> decryptData = None \<or> decryptLen = None
          then Some (SOFTBUS_INVALID_PARAM, decryptData, decryptLen)
          else case read_at ct 0 iv_len of
            None \<Rightarrow> None
          | Some iv \<Rightarrow>
              (case MbedAesGcmDecrypt g (Some (ck\<lparr>ck_iv := iv\<rparr>)) inp inLen decryptData
                      (inLen - OVERHEAD_LEN) of
                 None \<Rightarrow> None
               | Some (result, plain) \<Rightarrow>
                   if result \<le> 0 then Some (SOFTBUS_ENCRYPT_ERR, plain, decryptLen)
                   else Some (SOFTBUS_OK, plain, Some (word_of_int result)))
      | _ \<Rightarrow> Some (SOFTBUS_INVALID_PARAM, decryptData, decryptLen))"

definition SoftBusDecryptDataWithSeq ::
  "gcm \<Rightarrow> AesGcmCipherKey option \<Rightarrow> u8 list option \<Rightarrow> u32 \<Rightarrow> u8 list option \<Rightarrow> u32 option \<Rightarrow> u32 \<Rightarrow>
     (int \<times> u8 list option \<times> u32 option) option" where
  "SoftBusDecryptDataWithSeq g cipherKey inp inLen decryptData decryptLen seqNum =
     SoftBusDecryptData g cipherKey inp inLen decryptData decryptLen"

section \<open>What is relied on\<close>

text \<open>
  The documented behaviour of the primitives, for the uses the code makes of them. A key array that has
  the 128, 192 or 256 bits asked for is accepted. With such a key and a nonce of 12 bytes, a text of
  less than \<open>2\<^sup>32\<close> bytes is encrypted to as many bytes and a tag of 16 bytes, and the decryption under the
  same key and nonce with this tag gives it back. A decryption writes at most as many bytes as the
  cipher text has, and exactly as many when it succeeds. The generator fills the buffer it is given.
\<close>

definition gcm_key :: "gcm_ctx \<Rightarrow> bool" where
  "gcm_key ctx \<longleftrightarrow> snd ctx \<in> {128, 192, 256} \<and> unat (snd ctx) \<le> 8 * length (fst ctx)"

definition gcm_correct :: "gcm \<Rightarrow> bool" where
  "gcm_correct g \<longleftrightarrow>
     (\<forall>k bits. gcm_key (k, bits) \<longrightarrow> gcm_setkey g (k, bits) = 0) \<and>
     (\<forall>ctx iv msg. gcm_key ctx \<and> length iv = iv_len \<and> length msg < 2 ^ 32 \<longrightarrow>
        (case gcm_crypt g ctx iv msg of
           (ret, enc, tag) \<Rightarrow> ret = 0 \<and> length enc = length msg \<and> length tag = tag_len \<and>
             gcm_auth g ctx iv tag enc = (0, msg))) \<and>
     (\<forall>ctx iv tag enc ret msg. gcm_auth g ctx iv tag enc = (ret, msg) \<longrightarrow>
        length msg \<le> length enc \<and> (ret = 0 \<longrightarrow> length msg = length enc))"

lemma gcm_correct_crypt:
  assumes "gcm_correct g" "gcm_key ctx" "length iv = iv_len" "length msg < 2 ^ 32" "gcm_crypt g ctx iv msg = (ret, enc, tag)"
  shows "ret = 0 \<and> length enc = length msg \<and> length tag = tag_len \<and> gcm_auth g ctx iv tag enc = (0, msg)"
proof -
  have "\<forall>ctx iv msg. gcm_key ctx \<and> length iv = iv_len \<and> length msg < 2 ^ 32 \<longrightarrow>
      (case gcm_crypt g ctx iv msg of
         (ret, enc, tag) \<Rightarrow> ret = 0 \<and> length enc = length msg \<and> length tag = tag_len \<and>
           gcm_auth g ctx iv tag enc = (0, msg))"
    using assms(1) unfolding gcm_correct_def by (elim conjE)
  from this [rule_format, of ctx iv msg] show ?thesis using assms(2-5) by simp
qed

definition random_works :: "random_env \<Rightarrow> bool" where
  "random_works env \<longleftrightarrow>
     re_lock env = 0 \<and> re_seed env = 0 \<and> (\<forall>n. fst (re_drbg env n) = 0 \<and> length (snd (re_drbg env n)) = unat n)"

section \<open>Packets\<close>

lemma sint_small:
  assumes "unat (x :: u32) < 2147483648"
  shows "sint x = int (unat x)"
proof -
  have "int (unat x) < 2147483648" using assms by linarith
  then have "uint x < 2 ^ 31" by simp
  then have "sint x = uint x"
    by (subst sint_uint) (simp add: signed_take_bit_int_eq_self order_trans [of _ 0])
  then show ?thesis by simp
qed

lemma write_at_all: "length bs \<le> length buf \<Longrightarrow> write_at buf 0 bs = Some (bs @ drop (length bs) buf)"
  by (simp add: write_at_def)

lemma unat_add_small:
  fixes a b :: u32
  shows "unat a + unat b < 4294967296 \<Longrightarrow> unat (a + b) = unat a + unat b"
  by (simp add: unat_word_ariths)

lemma MbedAesGcmEncrypt_ok:
  assumes "gcm_setkey g (ck_key ck, ck_keyLen ck * 8) = 0"
    and "gcm_crypt g (ck_key ck, ck_keyLen ck * 8) (ck_iv ck) (take k pt) = (0, enc, tag)"
    and "length enc = k" "length tag = 16" "length (ck_iv ck) = 12"
    and "unat n = k" "0 < k" "k + 28 < 2147483648" "k \<le> length pt" "k + 28 \<le> length buf"
  shows "MbedAesGcmEncrypt g (Some ck) (Some pt) n (Some buf) (n + 28) =
     Some (int (k + 28), Some (ck_iv ck @ enc @ tag @ drop (k + 28) buf))"
proof -
  have u: "unat (n + 28) = k + 28" using assms(6,8) by (simp add: unat_add_small)
  have s: "sint (n + 28) = int (k + 28)" using sint_small [of "n + 28"] assms(8) unfolding u by simp
  have n0: "n \<noteq> 0" using assms(6,7) by auto
  have d: "n + 28 - 12 - n = 16" by simp
  have m: "memcpy_s_ok (k + 28) 12" "memcpy_s_ok 16 16" using assms(8) by (simp_all add: memcpy_s_ok_def)
  have w1: "write_at buf 12 enc = Some (take 12 buf @ enc @ drop (12 + k) buf)"
    using assms(3,10) by (simp add: write_at_def)
  have w2: "write_at (take 12 buf @ enc @ drop (12 + k) buf) 0 (ck_iv ck) =
      Some (ck_iv ck @ enc @ drop (12 + k) buf)"
    using assms(3,5,10) by (simp add: write_at_def)
  have w3: "write_at (ck_iv ck @ enc @ drop (12 + k) buf) (12 + k) tag =
      Some (ck_iv ck @ enc @ tag @ drop (k + 28) buf)"
    using assms(3,4,5,10) by (simp add: write_at_def add.commute)
  have r: "read_at pt 0 k = Some (take k pt)" using assms(9) by (simp add: read_at_def)
  have u16: "unat (16 :: u32) = 16" by simp
  show ?thesis
    unfolding MbedAesGcmEncrypt_def Let_def
    by (simp only: option.case prod.case assms(1,2,6) n0 r w1 w2 w3 u s d m u16 if_False if_True simp_thms
        less_irrefl)
qed

lemma unat_12: "unat (12 :: u32) = 12"
  by simp

lemma random_array_ok:
  assumes "random_works env"
  obtains bs b where "SoftBusGenerateRandomArray env (Some x) 12 = (SOFTBUS_OK, Some bs, b)" "length bs = 12"
proof -
  obtain r bs where d: "re_drbg env 12 = (r, bs)" by fastforce
  then have "r = 0" "length bs = 12" using assms unfolding random_works_def
    by (metis fst_conv, metis snd_conv unat_12)
  then show ?thesis using that [of bs True] assms d
    by (simp add: SoftBusGenerateRandomArray_def random_works_def)
qed

lemma SoftBusEncryptDataWithSeq_ok:
  assumes "gcm_correct g" "random_works env" "gcm_key (ck_key ck, ck_keyLen ck * 8)"
    and "unat n = k" "0 < k" "k + 28 < 2147483648" "k \<le> length pt" "k + 28 \<le> length buf"
  obtains iv enc tag where
    "SoftBusEncryptDataWithSeq le g env (Some ck) (Some pt) n (Some buf) (Some l) seqNum =
       Some (SOFTBUS_OK, Some (iv @ enc @ tag @ drop (k + 28) buf), Some (n + 28))"
    "length iv = 12" "length enc = k" "length tag = 16"
    "take 4 iv = mem_bytes le 4 seqNum"
    "gcm_auth g (ck_key ck, ck_keyLen ck * 8) iv tag enc = (0, take k pt)"
proof -
  obtain bs b where r: "SoftBusGenerateRandomArray env (Some (ck_iv ck)) 12 = (SOFTBUS_OK, Some bs, b)" "length bs = 12"
    using random_array_ok [OF assms(2)] .
  define iv where "iv = mem_bytes le 4 seqNum @ drop 4 bs"
  have iv: "length iv = 12" "take 4 iv = mem_bytes le 4 seqNum" using r(2) by (simp_all add: iv_def)
  obtain ret enc tag where c: "gcm_crypt g (ck_key ck, ck_keyLen ck * 8) iv (take k pt) = (ret, enc, tag)"
    by (metis prod_cases3)
  then have e: "ret = 0" "length enc = k" "length tag = 16"
    "gcm_auth g (ck_key ck, ck_keyLen ck * 8) iv tag enc = (0, take k pt)"
    using gcm_correct_crypt [OF assms(1,3) iv(1) _ c] assms(6,7) by simp_all
  have s: "gcm_setkey g (ck_key ck, ck_keyLen ck * 8) = 0" using assms(1,3) by (auto simp: gcm_correct_def)
  have w: "word_of_int (int (k + 28)) = n + 28" using assms(4) by auto
  have n0: "n \<noteq> 0" "\<not> int (k + 28) \<le> 0" using assms(4,5) by auto
  have "MbedAesGcmEncrypt g (Some (ck\<lparr>ck_iv := iv\<rparr>)) (Some pt) n (Some buf) (n + 28) =
     Some (int (k + 28), Some (iv @ enc @ tag @ drop (k + 28) buf))"
    using MbedAesGcmEncrypt_ok [of g "ck\<lparr>ck_iv := iv\<rparr>" k pt enc tag n buf] s c e iv(1) assms(4-8) by simp
  then have "SoftBusEncryptDataWithSeq le g env (Some ck) (Some pt) n (Some buf) (Some l) seqNum =
       Some (SOFTBUS_OK, Some (iv @ enc @ tag @ drop (k + 28) buf), Some (n + 28))"
    unfolding SoftBusEncryptDataWithSeq_def Let_def
    by (simp only: option.case prod.case r(1) option.sel iv_def [symmetric] n0 w if_False if_True simp_thms
        option.distinct)
  then show ?thesis using that iv e by blast
qed

text \<open>Decryption of any bytes stays inside the buffers.\<close>

lemma MbedAesGcmDecrypt_total:
  assumes "gcm_correct g" "unat n = k" "k \<le> length ct" "k < 2147483648" "k - 28 \<le> length buf"
  shows "\<exists>r out. MbedAesGcmDecrypt g (Some ck) (Some ct) n (Some buf) (n - 28) = Some (r, Some out) \<and>
     length out = length buf"
proof (cases "n \<le> 28")
  case True
  then show ?thesis by (simp add: MbedAesGcmDecrypt_def)
next
  case False
  then have k28: "28 < k" using assms(2) by (simp add: word_le_nat_alt)
  have un: "unat (n - 28) = k - 28" using k28 assms(2) by (simp add: unat_sub word_le_nat_alt)
  have s: "sint (n - 28) = int (k - 28)" using sint_small [of "n - 28"] assms(4) unfolding un by simp
  define tag where "tag = take 16 (drop (k - 28 + 12) ct)"
  define enc where "enc = take (k - 28) (drop 12 ct)"
  have r: "read_at ct (k - 28 + 12) 16 = Some tag" "read_at ct 12 (k - 28) = Some enc" "length enc = k - 28"
    using k28 assms(3) by (simp_all add: read_at_def tag_def enc_def)
  obtain ret msg where a: "gcm_auth g (ck_key ck, ck_keyLen ck * 8) (ck_iv ck) tag enc = (ret, msg)" by fastforce
  have neg: "\<not> int (k - 28) < 0" by simp
  have d: "MbedAesGcmDecrypt g (Some ck) (Some ct) n (Some buf) (n - 28) =
      (if gcm_setkey g (ck_key ck, ck_keyLen ck * 8) \<noteq> 0 then Some (SOFTBUS_DECRYPT_ERR, Some buf)
       else map_option (\<lambda>b. (if ret \<noteq> 0 then SOFTBUS_DECRYPT_ERR else int (k - 28), Some b)) (write_at buf 0 msg))"
    unfolding MbedAesGcmDecrypt_def Let_def
    by (simp only: option.case prod.case False s neg nat_int r un a if_False if_True simp_thms less_irrefl)
  have "length msg \<le> k - 28" using a assms(1) r(3) unfolding gcm_correct_def by metis
  then show ?thesis unfolding d using assms(5) by (auto simp: write_at_def)
qed

lemma SoftBusDecryptData_total:
  assumes "gcm_correct g" "unat n = k" "k \<le> length ct" "k < 2147483648" "k - 28 \<le> length buf"
  obtains r out l' where "SoftBusDecryptData g (Some ck) (Some ct) n (Some buf) (Some l) = Some (r, Some out, l')"
    "length out = length buf" "r \<in> {SOFTBUS_OK, SOFTBUS_INVALID_PARAM, SOFTBUS_ENCRYPT_ERR}"
proof (cases "n < 12")
  case True
  then show ?thesis using that by (simp add: SoftBusDecryptData_def)
next
  case False
  then have k12: "12 \<le> k" using assms(2) by (simp add: word_le_nat_alt not_less)
  then have r: "read_at ct 0 12 = Some (take 12 ct)" using assms(3) by (simp add: read_at_def)
  obtain result out where "MbedAesGcmDecrypt g (Some (ck\<lparr>ck_iv := take 12 ct\<rparr>)) (Some ct) n (Some buf) (n - 28) =
      Some (result, Some out)" "length out = length buf"
    using MbedAesGcmDecrypt_total [OF assms] by blast
  then show ?thesis using that False r
    by (cases "result \<le> 0") (auto simp: SoftBusDecryptData_def)
qed

lemma SoftBusDecryptData_ok:
  assumes "gcm_correct g" "gcm_key (ck_key ck, ck_keyLen ck * 8)"
    and "gcm_auth g (ck_key ck, ck_keyLen ck * 8) iv tag enc = (0, msg)"
    and "length iv = 12" "length tag = 16" "length enc = k" "unat n = k" "0 < k" "k + 28 < 2147483648"
    and "k \<le> length buf"
  shows "SoftBusDecryptData g (Some ck) (Some (iv @ enc @ tag @ rest)) (n + 28) (Some buf) (Some l) =
     Some (SOFTBUS_OK, Some (msg @ drop k buf), Some n)"
proof -
  have u: "unat (n + 28) = k + 28" using assms(7,9) by (simp add: unat_add_small)
  have big: "\<not> n + 28 < 12" "\<not> n + 28 \<le> 28" using u assms(8) by (simp_all add: word_less_nat_alt word_le_nat_alt)
  have s: "sint n = int k" using sint_small [of n] assms(7,9) by simp
  have z: "gcm_setkey g (ck_key ck, ck_keyLen ck * 8) = 0" using assms(1,2) by (auto simp: gcm_correct_def)
  have m: "length msg = k" using assms(1,3,6) unfolding gcm_correct_def by metis
  have pos: "\<not> int k < 0" "\<not> int k \<le> 0" "n + 28 - 28 = n" using assms(8) by simp_all
  have r: "read_at (iv @ enc @ tag @ rest) (k + 12) 16 = Some tag" "read_at (iv @ enc @ tag @ rest) 12 k = Some enc"
    "read_at (iv @ enc @ tag @ rest) 0 12 = Some iv"
    using assms(4-6) by (simp_all add: read_at_def)
  have f: "ck_key (ck\<lparr>ck_iv := iv\<rparr>) = ck_key ck" "ck_keyLen (ck\<lparr>ck_iv := iv\<rparr>) = ck_keyLen ck"
    "ck_iv (ck\<lparr>ck_iv := iv\<rparr>) = iv" by simp_all
  have w: "write_at buf 0 msg = Some (msg @ drop k buf)" using m assms(10) by (simp add: write_at_def)
  have "MbedAesGcmDecrypt g (Some (ck\<lparr>ck_iv := iv\<rparr>)) (Some (iv @ enc @ tag @ rest)) (n + 28) (Some buf) n =
      Some (int k, Some (msg @ drop k buf))"
    unfolding MbedAesGcmDecrypt_def Let_def
    by (simp only: option.case prod.case big pos s z nat_int r assms(3,7) w if_False if_True simp_thms
        less_irrefl f option.map)
  moreover have "word_of_int (int k) = n" using assms(7) by auto
  ultimately show ?thesis
    unfolding SoftBusDecryptData_def
    by (simp only: option.case prod.case r big pos if_False if_True simp_thms option.distinct)
qed

end
