(* ===== verification/Auth_Session_Key.thy ===== *)
theory Auth_Session_Key
  imports Adapter_Crypto
begin

text \<open>
  The session keys of an authenticated connection, \<^verbatim>\<open>core/authentication/src/auth_session_key.c\<close>: the list
  of the ten latest keys, and the encryption of messages with the latest key, whose index travels
  in front of the packet. The intrusive list is a list here (theory \<open>Common_List\<close> relates the two);
  an \<open>int32_t\<close> index is its 32-bit pattern; the clock and the allocator are arguments.
\<close>

section \<open>Model\<close>

abbreviation (input) SESSION_KEY_MAX_NUM :: u32 where "SESSION_KEY_MAX_NUM \<equiv> 10"
abbreviation (input) ENCRYPT_INDEX_LEN :: u32 where "ENCRYPT_INDEX_LEN \<equiv> 4"
abbreviation (input) ENCRYPT_OVER_HEAD_LEN :: u32 where "ENCRYPT_OVER_HEAD_LEN \<equiv> 32"

record SessionKey =
  sk_value :: "u8 list"
  sk_len :: u32

record SessionKeyItem =
  ki_index :: u32
  ki_key :: SessionKey
  ki_lastUseTime :: u64

definition RemoveOldKey :: "SessionKeyItem list \<Rightarrow> SessionKeyItem list" where
  "RemoveOldKey list =
     (let num = foldl (\<lambda>n _. n + 1) (0 :: u32) list in
      if num \<le> SESSION_KEY_MAX_NUM then list else tl list)"

definition InitSessionKeyList :: "SessionKeyItem list option \<Rightarrow> SessionKeyItem list option" where
  "InitSessionKeyList list = map_option (\<lambda>_. []) list"

definition DestroySessionKeyList :: "SessionKeyItem list option \<Rightarrow> SessionKeyItem list option" where
  "DestroySessionKeyList list = map_option (\<lambda>_. []) list"

fun dup_loop :: "(nat \<Rightarrow> bool) \<Rightarrow> nat \<Rightarrow> SessionKeyItem list \<Rightarrow> SessionKeyItem list \<Rightarrow> int \<times> SessionKeyItem list" where
  "dup_loop alloc i [] dst = (SOFTBUS_OK, dst)"
| "dup_loop alloc i (item # src) dst =
     (if \<not> alloc i then (SOFTBUS_MALLOC_ERR, the (DestroySessionKeyList (Some dst)))
      else dup_loop alloc (Suc i) src (dst @ [item]))"

definition DupSessionKeyList ::
  "(nat \<Rightarrow> bool) \<Rightarrow> SessionKeyItem list option \<Rightarrow> SessionKeyItem list option \<Rightarrow> int \<times> SessionKeyItem list option" where
  "DupSessionKeyList alloc srcList dstList =
     (case (srcList, dstList) of
        (Some src, Some dst) \<Rightarrow> apsnd Some (dup_loop alloc 0 src dst)
      | _ \<Rightarrow> (SOFTBUS_INVALID_PARAM, dstList))"

definition HasSessionKey :: "SessionKeyItem list option \<Rightarrow> bool" where
  "HasSessionKey list = (case list of None \<Rightarrow> False | Some l \<Rightarrow> l \<noteq> [])"

definition AddSessionKey ::
  "bool \<Rightarrow> u64 \<Rightarrow> SessionKeyItem list option \<Rightarrow> u32 \<Rightarrow> SessionKey option \<Rightarrow> int \<times> SessionKeyItem list option" where
  "AddSessionKey alloc_ok now list index key =
     (case (key, list) of
        (Some k, Some l) \<Rightarrow>
          if \<not> alloc_ok then (SOFTBUS_MALLOC_ERR, list)
          else
            let item = \<lparr>ki_index = index, ki_key = k, ki_lastUseTime = now\<rparr>
            in (SOFTBUS_OK, Some (RemoveOldKey (l @ [item])))
      | _ \<Rightarrow> (SOFTBUS_INVALID_PARAM, list))"

text \<open>The two look-ups return the changed list, and the index and the key they found.\<close>

definition GetLatestSessionKey ::
  "u64 \<Rightarrow> SessionKeyItem list option \<Rightarrow> int \<times> SessionKeyItem list option \<times> (u32 \<times> SessionKey) option" where
  "GetLatestSessionKey now list =
     (case list of
        None \<Rightarrow> (SOFTBUS_INVALID_PARAM, None, None)
      | Some l \<Rightarrow>
          if l = [] then (SOFTBUS_ERR, list, None)
          else
            let item = last l
            in (SOFTBUS_OK, Some (butlast l @ [item\<lparr>ki_lastUseTime := now\<rparr>]), Some (ki_index item, ki_key item)))"

fun find_index :: "u64 \<Rightarrow> u32 \<Rightarrow> SessionKeyItem list \<Rightarrow> (SessionKeyItem list \<times> SessionKey) option" where
  "find_index now index [] = None"
| "find_index now index (item # l) =
     (if ki_index item \<noteq> index then map_option (apfst (Cons item)) (find_index now index l)
      else Some (item\<lparr>ki_lastUseTime := now\<rparr> # l, ki_key item))"

definition GetSessionKeyByIndex ::
  "u64 \<Rightarrow> SessionKeyItem list option \<Rightarrow> u32 \<Rightarrow> int \<times> SessionKeyItem list option \<times> SessionKey option" where
  "GetSessionKeyByIndex now list index =
     (case list of
        None \<Rightarrow> (SOFTBUS_INVALID_PARAM, None, None)
      | Some l \<Rightarrow>
          (case find_index now index l of
             None \<Rightarrow> (SOFTBUS_ERR, list, None)
           | Some (l', k) \<Rightarrow> (SOFTBUS_OK, Some l', Some k)))"

text \<open>
  The cipher key made of a session key: \<^const>\<open>None\<close> for an undefined read, \<open>Some None\<close> when the copy is
  refused.
\<close>

definition make_cipher_key :: "SessionKey \<Rightarrow> AesGcmCipherKey option option" where
  "make_cipher_key k =
     (if \<not> memcpy_s_ok SESSION_KEY_LENGTH (unat (sk_len k)) then Some None
      else map_option
        (\<lambda>bs. Some \<lparr>ck_keyLen = sk_len k, ck_key = bs @ replicate (SESSION_KEY_LENGTH - length bs) 0,
                    ck_iv = replicate 12 0\<rparr>)
        (read_at (sk_value k) 0 (unat (sk_len k))))"

text \<open>\<open>outLen\<close> is the value the pointer refers to; the results are the code, the list, the buffer and it.\<close>

definition EncryptData ::
  "bool \<Rightarrow> gcm \<Rightarrow> random_env \<Rightarrow> u64 \<Rightarrow> SessionKeyItem list option \<Rightarrow> u8 list option \<Rightarrow> u32 \<Rightarrow> u8 list option \<Rightarrow> u32 \<Rightarrow>
     (int \<times> SessionKeyItem list option \<times> u8 list option \<times> u32) option" where
  "EncryptData le g env now list inData inLen outData outLen =
     (if list = None \<or> inData = None \<or> inLen = 0 \<or> outData = None \<or> outLen < inLen + ENCRYPT_OVER_HEAD_LEN
      then Some (SOFTBUS_INVALID_PARAM, list, outData, outLen)
      else case GetLatestSessionKey now list of
        (ret, list1, found) \<Rightarrow>
          if ret \<noteq> SOFTBUS_OK then Some (SOFTBUS_ENCRYPT_ERR, list1, outData, outLen)
          else
            let (index, key) = the found in
            (case write_at (the outData) 0 (mem_bytes le 4 (SoftBusHtoLl le index)) of
               None \<Rightarrow> None
             | Some out1 \<Rightarrow>
                 (case make_cipher_key key of
                    None \<Rightarrow> None
                  | Some None \<Rightarrow> Some (SOFTBUS_MEM_ERR, list1, Some out1, outLen)
                  | Some (Some ck) \<Rightarrow>
                      (case SoftBusEncryptDataWithSeq le g env (Some ck) inData inLen (Some (drop 4 out1))
                              (Some outLen) index of
                         None \<Rightarrow> None
                       | Some (r, out2, n) \<Rightarrow>
                           let out3 = Some (take 4 out1 @ the out2) in
                           if r \<noteq> SOFTBUS_OK then Some (SOFTBUS_ENCRYPT_ERR, list1, out3, the n)
                           else Some (SOFTBUS_OK, list1, out3, the n + ENCRYPT_INDEX_LEN)))))"

definition DecryptData ::
  "bool \<Rightarrow> gcm \<Rightarrow> u64 \<Rightarrow> SessionKeyItem list option \<Rightarrow> u8 list option \<Rightarrow> u32 \<Rightarrow> u8 list option \<Rightarrow> u32 \<Rightarrow>
     (int \<times> SessionKeyItem list option \<times> u8 list option \<times> u32) option" where
  "DecryptData le g now list inData inLen outData outLen =
     (if list = None \<or> inData = None \<or> outData = None \<or> inLen \<le> ENCRYPT_OVER_HEAD_LEN \<or>
         outLen < inLen - ENCRYPT_OVER_HEAD_LEN
      then Some (SOFTBUS_INVALID_PARAM, list, outData, outLen)
      else case read_at (the inData) 0 4 of
        None \<Rightarrow> None
      | Some ib \<Rightarrow>
          let index = SoftBusLtoHl le (mem_word le ib) in
          (case GetSessionKeyByIndex now list index of
             (ret, list1, found) \<Rightarrow>
               if ret \<noteq> SOFTBUS_OK then Some (SOFTBUS_DECRYPT_ERR, list1, outData, outLen)
               else
                 (case make_cipher_key (the found) of
                    None \<Rightarrow> None
                  | Some None \<Rightarrow> Some (SOFTBUS_MEM_ERR, list1, outData, outLen)
                  | Some (Some ck) \<Rightarrow>
                      (case SoftBusDecryptDataWithSeq g (Some ck) (Some (drop 4 (the inData)))
                              (inLen - ENCRYPT_INDEX_LEN) outData (Some outLen) index of
                         None \<Rightarrow> None
                       | Some (r, out, n) \<Rightarrow>
                           if r \<noteq> SOFTBUS_OK then Some (SOFTBUS_DECRYPT_ERR, list1, out, the n)
                           else Some (SOFTBUS_OK, list1, out, the n)))))"

text \<open>
  The callers that allocate the output; the last two results are the buffer and its length, absent
  when the call fails.
\<close>

definition EncryptInner ::
  "bool \<Rightarrow> gcm \<Rightarrow> random_env \<Rightarrow> u64 \<Rightarrow> bool \<Rightarrow> SessionKeyItem list option \<Rightarrow> u8 list option \<Rightarrow> u32 \<Rightarrow>
     (int \<times> SessionKeyItem list option \<times> (u8 list \<times> u32) option) option" where
  "EncryptInner le g env now alloc_ok list inData inLen =
     (if list = None \<or> inData = None \<or> inLen = 0 then Some (SOFTBUS_INVALID_PARAM, list, None)
      else
        let encDataLen = inLen + ENCRYPT_OVER_HEAD_LEN in
        if \<not> SoftBusCalloc alloc_ok encDataLen then Some (SOFTBUS_MALLOC_ERR, list, None)
        else case EncryptData le g env now list inData inLen (Some (replicate (unat encDataLen) 0)) encDataLen of
          None \<Rightarrow> None
        | Some (ret, list1, encData, n) \<Rightarrow>
            if ret \<noteq> SOFTBUS_OK then Some (SOFTBUS_ENCRYPT_ERR, list1, None)
            else Some (SOFTBUS_OK, list1, Some (the encData, n)))"

definition DecryptInner ::
  "bool \<Rightarrow> gcm \<Rightarrow> u64 \<Rightarrow> bool \<Rightarrow> SessionKeyItem list option \<Rightarrow> u8 list option \<Rightarrow> u32 \<Rightarrow>
     (int \<times> SessionKeyItem list option \<times> (u8 list \<times> u32) option) option" where
  "DecryptInner le g now alloc_ok list inData inLen =
     (if list = None \<or> inData = None \<or> inLen \<le> ENCRYPT_OVER_HEAD_LEN then Some (SOFTBUS_INVALID_PARAM, list, None)
      else
        let decDataLen = inLen - ENCRYPT_OVER_HEAD_LEN + 1 in
        if \<not> SoftBusCalloc alloc_ok decDataLen then Some (SOFTBUS_MALLOC_ERR, list, None)
        else case DecryptData le g now list inData inLen (Some (replicate (unat decDataLen) 0)) decDataLen of
          None \<Rightarrow> None
        | Some (ret, list1, decData, n) \<Rightarrow>
            if ret \<noteq> SOFTBUS_OK then Some (SOFTBUS_DECRYPT_ERR, list1, None)
            else Some (SOFTBUS_OK, list1, Some (the decData, n)))"

section \<open>The key list\<close>

lemma count_items: "foldl (\<lambda>n _. n + 1) (c :: u32) xs = c + of_nat (length xs)"
  by (induction xs arbitrary: c) (auto simp: algebra_simps)

lemma RemoveOldKey_short:
  assumes "length l \<le> 10"
  shows "RemoveOldKey (l @ [x]) = (if length l < 10 then l @ [x] else tl l @ [x])"
proof -
  define k where "k = length (l @ [x])"
  have "unat (of_nat k :: u32) = k" using assms by (simp add: k_def del: of_nat_add of_nat_Suc)
  then have "(of_nat k :: u32) \<le> 10 \<longleftrightarrow> k \<le> 10" by (simp add: word_le_nat_alt)
  then have "RemoveOldKey (l @ [x]) = (if k \<le> 10 then l @ [x] else tl (l @ [x]))"
    by (simp add: RemoveOldKey_def Let_def count_items k_def [symmetric] del: length_append foldl_append)
  then show ?thesis using assms by (cases l) (auto simp: k_def)
qed

text \<open>Adding a sequence of keys to a list; the last ten stay.\<close>

fun add_keys :: "SessionKeyItem list option \<Rightarrow> (u64 \<times> u32 \<times> SessionKey) list \<Rightarrow> SessionKeyItem list option" where
  "add_keys list [] = list"
| "add_keys list ((now, index, key) # ks) = add_keys (snd (AddSessionKey True now list index (Some key))) ks"

definition key_item :: "u64 \<times> u32 \<times> SessionKey \<Rightarrow> SessionKeyItem" where
  "key_item k = (case k of (now, index, key) \<Rightarrow> \<lparr>ki_index = index, ki_key = key, ki_lastUseTime = now\<rparr>)"

definition last_ten :: "'a list \<Rightarrow> 'a list" where
  "last_ten xs = drop (length xs - 10) xs"

lemma add_keys_last_ten:
  assumes "length l \<le> 10"
  shows "add_keys (Some l) ks = Some (last_ten (l @ map key_item ks))"
  using assms
proof (induction ks arbitrary: l)
  case Nil
  then show ?case by (simp add: last_ten_def)
next
  case (Cons k ks)
  obtain now index key where k: "k = (now, index, key)" by (cases k)
  have step: "snd (AddSessionKey True now (Some l) index (Some key)) =
      Some (if length l < 10 then l @ [key_item k] else tl l @ [key_item k])"
    using RemoveOldKey_short [OF Cons.prems] by (simp add: AddSessionKey_def Let_def k key_item_def)
  show ?case
  proof (cases "length l < 10")
    case True
    then show ?thesis using Cons.IH [of "l @ [key_item k]"] step k by simp
  next
    case False
    then obtain y ys where y: "l = y # ys" "length ys = 9" using Cons.prems by (cases l) auto
    have "last_ten (ys @ key_item k # map key_item ks) = last_ten (l @ key_item k # map key_item ks)"
      using y by (simp add: last_ten_def)
    then show ?thesis using Cons.IH [of "ys @ [key_item k]"] step k y by simp
  qed
qed

section \<open>Encrypting and decrypting\<close>

definition key_ok :: "SessionKey \<Rightarrow> bool" where
  "key_ok k \<longleftrightarrow> length (sk_value k) = SESSION_KEY_LENGTH \<and> sk_len k \<in> {16, 24, 32}"

definition cipher_key :: "SessionKey \<Rightarrow> AesGcmCipherKey" where
  "cipher_key k = \<lparr>ck_keyLen = sk_len k,
     ck_key = take (unat (sk_len k)) (sk_value k) @ replicate (32 - unat (sk_len k)) 0, ck_iv = replicate 12 0\<rparr>"

lemma make_cipher_key_ok:
  assumes "key_ok k"
  shows "make_cipher_key k = Some (Some (cipher_key k))" "gcm_key (ck_key (cipher_key k), ck_keyLen (cipher_key k) * 8)"
proof -
  have "unat (sk_len k) \<le> 32" using assms by (auto simp: key_ok_def)
  then show "make_cipher_key k = Some (Some (cipher_key k))"
    using assms by (simp add: make_cipher_key_def cipher_key_def memcpy_s_ok_def read_at_def key_ok_def min_def)
  show "gcm_key (ck_key (cipher_key k), ck_keyLen (cipher_key k) * 8)"
    using assms by (auto simp: key_ok_def cipher_key_def gcm_key_def)
qed

text \<open>
  What an encrypted message looks like: the index in little-endian order, then the packet of the
  adapter, which the same key opens.
\<close>

lemma EncryptInner_packet:
  assumes "gcm_correct g" "random_works env" "l \<noteq> []" "key_ok (ki_key (last l))"
    and "unat n = k" "length msg = k" "0 < k" "k + 32 \<le> 536870912"
  obtains l' iv enc tag where
    "EncryptInner le g env now True (Some l) (Some msg) n =
       Some (SOFTBUS_OK, Some l', Some (le_bytes 4 (ki_index (last l)) @ iv @ enc @ tag, n + 32))"
    "length iv = 12" "length enc = k" "length tag = 16"
    "gcm_auth g (ck_key (cipher_key (ki_key (last l))), ck_keyLen (cipher_key (ki_key (last l))) * 8) iv tag enc = (0, msg)"
proof -
  define item where "item = last l"
  define ck where "ck = cipher_key (ki_key item)"
  define ib where "ib = le_bytes 4 (ki_index item)"
  let ?buf = "replicate (k + 32) (0 :: u8)"
  note mk = make_cipher_key_ok [OF assms(4), folded item_def, folded ck_def]
  have u: "unat (n + 32) = k + 32" using assms(5,8) by (simp add: unat_add_small)
  have n0: "n \<noteq> 0" using assms(5,7) by auto
  have al: "SoftBusCalloc True (n + 32)"
    using assms(7,8) by (simp add: SoftBusCalloc_def SoftBusMalloc_def word_less_nat_alt u)
  have w: "write_at ?buf 0 (mem_bytes le 4 (SoftBusHtoLl le (ki_index item))) = Some (ib @ replicate (k + 28) 0)"
    by (simp add: write_at_def to_little_image ib_def)
  have k2: "k + 28 < 2147483648" "k \<le> length msg" "k + 28 \<le> length (drop 4 (ib @ replicate (k + 28) (0 :: u8)))"
    using assms(6,8) by (simp_all add: ib_def)
  obtain iv enc tag where e:
    "SoftBusEncryptDataWithSeq le g env (Some ck) (Some msg) n (Some (drop 4 (ib @ replicate (k + 28) 0))) (Some (n + 32)) (ki_index item) =
       Some (SOFTBUS_OK, Some (iv @ enc @ tag @ drop (k + 28) (drop 4 (ib @ replicate (k + 28) 0))), Some (n + 28))"
    "length iv = 12" "length enc = k" "length tag = 16"
    "gcm_auth g (ck_key ck, ck_keyLen ck * 8) iv tag enc = (0, take k msg)"
    using SoftBusEncryptDataWithSeq_ok [OF assms(1,2) mk(2) assms(5,7) k2] by metis
  have f: "n + 28 + 4 = n + 32" by simp
  have "EncryptData le g env now (Some l) (Some msg) n (Some ?buf) (n + 32) =
      Some (SOFTBUS_OK, Some (butlast l @ [item\<lparr>ki_lastUseTime := now\<rparr>]), Some (ib @ iv @ enc @ tag), n + 32)"
    using assms(3) n0 w mk(1) e(1)
    by (simp add: EncryptData_def GetLatestSessionKey_def Let_def item_def [symmetric] ib_def)
  then have "EncryptInner le g env now True (Some l) (Some msg) n =
       Some (SOFTBUS_OK, Some (butlast l @ [item\<lparr>ki_lastUseTime := now\<rparr>]), Some (ib @ iv @ enc @ tag, n + 32))"
    using n0 al by (simp add: EncryptInner_def Let_def u)
  then show ?thesis using that [of _ iv enc tag] e(2-5) assms(6) by (simp add: item_def ck_def ib_def)
qed

lemma DecryptInner_packet:
  assumes "gcm_correct g" "key_ok key" "GetSessionKeyByIndex now (Some l) index = (SOFTBUS_OK, l', Some key)"
    and "gcm_auth g (ck_key (cipher_key key), ck_keyLen (cipher_key key) * 8) iv tag enc = (0, msg)"
    and "length iv = 12" "length tag = 16" "length enc = k" "unat n = k" "0 < k" "k + 32 \<le> 536870912"
  shows "DecryptInner le g now True (Some l) (Some (le_bytes 4 index @ iv @ enc @ tag)) (n + 32) =
     Some (SOFTBUS_OK, l', Some (msg @ [0], n))"
proof -
  note mk = make_cipher_key_ok [OF assms(2)]
  have u: "unat (n + 32) = k + 32" "unat (n + 1) = k + 1" using assms(8,10) by (simp_all add: unat_add_small)
  have big: "\<not> n + 32 \<le> 32" "\<not> n + 1 < n" using u assms(8,9) by (simp_all add: word_less_nat_alt word_le_nat_alt)
  have d: "n + 32 - 32 + 1 = n + 1" "n + 32 - 32 = n" "n + 32 - 4 = n + 28" by simp_all
  have al: "SoftBusCalloc True (n + 1)"
    using assms(9,10) by (simp add: SoftBusCalloc_def SoftBusMalloc_def word_less_nat_alt u)
  have r: "read_at (le_bytes 4 index @ iv @ enc @ tag) 0 4 = Some (le_bytes 4 index)"
    by (simp add: read_at_def)
  have dr: "drop 4 (le_bytes 4 index @ iv @ enc @ tag) = iv @ enc @ tag @ []" by simp
  have k2: "k + 28 < 2147483648" "k \<le> length (replicate (k + 1) (0 :: u8))" using assms(10) by simp_all
  define b where "b = replicate (k + 1) (0 :: u8)"
  have db: "drop k b = [0]" by (simp add: b_def drop_Cons')
  have "SoftBusDecryptDataWithSeq g (Some (cipher_key key)) (Some (iv @ enc @ tag @ []))
      (n + 28) (Some b) (Some (n + 1)) index = Some (SOFTBUS_OK, Some (msg @ drop k b), Some n)"
    unfolding SoftBusDecryptDataWithSeq_def
    by (rule SoftBusDecryptData_ok [OF assms(1) mk(2) assms(4,5,6,7,8,9) k2 [folded b_def]])
  then have "DecryptData le g now (Some l) (Some (le_bytes 4 index @ iv @ enc @ tag)) (n + 32)
      (Some b) (n + 1) = Some (SOFTBUS_OK, l', Some (msg @ [0]), n)"
    using big r assms(3) mk(1) db by (simp add: DecryptData_def Let_def to_host_image add.commute)
  then show ?thesis
    using big al by (simp add: DecryptInner_def Let_def u b_def)
qed

section \<open>Properties\<close>

text \<open>
  C34: However many keys are added, each with its allocation, the list holds the ten latest, oldest first. An
  index is answered with the key that was added first among those of the last ten that have this
  index, and with \<open>SOFTBUS_ERR\<close> when none of the last ten has it; \<open>GetLatestSessionKey\<close> answers the
  index and the key that were added last.
\<close>

theorem session_keys_last_ten:
  "\<exists>l. add_keys (Some []) ks = Some l \<and> length l = min 10 (length ks) \<and>
     (\<forall>i. case find (\<lambda>(t, j, k). j = i) (last_ten ks) of
            Some (t, j, k) \<Rightarrow> \<exists>l'. GetSessionKeyByIndex now (Some l) i = (SOFTBUS_OK, Some l', Some k)
          | None \<Rightarrow> GetSessionKeyByIndex now (Some l) i = (SOFTBUS_ERR, Some l, None)) \<and>
     (ks \<noteq> [] \<longrightarrow> (\<exists>l'. GetLatestSessionKey now (Some l) = (SOFTBUS_OK, Some l', Some (snd (last ks)))))"
proof -
  define l where "l = map key_item (last_ten ks)"
  have a: "add_keys (Some []) ks = Some l"
    using add_keys_last_ten [of "[]" ks] by (simp add: l_def last_ten_def drop_map)
  have ii: "ki_index (key_item x) = fst (snd x)" "ki_key (key_item x) = snd (snd x)" for x
    by (simp_all add: key_item_def split: prod.split)
  have "case find (\<lambda>(t, j, k). j = i) (last_ten ks) of
      Some (t, j, k) \<Rightarrow> \<exists>l'. GetSessionKeyByIndex now (Some l) i = (SOFTBUS_OK, Some l', Some k)
    | None \<Rightarrow> GetSessionKeyByIndex now (Some l) i = (SOFTBUS_ERR, Some l, None)" for i
  proof -
    have "case find (\<lambda>(t, j, k). j = i) xs of
        Some (t, j, k) \<Rightarrow> \<exists>l'. find_index now i (map key_item xs) = Some (l', k)
      | None \<Rightarrow> find_index now i (map key_item xs) = None" for xs
      by (induction xs) (auto simp: ii split: option.splits prod.splits)
    from this [of "last_ten ks"] show ?thesis
      by (auto simp: GetSessionKeyByIndex_def l_def split: option.splits prod.splits)
  qed
  moreover have "\<exists>l'. GetLatestSessionKey now (Some l) = (SOFTBUS_OK, Some l', Some (snd (last ks)))" if "ks \<noteq> []"
  proof -
    have "length ks - 10 < length ks" using that by (simp add: diff_less)
    then have ne: "last_ten ks \<noteq> []" "last (last_ten ks) = last ks" by (simp_all add: last_ten_def last_drop)
    then have "last l = key_item (last ks)" by (simp add: l_def last_map)
    then show ?thesis using ne(1) by (simp add: GetLatestSessionKey_def Let_def ii l_def)
  qed
  moreover have "length l = min 10 (length ks)" by (simp add: l_def last_ten_def)
  ultimately show ?thesis using a by blast
qed

definition demo_key :: "nat \<Rightarrow> SessionKey" where
  "demo_key n = \<lparr>sk_value = replicate 32 (of_nat n), sk_len = 16\<rparr>"

theorem session_keys_last_ten_witness:
  "\<exists>l. add_keys (Some []) (map (\<lambda>n. (of_nat n, of_nat n, demo_key n)) [0..<12] @ [(12, 7, demo_key 77)]) = Some l \<and>
     GetSessionKeyByIndex 5 (Some l) 2 = (SOFTBUS_ERR, Some l, None) \<and>
     (\<exists>l'. GetSessionKeyByIndex 5 (Some l) 7 = (SOFTBUS_OK, Some l', Some (demo_key 7))) \<and>
     (\<exists>l'. GetLatestSessionKey 5 (Some l) = (SOFTBUS_OK, Some l', Some (7, demo_key 77)))"
proof -
  define ks :: "(u64 \<times> u32 \<times> SessionKey) list" where
    "ks = map (\<lambda>n. (of_nat n, of_nat n, demo_key n)) [0..<12] @ [(12, 7, demo_key 77)]"
  have f: "find (\<lambda>(t, j, k). j = 2) (last_ten ks) = None" "find (\<lambda>(t, j, k). j = 7) (last_ten ks) = Some (7, 7, demo_key 7)"
    "ks \<noteq> []" "snd (last ks) = (7, demo_key 77)"
    by (simp_all add: ks_def last_ten_def upt_rec) (simp add: eval_nat_numeral)
  obtain l where l: "add_keys (Some []) ks = Some l"
    "\<forall>i. case find (\<lambda>(t, j, k). j = i) (last_ten ks) of
        Some (t, j, k) \<Rightarrow> \<exists>l'. GetSessionKeyByIndex 5 (Some l) i = (SOFTBUS_OK, Some l', Some k)
      | None \<Rightarrow> GetSessionKeyByIndex 5 (Some l) i = (SOFTBUS_ERR, Some l, None)"
    "ks \<noteq> [] \<longrightarrow> (\<exists>l'. GetLatestSessionKey 5 (Some l) = (SOFTBUS_OK, Some l', Some (snd (last ks))))"
    using session_keys_last_ten [of ks 5] by blast
  from l(2) [rule_format, of 2] l(2) [rule_format, of 7] l(1,3) f show ?thesis
    by (intro exI [of _ l]) (simp add: ks_def)
qed

text \<open>
  C32: A message encrypted on one side is given back by the other: for correct AES-GCM primitives, a working
  random generator and any byte order on either side, when the receiver's first key with the
  sender's latest index is the sender's latest key, \<open>DecryptInner\<close> applied to the bytes that
  \<open>EncryptInner\<close> produced returns \<open>SOFTBUS_OK\<close> and exactly the message, followed by a zero byte.
\<close>

theorem auth_message_round_trip:
  assumes "gcm_correct g" "random_works env" "ls \<noteq> []" "key_ok (ki_key (last ls))"
    and "GetSessionKeyByIndex now' (Some lr) (ki_index (last ls)) = (SOFTBUS_OK, lr', Some (ki_key (last ls)))"
    and "0 < length msg" "length msg + 32 \<le> 536870912"
  shows "\<exists>ls' packet. EncryptInner le g env now True (Some ls) (Some msg) (of_nat (length msg)) =
       Some (SOFTBUS_OK, Some ls', Some (packet, of_nat (length msg) + 32)) \<and>
     length packet = length msg + 32 \<and>
     DecryptInner le' g now' True (Some lr) (Some packet) (of_nat (length msg) + 32) =
       Some (SOFTBUS_OK, lr', Some (msg @ [0], of_nat (length msg)))"
proof -
  let ?n = "of_nat (length msg) :: u32"
  have u: "unat ?n = length msg" using assms(7) by simp
  obtain ls' iv enc tag where e:
    "EncryptInner le g env now True (Some ls) (Some msg) ?n =
       Some (SOFTBUS_OK, Some ls', Some (le_bytes 4 (ki_index (last ls)) @ iv @ enc @ tag, ?n + 32))"
    "length iv = 12" "length enc = length msg" "length tag = 16"
    "gcm_auth g (ck_key (cipher_key (ki_key (last ls))), ck_keyLen (cipher_key (ki_key (last ls))) * 8) iv tag enc = (0, msg)"
    using EncryptInner_packet [OF assms(1-4) u refl assms(6,7)] by metis
  from DecryptInner_packet [OF assms(1,4,5) e(5) e(2,4,3) u assms(6,7), of le'] e(1-4) show ?thesis by auto
qed

text \<open>A cipher that copies the text, with a constant tag, satisfies the documented laws.\<close>

definition copy_gcm :: gcm where
  "copy_gcm = \<lparr>gcm_setkey = (\<lambda>_. 0), gcm_crypt = (\<lambda>_ _ msg. (0, msg, replicate 16 0)),
     gcm_auth = (\<lambda>_ _ _ enc. (0, enc))\<rparr>"

definition zero_random :: random_env where
  "zero_random = \<lparr>re_init = False, re_lock = 0, re_seed = 0, re_drbg = (\<lambda>n. (0, replicate (unat n) 0))\<rparr>"

lemma copy_gcm_correct: "gcm_correct copy_gcm" "random_works zero_random"
  by (simp_all add: gcm_correct_def copy_gcm_def random_works_def zero_random_def)

theorem auth_message_round_trip_witness:
  "gcm_correct copy_gcm \<and> random_works zero_random \<and>
   (\<exists>ls' packet. EncryptInner True copy_gcm zero_random 3 True (add_keys (Some []) [(0, 7, demo_key 7)]) (Some [65, 66]) 2 =
       Some (SOFTBUS_OK, Some ls', Some (packet, 34)) \<and>
     (\<exists>lr'. DecryptInner False copy_gcm 4 True (add_keys (Some []) [(0, 6, demo_key 6), (1, 7, demo_key 7)]) (Some packet) 34 =
       Some (SOFTBUS_OK, lr', Some ([65, 66, 0], 2))))"
proof -
  let ?ls = "[key_item (0, 7, demo_key 7)]" and ?lr = "[key_item (0, 6, demo_key 6), key_item (1, 7, demo_key 7)]"
  have k: "add_keys (Some []) [(0, 7, demo_key 7)] = Some ?ls"
    "add_keys (Some []) [(0, 6, demo_key 6), (1, 7, demo_key 7)] = Some ?lr"
    by (simp_all add: add_keys_last_ten last_ten_def del: add_keys.simps)
  have o: "key_ok (ki_key (last ?ls))" by (simp add: key_ok_def key_item_def demo_key_def)
  have "\<exists>lr'. GetSessionKeyByIndex 4 (Some ?lr) (ki_index (last ?ls)) = (SOFTBUS_OK, lr', Some (ki_key (last ?ls)))"
    by (simp add: GetSessionKeyByIndex_def key_item_def)
  then obtain lr' where "GetSessionKeyByIndex 4 (Some ?lr) (ki_index (last ?ls)) = (SOFTBUS_OK, lr', Some (ki_key (last ?ls)))" ..
  from auth_message_round_trip [OF copy_gcm_correct _ o this, of "[65, 66]" True 3 False] copy_gcm_correct
  show ?thesis unfolding k by auto
qed

text \<open>
  C33: Whatever bytes arrive, \<open>DecryptInner\<close> returns without reading or writing outside its buffers: for every
  message of less than \<open>2\<^sup>31\<close> bytes, every list of 32-byte keys, every byte order and every outcome
  of the allocation it gives a code, and only with \<open>SOFTBUS_OK\<close> a buffer, whose size is that of the
  message without the overhead and one byte more.
\<close>

theorem DecryptInner_safe:
  assumes "gcm_correct g" "\<forall>item \<in> set l. length (sk_value (ki_key item)) = 32"
    and "length data = unat n" "unat n < 2147483648"
  shows "\<exists>r l' out. DecryptInner le g now alloc_ok (Some l) (Some data) n = Some (r, l', out) \<and>
     (case out of None \<Rightarrow> r \<noteq> SOFTBUS_OK | Some (buf, m) \<Rightarrow> r = SOFTBUS_OK \<and> length buf = unat n - 32 + 1)"
proof (cases "n \<le> 32 \<or> \<not> SoftBusCalloc alloc_ok (n - 32 + 1)")
  case True
  then show ?thesis by (auto simp: DecryptInner_def Let_def)
next
  case False
  then have n: "32 < unat n" by (simp add: word_le_nat_alt)
  then have u: "unat (n - 32) = unat n - 32" "unat (n - 4) = unat n - 4" by (simp_all add: unat_sub word_le_nat_alt)
  then have u1: "unat (n - 32 + 1) = unat n - 32 + 1" using assms(4) unat_add_small [of "n - 32" 1] by simp
  have ge: "\<not> n - 32 + 1 < n - 32" unfolding word_less_nat_alt u u1 by simp
  define b where "b = replicate (unat n - 32 + 1) (0 :: u8)"
  define index where "index = SoftBusLtoHl le (mem_word le (take 4 data))"
  have rd: "read_at data 0 4 = Some (take 4 data)" using n assms(3) by (simp add: read_at_def)
  have "\<exists>r l' out m. DecryptData le g now (Some l) (Some data) n (Some b) (n - 32 + 1) = Some (r, l', Some out, m) \<and>
      length out = unat n - 32 + 1"
  proof (cases "find_index now index l")
    case None
    then show ?thesis using False ge rd
      by (simp add: DecryptData_def Let_def index_def [symmetric] GetSessionKeyByIndex_def b_def)
  next
    case (Some c)
    then obtain l' k where f: "find_index now index l = Some (l', k)" by (cases c) auto
    have "k \<in> ki_key ` set l" using f by (induction l arbitrary: l') (auto split: if_splits)
    then have v: "length (sk_value k) = 32" using assms(2) by auto
    have "make_cipher_key k \<noteq> None" using v by (auto simp: make_cipher_key_def memcpy_s_ok_def read_at_def)
    then obtain ck where "make_cipher_key k = Some None \<or> make_cipher_key k = Some (Some ck)"
      by (metis not_None_eq)
    then show ?thesis
    proof
      assume "make_cipher_key k = Some None"
      then show ?thesis using False ge rd f
        by (simp add: DecryptData_def Let_def index_def [symmetric] GetSessionKeyByIndex_def b_def)
    next
      assume m: "make_cipher_key k = Some (Some ck)"
      have t: "unat n - 4 \<le> length (drop 4 data)" "unat n - 4 < 2147483648" "unat n - 4 - 28 \<le> length b"
        using assms(3,4) n by (simp_all add: b_def)
      obtain r out x where "SoftBusDecryptData g (Some ck) (Some (drop 4 data)) (n - 4) (Some b) (Some (n - 32 + 1)) =
          Some (r, Some out, x)" "length out = length b"
        using SoftBusDecryptData_total [OF assms(1) u(2) t] by metis
      then show ?thesis using False ge rd f m
        by (cases "r = SOFTBUS_OK") (auto simp: DecryptData_def Let_def index_def [symmetric]
            GetSessionKeyByIndex_def SoftBusDecryptDataWithSeq_def b_def)
    qed
  qed
  then obtain r l' out m where "DecryptData le g now (Some l) (Some data) n (Some b) (n - 32 + 1) = Some (r, l', Some out, m)"
    "length out = unat n - 32 + 1" by blast
  moreover have "unat (n - 31) = unat n - 32 + 1" using u1 by simp
  ultimately show ?thesis using False by (cases "r = SOFTBUS_OK") (auto simp: DecryptInner_def Let_def b_def)
qed

theorem DecryptInner_safe_witness:
  "\<exists>r l' out. DecryptInner True copy_gcm 1 True (Some [key_item (0, 7, demo_key 7)]) (Some (replicate 40 255)) 40 =
     Some (r, l', out)"
  using DecryptInner_safe [OF copy_gcm_correct(1), of "[key_item (0, 7, demo_key 7)]" "replicate 40 255" 40 True 1 True]
  by (auto simp: key_item_def demo_key_def)

end
