(* ===== verification/P2p_Channel_Freq.thy ===== *)
theory P2p_Channel_Freq
  imports Softbus_Prelude
begin

text \<open>
  The choice of the operating frequency of a Wi-Fi direct group,
  \<^verbatim>\<open>core/connection/p2p/negotiation/src/p2plink_channel_freq.c\<close>: channel lists as text and back, the maps between
  channels and frequencies, and the selection. A \<open>P2pLink5GList\<close> is the list of its \<open>num\<close> channels; the
  frequency of the station interface and the recommendation of the driver are arguments. C strings
  are lists of characters without their terminator.
\<close>

section \<open>Library functions the file uses\<close>





definition is_digit :: "char \<Rightarrow> bool" where
  "is_digit c \<longleftrightarrow> of_char c \<in> {48 .. (57 :: nat)}"

definition is_space :: "char \<Rightarrow> bool" where
  "is_space c \<longleftrightarrow> of_char c \<in> {9, 10, 11, 12, 13, 32 :: nat}"

definition digits_value :: "string \<Rightarrow> nat" where
  "digits_value ds = foldl (\<lambda>n c. n * 10 + (of_char c - 48)) 0 ds"

text \<open>\<open>atoi\<close>, which has no defined result when the number does not fit into an \<open>int\<close>.\<close>

definition atoi :: "string \<Rightarrow> int option" where
  "atoi s =
     (let s1 = dropWhile is_space s;
          neg = (s1 \<noteq> [] \<and> hd s1 = CHR ''-'');
          s2 = (if s1 \<noteq> [] \<and> (hd s1 = CHR ''-'' \<or> hd s1 = CHR ''+'') then tl s1 else s1);
          v = int (digits_value (takeWhile is_digit s2));
          r = (if neg then - v else v)
      in if - 2147483648 \<le> r \<and> r \<le> 2147483647 then Some r else None)"

text \<open>One call of \<open>strtok_s\<close>: the next token and the rest of the text.\<close>

definition strtok_s :: "string \<Rightarrow> string \<Rightarrow> (string \<times> string) option" where
  "strtok_s delimit str =
     (let str1 = dropWhile (\<lambda>c. c \<in> set delimit) str in
      if str1 = [] then None
      else Some (takeWhile (\<lambda>c. c \<notin> set delimit) str1, drop 1 (dropWhile (\<lambda>c. c \<notin> set delimit) str1)))"

lemma strtok_s_shorter:
  assumes "strtok_s delimit str = Some (item, rest)"
  shows "length rest < length str"
proof -
  define s1 where "s1 = dropWhile (\<lambda>c. c \<in> set delimit) str"
  have ne: "s1 \<noteq> []" and r: "rest = drop 1 (dropWhile (\<lambda>c. c \<notin> set delimit) s1)"
    using assms by (auto simp: strtok_s_def Let_def s1_def split: if_splits)
  have "length s1 \<le> length str" by (simp add: s1_def length_dropWhile_le)
  moreover have "length (dropWhile (\<lambda>c. c \<notin> set delimit) s1) \<le> length s1" by (rule length_dropWhile_le)
  moreover have "0 < length s1" using ne by simp
  ultimately show ?thesis unfolding r length_drop by linarith
qed

section \<open>Model\<close>

abbreviation (input) MAX_CHANNEL_ITEM :: int where "MAX_CHANNEL_ITEM \<equiv> 165"
abbreviation (input) INVALID_5G_CHANNEL :: int where "INVALID_5G_CHANNEL \<equiv> 165"
abbreviation (input) FREQUENCY_2G_FIRST :: int where "FREQUENCY_2G_FIRST \<equiv> 2412"
abbreviation (input) FREQUENCY_2G_LAST :: int where "FREQUENCY_2G_LAST \<equiv> 2472"
abbreviation (input) FREQUENCY_5G_FIRST :: int where "FREQUENCY_5G_FIRST \<equiv> 5170"
abbreviation (input) FREQUENCY_5G_LAST :: int where "FREQUENCY_5G_LAST \<equiv> 5825"
abbreviation (input) CHANNEL_2G_FIRST :: int where "CHANNEL_2G_FIRST \<equiv> 1"
abbreviation (input) CHANNEL_2G_LAST :: int where "CHANNEL_2G_LAST \<equiv> 13"
abbreviation (input) CHANNEL_5G_FIRST :: int where "CHANNEL_5G_FIRST \<equiv> 34"
abbreviation (input) CHANNEL_5G_LAST :: int where "CHANNEL_5G_LAST \<equiv> 165"
abbreviation (input) FREQUENCY_STEP :: int where "FREQUENCY_STEP \<equiv> 5"
abbreviation (input) CHANNEL_INVALID :: int where "CHANNEL_INVALID \<equiv> -1"
abbreviation (input) FREQUENCY_INVALID :: int where "FREQUENCY_INVALID \<equiv> -1"
abbreviation (input) CHAN_LIST_LEN :: nat where "CHAN_LIST_LEN \<equiv> 256"



text \<open>
  The loop over the tokens. \<open>lst\<close> has the entries written so far; the result has them and the number
  that is reported, which is one more than \<open>num\<close> when there are too many.
\<close>

function parse_loop :: "string \<Rightarrow> int \<Rightarrow> string list \<Rightarrow> (string \<times> string) option \<Rightarrow> string list \<times> int" where
  "parse_loop delimit num lst None = (lst, int (length lst))"
| "parse_loop delimit num lst (Some (itemStr, rest)) =
     (if int (length lst) \<ge> num then (lst, int (length lst) + 1)
      else parse_loop delimit num (lst @ [itemStr]) (strtok_s delimit rest))"
  by pat_completeness auto
termination
  by (relation "measure (\<lambda>(_, _, _, t). case t of None \<Rightarrow> 0 | Some (_, rest) \<Rightarrow> Suc (length rest))")
    (auto split: option.splits dest: strtok_s_shorter)

definition P2pLinkParseItemDataByDelimit ::
  "string option \<Rightarrow> string option \<Rightarrow> int \<Rightarrow> int \<Rightarrow> string list \<times> int" where
  "P2pLinkParseItemDataByDelimit srcStr delimit num outNum =
     (case (srcStr, delimit) of
        (Some s, Some d) \<Rightarrow> if num = 0 then ([], outNum) else parse_loop d num [] (strtok_s d s)
      | _ \<Rightarrow> ([], outNum))"

text \<open>Reading the parsed numbers; an index past the entries that were written reads a null pointer.\<close>

fun read_channels :: "string list \<Rightarrow> nat \<Rightarrow> nat \<Rightarrow> int list option" where
  "read_channels lst i 0 = Some []"
| "read_channels lst i (Suc n) =
     (if i < length lst
      then Option.bind (atoi (lst ! i)) (\<lambda>c. map_option (Cons c) (read_channels lst (Suc i) n))
      else None)"

definition StringToChannelList :: "bool \<Rightarrow> string option \<Rightarrow> int list option option" where
  "StringToChannelList alloc_ok channelString =
     (case channelString of
        None \<Rightarrow> Some None
      | Some s \<Rightarrow>
          if length s = 0 then Some None
          else if length s \<ge> CHAN_LIST_LEN then Some None
          else case P2pLinkParseItemDataByDelimit (Some s) (Some ''##'') MAX_CHANNEL_ITEM 0 of
            (lst, num) \<Rightarrow>
              if num = 0 then Some None
              else if \<not> alloc_ok then Some None
              else map_option Some (read_channels lst 0 (nat num)))"

definition GetChannelByFreq :: "int \<Rightarrow> int" where
  "GetChannelByFreq freq =
     (if freq \<ge> FREQUENCY_2G_FIRST \<and> freq \<le> FREQUENCY_2G_LAST
      then (freq - FREQUENCY_2G_FIRST) div FREQUENCY_STEP + CHANNEL_2G_FIRST
      else if freq \<ge> FREQUENCY_5G_FIRST \<and> freq \<le> FREQUENCY_5G_LAST
      then (freq - FREQUENCY_5G_FIRST) div FREQUENCY_STEP + CHANNEL_5G_FIRST
      else CHANNEL_INVALID)"

definition Is2GBand :: "int \<Rightarrow> bool" where
  "Is2GBand freq = (if freq \<ge> FREQUENCY_2G_FIRST \<and> freq \<le> FREQUENCY_2G_LAST then True else False)"

definition IsInChannelList :: "int \<Rightarrow> int list option \<Rightarrow> bool" where
  "IsInChannelList channelItem channelList =
     (case channelList of None \<Rightarrow> False | Some cs \<Rightarrow> list_ex (\<lambda>c. channelItem = c) cs)"

definition P2pLinkUpateAndGetStationFreq :: "int \<Rightarrow> int list option \<Rightarrow> int" where
  "P2pLinkUpateAndGetStationFreq freq channelList =
     (if freq < FREQUENCY_2G_FIRST then FREQUENCY_INVALID
      else
        let channel = GetChannelByFreq freq
        in if freq > FREQUENCY_2G_LAST \<and> \<not> IsInChannelList channel channelList then FREQUENCY_INVALID else freq)"

definition GetFreqByChannel :: "int \<Rightarrow> int" where
  "GetFreqByChannel channel =
     (if channel \<ge> CHANNEL_2G_FIRST \<and> channel \<le> CHANNEL_2G_LAST
      then (channel - CHANNEL_2G_FIRST) * FREQUENCY_STEP + FREQUENCY_2G_FIRST
      else if channel \<ge> CHANNEL_5G_FIRST \<and> channel \<le> CHANNEL_5G_LAST
      then (channel - CHANNEL_5G_FIRST) * FREQUENCY_STEP + FREQUENCY_5G_FIRST
      else FREQUENCY_INVALID)"

fun common_channels :: "int list \<Rightarrow> int list option \<Rightarrow> int list \<Rightarrow> int list" where
  "common_channels [] gcChannelList result = result"
| "common_channels (c # cs) gcChannelList result =
     (if c = INVALID_5G_CHANNEL then common_channels cs gcChannelList result
      else if IsInChannelList c gcChannelList then common_channels cs gcChannelList (result @ [c])
      else common_channels cs gcChannelList result)"

definition GenerateFrequency :: "bool \<Rightarrow> int list option \<Rightarrow> int list option \<Rightarrow> int" where
  "GenerateFrequency alloc_ok channelList gcChannelList =
     (case channelList of
        None \<Rightarrow> FREQUENCY_INVALID
      | Some cs \<Rightarrow>
          if cs = [] then FREQUENCY_INVALID
          else if \<not> alloc_ok then FREQUENCY_INVALID
          else case common_channels cs gcChannelList [] of
            [] \<Rightarrow> FREQUENCY_INVALID
          | c # _ \<Rightarrow> GetFreqByChannel c)"

definition ChoseChannel5gFreq :: "bool \<Rightarrow> int list option \<Rightarrow> int list option \<Rightarrow> int \<Rightarrow> int \<Rightarrow> int" where
  "ChoseChannel5gFreq alloc_ok channelList gcChannelList localStationFreq gcStationFreq =
     (if gcChannelList \<noteq> None \<or> channelList \<noteq> None then
        let localChannel = GetChannelByFreq localStationFreq in
        if IsInChannelList localChannel channelList \<and> IsInChannelList localChannel gcChannelList
        then localStationFreq
        else
          let gcChannel = GetChannelByFreq gcStationFreq in
          if IsInChannelList gcChannel channelList \<and> IsInChannelList gcChannel gcChannelList
          then gcStationFreq
          else
            let freq = GenerateFrequency alloc_ok channelList gcChannelList
            in if freq \<noteq> FREQUENCY_INVALID then freq else FREQUENCY_INVALID
      else FREQUENCY_INVALID)"

text \<open>The fields of the group client's message that the selection reads.\<close>

record GcInfo =
  gc_channelList :: string
  gc_stationFrequency :: int

text \<open>\<open>rec\<close> is the outcome of asking the driver for a recommendation: a code and a frequency.\<close>

definition P2plinkGetGroupGrequency ::
  "bool \<Rightarrow> bool \<Rightarrow> int \<Rightarrow> int \<times> int \<Rightarrow> GcInfo option \<Rightarrow> int list option \<Rightarrow> int option" where
  "P2plinkGetGroupGrequency alloc1 alloc2 stationFreq recommended gc channelList =
     (case gc of
        None \<Rightarrow> Some SOFTBUS_INVALID_PARAM
      | Some g \<Rightarrow>
          let localStationFreq = P2pLinkUpateAndGetStationFreq stationFreq channelList;
              gcStationFreq = gc_stationFrequency g in
          if (localStationFreq \<noteq> -1 \<or> gcStationFreq \<noteq> -1) \<and> fst recommended = SOFTBUS_OK
          then Some (snd recommended)
          else case StringToChannelList alloc1 (Some (gc_channelList g)) of
            None \<Rightarrow> None
          | Some gcChannelList \<Rightarrow>
              let channel5gFreq =
                    ChoseChannel5gFreq alloc2 channelList gcChannelList localStationFreq gcStationFreq in
              if channel5gFreq \<noteq> -1 then Some channel5gFreq
              else if Is2GBand localStationFreq then Some localStationFreq
              else if Is2GBand gcStationFreq then Some gcStationFreq
              else Some FREQUENCY_2G_FIRST)"

section \<open>Printing and reading a channel list\<close>






















text \<open>Each token takes a character and a separator, so that the array of tokens is large enough.\<close>

lemma strtok_s_consumes:
  assumes "strtok_s d s = Some (item, rest)"
  shows "0 < length s" and "length rest \<le> length s - 2"
proof -
  define s1 where "s1 = dropWhile (\<lambda>c. c \<in> set d) s"
  have ne: "s1 \<noteq> []" and r: "rest = drop 1 (dropWhile (\<lambda>c. c \<notin> set d) s1)"
    using assms by (auto simp: strtok_s_def Let_def s1_def split: if_splits)
  have le: "length s1 \<le> length s" by (simp add: s1_def length_dropWhile_le)
  then show "0 < length s" using ne by (cases s1) auto
  have h: "hd s1 \<notin> set d" using ne hd_dropWhile unfolding s1_def by metis
  obtain c cs where s1: "s1 = c # cs" using ne by (cases s1) auto
  have "length (dropWhile (\<lambda>c. c \<notin> set d) s1) \<le> length cs"
    using h by (simp add: s1 length_dropWhile_le)
  then show "length rest \<le> length s - 2" unfolding r using le by (simp add: s1)
qed

lemma parse_loop_bound:
  "int (length lst) + int ((length s + 1) div 2) \<le> num \<Longrightarrow> parse_loop d num lst (strtok_s d s) = (l, k) \<Longrightarrow>
     k = int (length l) \<and> length l \<le> length lst + (length s + 1) div 2"
proof (induction "length s" arbitrary: s lst rule: less_induct)
  case less
  show ?case
  proof (cases "strtok_s d s")
    case None
    then show ?thesis using less.prems by auto
  next
    case (Some t)
    obtain item rest where t: "t = (item, rest)" by (cases t)
    note c = strtok_s_consumes [OF Some [unfolded t]]
    have dec: "Suc ((length rest + 1) div 2) \<le> (length s + 1) div 2" using c by presburger
    have shorter: "length rest < length s" using c by linarith
    have fits: "int (length (lst @ [item])) + int ((length rest + 1) div 2) \<le> num"
      using less.prems(1) dec by simp
    have room: "\<not> num \<le> int (length lst)" using fits by simp
    have "parse_loop d num (lst @ [item]) (strtok_s d rest) = (l, k)"
      using less.prems(2) room by (simp add: Some t)
    from less.hyps [OF shorter fits this] show ?thesis using dec by simp
  qed
qed

lemma ParseItemData_bound:
  assumes "length s < CHAN_LIST_LEN" and "P2pLinkParseItemDataByDelimit (Some s) (Some d) MAX_CHANNEL_ITEM z = (lst, num)"
  shows "num = int (length lst)" and "length lst \<le> 128"
proof -
  have p: "parse_loop d 165 [] (strtok_s d s) = (lst, num)"
    using assms(2) by (simp add: P2pLinkParseItemDataByDelimit_def)
  have h: "(length s + 1) div 2 \<le> 128" using assms(1) by linarith
  then have "int (length ([] :: string list)) + int ((length s + 1) div 2) \<le> 165" by simp
  from parse_loop_bound [OF this p] show "num = int (length lst)" and "length lst \<le> 128" using h by simp_all
qed

lemma read_channels_total:
  "i + n \<le> length lst \<Longrightarrow> \<forall>item \<in> set lst. atoi item \<noteq> None \<Longrightarrow> \<exists>cs. read_channels lst i n = Some cs"
proof (induction n arbitrary: i)
  case 0
  then show ?case by simp
next
  case (Suc n)
  have "lst ! i \<in> set lst" using Suc.prems(1) by simp
  then obtain c where "atoi (lst ! i) = Some c" using Suc.prems(2) by blast
  moreover obtain cs where "read_channels lst (Suc i) n = Some cs" using Suc by (metis add_Suc_right add_Suc)
  ultimately show ?case using Suc.prems(1) by simp
qed


lemma StringToChannelList_total:
  assumes "\<forall>item \<in> set (fst (P2pLinkParseItemDataByDelimit (Some s) (Some ''##'') MAX_CHANNEL_ITEM 0)). atoi item \<noteq> None"
  shows "\<exists>r. StringToChannelList alloc_ok (Some s) = Some r"
proof -
  obtain lst num where p: "P2pLinkParseItemDataByDelimit (Some s) (Some ''##'') MAX_CHANNEL_ITEM 0 = (lst, num)"
    by fastforce
  show ?thesis
  proof (cases "length s < CHAN_LIST_LEN")
    case True
    have "nat num = length lst" using ParseItemData_bound(1) [OF True p] by simp
    then obtain cs where "read_channels lst 0 (nat num) = Some cs"
      using read_channels_total [of 0 "nat num" lst] assms p by auto
    then show ?thesis using p by (simp add: StringToChannelList_def)
  next
    case False
    then show ?thesis by (simp add: StringToChannelList_def)
  qed
qed



section \<open>Channels and frequencies\<close>

definition valid_channel :: "int \<Rightarrow> bool" where
  "valid_channel c \<longleftrightarrow> (1 \<le> c \<and> c \<le> 13) \<or> (34 \<le> c \<and> c \<le> 165)"

lemma GetFreqByChannel_valid: "GetFreqByChannel c \<noteq> FREQUENCY_INVALID \<longleftrightarrow> valid_channel c"
  by (auto simp: GetFreqByChannel_def valid_channel_def)

lemma GetChannelByFreq_GetFreqByChannel:
  "valid_channel c \<Longrightarrow> GetChannelByFreq (GetFreqByChannel c) = c"
  by (auto simp: GetFreqByChannel_def GetChannelByFreq_def valid_channel_def)

lemma IsInChannelList_set [simp]:
  "IsInChannelList c None = False" "IsInChannelList c (Some cs) \<longleftrightarrow> c \<in> set cs"
  by (auto simp: IsInChannelList_def list_ex_iff)

lemma common_channels_filter:
  "common_channels cs g result = result @ filter (\<lambda>c. c \<noteq> INVALID_5G_CHANNEL \<and> IsInChannelList c g) cs"
  by (induction cs arbitrary: result) auto

lemma hd_filter_find:
  "(case filter P xs of [] \<Rightarrow> d | x # _ \<Rightarrow> f x) = (case find P xs of None \<Rightarrow> d | Some x \<Rightarrow> f x)"
  by (induction xs) auto

lemma GenerateFrequency_find:
  "GenerateFrequency True (Some cs) g =
     (case find (\<lambda>c. c \<noteq> INVALID_5G_CHANNEL \<and> IsInChannelList c g) cs of
        None \<Rightarrow> FREQUENCY_INVALID | Some c \<Rightarrow> GetFreqByChannel c)"
  by (simp add: GenerateFrequency_def common_channels_filter hd_filter_find)

lemma GenerateFrequency_common:
  assumes "GenerateFrequency ok l g = f" and "f \<noteq> FREQUENCY_INVALID"
  shows "IsInChannelList (GetChannelByFreq f) l \<and> IsInChannelList (GetChannelByFreq f) g"
proof -
  obtain cs where l: "l = Some cs" and ok: "ok"
    using assms by (auto simp: GenerateFrequency_def split: option.splits if_splits)
  obtain c where c: "find (\<lambda>c. c \<noteq> INVALID_5G_CHANNEL \<and> IsInChannelList c g) cs = Some c" "f = GetFreqByChannel c"
    using assms l ok by (auto simp: GenerateFrequency_find split: option.splits)
  then have "GetChannelByFreq f = c"
    using assms(2) GetFreqByChannel_valid GetChannelByFreq_GetFreqByChannel by blast
  then show ?thesis using c(1) l by (auto simp: find_Some_iff)
qed

lemma ChoseChannel5gFreq_common:
  assumes "ChoseChannel5gFreq ok l g lf gf = f" and "f \<noteq> FREQUENCY_INVALID"
  shows "IsInChannelList (GetChannelByFreq f) l \<and> IsInChannelList (GetChannelByFreq f) g"
  using assms GenerateFrequency_common [of ok l g f]
  by (auto simp: ChoseChannel5gFreq_def Let_def split: if_splits)

section \<open>The chosen frequency\<close>

text \<open>
  unless the driver recommends a frequency, the group owner answers with a frequency whose channel is in its own
  list and in the list the client sent, or with one of the 2.4 GHz band; and it does answer, whatever
  text the client sent as its list, as long as the numbers in it fit into an \<open>int\<close>: the array of 165 tokens is
  never overrun.
\<close>

theorem group_frequency_acceptable:
  assumes "\<forall>item \<in> set (fst (P2pLinkParseItemDataByDelimit (Some (gc_channelList g)) (Some ''##'') MAX_CHANNEL_ITEM 0)).
             atoi item \<noteq> None"
    and "fst recommended \<noteq> SOFTBUS_OK"
  shows "\<exists>f gcl. P2plinkGetGroupGrequency a1 a2 sf recommended (Some g) l = Some f
           \<and> StringToChannelList a1 (Some (gc_channelList g)) = Some gcl
           \<and> (Is2GBand f \<or> (IsInChannelList (GetChannelByFreq f) l \<and> IsInChannelList (GetChannelByFreq f) gcl))"
proof -
  obtain gcl where gcl: "StringToChannelList a1 (Some (gc_channelList g)) = Some gcl"
    using StringToChannelList_total [OF assms(1)] by blast
  define lf where "lf = P2pLinkUpateAndGetStationFreq sf l"
  define c where "c = ChoseChannel5gFreq a2 l gcl lf (gc_stationFrequency g)"
  have "c \<noteq> -1 \<Longrightarrow> IsInChannelList (GetChannelByFreq c) l \<and> IsInChannelList (GetChannelByFreq c) gcl"
    by (rule ChoseChannel5gFreq_common) (simp_all add: c_def)
  then show ?thesis
    using assms(2) gcl
    by (auto simp: P2plinkGetGroupGrequency_def Let_def lf_def [symmetric] c_def [symmetric] Is2GBand_def)
qed

theorem group_frequency_acceptable_witness:
  "\<exists>f gcl. P2plinkGetGroupGrequency True True 5180 (-1, 0)
              (Some \<lparr>gc_channelList = ''36##149'', gc_stationFrequency = -1\<rparr>) (Some [149, 36]) = Some f
      \<and> StringToChannelList True (Some ''36##149'') = Some gcl
      \<and> (Is2GBand f \<or> (IsInChannelList (GetChannelByFreq f) (Some [149, 36]) \<and> IsInChannelList (GetChannelByFreq f) gcl))"
  using group_frequency_acceptable [of "\<lparr>gc_channelList = ''36##149'', gc_stationFrequency = -1\<rparr>" "(-1, 0)" True True 5180
      "Some [149, 36]"]
  by (simp add: P2pLinkParseItemDataByDelimit_def strtok_s_def Let_def atoi_def is_space_def is_digit_def digits_value_def)





end
