(* ===== verification/Sha256_Spec.thy ===== *)
theory Sha256_Spec
  imports Byte_Order
begin

text \<open>
  The reference: SHA-256 as FIPS 180-4 describes it and HMAC as RFC 2104 does, written without regard to
  any implementation. The message schedule is a recursive function, the working variables are
  shifted one place in each round, and the constants are defined by what they are, the fractional
  parts of roots of the first primes.
\<close>

section \<open>Functions and constants\<close>

definition Ch :: "u32 \<Rightarrow> u32 \<Rightarrow> u32 \<Rightarrow> u32" where
  "Ch x y z = (x AND y) XOR (NOT x AND z)"

definition Maj :: "u32 \<Rightarrow> u32 \<Rightarrow> u32 \<Rightarrow> u32" where
  "Maj x y z = (x AND y) XOR (x AND z) XOR (y AND z)"

definition Sigma0 :: "u32 \<Rightarrow> u32" where
  "Sigma0 x = word_rotr 2 x XOR word_rotr 13 x XOR word_rotr 22 x"

definition Sigma1 :: "u32 \<Rightarrow> u32" where
  "Sigma1 x = word_rotr 6 x XOR word_rotr 11 x XOR word_rotr 25 x"

definition sigma0 :: "u32 \<Rightarrow> u32" where
  "sigma0 x = word_rotr 7 x XOR word_rotr 18 x XOR drop_bit 3 x"

definition sigma1 :: "u32 \<Rightarrow> u32" where
  "sigma1 x = word_rotr 17 x XOR word_rotr 19 x XOR drop_bit 10 x"

definition floor_root :: "nat \<Rightarrow> nat \<Rightarrow> nat" where
  "floor_root k n = Max {m. m ^ k \<le> n}"

definition first_primes :: "nat list" where
  "first_primes =
     [2, 3, 5, 7, 11, 13, 17, 19, 23, 29, 31, 37, 41, 43, 47, 53, 59, 61, 67, 71, 73, 79, 83, 89, 97, 101, 103, 107,
      109, 113, 127, 131, 137, 139, 149, 151, 157, 163, 167, 173, 179, 181, 191, 193, 197, 199, 211, 223, 227,
      229, 233, 239, 241, 251, 257, 263, 269, 271, 277, 281, 283, 293, 307, 311]"

text \<open>The first 32 bits of the fractional part of the \<open>k\<close>-th root of \<open>p\<close>.\<close>

definition root_fraction :: "nat \<Rightarrow> nat \<Rightarrow> u32" where
  "root_fraction k p = of_nat (floor_root k (p * 2 ^ (32 * k)) mod 2 ^ 32)"

definition K256 :: "nat \<Rightarrow> u32" where
  "K256 t = root_fraction 3 (first_primes ! t)"

definition H256 :: "u32 list" where
  "H256 = map (root_fraction 2) (take 8 first_primes)"

section \<open>The hash\<close>

fun schedule :: "u32 list \<Rightarrow> nat \<Rightarrow> u32" where
  "schedule M t =
     (if t < 16 then M ! t
      else sigma1 (schedule M (t - 2)) + schedule M (t - 7) + sigma0 (schedule M (t - 15)) + schedule M (t - 16))"

text \<open>One round on the working variables \<open>[a, b, c, d, e, f, g, h]\<close>.\<close>

definition sha_round :: "u32 list \<Rightarrow> nat \<Rightarrow> u32 list \<Rightarrow> u32 list" where
  "sha_round M t v =
     (let T1 = v ! 7 + Sigma1 (v ! 4) + Ch (v ! 4) (v ! 5) (v ! 6) + K256 t + schedule M t;
          T2 = Sigma0 (v ! 0) + Maj (v ! 0) (v ! 1) (v ! 2)
      in [T1 + T2, v ! 0, v ! 1, v ! 2, v ! 3 + T1, v ! 4, v ! 5, v ! 6])"

fun sha_rounds :: "u32 list \<Rightarrow> nat \<Rightarrow> u32 list \<Rightarrow> u32 list" where
  "sha_rounds M 0 v = v"
| "sha_rounds M (Suc t) v = sha_round M t (sha_rounds M t v)"

definition compress :: "u32 list \<Rightarrow> u32 list \<Rightarrow> u32 list" where
  "compress H M = map2 (+) H (sha_rounds M 64 H)"

text \<open>The words of a block, the first byte the most significant.\<close>

definition block_words :: "u8 list \<Rightarrow> u32 list" where
  "block_words b = map (\<lambda>i. mem_word False (take 4 (drop (4 * i) b))) [0..<16]"

fun hash_blocks :: "nat \<Rightarrow> u32 list \<Rightarrow> u8 list \<Rightarrow> u32 list" where
  "hash_blocks 0 H m = H"
| "hash_blocks (Suc n) H m = hash_blocks n (compress H (block_words (take 64 m))) (drop 64 m)"

definition sha_pad :: "u8 list \<Rightarrow> u8 list" where
  "sha_pad m =
     m @ [0x80] @ replicate ((119 - length m mod 64) mod 64) 0 @ mem_bytes False 8 (of_nat (8 * length m) :: u64)"

definition sha256 :: "u8 list \<Rightarrow> u8 list" where
  "sha256 m =
     (let p = sha_pad m in concat (map (mem_bytes False 4) (hash_blocks (length p div 64) H256 p)))"

definition hmac_key :: "u8 list \<Rightarrow> u8 list" where
  "hmac_key k = (let k0 = (if length k > 64 then sha256 k else k) in k0 @ replicate (64 - length k0) 0)"

definition hmac_sha256 :: "u8 list \<Rightarrow> u8 list \<Rightarrow> u8 list" where
  "hmac_sha256 k m =
     sha256 (map ((XOR) 0x5c) (hmac_key k) @ sha256 (map ((XOR) 0x36) (hmac_key k) @ m))"

section \<open>Facts about the reference\<close>

declare schedule.simps [simp del]

lemma floor_root_eq:
  assumes "0 < k" and "m ^ k \<le> n" and "n < Suc m ^ k"
  shows "floor_root k n = m"
proof -
  have le: "j \<le> m" if "j ^ k \<le> n" for j
  proof (rule ccontr)
    assume "\<not> j \<le> m"
    then have "Suc m ^ k \<le> j ^ k" by (intro power_mono) simp_all
    then show False using that assms(3) by simp
  qed
  have "finite {j. j ^ k \<le> n}" using le finite_nat_set_iff_bounded_le by blast
  then show ?thesis unfolding floor_root_def using le assms(2) by (intro Max_eqI) simp_all
qed

lemma root_fraction_eq:
  assumes "0 < k" and "c < 2 ^ 32" and "(q * 2 ^ 32 + c) ^ k \<le> p * 2 ^ (32 * k)"
    and "p * 2 ^ (32 * k) < Suc (q * 2 ^ 32 + c) ^ k"
  shows "root_fraction k p = of_nat c"
proof -
  have "floor_root k (p * 2 ^ (32 * k)) = q * 2 ^ 32 + c" by (rule floor_root_eq [OF assms(1,3,4)])
  moreover have "(q * 2 ^ 32 + c) mod 2 ^ 32 = c" using assms(2) by simp
  ultimately show ?thesis by (simp add: root_fraction_def)
qed

lemma length_sha_rounds: "length v = 8 \<Longrightarrow> length (sha_rounds M t v) = 8"
  by (cases t) (simp_all add: sha_round_def Let_def)

lemma length_compress: "length H = 8 \<Longrightarrow> length (compress H M) = 8"
  by (simp add: compress_def length_sha_rounds)

lemma length_hash_blocks: "length H = 8 \<Longrightarrow> length (hash_blocks n H m) = 8"
  by (induction n arbitrary: H m) (simp_all add: length_compress)

lemma length_H256: "length H256 = 8"
  by (simp add: H256_def first_primes_def)

lemma hash_blocks_append:
  "length a = 64 * n \<Longrightarrow> hash_blocks (n + k) H (a @ b) = hash_blocks k (hash_blocks n H a) b"
proof (induction n arbitrary: a H)
  case (Suc n)
  have "length (drop 64 a) = 64 * n" and le: "64 \<le> length a" using Suc.prems by simp_all
  from Suc.IH [OF this(1)] le show ?case by simp
qed simp

lemma length_block_words [simp]: "length (block_words b) = 16"
  by (simp add: block_words_def)

lemma length_sha256: "length (sha256 m) = 32"
proof -
  have "length (concat (map (mem_bytes False 4) xs)) = 4 * length xs" for xs :: "u32 list"
    by (induction xs) simp_all
  then show ?thesis by (simp add: sha256_def Let_def length_hash_blocks length_H256)
qed

end
