(* ===== verification/Fillp_Sha256.thy ===== *)
theory Fillp_Sha256
  imports Sha256_Spec
begin

text \<open>
  The hash of the reliable transport, \<^verbatim>\<open>components/nstackx/fillp/src/fillp_lib/src/sha256.c\<close>: it keeps the eight
  working variables in place and rotates the indices, keeps only sixteen words of the message
  schedule, and consumes a message in pieces of any length. The parameter \<open>le\<close> is the byte order
  of the machine, which the macro \<open>FILLP_LITTLE_ENDIAN\<close> of the build has to say as well.
\<close>

section \<open>Model\<close>

definition FILLP_ROTR32 :: "u32 \<Rightarrow> nat \<Rightarrow> u32" where
  "FILLP_ROTR32 x n = drop_bit n x OR push_bit (32 - n) x"

definition FILLP_SWAP32 :: "u32 \<Rightarrow> u32" where
  "FILLP_SWAP32 x = (FILLP_ROTR32 x 24 AND 0x00ff00ff) OR (FILLP_ROTR32 x 8 AND 0xff00ff00)"

text \<open>The words below the given index are swapped, the last one first.\<close>

fun FILLP_SWAP_32_ARRAY :: "bool \<Rightarrow> u32 list \<Rightarrow> nat \<Rightarrow> u32 list" where
  "FILLP_SWAP_32_ARRAY le buf 0 = buf"
| "FILLP_SWAP_32_ARRAY le buf (Suc index) =
     (if le then FILLP_SWAP_32_ARRAY le (buf[index := FILLP_SWAP32 (buf ! index)]) index else buf)"

definition FILLP_CH :: "u32 \<Rightarrow> u32 \<Rightarrow> u32 \<Rightarrow> u32" where
  "FILLP_CH x y z = z XOR (x AND (y XOR z))"

definition FILLP_MAJ :: "u32 \<Rightarrow> u32 \<Rightarrow> u32 \<Rightarrow> u32" where
  "FILLP_MAJ x y z = (x AND y) OR (z AND (x XOR y))"

definition FILLP_S_0 :: "u32 \<Rightarrow> u32" where
  "FILLP_S_0 x = FILLP_ROTR32 x 2 XOR FILLP_ROTR32 x 13 XOR FILLP_ROTR32 x 22"

definition FILLP_S_1 :: "u32 \<Rightarrow> u32" where
  "FILLP_S_1 x = FILLP_ROTR32 x 6 XOR FILLP_ROTR32 x 11 XOR FILLP_ROTR32 x 25"

definition FILLP_G_0 :: "u32 \<Rightarrow> u32" where
  "FILLP_G_0 x = FILLP_ROTR32 x 7 XOR FILLP_ROTR32 x 18 XOR drop_bit 3 x"

definition FILLP_G_1 :: "u32 \<Rightarrow> u32" where
  "FILLP_G_1 x = FILLP_ROTR32 x 17 XOR FILLP_ROTR32 x 19 XOR drop_bit 10 x"

definition g_k256 :: "u32 list" where
  "g_k256 =
    [0x428A2F98, 0x71374491, 0xB5C0FBCF, 0xE9B5DBA5,
     0x3956C25B, 0x59F111F1, 0x923F82A4, 0xAB1C5ED5,
     0xD807AA98, 0x12835B01, 0x243185BE, 0x550C7DC3,
     0x72BE5D74, 0x80DEB1FE, 0x9BDC06A7, 0xC19BF174,
     0xE49B69C1, 0xEFBE4786, 0x0FC19DC6, 0x240CA1CC,
     0x2DE92C6F, 0x4A7484AA, 0x5CB0A9DC, 0x76F988DA,
     0x983E5152, 0xA831C66D, 0xB00327C8, 0xBF597FC7,
     0xC6E00BF3, 0xD5A79147, 0x06CA6351, 0x14292967,
     0x27B70A85, 0x2E1B2138, 0x4D2C6DFC, 0x53380D13,
     0x650A7354, 0x766A0ABB, 0x81C2C92E, 0x92722C85,
     0xA2BFE8A1, 0xA81A664B, 0xC24B8B70, 0xC76C51A3,
     0xD192E819, 0xD6990624, 0xF40E3585, 0x106AA070,
     0x19A4C116, 0x1E376C08, 0x2748774C, 0x34B0BCB5,
     0x391C0CB3, 0x4ED8AA4A, 0x5B9CCA4F, 0x682E6FF3,
     0x748F82EE, 0x78A5636F, 0x84C87814, 0x8CC70208,
     0x90BEFFFA, 0xA4506CEB, 0xBEF9A3F7, 0xC67178F2]"

definition g_i256 :: "u32 list" where
  "g_i256 =
    [0x6A09E667, 0xBB67AE85, 0x3C6EF372, 0xA54FF53A,
     0x510E527F, 0x9B05688C, 0x1F83D9AB, 0x5BE0CD19]"

text \<open>\<open>count[0]\<close> and \<open>count[1]\<close> are separate fields.\<close>

record FillpSha256Ctx =
  count0 :: u32
  count1 :: u32
  sha_hash :: "u32 list"
  wbuf :: "u32 list"

abbreviation (input) FILLP_SHA256_BLOCK_SIZE :: nat where "FILLP_SHA256_BLOCK_SIZE \<equiv> 64"
abbreviation (input) FILLP_SHA256_DIGEST_SIZE :: nat where "FILLP_SHA256_DIGEST_SIZE \<equiv> 32"
abbreviation (input) FILLP_SHA256_MASK :: u32 where "FILLP_SHA256_MASK \<equiv> 63"

text \<open>
  The body of the inner loop: the next word of the schedule with its place in the buffer, then the
  update of the working variables with that word.
\<close>

definition next_word :: "nat \<Rightarrow> u32 \<Rightarrow> u32 list \<Rightarrow> nat \<times> u32 list" where
  "next_word jdex index buf =
     (if jdex > 0 then
        let key0 = unat ((index + 14) AND 15);
            key1 = unat ((index + 9) AND 15);
            key2 = unat ((index + 1) AND 15);
            key3 = unat (index AND 15)
        in (key3, buf[key3 := buf ! key3 + (FILLP_G_1 (buf ! key0) + buf ! key1 + FILLP_G_0 (buf ! key2))])
      else (unat index, buf))"

text \<open>\<open>hash[key] += e\<close>, where \<open>e\<close> may read the array.\<close>

definition plus_at :: "nat \<Rightarrow> (u32 list \<Rightarrow> u32) \<Rightarrow> u32 list \<Rightarrow> u32 list" where
  "plus_at key e hash = hash[key := hash ! key + e hash]"

definition mix_word :: "nat \<Rightarrow> u32 \<Rightarrow> u32 \<Rightarrow> u32 list \<Rightarrow> u32 list" where
  "mix_word jdex index w hash =
     (let key = (\<lambda>n. unat ((n - index) AND 7)) in
      foldl (\<lambda>hash stmt. stmt hash) hash
       [plus_at (key 7) (\<lambda>hash. w),
        plus_at (key 7) (\<lambda>hash. g_k256 ! (unat index + jdex)),
        plus_at (key 7) (\<lambda>hash. FILLP_S_1 (hash ! key 4)),
        plus_at (key 7) (\<lambda>hash. FILLP_CH (hash ! key 4) (hash ! key 5) (hash ! key 6)),
        plus_at (key 3) (\<lambda>hash. hash ! key 7),
        plus_at (key 7) (\<lambda>hash. FILLP_S_0 (hash ! key 0)),
        plus_at (key 7) (\<lambda>hash. FILLP_MAJ (hash ! key 0) (hash ! key 1) (hash ! key 2))])"

definition compile_round :: "nat \<Rightarrow> u32 \<Rightarrow> u32 list \<times> u32 list \<Rightarrow> u32 list \<times> u32 list" where
  "compile_round jdex index st =
     (let (hash, buf) = st; (key3, buf) = next_word jdex index buf
      in (mix_word jdex index (buf ! key3) hash, buf))"

fun compile_inner :: "nat \<Rightarrow> nat \<Rightarrow> u32 list \<times> u32 list \<Rightarrow> u32 list \<times> u32 list" where
  "compile_inner jdex 0 st = st"
| "compile_inner jdex (Suc n) st = compile_round jdex (of_nat n) (compile_inner jdex n st)"

definition FillpSha256Compile :: "FillpSha256Ctx \<Rightarrow> FillpSha256Ctx" where
  "FillpSha256Compile ctx =
     (case foldl (\<lambda>st jdex. compile_inner jdex 16 st) (sha_hash ctx, wbuf ctx) [0, 16, 32, 48] of
        (hash, buf) \<Rightarrow> ctx\<lparr>wbuf := buf, sha_hash := map2 (+) (sha_hash ctx) hash\<rparr>)"

definition FillpSha256Set :: "FillpSha256Ctx \<Rightarrow> FillpSha256Ctx" where
  "FillpSha256Set ctx = ctx\<lparr>count0 := 0, count1 := 0, sha_hash := g_i256\<rparr>"

text \<open>The buffer as bytes in memory, and a copy into it.\<close>

definition buf_bytes :: "bool \<Rightarrow> u32 list \<Rightarrow> u8 list" where
  "buf_bytes le buf = concat (map (mem_bytes le 4) buf)"

definition buf_words :: "bool \<Rightarrow> u8 list \<Rightarrow> u32 list" where
  "buf_words le bs = map (\<lambda>i. mem_word le (take 4 (drop (4 * i) bs))) [0..<16]"

definition copy_into :: "bool \<Rightarrow> u32 list \<Rightarrow> nat \<Rightarrow> u8 list \<Rightarrow> u32 list" where
  "copy_into le buf offset data =
     buf_words le (take offset (buf_bytes le buf) @ data @ drop (offset + length data) (buf_bytes le buf))"

function upd_loop :: "bool \<Rightarrow> FillpSha256Ctx \<Rightarrow> nat \<Rightarrow> nat \<Rightarrow> u8 list \<Rightarrow> FillpSha256Ctx" where
  "upd_loop le ctx offset freeSize data =
     (if length data \<ge> freeSize then
        let buf = copy_into le (wbuf ctx) offset (take freeSize data);
            ctx = FillpSha256Compile (ctx\<lparr>wbuf := FILLP_SWAP_32_ARRAY le buf 16\<rparr>)
        in upd_loop le ctx 0 FILLP_SHA256_BLOCK_SIZE (drop freeSize data)
      else if length data \<noteq> 0 then ctx\<lparr>wbuf := copy_into le (wbuf ctx) offset data\<rparr>
      else ctx)"
  by pat_completeness auto
termination
  by (relation "measure (\<lambda>(_, _, _, freeSize, data). 2 * length data + (if freeSize = 0 then 1 else 0))") auto

definition FillpSha256Upd :: "bool \<Rightarrow> FillpSha256Ctx \<Rightarrow> u8 list \<Rightarrow> FillpSha256Ctx" where
  "FillpSha256Upd le ctx data =
     (let offset = unat (count0 ctx AND FILLP_SHA256_MASK);
          freeSize = FILLP_SHA256_BLOCK_SIZE - offset;
          ctx = ctx\<lparr>count0 := count0 ctx + of_nat (length data)\<rparr>;
          ctx = (if unat (count0 ctx) < length data then ctx\<lparr>count1 := count1 ctx + 1\<rparr> else ctx)
      in upd_loop le ctx offset freeSize data)"

text \<open>The words from \<open>offset\<close> up to the fourteenth become zero.\<close>

definition zero_words :: "nat \<Rightarrow> u32 list \<Rightarrow> u32 list" where
  "zero_words offset buf = foldl (\<lambda>b i. b[i := 0]) buf [offset..<14]"

text \<open>Reading the digest; more than thirty-two bytes would be read past the end of \<open>ctx->hash\<close>.\<close>

definition digest_bytes :: "FillpSha256Ctx \<Rightarrow> nat \<Rightarrow> u8 list option" where
  "digest_bytes ctx hashValLen =
     (if hashValLen \<le> 4 * length (sha_hash ctx)
      then Some (map (\<lambda>offset.
             let shfBits = 8 * unat ((NOT (of_nat offset :: u32)) AND 3)
             in ucast (drop_bit shfBits (sha_hash ctx ! drop_bit 2 offset)))
           [0..<hashValLen])
      else None)"

definition FillpSha256Fin :: "bool \<Rightarrow> FillpSha256Ctx \<Rightarrow> nat \<Rightarrow> (FillpSha256Ctx \<times> u8 list) option" where
  "FillpSha256Fin le ctx hashValLen =
     (let offset = unat (count0 ctx AND FILLP_SHA256_MASK);
          buf = FILLP_SWAP_32_ARRAY le (wbuf ctx) (drop_bit 2 (offset + 3));
          shfBits = 8 * unat ((NOT (count0 ctx AND FILLP_SHA256_MASK)) AND 3);
          w = drop_bit 2 offset;
          buf = buf[w := buf ! w AND push_bit shfBits 0xffffff80];
          buf = buf[w := buf ! w OR push_bit shfBits 0x00000080];
          ctx = ctx\<lparr>wbuf := buf\<rparr>;
          (ctx, offset) =
            (if offset > FILLP_SHA256_BLOCK_SIZE - 9 then
               let ctx = (if offset < 60 then ctx\<lparr>wbuf := (wbuf ctx)[15 := 0]\<rparr> else ctx)
               in (FillpSha256Compile ctx, 0)
             else (ctx, drop_bit 2 offset + 1));
          buf = zero_words offset (wbuf ctx);
          buf = buf[14 := push_bit 3 (count1 ctx) OR drop_bit 29 (count0 ctx)];
          buf = buf[15 := push_bit 3 (count0 ctx)];
          ctx = FillpSha256Compile (ctx\<lparr>wbuf := buf\<rparr>)
      in map_option (Pair ctx) (digest_bytes ctx hashValLen))"

declare upd_loop.simps [simp del]

section \<open>The macros compute the functions of the standard\<close>

lemma FILLP_ROTR32_rotr: "0 < n \<Longrightarrow> n < 32 \<Longrightarrow> FILLP_ROTR32 x n = word_rotr n x"
proof (rule bit_word_eqI)
  fix k :: nat assume k: "k < LENGTH(32)" and n: "0 < n" "n < 32"
  show "bit (FILLP_ROTR32 x n) k = bit (word_rotr n x) k"
  proof (cases "k + n < 32")
    case True
    then show ?thesis using k n
      by (auto simp: FILLP_ROTR32_def bit_or_iff bit_drop_bit_eq bit_push_bit_iff bit_word_rotr_iff add.commute)
  next
    case False
    have "(k + n) mod 32 = k + n - 32" using False k n by (simp add: mod_if)
    moreover have "\<not> bit x (k + n)" using False bit_imp_le_length [of x "k + n"] by auto
    moreover have "k - (32 - n) = k + n - 32" using False n by simp
    ultimately show ?thesis using k n False
      by (auto simp: FILLP_ROTR32_def bit_or_iff bit_drop_bit_eq bit_push_bit_iff bit_word_rotr_iff add.commute)
  qed
qed

lemma macros_standard:
  "FILLP_CH x y z = Ch x y z" "FILLP_MAJ x y z = Maj x y z"
  "FILLP_S_0 x = Sigma0 x" "FILLP_S_1 x = Sigma1 x" "FILLP_G_0 x = sigma0 x" "FILLP_G_1 x = sigma1 x"
proof -
  show "FILLP_CH x y z = Ch x y z"
    by (rule bit_word_eqI) (auto simp: FILLP_CH_def Ch_def bit_xor_iff bit_and_iff bit_not_iff)
  show "FILLP_MAJ x y z = Maj x y z"
    by (rule bit_word_eqI) (auto simp: FILLP_MAJ_def Maj_def bit_xor_iff bit_and_iff bit_or_iff)
qed (simp_all add: FILLP_S_0_def FILLP_S_1_def FILLP_G_0_def FILLP_G_1_def Sigma0_def Sigma1_def sigma0_def sigma1_def
      FILLP_ROTR32_rotr)

text \<open>Both tables have the fractional parts of the roots that the standard prescribes.\<close>

lemma H256_table: "H256 = g_i256"
proof -
  have "root_fraction 2 2 = 0x6A09E667" using root_fraction_eq [of 2 "0x6A09E667" 1 2] by simp
  moreover have "root_fraction 2 3 = 0xBB67AE85" using root_fraction_eq [of 2 "0xBB67AE85" 1 3] by simp
  moreover have "root_fraction 2 5 = 0x3C6EF372" using root_fraction_eq [of 2 "0x3C6EF372" 2 5] by simp
  moreover have "root_fraction 2 7 = 0xA54FF53A" using root_fraction_eq [of 2 "0xA54FF53A" 2 7] by simp
  moreover have "root_fraction 2 11 = 0x510E527F" using root_fraction_eq [of 2 "0x510E527F" 3 11] by simp
  moreover have "root_fraction 2 13 = 0x9B05688C" using root_fraction_eq [of 2 "0x9B05688C" 3 13] by simp
  moreover have "root_fraction 2 17 = 0x1F83D9AB" using root_fraction_eq [of 2 "0x1F83D9AB" 4 17] by simp
  moreover have "root_fraction 2 19 = 0x5BE0CD19" using root_fraction_eq [of 2 "0x5BE0CD19" 4 19] by simp
  ultimately show ?thesis by (simp add: H256_def g_i256_def first_primes_def)
qed

definition root_check :: "nat \<Rightarrow> nat \<Rightarrow> nat \<Rightarrow> nat \<Rightarrow> bool" where
  "root_check k p q c \<longleftrightarrow>
     c < 2 ^ 32 \<and> (q * 2 ^ 32 + c) ^ k \<le> p * 2 ^ (32 * k) \<and> p * 2 ^ (32 * k) < Suc (q * 2 ^ 32 + c) ^ k"

definition cube_part :: "nat \<Rightarrow> nat" where
  "cube_part p =
     (if p < 8 then 1 else if p < 27 then 2 else if p < 64 then 3 else if p < 125 then 4 else if p < 216 then 5 else 6)"

lemma k256_checked: "list_all2 (\<lambda>p c. root_check 3 p (cube_part p) (unat c)) first_primes g_k256"
  by (simp add: first_primes_def g_k256_def root_check_def cube_part_def)

lemma length_g_k256: "length g_k256 = 64"
  by (simp add: g_k256_def)

lemma K256_table: "t < 64 \<Longrightarrow> g_k256 ! t = K256 t"
proof -
  assume t: "t < 64"
  have "root_check 3 (first_primes ! t) (cube_part (first_primes ! t)) (unat (g_k256 ! t))"
    using list_all2_nthD2 [OF k256_checked] t by (simp add: length_g_k256)
  then have "root_fraction 3 (first_primes ! t) = of_nat (unat (g_k256 ! t))"
    unfolding root_check_def by (intro root_fraction_eq [where q = "cube_part (first_primes ! t)"]) simp_all
  then show ?thesis by (simp add: K256_def)
qed

section \<open>The compression function\<close>

text \<open>
  Before round \<open>jdex + index\<close> the variable of place \<open>k\<close> in the standard is in the slot \<open>(k - index) mod 8\<close>,
  and the buffer is a window on the last sixteen words of the schedule.
\<close>

lemma mask15: "index < 16 \<Longrightarrow> k < 16 \<Longrightarrow> unat ((of_nat index + of_nat k :: u32) AND 15) = (index + k) mod 16"
proof -
  assume "index < 16" and "k < 16"
  then have "unat (of_nat (index + k) :: u32) = index + k" by (intro unat_of_nat_word32) simp
  then show ?thesis using unat_and_mask [of 15 4 "of_nat (index + k)"] by simp
qed

lemma mask7:
  assumes "index < 16" and "k < 8"
  shows "unat ((of_nat k - of_nat index :: u32) AND 7) = (k + 16 - index) mod 8"
proof -
  have "(of_nat k - of_nat index :: u32) = of_nat (k + 16 - index + 4294967280)"
    using assms by (simp add: of_nat_diff)
  then have "unat ((of_nat k - of_nat index :: u32) AND 7) = (k + 16 - index + 4294967280) mod 4294967296 mod 8"
    using unat_and_mask [of 7 3 "of_nat (k + 16 - index + 4294967280)"]
    by (simp add: unat_of_nat take_bit_eq_mod del: of_nat_add)
  also have "\<dots> = (k + 16 - index + 4294967280) mod 8" by (rule mod_mod_cancel) simp
  also have "\<dots> = (k + 16 - index + 536870910 * 8) mod 8" by simp
  also have "\<dots> = (k + 16 - index) mod 8" by (simp only: mod_mult_self1)
  finally show ?thesis .
qed

definition sched_window :: "u32 list \<Rightarrow> nat \<Rightarrow> nat \<Rightarrow> u32 list" where
  "sched_window M jdex index = map (\<lambda>j. schedule M (if j < index \<or> jdex = 0 then jdex + j else jdex - 16 + j)) [0..<16]"

lemma sched_window_back:
  assumes "index < 16" and "16 \<le> jdex" and "1 \<le> b" and "b \<le> 16"
  shows "sched_window M jdex index ! ((index + 16 - b) mod 16) = schedule M (jdex + index - b)"
proof (cases "b \<le> index")
  case True
  then have "(index + 16 - b) mod 16 = index - b" using assms by (simp add: mod_if)
  then show ?thesis using True assms by (simp add: sched_window_def)
next
  case False
  have lt: "index + 16 - b < 16" and nlt: "\<not> index + 16 - b < index" and j: "jdex \<noteq> 0"
    and e: "jdex - 16 + (index + 16 - b) = jdex + index - b"
    using False assms by linarith+
  show ?thesis
    unfolding mod_less [OF lt] sched_window_def
    by (simp only: nth_map_upt nth_map nth_upt length_upt lt nlt j e diff_zero add_0 if_False simp_thms)
qed

lemma index_masked: "index < 16 \<Longrightarrow> unat (of_nat index AND 15 :: u32) = index"
  using mask15 [of index 0] by simp

lemma next_word_window:
  assumes "index < 16" and "jdex = 0 \<or> 16 \<le> jdex"
  shows "next_word jdex (of_nat index) (sched_window M jdex index) = (index, sched_window M jdex (Suc index))"
proof (cases "jdex = 0")
  case True
  then show ?thesis using assms(1) by (simp add: next_word_def sched_window_def)
next
  case False
  then have j: "16 \<le> jdex" using assms by simp
  note b = sched_window_back [OF assms(1) j, of _ M]
  have k: "unat ((of_nat index + 14 :: u32) AND 15) = (index + 16 - 2) mod 16"
    "unat ((of_nat index + 9 :: u32) AND 15) = (index + 16 - 7) mod 16"
    "unat ((of_nat index + 1 :: u32) AND 15) = (index + 16 - 15) mod 16"
    using mask15 [OF assms(1), of 14] mask15 [OF assms(1), of 9] mask15 [OF assms(1), of 1] by (simp_all add: add.commute)
  have w: "sched_window M jdex index ! index = schedule M (jdex + index - 16)"
    using b [of 16] assms(1) by simp
  have s: "schedule M (jdex + index) = schedule M (jdex + index - 16) +
      (sigma1 (schedule M (jdex + index - 2)) + schedule M (jdex + index - 7) + sigma0 (schedule M (jdex + index - 15)))"
    using j by (subst schedule.simps) (simp add: add_ac)
  have "next_word jdex (of_nat index) (sched_window M jdex index) =
      (index, (sched_window M jdex index)[index := schedule M (jdex + index)])"
    unfolding next_word_def Let_def k index_masked [OF assms(1)] w s macros_standard
    using False b [of 2] b [of 7] b [of 15] by simp
  also have "\<dots> = (index, sched_window M jdex (Suc index))"
    using assms(1) by (intro arg_cong [of _ _ "Pair index"] nth_equalityI) (auto simp: sched_window_def nth_list_update)
  finally show ?thesis .
qed

definition rotated :: "nat \<Rightarrow> u32 list \<Rightarrow> u32 list" where
  "rotated index v = map (\<lambda>j. v ! ((j + index) mod 8)) [0..<8]"

lemma length_rotated [simp]: "length (rotated i v) = 8"
  by (simp add: rotated_def)

definition slot :: "nat \<Rightarrow> nat \<Rightarrow> nat" where
  "slot index k = (k + 16 - index) mod 8"

lemma slot_less [simp]: "slot index k < 8"
  by (simp add: slot_def)

lemma slot_place: "index < 16 \<Longrightarrow> k < 8 \<Longrightarrow> (slot index k + index) mod 8 = k"
proof -
  assume i: "index < 16" and k: "k < 8"
  have "(slot index k + index) mod 8 = (k + 16 - index + index) mod 8"
    unfolding slot_def by (rule mod_add_left_eq)
  also have "\<dots> = k" using i k by (simp add: mod_if)
  finally show ?thesis .
qed

lemma slot_eq_iff: "index < 16 \<Longrightarrow> k < 8 \<Longrightarrow> l < 8 \<Longrightarrow> slot index k = slot index l \<longleftrightarrow> k = l"
  using slot_place by metis

lemma slot_of_place: "index < 16 \<Longrightarrow> j < 8 \<Longrightarrow> slot index ((j + index) mod 8) = j"
proof -
  assume i: "index < 16" and j: "j < 8"
  have "slot index ((j + index) mod 8) = ((j + index) mod 8 + (16 - index)) mod 8"
    using i by (simp add: slot_def)
  also have "\<dots> = (j + index + (16 - index)) mod 8" by (rule mod_add_left_eq)
  also have "\<dots> = j" using i j by (simp add: mod_if)
  finally show ?thesis .
qed

lemma rotated_slot: "index < 16 \<Longrightarrow> k < 8 \<Longrightarrow> rotated index v ! slot index k = v ! k"
  by (simp add: rotated_def slot_place)

lemma mix_word_updates:
  assumes "index < 16"
  shows "mix_word jdex (of_nat index) w (rotated index v) =
     (let T1 = v ! 7 + w + g_k256 ! (index + jdex) + Sigma1 (v ! 4) + Ch (v ! 4) (v ! 5) (v ! 6)
      in (rotated index v)[slot index 7 := T1 + Sigma0 (v ! 0) + Maj (v ! 0) (v ! 1) (v ! 2), slot index 3 := v ! 3 + T1])"
proof -
  define h where "h = rotated index v"
  have len: "length h = 8" by (simp add: h_def rotated_def)
  note key = mask7 [OF assms, folded slot_def]
  have keys: "unat ((7 - of_nat index :: u32) AND 7) = slot index 7"
    "unat ((4 - of_nat index :: u32) AND 7) = slot index 4"
    "unat ((5 - of_nat index :: u32) AND 7) = slot index 5"
    "unat ((6 - of_nat index :: u32) AND 7) = slot index 6"
    "unat ((3 - of_nat index :: u32) AND 7) = slot index 3"
    "unat ((0 - of_nat index :: u32) AND 7) = slot index 0"
    "unat ((1 - of_nat index :: u32) AND 7) = slot index 1"
    "unat ((2 - of_nat index :: u32) AND 7) = slot index 2"
    using key [of 7] key [of 4] key [of 5] key [of 6] key [of 3] key [of 0] key [of 1] key [of 2] by simp_all
  have i: "unat (of_nat index :: u32) = index" using assms by simp
  have rd: "h ! slot index 0 = v ! 0" "h ! slot index 1 = v ! 1" "h ! slot index 2 = v ! 2" "h ! slot index 3 = v ! 3"
    "h ! slot index 4 = v ! 4" "h ! slot index 5 = v ! 5" "h ! slot index 6 = v ! 6" "h ! slot index 7 = v ! 7"
    unfolding h_def by (simp_all add: rotated_slot assms)
  have ne: "slot index 7 \<noteq> slot index 0" "slot index 7 \<noteq> slot index 1" "slot index 7 \<noteq> slot index 2" "slot index 7 \<noteq> slot index 3"
    "slot index 7 \<noteq> slot index 4" "slot index 7 \<noteq> slot index 5" "slot index 7 \<noteq> slot index 6"
    "slot index 3 \<noteq> slot index 0" "slot index 3 \<noteq> slot index 1" "slot index 3 \<noteq> slot index 2" "slot index 3 \<noteq> slot index 7"
    by (simp_all add: slot_eq_iff assms)
  have lt: "slot index 7 < 8" "slot index 3 < 8" by simp_all
  show ?thesis
    unfolding mix_word_def Let_def keys i macros_standard h_def [symmetric]
    by (simp only: foldl.simps plus_at_def nth_list_update_eq nth_list_update_neq list_update_overwrite length_list_update
        len lt rd ne list_update_swap [OF ne(4)] not_False_eq_True)
qed

lemma below8: "(m :: nat) < 8 \<Longrightarrow> m = 0 \<or> m = 1 \<or> m = 2 \<or> m = 3 \<or> m = 4 \<or> m = 5 \<or> m = 6 \<or> m = 7"
  by arith

lemma mix_word_round:
  assumes "index < 16" and "t = index + jdex" and "t < 64"
  shows "mix_word jdex (of_nat index) (schedule M t) (rotated index v) = rotated (Suc index) (sha_round M t v)"
    (is "?l = ?r")
proof (rule nth_equalityI)
  define T1 where "T1 = v ! 7 + Sigma1 (v ! 4) + Ch (v ! 4) (v ! 5) (v ! 6) + K256 t + schedule M t"
  define T2 where "T2 = Sigma0 (v ! 0) + Maj (v ! 0) (v ! 1) (v ! 2)"
  have l: "?l = (rotated index v)[slot index 7 := T1 + T2, slot index 3 := v ! 3 + T1]"
    using K256_table [OF assms(3)] assms(2)
    by (simp add: mix_word_updates [OF assms(1)] T1_def T2_def Let_def add_ac)
  show "length ?l = length ?r" unfolding l by simp
  fix j assume "j < length ?l"
  then have j: "j < 8" unfolding l by simp
  define m where "m = (j + index) mod 8"
  have m: "m < 8" and jm: "j = slot index m" using slot_of_place [OF assms(1) j] by (simp_all add: m_def)
  have "(j + Suc index) mod 8 = Suc m mod 8" by (simp add: m_def mod_Suc_eq)
  then have r: "?r ! j = sha_round M t v ! (Suc m mod 8)" using j by (simp add: rotated_def)
  have "?l ! j = (if m = 3 then v ! 3 + T1 else if m = 7 then T1 + T2 else v ! m)"
    unfolding l jm using m
    by (simp add: nth_list_update slot_eq_iff assms(1) rotated_slot)
  moreover have "sha_round M t v ! (Suc m mod 8) = (if m = 3 then v ! 3 + T1 else if m = 7 then T1 + T2 else v ! m)"
    unfolding sha_round_def Let_def T1_def [symmetric] T2_def [symmetric]
    using below8 [OF m] by (elim disjE) simp_all
  ultimately show "?l ! j = ?r ! j" using r by simp
qed

lemma compile_inner_rounds:
  assumes "jdex = 0 \<or> 16 \<le> jdex" and "jdex + 16 \<le> 64"
  shows "n \<le> 16 \<Longrightarrow> compile_inner jdex n (rotated 0 v, sched_window M jdex 0) =
    (rotated n (foldl (\<lambda>v t. sha_round M t v) v [jdex..<jdex + n]), sched_window M jdex n)"
proof (induction n)
  case (Suc n)
  have n: "n < 16" using Suc.prems by simp
  have w: "sched_window M jdex (Suc n) ! n = schedule M (n + jdex)"
    using n by (simp add: sched_window_def add.commute)
  have x: "mix_word jdex (of_nat n) (schedule M (jdex + n)) (rotated n u) = rotated (Suc n) (sha_round M (jdex + n) u)" for u
    using mix_word_round [OF n, of "jdex + n" jdex M u] assms(2) n by (simp add: add.commute)
  show ?case
    using Suc.IH n assms by (simp add: compile_round_def next_word_window w x add.commute)
qed simp

lemma rotated_0: "length v = 8 \<Longrightarrow> rotated 0 v = v"
  by (intro nth_equalityI) (simp_all add: rotated_def)

lemma rotated_16: "rotated 16 v = rotated 0 v"
proof (rule nth_equalityI)
  fix j assume "j < length (rotated 16 v)"
  moreover have "(j + 16) mod 8 = j mod 8" by (simp add: mod_if)
  ultimately show "rotated 16 v ! j = rotated 0 v ! j" by (simp add: rotated_def)
qed simp

lemma sched_window_next: "sched_window M jdex 16 = sched_window M (jdex + 16) 0"
  by (simp add: sched_window_def)

lemma sched_window_start: "length M = 16 \<Longrightarrow> sched_window M 0 0 = M"
  by (intro nth_equalityI) (simp_all add: sched_window_def schedule.simps)

lemma sha_rounds_foldl: "sha_rounds M n v = foldl (\<lambda>v t. sha_round M t v) v [0..<n]"
  by (induction n) simp_all

lemma compile_rounds:
  assumes "length v = 8" and "length M = 16"
  shows "foldl (\<lambda>st jdex. compile_inner jdex 16 st) (v, M) [0, 16, 32, 48] =
    (sha_rounds M 64 v, sched_window M 64 0)"
proof -
  have step: "compile_inner jdex 16 (rotated 0 (sha_rounds M jdex v), sched_window M jdex 0) =
      (rotated 0 (sha_rounds M (jdex + 16) v), sched_window M (jdex + 16) 0)"
    if "jdex = 0 \<or> 16 \<le> jdex" and "jdex + 16 \<le> 64" for jdex
  proof -
    have "[0..<jdex + 16] = [0..<jdex] @ [jdex..<jdex + 16]" by (rule upt_add_eq_append) simp
    then show ?thesis
      using compile_inner_rounds [OF that, of 16 "sha_rounds M jdex v" M]
      by (simp add: sha_rounds_foldl rotated_16 sched_window_next)
  qed
  have start: "(rotated 0 (sha_rounds M 0 v), sched_window M 0 0) = (v, M)"
    using assms by (simp add: rotated_0 sched_window_start)
  have "compile_inner 0 16 (v, M) = (rotated 0 (sha_rounds M 16 v), sched_window M 16 0)"
    using step [of 0] unfolding start by simp
  moreover have "rotated 0 (sha_rounds M 64 v) = sha_rounds M 64 v"
    by (rule rotated_0) (rule length_sha_rounds [OF assms(1)])
  ultimately show ?thesis
    using step [of 16] step [of 32] step [of 48] by simp
qed

lemma Compile_compress:
  assumes "length (sha_hash ctx) = 8" and "length (wbuf ctx) = 16"
  shows "FillpSha256Compile ctx =
    ctx\<lparr>wbuf := sched_window (wbuf ctx) 64 0, sha_hash := compress (sha_hash ctx) (wbuf ctx)\<rparr>"
  unfolding FillpSha256Compile_def compile_rounds [OF assms] compress_def by simp

section \<open>The buffer in memory\<close>

lemma length_buf_bytes: "length (buf_bytes le buf) = 4 * length buf"
  by (induction buf) (simp_all add: buf_bytes_def)

lemma length_buf_words [simp]: "length (buf_words le bs) = 16"
  by (simp add: buf_words_def)

lemma buf_bytes_nth:
  "i < length buf \<Longrightarrow> take 4 (drop (4 * i) (buf_bytes le buf)) = mem_bytes le 4 (buf ! i)"
proof (induction buf arbitrary: i)
  case (Cons w buf)
  show ?case
  proof (cases i)
    case (Suc j)
    then show ?thesis using Cons by (simp add: buf_bytes_def)
  qed (simp add: buf_bytes_def)
qed simp

lemma nth_buf_bytes:
  "i < length buf \<Longrightarrow> buf ! i = mem_word le (take 4 (drop (4 * i) (buf_bytes le buf)))"
  by (simp add: buf_bytes_nth mem_word_bytes)

lemma buf_bytes_of_words:
  assumes "length bs = 64"
  shows "buf_bytes le (buf_words le bs) = bs"
proof -
  have "concat (map (\<lambda>i. take 4 (drop (4 * i) bs)) [0..<n]) = take (4 * n) bs" if "n \<le> 16" for n
    using that
  proof (induction n)
    case (Suc n)
    have "take (4 + 4 * n) bs = take (4 * n) bs @ take 4 (drop (4 * n) bs)"
      by (metis add.commute take_add)
    then show ?case using Suc by simp
  qed simp
  from this [of 16] have all: "concat (map (\<lambda>i. take 4 (drop (4 * i) bs)) [0..<16]) = bs" using assms by simp
  have "buf_bytes le (buf_words le bs) = concat (map (\<lambda>i. take 4 (drop (4 * i) bs)) [0..<16])"
    unfolding buf_bytes_def buf_words_def map_map
  proof (intro arg_cong [of _ _ concat] map_cong refl)
    fix i assume "i \<in> set [0..<16 :: nat]"
    then have "length (take 4 (drop (4 * i) bs)) = 4" using assms by auto
    then show "(mem_bytes le 4 \<circ> (\<lambda>i. mem_word le (take 4 (drop (4 * i) bs)) :: u32)) i = take 4 (drop (4 * i) bs)"
      using mem_word_inv [of "take 4 (drop (4 * i) bs)", where 'a = 32 and le = le] by simp
  qed
  then show ?thesis using all by simp
qed

lemma block_words_buf: "block_words bs = buf_words False bs"
  by (simp add: block_words_def buf_words_def)

lemma four_bytes:
  assumes "length bs = 4"
  obtains a b c d where "bs = [a, b, c, d]"
proof -
  have "length bs = Suc (Suc (Suc (Suc 0)))" using assms by simp
  then show ?thesis using that by (auto simp: length_Suc_conv)
qed

lemma be_word_bits:
  "bit (mem_word False [a, b, c, d :: u8] :: u32) k \<longleftrightarrow>
     (if k < 8 then bit d k else if k < 16 then bit c (k - 8) else if k < 24 then bit b (k - 16)
      else k < 32 \<and> bit a (k - 24))"
  using bit_imp_le_length [of d k] bit_imp_le_length [of c "k - 8"] bit_imp_le_length [of b "k - 16"]
    bit_imp_le_length [of a "k - 24"]
  by (auto simp: mem_word_def bit_or_iff bit_push_bit_iff bit_unsigned_iff)

lemma le_word_bits:
  "bit (mem_word True [a, b, c, d :: u8] :: u32) k \<longleftrightarrow> bit (mem_word False [d, c, b, a] :: u32) k"
  by (simp add: mem_word_def)

lemma SWAP32_bits:
  "k < 32 \<Longrightarrow> bit (FILLP_SWAP32 x) k \<longleftrightarrow>
     (if k < 8 then bit x (k + 24) else if k < 16 then bit x (k + 8) else if k < 24 then bit x (k - 8) else bit x (k - 24))"
proof -
  assume k: "k < 32"
  have lo: "(0x00ff00ff :: u32) = mask 8 OR push_bit 16 (mask 8)" by (simp add: mask_eq_exp_minus_1)
  have hi: "(0xff00ff00 :: u32) = push_bit 8 (mask 8) OR push_bit 24 (mask 8)" by (simp add: mask_eq_exp_minus_1)
  have m: "(k + 24) mod 32 = (if k < 8 then k + 24 else k - 8)" "(k + 8) mod 32 = (if k < 24 then k + 8 else k - 24)"
    using k by (simp_all add: mod_if)
  show ?thesis
    unfolding FILLP_SWAP32_def lo hi
    using k by (auto simp: bit_or_iff bit_and_iff FILLP_ROTR32_rotr bit_word_rotr_iff m bit_push_bit_iff bit_mask_iff)
qed

lemma SWAP32_be: "length bs = 4 \<Longrightarrow> FILLP_SWAP32 (mem_word True bs) = mem_word False bs"
proof -
  assume "length bs = 4"
  then obtain a b c d where bs: "bs = [a, b, c, d]" by (rule four_bytes)
  show ?thesis unfolding bs
    by (rule bit_word_eqI) (auto simp: SWAP32_bits le_word_bits be_word_bits)
qed

lemma length_SWAP_ARRAY [simp]: "length (FILLP_SWAP_32_ARRAY le buf n) = length buf"
  by (cases le; induction n arbitrary: buf) simp_all

lemma SWAP_ARRAY_nth:
  "n \<le> length buf \<Longrightarrow> i < length buf \<Longrightarrow>
     FILLP_SWAP_32_ARRAY le buf n ! i = (if le \<and> i < n then FILLP_SWAP32 (buf ! i) else buf ! i)"
  by (induction n arbitrary: buf) (auto simp: nth_list_update less_Suc_eq)

text \<open>A swapped word has its first byte in memory as its most significant one, whatever the byte order.\<close>

lemma SWAP_ARRAY_be:
  assumes "length buf = 16" and "n \<le> 16" and "i < n"
  shows "FILLP_SWAP_32_ARRAY le buf n ! i = mem_word False (take 4 (drop (4 * i) (buf_bytes le buf)))"
proof -
  have i: "i < length buf" using assms by simp
  have "length (take 4 (drop (4 * i) (buf_bytes le buf))) = 4" using i assms(1) by (simp add: length_buf_bytes)
  then have "FILLP_SWAP32 (mem_word True (take 4 (drop (4 * i) (buf_bytes le buf)))) =
      mem_word False (take 4 (drop (4 * i) (buf_bytes le buf)))" by (rule SWAP32_be)
  then show ?thesis
    using SWAP_ARRAY_nth [of n buf i le] i assms nth_buf_bytes [OF i, of le] by (cases le) simp_all
qed

lemma SWAP_block:
  assumes "length bs = 64"
  shows "FILLP_SWAP_32_ARRAY le (buf_words le bs) 16 = block_words bs"
  by (rule nth_equalityI) (simp_all add: SWAP_ARRAY_be buf_bytes_of_words assms, simp add: block_words_def)

lemma copy_into_bytes:
  assumes "length buf = 16" and "offset + length data \<le> 64"
  shows "buf_bytes le (copy_into le buf offset data) =
    take offset (buf_bytes le buf) @ data @ drop (offset + length data) (buf_bytes le buf)"
  unfolding copy_into_def using assms by (intro buf_bytes_of_words) (simp add: length_buf_bytes)

section \<open>Updating\<close>

text \<open>
  The state of the buffer and the hash after some bytes: \<open>t\<close> are the bytes that wait for the rest of their block.
\<close>

definition partial :: "bool \<Rightarrow> u32 list \<Rightarrow> u8 list \<Rightarrow> FillpSha256Ctx \<Rightarrow> bool" where
  "partial le H t ctx \<longleftrightarrow>
     sha_hash ctx = H \<and> length H = 8 \<and> length (wbuf ctx) = 16 \<and> length t < 64 \<and> take (length t) (buf_bytes le (wbuf ctx)) = t"

lemma upd_loop_step:
  assumes "partial le H t ctx" and "64 - length t \<le> length data"
  defines "b \<equiv> t @ take (64 - length t) data"
  shows "partial le (compress H (block_words b)) []
    (FillpSha256Compile (ctx\<lparr>wbuf := FILLP_SWAP_32_ARRAY le (copy_into le (wbuf ctx) (length t) (take (64 - length t) data)) 16\<rparr>))"
proof -
  have b: "length b = 64" using assms by (simp add: partial_def)
  have "copy_into le (wbuf ctx) (length t) (take (64 - length t) data) = buf_words le b"
    using assms(1,2) by (simp add: copy_into_def partial_def b_def length_buf_bytes)
  then have "FILLP_SWAP_32_ARRAY le (copy_into le (wbuf ctx) (length t) (take (64 - length t) data)) 16 = block_words b"
    using SWAP_block [OF b] by simp
  then show ?thesis
    using assms(1) by (simp add: Compile_compress partial_def length_compress sched_window_def)
qed

lemma upd_loop_correct:
  "partial le H t ctx \<Longrightarrow>
     (let n = (length t + length data) div 64; ctx' = upd_loop le ctx (length t) (64 - length t) data
      in partial le (hash_blocks n H (t @ data)) (drop (64 * n) (t @ data)) ctx' \<and>
         count0 ctx' = count0 ctx \<and> count1 ctx' = count1 ctx)"
proof (induction "length data" arbitrary: data t H ctx rule: less_induct)
  case less
  note p = less.prems
  have t: "length t < 64" using p by (simp add: partial_def)
  show ?case
  proof (cases "64 - length t \<le> length data")
    case True
    define b where "b = t @ take (64 - length t) data"
    define data' where "data' = drop (64 - length t) data"
    define ctx1 where "ctx1 = FillpSha256Compile
      (ctx\<lparr>wbuf := FILLP_SWAP_32_ARRAY le (copy_into le (wbuf ctx) (length t) (take (64 - length t) data)) 16\<rparr>)"
    have b: "length b = 64" and e: "t @ data = b @ data'"
      using True t by (simp_all add: b_def data'_def)
    have n: "(length t + length data) div 64 = Suc (length data' div 64)"
    proof -
      have "length t + length data = 64 + length data'" using True t by (simp add: data'_def)
      then show ?thesis by simp
    qed
    have p1: "partial le (compress H (block_words b)) [] ctx1"
      unfolding ctx1_def b_def by (rule upd_loop_step [OF p True])
    have c1: "count0 ctx1 = count0 ctx" "count1 ctx1 = count1 ctx"
      by (simp_all add: ctx1_def FillpSha256Compile_def split: prod.split)
    have l: "upd_loop le ctx (length t) (64 - length t) data = upd_loop le ctx1 0 64 data'"
      using True by (subst upd_loop.simps) (simp add: ctx1_def data'_def Let_def)
    have "length data' < length data" using True t by (simp add: data'_def)
    from less.hyps [OF this p1] show ?thesis
      using b c1 by (simp add: Let_def l n e)
  next
    case False
    have n: "(length t + length data) div 64 = 0" using False by simp
    have "upd_loop le ctx (length t) (64 - length t) data =
        (if data = [] then ctx else ctx\<lparr>wbuf := copy_into le (wbuf ctx) (length t) data\<rparr>)"
      using False by (subst upd_loop.simps) simp
    moreover have "partial le H (t @ data) (ctx\<lparr>wbuf := copy_into le (wbuf ctx) (length t) data\<rparr>)"
    proof -
      have "buf_bytes le (copy_into le (wbuf ctx) (length t) data) = t @ data @ drop (length t + length data) (buf_bytes le (wbuf ctx))"
        using p False by (subst copy_into_bytes) (simp_all add: partial_def)
      then show ?thesis using p False by (simp add: partial_def) (simp add: copy_into_def)
    qed
    ultimately show ?thesis using p by (simp add: Let_def n)
  qed
qed

text \<open>The context represents the bytes that were hashed so far.\<close>

definition represents :: "bool \<Rightarrow> u8 list \<Rightarrow> FillpSha256Ctx \<Rightarrow> bool" where
  "represents le m ctx \<longleftrightarrow>
     length m = unat (count0 ctx) + 2 ^ 32 * unat (count1 ctx) \<and>
     partial le (hash_blocks (length m div 64) H256 m) (drop (64 * (length m div 64)) m) ctx"

lemma Set_represents: "length (wbuf ctx) = 16 \<Longrightarrow> represents le [] (FillpSha256Set ctx)"
  by (simp add: represents_def partial_def FillpSha256Set_def H256_table g_i256_def)

lemma count_offset:
  assumes "represents le m ctx"
  shows "unat (count0 ctx AND 63) = length m mod 64"
proof -
  have "unat (count0 ctx AND 63) = unat (count0 ctx) mod 64" using unat_and_mask [of 63 6 "count0 ctx"] by simp
  also have "\<dots> = (unat (count0 ctx) + 67108864 * unat (count1 ctx) * 64) mod 64" by (rule mod_mult_self1 [symmetric])
  also have "\<dots> = length m mod 64" using assms by (simp add: represents_def mult.assoc)
  finally show ?thesis .
qed

lemma hash_blocks_more:
  "hash_blocks (length (m @ d) div 64) H (m @ d) =
     hash_blocks ((length m mod 64 + length d) div 64) (hash_blocks (length m div 64) H m) (drop (64 * (length m div 64)) m @ d)"
  (is "hash_blocks ?n H _ = hash_blocks ?k _ _")
proof -
  define a where "a = take (64 * (length m div 64)) m"
  have a: "length a = 64 * (length m div 64)" by (simp add: a_def)
  have n: "?n = length m div 64 + ?k"
  proof -
    have "length (m @ d) = 64 * (length m div 64) + (length m mod 64 + length d)" by simp
    then show ?thesis by (simp only: div_mult_self4)
  qed
  have m: "m = a @ drop (64 * (length m div 64)) m" by (simp add: a_def)
  have "hash_blocks (length m div 64) H m = hash_blocks (length m div 64) H a"
    using hash_blocks_append [OF a, of 0 H "drop (64 * (length m div 64)) m"] m by simp
  moreover have "hash_blocks (length m div 64 + ?k) H (a @ (drop (64 * (length m div 64)) m @ d)) =
      hash_blocks ?k (hash_blocks (length m div 64) H a) (drop (64 * (length m div 64)) m @ d)"
    by (rule hash_blocks_append [OF a])
  ultimately show ?thesis unfolding n using m by (metis append_assoc)
qed

lemma count_add:
  assumes "length m = unat c0 + 2 ^ 32 * unat c1" and "length m + n < 2 ^ 64" and "n < 2 ^ 32"
  shows "length m + n = unat (c0 + of_nat n :: u32) +
    2 ^ 32 * unat (if unat (c0 + of_nat n) < n then c1 + 1 else c1 :: u32)"
proof -
  have sum: "unat (c0 + of_nat n) = (unat c0 + n) mod 4294967296"
    using assms(3) by (simp add: unat_word_ariths)
  have c0: "unat c0 < 4294967296" and n: "n < 4294967296" using assms(3) by simp_all
  show ?thesis
  proof (cases "unat c0 + n < 4294967296")
    case True
    then have "unat (c0 + of_nat n) = unat c0 + n" by (simp only: sum mod_less)
    then show ?thesis using assms(1) by simp
  next
    case False
    then have s: "unat (c0 + of_nat n) = unat c0 + n - 4294967296"
    proof -
      have "unat c0 + n - 4294967296 < 4294967296" using c0 n by linarith
      then show ?thesis unfolding sum using False by (subst le_mod_geq) simp_all
    qed
    then have lt: "unat (c0 + of_nat n) < n" using False c0 by linarith
    have "unat c1 + 1 < 4294967296" using assms(1,2) False by simp
    then have c1: "unat (c1 + 1) = unat c1 + 1" by (simp add: unat_word_ariths)
    have "length m + n = unat c0 + n - 4294967296 + 2 ^ 32 * (unat c1 + 1)" using assms(1) False by simp
    then show ?thesis using lt s c1 by presburger
  qed
qed

lemma Upd_represents:
  assumes "represents le m ctx" and "length m + length d < 2 ^ 64" and "length d < 2 ^ 32"
  shows "represents le (m @ d) (FillpSha256Upd le ctx d)"
proof -
  define n where "n = length m div 64"
  define t where "t = drop (64 * n) m"
  have t: "length t = length m mod 64" by (simp add: t_def n_def minus_mult_div_eq_mod)
  define ctx1 where "ctx1 = ctx\<lparr>count0 := count0 ctx + of_nat (length d),
     count1 := (if unat (count0 ctx + of_nat (length d)) < length d then count1 ctx + 1 else count1 ctx)\<rparr>"
  have u: "FillpSha256Upd le ctx d = upd_loop le ctx1 (length t) (64 - length t) d"
    by (simp add: FillpSha256Upd_def Let_def count_offset [OF assms(1)] ctx1_def t)
  have "partial le (hash_blocks n H256 m) t ctx"
    using assms(1) unfolding represents_def n_def t_def by blast
  then have "partial le (hash_blocks n H256 m) t ctx1" by (simp add: partial_def ctx1_def)
  from upd_loop_correct [OF this, of d]
  have l: "partial le (hash_blocks ((length t + length d) div 64) (hash_blocks n H256 m) (t @ d))
      (drop (64 * ((length t + length d) div 64)) (t @ d)) (FillpSha256Upd le ctx d)"
    and c: "count0 (FillpSha256Upd le ctx d) = count0 ctx1" "count1 (FillpSha256Upd le ctx d) = count1 ctx1"
    by (simp_all add: Let_def u)
  have k: "length (m @ d) div 64 = n + (length t + length d) div 64"
  proof -
    have "length (m @ d) = 64 * n + (length t + length d)" by (simp add: t n_def)
    then show ?thesis by (simp only: div_mult_self4)
  qed
  have "drop (64 * (length (m @ d) div 64)) (m @ d) = drop (64 * ((length t + length d) div 64)) (t @ d)"
  proof -
    have "drop (64 * n) (m @ d) = t @ d" by (simp add: t_def n_def)
    then show ?thesis by (metis k distrib_left drop_drop add.commute)
  qed
  moreover have "length (m @ d) = unat (count0 ctx1) + 2 ^ 32 * unat (count1 ctx1)"
    using count_add [of m "count0 ctx" "count1 ctx" "length d"] assms by (simp add: represents_def ctx1_def)
  ultimately show ?thesis
    using l c unfolding represents_def hash_blocks_more t [symmetric] n_def [symmetric] t_def [symmetric] by simp
qed
section \<open>Padding\<close>

lemma unat_not32: "unat (NOT (x :: u32)) = 4294967295 - unat x"
proof -
  have "NOT x = -1 - x" by (simp add: not_eq_complement)
  moreover have "x \<le> -1" by simp
  moreover have "unat (-1 :: u32) = 4294967295" by (simp add: unsigned_minus_1_eq_mask mask_eq_exp_minus_1)
  ultimately show ?thesis by (simp add: unat_sub)
qed

lemma pad_shift: "unat ((NOT (x :: u32)) AND 3) = 3 - unat x mod 4"
proof -
  define q where "q = unat x div 4"
  define r where "r = unat x mod 4"
  have x: "unat x = 4 * q + r" and r: "r < 4" by (simp_all add: q_def r_def)
  have e: "4294967295 - unat x = 4 * (1073741823 - q) + (3 - r)"
    using unat_lt32 [of x] x r by linarith
  have "(4 * (1073741823 - q) + (3 - r)) mod 4 = (3 - r) mod 4" by (rule mod_mult_self4)
  also have "\<dots> = 3 - r" by (rule mod_less) linarith
  finally have m: "(4 * (1073741823 - q) + (3 - r)) mod 4 = 3 - r" .
  have "unat (3 :: u32) = 2 ^ 2 - 1" by simp
  from unat_and_mask [OF this, of "NOT x"] have "unat ((NOT x) AND 3) = unat (NOT x) mod 4" by simp
  then have "unat ((NOT x) AND 3) = 3 - r" by (simp only: unat_not32 e m)
  then show ?thesis by (simp only: r_def)
qed

lemma pad_consts:
  "bit (0xffffff80 :: u32) k \<longleftrightarrow> 7 \<le> k \<and> k < 32"
  "bit (0x80 :: u32) k \<longleftrightarrow> k = 7"
  "bit (0x80 :: u8) k \<longleftrightarrow> k = 7"
proof -
  have "(0xffffff80 :: u32) = NOT (mask 7)" by (simp add: mask_eq_exp_minus_1)
  then show "bit (0xffffff80 :: u32) k \<longleftrightarrow> 7 \<le> k \<and> k < 32" by (simp only: bit_not_iff bit_mask_iff) auto
  have "(0x80 :: u32) = push_bit 7 1" by simp
  then show "bit (0x80 :: u32) k \<longleftrightarrow> k = 7" by (simp only: bit_push_bit_iff bit_1_iff) auto
  have "(0x80 :: u8) = push_bit 7 1" by simp
  then show "bit (0x80 :: u8) k \<longleftrightarrow> k = 7" by (simp only: bit_push_bit_iff bit_1_iff) auto
qed

definition pad_mark :: "nat \<Rightarrow> u32 \<Rightarrow> u32" where
  "pad_mark r x = (x AND push_bit (8 * (3 - r)) 0xffffff80) OR push_bit (8 * (3 - r)) 0x80"

lemma pad_mark_bits:
  "r < 4 \<Longrightarrow> k < 32 \<Longrightarrow> bit (pad_mark r x) k \<longleftrightarrow> (if k < 31 - 8 * r then False else k = 31 - 8 * r \<or> bit x k)"
  unfolding pad_mark_def
  by (simp only: bit_or_iff bit_and_iff bit_push_bit_iff pad_consts) auto

lemma below4: "(r :: nat) < 4 \<Longrightarrow> r = 0 \<or> r = 1 \<or> r = 2 \<or> r = 3"
  by arith

lemma pad_mark_first: "pad_mark 0 x = mem_word False [0x80, 0, 0, 0]"
proof -
  obtain m :: u8 where m: "0x80 = m" and b: "\<And>k. bit m k \<longleftrightarrow> k = 7" using pad_consts(3) by blast
  show ?thesis unfolding m by (rule bit_word_eqI) (auto simp: pad_mark_bits be_word_bits b)
qed

lemma pad_mark_word:
  assumes "r < 4" and "length g = 4"
  shows "pad_mark r (mem_word False g) = mem_word False (take r g @ [0x80] @ replicate (3 - r) 0)"
proof -
  obtain a b c d where g: "g = [a, b, c, d]" using assms(2) by (rule four_bytes)
  obtain m :: u8 where m: "0x80 = m" and mb: "\<And>k. bit m k \<longleftrightarrow> k = 7" using pad_consts(3) by blast
  have "pad_mark 0 (mem_word False [a, b, c, d]) = mem_word False [m, 0, 0, 0]"
    using pad_mark_first m by simp
  moreover have "pad_mark 1 (mem_word False [a, b, c, d]) = mem_word False [a, m, 0, 0]"
    by (rule bit_word_eqI) (auto simp: pad_mark_bits be_word_bits mb)
  moreover have "pad_mark 2 (mem_word False [a, b, c, d]) = mem_word False [a, b, m, 0]"
    by (rule bit_word_eqI) (auto simp: pad_mark_bits be_word_bits mb)
  moreover have "pad_mark 3 (mem_word False [a, b, c, d]) = mem_word False [a, b, c, m]"
    by (rule bit_word_eqI) (auto simp: pad_mark_bits be_word_bits mb)
  ultimately show ?thesis
    unfolding g m using below4 [OF assms(1)] by (auto simp: numeral_2_eq_2 numeral_3_eq_3)
qed

text \<open>The bytes that wait, with the mark and zeros up to the end of the block.\<close>

definition padded :: "u8 list \<Rightarrow> u8 list" where
  "padded t = t @ [0x80] @ replicate (63 - length t) 0"

lemma length_padded: "length t < 64 \<Longrightarrow> length (padded t) = 64"
  by (simp add: padded_def)

lemma zero_word: "mem_word False [0, 0, 0, 0] = (0 :: u32)"
  by (rule bit_word_eqI) (simp add: be_word_bits)

lemma padded_words_after:
  assumes "length t < 64" and "length t div 4 < i" and "i < 16"
  shows "block_words (padded t) ! i = 0"
proof -
  have i: "length t < 4 * i" using assms(2) by linarith
  have "drop (4 * i) (padded t) = replicate (64 - 4 * i) 0"
  proof -
    have "drop (4 * i) (padded t) = drop (4 * i - Suc (length t)) (replicate (63 - length t) 0)"
      using i by (simp add: padded_def drop_Cons')
    then show ?thesis using i by simp
  qed
  then have "take 4 (drop (4 * i) (padded t)) = replicate 4 0" using assms(3) by simp
  also have "\<dots> = [0, 0, 0, 0]" by (simp add: eval_nat_numeral)
  finally show ?thesis using assms(3) by (simp add: block_words_def zero_word)
qed

lemma padded_words_upto:
  assumes "partial le H t ctx" and "i \<le> length t div 4"
  defines "buf1 \<equiv> FILLP_SWAP_32_ARRAY le (wbuf ctx) ((length t + 3) div 4)"
  shows "buf1[length t div 4 := pad_mark (length t mod 4) (buf1 ! (length t div 4))] ! i = block_words (padded t) ! i"
proof -
  define w where "w = length t div 4"
  define r where "r = length t mod 4"
  define g where "g = buf_bytes le (wbuf ctx)"
  have tl: "length t = 4 * w + r" and r: "r < 4" by (simp_all add: w_def r_def)
  have t: "length t < 64" and len: "length (wbuf ctx) = 16" and tg: "take (length t) g = t"
    using assms(1) by (simp_all add: partial_def g_def)
  have w: "w < 16" using t tl by linarith
  have gl: "length g = 64" by (simp add: g_def length_buf_bytes len)
  have n: "(length t + 3) div 4 \<le> 16" using t by linarith
  have be: "buf1 ! j = mem_word False (take 4 (drop (4 * j) g))" if "j < (length t + 3) div 4" for j
    unfolding buf1_def g_def by (rule SWAP_ARRAY_be [OF len n that])
  show ?thesis
  proof (cases "i = w")
    case True
    have bw: "block_words (padded t) ! w = mem_word False (drop (4 * w) t @ [0x80] @ replicate (3 - r) 0)"
    proof -
      have "min (3 - r) (63 - (4 * w + r)) = 3 - r" using w by (simp add: min_def)
      then have "take 4 (drop (4 * w) (padded t)) = drop (4 * w) t @ [0x80] @ replicate (3 - r) 0"
        using tl r t by (simp add: padded_def take_Cons')
      then show ?thesis using w by (simp add: block_words_def)
    qed
    have "buf1[w := pad_mark r (buf1 ! w)] ! w = pad_mark r (buf1 ! w)"
      using w len by (simp add: buf1_def)
    also have "\<dots> = mem_word False (drop (4 * w) t @ [0x80] @ replicate (3 - r) 0)"
    proof (cases "r = 0")
      case True
      then show ?thesis using tl by (simp add: pad_mark_first eval_nat_numeral)
    next
      case False
      then have "w < (length t + 3) div 4" using tl r by linarith
      moreover have "take r (take 4 (drop (4 * w) g)) = drop (4 * w) t"
        using tg tl r by (metis drop_take add_diff_cancel_left' min.absorb2 nat_less_le take_take min.commute)
      moreover have "length (take 4 (drop (4 * w) g)) = 4" using gl w by simp
      ultimately show ?thesis using be pad_mark_word [OF r] by simp
    qed
    finally show ?thesis unfolding True bw w_def [symmetric] r_def [symmetric] .
  next
    case False
    then have i: "i < w" using assms(2) by (simp add: w_def)
    then have "i < (length t + 3) div 4" using tl by linarith
    then have "buf1 ! i = mem_word False (take 4 (drop (4 * i) g))" by (rule be)
    also have "take 4 (drop (4 * i) g) = take 4 (drop (4 * i) (padded t))"
    proof -
      have le: "4 * i + 4 \<le> length t" using i tl by linarith
      have "take 4 (drop (4 * i) g) = drop (4 * i) (take (4 * i + 4) g)" by (simp add: drop_take)
      also have "take (4 * i + 4) g = take (4 * i + 4) t" using tg le by (metis min.absorb1 take_take)
      also have "\<dots> = take (4 * i + 4) (padded t)" using le by (simp add: padded_def)
      finally show ?thesis by (simp add: drop_take)
    qed
    finally show ?thesis using i w by (simp add: block_words_def w_def [symmetric])
  qed
qed

section \<open>The length\<close>

lemma le_bytes_nth: "i < n \<Longrightarrow> le_bytes n x ! i = ucast (drop_bit (8 * i) (x :: 'a::len word))"
proof (induction n arbitrary: x i)
  case (Suc n)
  show ?case
  proof (cases i)
    case (Suc j)
    then show ?thesis using Suc.IH [of j "drop_bit 8 x"] Suc.prems by (simp add: drop_bit_drop_bit add.commute)
  qed simp
qed simp

lemma le_bytes_halves:
  "le_bytes 8 (x :: u64) = le_bytes 4 (ucast x :: u32) @ le_bytes 4 (ucast (drop_bit 32 x) :: u32)"
proof (rule nth_equalityI)
  fix i assume "i < length (le_bytes 8 x)"
  then have i: "i < 8" by simp
  show "le_bytes 8 x ! i = (le_bytes 4 (ucast x :: u32) @ le_bytes 4 (ucast (drop_bit 32 x) :: u32)) ! i"
  proof (cases "i < 4")
    case True
    have "(ucast (drop_bit (8 * i) x) :: u8) = ucast (drop_bit (8 * i) (ucast x :: u32))"
      using True by (intro bit_word_eqI) (auto simp: bit_unsigned_iff bit_drop_bit_eq)
    then show ?thesis using True by (simp add: nth_append le_bytes_nth)
  next
    case False
    have "(ucast (drop_bit (8 * i) x) :: u8) = ucast (drop_bit (8 * (i - 4)) (ucast (drop_bit 32 x) :: u32))"
      using False i by (intro bit_word_eqI) (auto simp: bit_unsigned_iff bit_drop_bit_eq algebra_simps)
    then show ?thesis using False i by (simp add: nth_append le_bytes_nth)
  qed
qed simp

definition length_bytes :: "nat \<Rightarrow> u8 list" where
  "length_bytes n = mem_bytes False 8 (of_nat (8 * n) :: u64)"

lemma length_words:
  assumes "n = unat c0 + 2 ^ 32 * unat c1"
  shows "length_bytes n = mem_bytes False 4 (push_bit 3 c1 OR drop_bit 29 c0 :: u32) @ mem_bytes False 4 (push_bit 3 c0 :: u32)"
proof -
  define x where "x = (of_nat n :: u64)"
  have x: "x = push_bit 32 (ucast c1) OR ucast c0"
  proof -
    have "x = ucast c0 + push_bit 32 (ucast c1)"
      by (simp add: x_def assms push_bit_eq_mult mult.commute unsigned_ucast_eq)
    also have "\<dots> = ucast c0 OR push_bit 32 (ucast c1)"
      by (rule disjunctive_add) (auto simp: bit_unsigned_iff bit_push_bit_iff dest: bit_imp_le_length)
    finally show ?thesis by (simp add: or.commute)
  qed
  have y: "(of_nat (8 * n) :: u64) = push_bit 3 x" by (simp add: x_def push_bit_eq_mult)
  have lo: "(ucast (push_bit 3 x) :: u32) = push_bit 3 c0"
    by (rule bit_word_eqI) (auto simp: x bit_unsigned_iff bit_push_bit_iff bit_or_iff)
  have hi: "(ucast (drop_bit 32 (push_bit 3 x)) :: u32) = push_bit 3 c1 OR drop_bit 29 c0"
  proof (rule bit_word_eqI)
    fix k assume k: "k < LENGTH(32)"
    show "bit (ucast (drop_bit 32 (push_bit 3 x)) :: u32) k = bit (push_bit 3 c1 OR drop_bit 29 c0) k"
      using k bit_imp_le_length [of c0 "29 + k"]
      by (auto simp: x bit_unsigned_iff bit_push_bit_iff bit_or_iff bit_drop_bit_eq)
  qed
  show ?thesis unfolding length_bytes_def y mem_bytes_def le_bytes_halves lo hi by simp
qed

lemma block_words_with_length:
  assumes "length P = 64" and "n = unat c0 + 2 ^ 32 * unat c1"
  shows "block_words (take 56 P @ length_bytes n) =
    (block_words P)[14 := push_bit 3 c1 OR drop_bit 29 c0, 15 := push_bit 3 c0]"
proof (rule nth_equalityI)
  fix i assume "i < length (block_words (take 56 P @ length_bytes n))"
  then have i: "i < 16" by simp
  note L = length_words [OF assms(2)]
  consider "i < 14" | "i = 14" | "i = 15" using i by linarith
  then show "block_words (take 56 P @ length_bytes n) ! i =
      (block_words P)[14 := push_bit 3 c1 OR drop_bit 29 c0, 15 := push_bit 3 c0] ! i"
  proof cases
    case 1
    then have "take 4 (drop (4 * i) (take 56 P @ length_bytes n)) = take 4 (drop (4 * i) P)"
      using assms(1) by (simp add: drop_take)
    then show ?thesis using 1 by (simp add: block_words_def)
  next
    case 2
    then show ?thesis using assms(1) by (simp add: block_words_def L mem_word_bytes)
  next
    case 3
    then show ?thesis using assms(1) by (simp add: block_words_def L mem_word_bytes)
  qed
qed simp

lemma length_zero_words [simp]: "length (zero_words k buf) = length buf"
proof -
  have "length (foldl (\<lambda>b i. b[i := 0]) buf is) = length buf" for "is"
    by (induction "is" arbitrary: buf) simp_all
  then show ?thesis by (simp add: zero_words_def)
qed

lemma zero_words_nth:
  assumes "length buf = 16" and "i < 16"
  shows "zero_words k buf ! i = (if k \<le> i \<and> i < 14 then 0 else buf ! i)"
proof -
  have "foldl (\<lambda>b i. b[i := 0]) buf is ! i = (if i \<in> set is then 0 else buf ! i)" if "length buf = 16" for "is" and buf :: "u32 list"
    using that assms(2) by (induction "is" arbitrary: buf) (auto simp: nth_list_update)
  then show ?thesis using assms by (auto simp: zero_words_def)
qed

section \<open>The digest\<close>

lemma be_byte: "j < 4 \<Longrightarrow> mem_bytes False 4 (x :: u32) ! j = ucast (drop_bit (8 * (3 - j)) x)"
  by (simp add: mem_bytes_def rev_nth le_bytes_nth)

lemma buf_bytes_byte:
  assumes "i < 4 * length buf"
  shows "buf_bytes le buf ! i = mem_bytes le 4 (buf ! (i div 4)) ! (i mod 4)"
proof -
  have "i div 4 < length buf" using assms by linarith
  from buf_bytes_nth [OF this, of le]
  have "take 4 (drop (4 * (i div 4)) (buf_bytes le buf)) ! (i mod 4) = mem_bytes le 4 (buf ! (i div 4)) ! (i mod 4)" by simp
  moreover have "4 * (i div 4) \<le> length (buf_bytes le buf)" using assms by (simp add: length_buf_bytes)
  ultimately show ?thesis by (simp add: nth_append)
qed

lemma digest_bytes_take:
  assumes "length (sha_hash ctx) = 8" and "n \<le> 32"
  shows "digest_bytes ctx n = Some (take n (concat (map (mem_bytes False 4) (sha_hash ctx))))"
proof -
  have "map (\<lambda>offset. let shfBits = 8 * unat ((NOT (of_nat offset :: u32)) AND 3)
          in ucast (drop_bit shfBits (sha_hash ctx ! drop_bit 2 offset))) [0..<n] =
      take n (buf_bytes False (sha_hash ctx))"
  proof (rule nth_equalityI)
    fix i assume "i < length (map (\<lambda>offset. let shfBits = 8 * unat ((NOT (of_nat offset :: u32)) AND 3)
          in ucast (drop_bit shfBits (sha_hash ctx ! drop_bit 2 offset)) :: u8) [0..<n])"
    then have i: "i < n" by simp
    have u: "unat (of_nat i :: u32) = i" using i assms(2) by simp
    have d: "drop_bit 2 i = i div 4" by (simp add: drop_bit_eq_div)
    show "map (\<lambda>offset. let shfBits = 8 * unat ((NOT (of_nat offset :: u32)) AND 3)
          in ucast (drop_bit shfBits (sha_hash ctx ! drop_bit 2 offset))) [0..<n] ! i =
        take n (buf_bytes False (sha_hash ctx)) ! i"
      using i assms by (simp add: Let_def pad_shift u d buf_bytes_byte be_byte)
  qed (use assms in \<open>simp add: length_buf_bytes\<close>)
  then show ?thesis using assms by (simp add: digest_bytes_def buf_bytes_def)
qed

lemma sha_pad_split:
  assumes "t = drop (64 * (length m div 64)) m"
  shows "sha_pad m = take (64 * (length m div 64)) m @
    (if length t \<le> 55 then take 56 (padded t) @ length_bytes (length m)
     else padded t @ take 56 (replicate 64 0) @ length_bytes (length m))"
proof -
  have t: "length t = length m mod 64" by (simp add: assms minus_mult_div_eq_mod)
  have m: "m = take (64 * (length m div 64)) m @ t" by (simp add: assms)
  have "t @ [0x80] @ replicate ((119 - length t) mod 64) 0 =
      (if length t \<le> 55 then take 56 (padded t) else padded t @ take 56 (replicate 64 0))"
  proof (cases "length t \<le> 55")
    case True
    then have "(119 - length t) mod 64 = 55 - length t" by (simp add: mod_if)
    then show ?thesis using True by (simp add: padded_def take_Cons' min_def)
  next
    case False
    have "length t < 64" by (simp add: t)
    then have "(119 - length t) mod 64 = 63 - length t + 56" using False by (simp add: mod_if)
    then have "replicate ((119 - length t) mod 64) 0 = replicate (63 - length t) (0 :: u8) @ replicate 56 0"
      by (simp only: replicate_add)
    then show ?thesis using False by (simp add: padded_def)
  qed
  moreover have "sha_pad m = take (64 * (length m div 64)) m @ (t @ [0x80] @ replicate ((119 - length t) mod 64) 0) @
      length_bytes (length m)"
    unfolding sha_pad_def t length_bytes_def using m by (metis append_assoc)
  ultimately show ?thesis by (cases "length t \<le> 55") (simp_all only: if_True if_False append_assoc simp_thms)
qed

text \<open>The two forms of the last block: with the mark and the length, or with the length alone.\<close>

definition final_hash :: "u32 list \<Rightarrow> u8 list \<Rightarrow> nat \<Rightarrow> u32 list" where
  "final_hash H t n =
     (if length t \<le> 55 then compress H (block_words (take 56 (padded t) @ length_bytes n))
      else compress (compress H (block_words (padded t))) (block_words (take 56 (replicate 64 0) @ length_bytes n)))"

lemma length_length_bytes [simp]: "length (length_bytes n) = 8"
  by (simp add: length_bytes_def)

lemma sha256_final:
  assumes "t = drop (64 * (length m div 64)) m" and "H = hash_blocks (length m div 64) H256 m"
  shows "sha256 m = concat (map (mem_bytes False 4) (final_hash H t (length m)))"
proof -
  define n where "n = length m div 64"
  define a where "a = take (64 * n) m"
  have a: "length a = 64 * n" by (simp add: a_def n_def)
  have t: "length t < 64" using assms(1) by (simp add: minus_mult_div_eq_mod)
  have H: "H = hash_blocks n H256 a"
    using hash_blocks_append [OF a, of 0 H256 t] assms by (simp add: a_def n_def)
  have pl: "length (padded t) = 64" using t by (rule length_padded)
  have "hash_blocks (length (sha_pad m) div 64) H256 (sha_pad m) = final_hash H t (length m)"
  proof (cases "length t \<le> 55")
    case True
    have p: "sha_pad m = a @ (take 56 (padded t) @ length_bytes (length m))"
      using sha_pad_split [OF assms(1)] True by (simp add: a_def n_def)
    have "length (sha_pad m) div 64 = n + 1" by (simp add: p a pl)
    then show ?thesis
      using hash_blocks_append [OF a, of 1 H256 "take 56 (padded t) @ length_bytes (length m)"] True pl
      by (simp add: p H final_hash_def)
  next
    case False
    define r where "r = padded t @ take 56 (replicate 64 0) @ length_bytes (length m)"
    have p: "sha_pad m = a @ r"
      using sha_pad_split [OF assms(1)] False by (simp add: a_def n_def r_def)
    have "length (sha_pad m) div 64 = n + 2" by (simp add: p a pl r_def)
    moreover have "hash_blocks 2 H r = compress (compress H (block_words (padded t)))
        (block_words (take 56 (replicate 64 0) @ length_bytes (length m)))"
      by (simp add: numeral_2_eq_2 r_def pl)
    ultimately show ?thesis
      using hash_blocks_append [OF a, of 2 H256 r] False by (simp add: p H final_hash_def)
  qed
  then show ?thesis by (simp add: sha256_def Let_def)
qed
section \<open>Finishing\<close>

definition marked :: "bool \<Rightarrow> FillpSha256Ctx \<Rightarrow> nat \<Rightarrow> u32 list" where
  "marked le ctx offset =
     (let buf = FILLP_SWAP_32_ARRAY le (wbuf ctx) ((offset + 3) div 4)
      in buf[offset div 4 := pad_mark (offset mod 4) (buf ! (offset div 4))])"

lemma marked_upto:
  "partial le H t ctx \<Longrightarrow> i \<le> length t div 4 \<Longrightarrow> marked le ctx (length t) ! i = block_words (padded t) ! i"
  unfolding marked_def Let_def by (rule padded_words_upto)

lemma length_marked: "partial le H t ctx \<Longrightarrow> length (marked le ctx offset) = 16"
  by (simp add: marked_def Let_def partial_def)

lemma marked_block:
  assumes "partial le H t ctx" and "55 < length t"
  shows "(if length t < 60 then (marked le ctx (length t))[15 := 0] else marked le ctx (length t)) = block_words (padded t)"
    (is "?l = _")
proof (rule nth_equalityI)
  have t: "length t < 64" using assms(1) by (simp add: partial_def)
  show "length ?l = length (block_words (padded t))" using length_marked [OF assms(1)] by simp
  fix i assume "i < length ?l"
  then have i: "i < 16" using length_marked [OF assms(1)] by (simp split: if_splits)
  show "?l ! i = block_words (padded t) ! i"
  proof (cases "i \<le> length t div 4")
    case True
    then have "length t < 60 \<Longrightarrow> i \<noteq> 15" by linarith
    then show ?thesis using marked_upto [OF assms(1) True] by simp
  next
    case False
    then have "i = 15" and "length t < 60" using assms(2) i by linarith+
    then show ?thesis
      using padded_words_after [of t 15] False t i length_marked [OF assms(1), of "length t"] by simp
  qed
qed

lemma marked_short_block:
  assumes "partial le H t ctx" and "length t \<le> 55" and "n = unat c0 + 2 ^ 32 * unat c1"
  shows "(zero_words (length t div 4 + 1) (marked le ctx (length t)))[14 := push_bit 3 c1 OR drop_bit 29 c0, 15 := push_bit 3 c0] =
    block_words (take 56 (padded t) @ length_bytes n)"
proof -
  have t: "length t < 64" using assms(2) by simp
  have "zero_words (length t div 4 + 1) (marked le ctx (length t)) ! i = block_words (padded t) ! i" if "i < 14" for i
  proof (cases "i \<le> length t div 4")
    case True
    then show ?thesis using that marked_upto [OF assms(1) True] by (simp add: zero_words_nth length_marked [OF assms(1)])
  next
    case False
    then have "block_words (padded t) ! i = 0" using that t by (intro padded_words_after) auto
    then show ?thesis using that False by (simp add: zero_words_nth length_marked [OF assms(1)])
  qed
  then show ?thesis
    unfolding block_words_with_length [OF length_padded [OF t] assms(3)]
    by (intro nth_equalityI) (auto simp: length_marked [OF assms(1)] nth_list_update)
qed

lemma zero_block:
  assumes "length buf = 16" and "n = unat c0 + 2 ^ 32 * unat c1"
  shows "(zero_words 0 buf)[14 := push_bit 3 c1 OR drop_bit 29 c0, 15 := push_bit 3 c0] =
    block_words (take 56 (replicate 64 0) @ length_bytes n)"
proof -
  have "block_words (replicate 64 0) ! i = 0" if "i < 14" for i
  proof -
    have "take 4 (drop (4 * i) (replicate 64 0)) = replicate 4 (0 :: u8)" using that by simp
    also have "\<dots> = [0, 0, 0, 0]" by (simp add: eval_nat_numeral)
    finally show ?thesis using that by (simp add: block_words_def zero_word)
  qed
  then show ?thesis
    using assms(1) block_words_with_length [of "replicate 64 0", OF _ assms(2)]
    by (simp del: drop_replicate take_replicate) (intro nth_equalityI, auto simp: zero_words_nth nth_list_update)
qed

lemma Fin_steps:
  assumes "represents le m ctx" and "t = drop (64 * (length m div 64)) m"
  shows "FillpSha256Fin le ctx n =
    (let (ctx1, offset) =
           (if length t > 55 then
              (FillpSha256Compile (ctx\<lparr>wbuf := (if length t < 60 then (marked le ctx (length t))[15 := 0]
                                                 else marked le ctx (length t))\<rparr>), 0)
            else (ctx\<lparr>wbuf := marked le ctx (length t)\<rparr>, length t div 4 + 1));
         ctx2 = FillpSha256Compile (ctx1\<lparr>wbuf := (zero_words offset (wbuf ctx1))
           [14 := push_bit 3 (count1 ctx1) OR drop_bit 29 (count0 ctx1), 15 := push_bit 3 (count0 ctx1)]\<rparr>)
     in map_option (Pair ctx2) (digest_bytes ctx2 n))"
proof -
  have t: "length t = length m mod 64" by (simp add: assms(2) minus_mult_div_eq_mod)
  have p: "partial le (hash_blocks (length m div 64) H256 m) t ctx"
    using assms unfolding represents_def by blast
  have off: "unat (count0 ctx AND 63) = length t" using count_offset [OF assms(1)] t by simp
  have w: "length t div 4 < length (wbuf ctx)" using p by (simp add: partial_def) linarith
  have sh: "unat ((NOT (count0 ctx AND 63)) AND 3) = 3 - length t mod 4" unfolding pad_shift off ..
  have d: "drop_bit 2 (length t) = length t div 4" "drop_bit 2 (length t + 3) = (length t + 3) div 4"
    by (simp_all add: drop_bit_eq_div)
  have "(let buf = FILLP_SWAP_32_ARRAY le (wbuf ctx) ((length t + 3) div 4);
             shfBits = 8 * (3 - length t mod 4); w = length t div 4;
             buf = buf[w := buf ! w AND push_bit shfBits 0xffffff80]
         in buf[w := buf ! w OR push_bit shfBits 0x00000080]) = marked le ctx (length t)"
    unfolding Let_def marked_def pad_mark_def using w by (simp only: nth_list_update_eq list_update_overwrite length_SWAP_ARRAY)
  then show ?thesis
    unfolding FillpSha256Fin_def off sh d Let_def
    by (simp only:) (simp split: prod.splits if_splits)
qed

lemma Compile_fields:
  assumes "length (sha_hash ctx) = 8" and "length (wbuf ctx) = 16"
  shows "sha_hash (FillpSha256Compile ctx) = compress (sha_hash ctx) (wbuf ctx)"
    and "length (wbuf (FillpSha256Compile ctx)) = 16"
    and "count0 (FillpSha256Compile ctx) = count0 ctx" and "count1 (FillpSha256Compile ctx) = count1 ctx"
  using Compile_compress [OF assms] by (simp_all add: sched_window_def)

lemma Fin_digest:
  assumes "represents le m ctx" and "n \<le> 32"
  shows "\<exists>ctx'. FillpSha256Fin le ctx n = Some (ctx', take n (sha256 m))"
proof -
  define t where "t = drop (64 * (length m div 64)) m"
  define H where "H = hash_blocks (length m div 64) H256 m"
  have p: "partial le H t ctx" and c: "length m = unat (count0 ctx) + 2 ^ 32 * unat (count1 ctx)"
    using assms(1) unfolding represents_def t_def H_def by blast+
  have H: "sha_hash ctx = H" "length H = 8" using p by (simp_all add: partial_def)
  note fin = Fin_steps [OF assms(1) t_def, of n]
  have dig: "\<exists>ctx'. map_option (Pair c2) (digest_bytes c2 n) = Some (ctx', take n (sha256 m))"
    if "sha_hash c2 = final_hash H t (length m)" for c2
  proof -
    have "length (sha_hash c2) = 8" using that H(2) by (simp add: final_hash_def length_compress)
    then show ?thesis
      using digest_bytes_take [OF _ assms(2)] that sha256_final [OF t_def H_def] by simp
  qed
  show ?thesis
  proof (cases "length t \<le> 55")
    case True
    have "sha_hash (FillpSha256Compile (ctx\<lparr>wbuf := block_words (take 56 (padded t) @ length_bytes (length m))\<rparr>)) =
        final_hash H t (length m)"
      using True H by (simp add: Compile_fields final_hash_def)
    from dig [OF this] show ?thesis
      using True marked_short_block [OF p True c] by (simp add: fin)
  next
    case False
    define c1 where "c1 = FillpSha256Compile (ctx\<lparr>wbuf := block_words (padded t)\<rparr>)"
    have c1: "sha_hash c1 = compress H (block_words (padded t))" "length (wbuf c1) = 16"
      "count0 c1 = count0 ctx" "count1 c1 = count1 ctx"
      unfolding c1_def using H by (simp_all add: Compile_fields)
    have z: "(zero_words 0 (wbuf c1))[14 := push_bit 3 (count1 ctx) OR drop_bit 29 (count0 ctx), 15 := push_bit 3 (count0 ctx)] =
        block_words (take 56 (replicate 64 0) @ length_bytes (length m))"
      by (rule zero_block [OF c1(2) c])
    have "sha_hash (FillpSha256Compile (c1\<lparr>wbuf := block_words (take 56 (replicate 64 0) @ length_bytes (length m))\<rparr>)) =
        final_hash H t (length m)"
      using False H c1 by (simp add: Compile_fields final_hash_def length_compress del: take_replicate)
    from dig [OF this] show ?thesis
      using False marked_block [OF p] by (simp add: fin c1_def [symmetric] c1(3,4) z del: take_replicate)
  qed
qed

lemma updates_represent:
  "represents le m ctx \<Longrightarrow> length m + length (concat ds) < 2 ^ 64 \<Longrightarrow> \<forall>d \<in> set ds. length d < 2 ^ 32 \<Longrightarrow>
     represents le (m @ concat ds) (foldl (FillpSha256Upd le) ctx ds)"
proof (induction ds arbitrary: m ctx)
  case (Cons d ds)
  have "represents le (m @ d) (FillpSha256Upd le ctx d)"
    using Cons.prems by (intro Upd_represents) auto
  from Cons.IH [OF this] Cons.prems(2,3) show ?case by simp
qed simp

section \<open>Properties\<close>

text \<open>
  C2: the incremental hash computes SHA-256 as FIPS 180-4 defines it. Whatever the pieces in which a message
  arrives, and on a machine of either byte order, the digest is that of the whole message (or its
  first bytes, when fewer are asked for). The message may be as long as the standard allows, a piece
  at most \<open>2 ^ 32 - 1\<close> bytes.
\<close>

theorem FillpSha256_is_sha256:
  assumes "length (wbuf ctx) = 16" and "length (concat ds) < 2 ^ 61" and "\<forall>d \<in> set ds. length d < 2 ^ 32" and "n \<le> 32"
  shows "\<exists>ctx'. FillpSha256Fin le (foldl (FillpSha256Upd le) (FillpSha256Set ctx) ds) n =
    Some (ctx', take n (sha256 (concat ds)))"
proof -
  have "represents le ([] @ concat ds) (foldl (FillpSha256Upd le) (FillpSha256Set ctx) ds)"
    using assms(2) by (intro updates_represent Set_represents assms(1,3)) simp
  from Fin_digest [OF this assms(4)] show ?thesis by simp
qed

theorem FillpSha256_is_sha256_witness:
  "\<exists>ctx'. FillpSha256Fin True (foldl (FillpSha256Upd True) (FillpSha256Set \<lparr>count0 = 7, count1 = 0, sha_hash = [], wbuf = replicate 16 1\<rparr>)
     [[97], [98, 99]]) 32 = Some (ctx', take 32 (sha256 [97, 98, 99]))"
  using FillpSha256_is_sha256 [of "\<lparr>count0 = 7, count1 = 0, sha_hash = [], wbuf = replicate 16 1\<rparr>" "[[97], [98, 99]]" 32 True]
  by simp

end
