(* ===== verification/Fillp_Hmac.thy ===== *)
theory Fillp_Hmac
  imports Fillp_Sha256
begin

text \<open>
  Keyed hashing, \<^verbatim>\<open>components/nstackx/fillp/src/fillp_lib/src/hmac.c\<close>, on top of the incremental SHA-256. The
  addresses of the three local buffers that are overwritten at the end are arguments, since the
  pattern that is written depends on them.
\<close>

section \<open>Model\<close>

record FillpHmacSha256Ctx =
  hashki :: FillpSha256Ctx
  hashko :: FillpSha256Ctx

abbreviation (input) FILLP_HMAC_IPAD :: u8 where "FILLP_HMAC_IPAD \<equiv> 0x36"
abbreviation (input) FILLP_HMAC_OPAD :: u8 where "FILLP_HMAC_OPAD \<equiv> 0x5C"

text \<open>The pattern written over a buffer at address \<open>ptr\<close>, and the counter after it.\<close>

fun cleanse_loop :: "nat \<Rightarrow> u64 \<Rightarrow> u64 \<Rightarrow> u8 list \<times> u64" where
  "cleanse_loop 0 pptr ctr = ([], ctr)"
| "cleanse_loop (Suc loop) pptr ctr =
     (case cleanse_loop loop (pptr + 1) (ctr + (17 + ((pptr + 1) AND 0xF))) of
        (bytes, ctr') \<Rightarrow> (ucast ctr # bytes, ctr'))"

fun memchr :: "u64 \<Rightarrow> u8 \<Rightarrow> u8 list \<Rightarrow> u64 option" where
  "memchr ptr c [] = None"
| "memchr ptr c (b # bs) = (if b = c then Some ptr else memchr (ptr + 1) c bs)"

definition FillpCleanSedata :: "u64 \<Rightarrow> nat \<Rightarrow> u8 \<Rightarrow> u8 list \<times> u8" where
  "FillpCleanSedata ptr n cleanseDataCtr =
     (case cleanse_loop n ptr (ucast cleanseDataCtr) of
        (bytes, ctr) \<Rightarrow>
          (bytes, ucast (case memchr ptr (ucast ctr) bytes of Some p \<Rightarrow> ctr + (63 + p) | None \<Rightarrow> ctr)))"

text \<open>
  Preparing the two hashes; a null context, a null key or an empty one leave the context as it is. The
  second result is the counter of the cleansing, \<open>a\<close>, \<open>b\<close> and \<open>c\<close> are the addresses of \<open>tk\<close>,
  \<open>keyIpad\<close> and \<open>keyOpad\<close>. Nothing is returned when the digest of a long key has no defined bytes.
\<close>

definition FillpHmacSha256Init ::
  "bool \<Rightarrow> u64 \<times> u64 \<times> u64 \<Rightarrow> FillpSha256Ctx \<Rightarrow> FillpHmacSha256Ctx option \<Rightarrow> u8 list option \<Rightarrow> u8 \<Rightarrow>
    (FillpHmacSha256Ctx option \<times> u8) option" where
  "FillpHmacSha256Init le addrs tctx ctx key cleanseDataCtr =
     (case ctx of
        None \<Rightarrow> Some (None, cleanseDataCtr)
      | Some tempCtx \<Rightarrow>
        (case key of
           None \<Rightarrow> Some (ctx, cleanseDataCtr)
         | Some k \<Rightarrow>
           if k = [] then Some (ctx, cleanseDataCtr)
           else
             Option.bind
               (if length k > FILLP_SHA256_BLOCK_SIZE
                then map_option snd (FillpSha256Fin le (FillpSha256Upd le (FillpSha256Set tctx) k) FILLP_SHA256_DIGEST_SIZE)
                else Some k)
               (\<lambda>k.
                 let pad = k @ replicate (FILLP_SHA256_BLOCK_SIZE - length k) 0;
                     keyIpad = map (\<lambda>b. b XOR FILLP_HMAC_IPAD) pad;
                     keyOpad = map (\<lambda>b. b XOR FILLP_HMAC_OPAD) pad;
                     ki = FillpSha256Upd le (FillpSha256Set (hashki tempCtx)) keyIpad;
                     ko = FillpSha256Upd le (FillpSha256Set (hashko tempCtx)) keyOpad;
                     (a, b, c) = addrs;
                     c1 = snd (FillpCleanSedata a FILLP_SHA256_DIGEST_SIZE cleanseDataCtr);
                     c2 = snd (FillpCleanSedata b FILLP_SHA256_BLOCK_SIZE c1);
                     c3 = snd (FillpCleanSedata c FILLP_SHA256_BLOCK_SIZE c2)
                 in Some (Some \<lparr>hashki = ki, hashko = ko\<rparr>, c3))))"

text \<open>\<open>data\<close> is readable for at least \<open>dlen\<close> bytes when it is not null.\<close>

definition FillpHmacSha256Update ::
  "bool \<Rightarrow> FillpHmacSha256Ctx option \<Rightarrow> u8 list option \<Rightarrow> nat \<Rightarrow> FillpHmacSha256Ctx option" where
  "FillpHmacSha256Update le ctx data dlen =
     (case ctx of
        None \<Rightarrow> None
      | Some tempCtx \<Rightarrow>
        if dlen = 0 \<and> data = None then Some (tempCtx\<lparr>hashki := FillpSha256Upd le (hashki tempCtx) []\<rparr>)
        else case data of
          None \<Rightarrow> Some tempCtx
        | Some d \<Rightarrow> Some (tempCtx\<lparr>hashki := FillpSha256Upd le (hashki tempCtx) (take dlen d)\<rparr>))"

text \<open>The digest written into the caller's buffer, if there is one.\<close>

definition FillpHmacSha256Final ::
  "bool \<Rightarrow> FillpHmacSha256Ctx option \<Rightarrow> u8 list option \<Rightarrow> nat \<Rightarrow> (FillpHmacSha256Ctx option \<times> u8 list option) option" where
  "FillpHmacSha256Final le ctx digest n =
     (case ctx of
        None \<Rightarrow> Some (None, digest)
      | Some tempCtx \<Rightarrow>
        if digest = None then Some (ctx, None)
        else
          Option.bind (FillpSha256Fin le (hashki tempCtx) n) (\<lambda>(ki, d).
          let ko = FillpSha256Upd le (hashko tempCtx) d in
          Option.bind (FillpSha256Fin le ko n) (\<lambda>(ko, d).
          Some (Some \<lparr>hashki = ki, hashko = ko\<rparr>, Some d))))"

section \<open>Facts\<close>

lemma length_hmac_key: "length (hmac_key k) = 64"
  by (simp add: hmac_key_def Let_def length_sha256)

lemma Set_Upd_represents:
  "length (wbuf ctx) = 16 \<Longrightarrow> length d < 2 ^ 32 \<Longrightarrow> represents le d (FillpSha256Upd le (FillpSha256Set ctx) d)"
  using Upd_represents [OF Set_represents, of ctx d le] by simp

lemma Fin_value:
  assumes "represents le m ctx" and "n \<le> 32"
  obtains ctx' where "FillpSha256Fin le ctx n = Some (ctx', take n (sha256 m))"
  using Fin_digest [OF assms] by blast

lemma map_xor_commute: "map (\<lambda>b. b XOR p) xs = map ((XOR) p) (xs :: u8 list)"
  by (simp add: xor.commute)

definition hmac_state :: "bool \<Rightarrow> u8 list \<Rightarrow> u8 list \<Rightarrow> FillpHmacSha256Ctx \<Rightarrow> bool" where
  "hmac_state le k m ctx \<longleftrightarrow>
     represents le (map ((XOR) FILLP_HMAC_IPAD) (hmac_key k) @ m) (hashki ctx) \<and>
     represents le (map ((XOR) FILLP_HMAC_OPAD) (hmac_key k)) (hashko ctx)"

lemma Init_state:
  assumes "length (wbuf (hashki ctx)) = 16" and "length (wbuf (hashko ctx)) = 16" and "length (wbuf tctx) = 16"
    and "k \<noteq> []" and "length k < 2 ^ 32"
  shows "\<exists>ctx' c'. FillpHmacSha256Init le addrs tctx (Some ctx) (Some k) c = Some (Some ctx', c') \<and> hmac_state le k [] ctx'"
proof -
  define k0 where "k0 = (if length k > 64 then sha256 k else k)"
  have k0: "(if length k > 64 then map_option snd (FillpSha256Fin le (FillpSha256Upd le (FillpSha256Set tctx) k) 32) else Some k) =
      Some k0"
    using Fin_value [OF Set_Upd_represents [OF assms(3,5)], of 32 le] length_sha256 [of k]
    by (fastforce simp: k0_def)
  have pad: "k0 @ replicate (64 - length k0) 0 = hmac_key k" by (simp add: hmac_key_def k0_def Let_def)
  obtain a b d where addrs: "addrs = (a, b, d)" by (cases addrs)
  define ki where "ki = FillpSha256Upd le (FillpSha256Set (hashki ctx)) (map ((XOR) 0x36) (hmac_key k))"
  define ko where "ko = FillpSha256Upd le (FillpSha256Set (hashko ctx)) (map ((XOR) 0x5C) (hmac_key k))"
  have "hmac_state le k [] \<lparr>hashki = ki, hashko = ko\<rparr>"
    unfolding hmac_state_def ki_def ko_def using assms(1,2) by (simp add: Set_Upd_represents length_hmac_key)
  moreover have "\<exists>c'. FillpHmacSha256Init le addrs tctx (Some ctx) (Some k) c = Some (Some \<lparr>hashki = ki, hashko = ko\<rparr>, c')"
    unfolding FillpHmacSha256Init_def option.case if_not_P [OF assms(4)] k0 Option.bind.simps Let_def pad addrs prod.case
      map_xor_commute ki_def [symmetric] ko_def [symmetric]
    by blast
  ultimately show ?thesis by blast
qed

lemma Update_state:
  assumes "hmac_state le k m ctx" and "64 + length m + length d < 2 ^ 64" and "length d < 2 ^ 32"
  shows "\<exists>ctx'. FillpHmacSha256Update le (Some ctx) (Some d) (length d) = Some ctx' \<and> hmac_state le k (m @ d) ctx'"
proof -
  have "represents le ((map ((XOR) FILLP_HMAC_IPAD) (hmac_key k) @ m) @ d) (FillpSha256Upd le (hashki ctx) d)"
    using assms by (intro Upd_represents) (simp_all add: hmac_state_def length_hmac_key)
  then show ?thesis using assms(1) by (simp add: FillpHmacSha256Update_def hmac_state_def)
qed

lemma Final_digest:
  assumes "hmac_state le k m ctx"
  shows "\<exists>ctx'. FillpHmacSha256Final le (Some ctx) (Some buf) 32 = Some (Some ctx', Some (hmac_sha256 k m))"
proof -
  define inner where "inner = sha256 (map ((XOR) FILLP_HMAC_IPAD) (hmac_key k) @ m)"
  obtain ki where ki: "FillpSha256Fin le (hashki ctx) 32 = Some (ki, inner)"
    using Fin_value [of le _ "hashki ctx" 32] assms by (auto simp: hmac_state_def inner_def length_sha256)
  have "represents le (map ((XOR) FILLP_HMAC_OPAD) (hmac_key k) @ inner) (FillpSha256Upd le (hashko ctx) inner)"
    using assms by (intro Upd_represents) (simp_all add: hmac_state_def length_hmac_key inner_def length_sha256)
  then obtain ko where "FillpSha256Fin le (FillpSha256Upd le (hashko ctx) inner) 32 = Some (ko, hmac_sha256 k m)"
    using Fin_value [of le _ "FillpSha256Upd le (hashko ctx) inner" 32]
    by (metis hmac_sha256_def inner_def length_sha256 order_refl take_all)
  then show ?thesis by (simp add: FillpHmacSha256Final_def ki)
qed

lemma Updates_state:
  "hmac_state le k m ctx \<Longrightarrow> 64 + length m + length (concat ds) < 2 ^ 64 \<Longrightarrow> \<forall>d \<in> set ds. length d < 2 ^ 32 \<Longrightarrow>
     \<exists>ctx'. foldl (\<lambda>c d. FillpHmacSha256Update le c (Some d) (length d)) (Some ctx) ds = Some ctx' \<and>
       hmac_state le k (m @ concat ds) ctx'"
proof (induction ds arbitrary: m ctx)
  case (Cons d ds)
  obtain ctx1 where u: "FillpHmacSha256Update le (Some ctx) (Some d) (length d) = Some ctx1"
    and h: "hmac_state le k (m @ d) ctx1"
    using Update_state [OF Cons.prems(1), of d] Cons.prems(2,3) by auto
  from Cons.IH [OF h] Cons.prems(2,3) show ?case by (simp add: u)
qed simp

section \<open>Properties\<close>

text \<open>
  C13: the three functions compute HMAC-SHA-256 as RFC 2104 defines it: for every key that is not empty, also one that
  is longer than a block and is hashed first, and every message in every division into pieces.
\<close>

theorem FillpHmac_is_hmac:
  assumes "length (wbuf (hashki ctx)) = 16" and "length (wbuf (hashko ctx)) = 16" and "length (wbuf tctx) = 16"
    and "k \<noteq> []" and "length k < 2 ^ 32" and "length (concat ds) < 2 ^ 61" and "\<forall>d \<in> set ds. length d < 2 ^ 32"
  shows "\<exists>ctx1 c1 ctx2 ctx3. FillpHmacSha256Init le addrs tctx (Some ctx) (Some k) c = Some (Some ctx1, c1)
    \<and> foldl (\<lambda>c d. FillpHmacSha256Update le c (Some d) (length d)) (Some ctx1) ds = Some ctx2
    \<and> FillpHmacSha256Final le (Some ctx2) (Some digest) 32 = Some (Some ctx3, Some (hmac_sha256 k (concat ds)))"
proof -
  obtain ctx1 c1 where i: "FillpHmacSha256Init le addrs tctx (Some ctx) (Some k) c = Some (Some ctx1, c1)"
    and h1: "hmac_state le k [] ctx1"
    using Init_state [OF assms(1-5)] by blast
  obtain ctx2 where u: "foldl (\<lambda>c d. FillpHmacSha256Update le c (Some d) (length d)) (Some ctx1) ds = Some ctx2"
    and h2: "hmac_state le k (concat ds) ctx2"
    using Updates_state [OF h1, of ds] assms(6,7) by auto
  from i u Final_digest [OF h2] show ?thesis by blast
qed

theorem FillpHmac_is_hmac_witness:
  "\<exists>ctx1 c1 ctx2 ctx3. FillpHmacSha256Init True (16, 64, 128) \<lparr>count0 = 0, count1 = 0, sha_hash = [], wbuf = replicate 16 0\<rparr>
      (Some \<lparr>hashki = \<lparr>count0 = 0, count1 = 0, sha_hash = [], wbuf = replicate 16 0\<rparr>,
             hashko = \<lparr>count0 = 0, count1 = 0, sha_hash = [], wbuf = replicate 16 0\<rparr>\<rparr>) (Some (replicate 65 7)) 9 = Some (Some ctx1, c1)
    \<and> foldl (\<lambda>c d. FillpHmacSha256Update True c (Some d) (length d)) (Some ctx1) [[1, 2], [3]] = Some ctx2
    \<and> FillpHmacSha256Final True (Some ctx2) (Some []) 32 = Some (Some ctx3, Some (hmac_sha256 (replicate 65 7) [1, 2, 3]))"
  using FillpHmac_is_hmac [of "\<lparr>hashki = \<lparr>count0 = 0, count1 = 0, sha_hash = [], wbuf = replicate 16 0\<rparr>,
        hashko = \<lparr>count0 = 0, count1 = 0, sha_hash = [], wbuf = replicate 16 0\<rparr>\<rparr>"
      "\<lparr>count0 = 0, count1 = 0, sha_hash = [], wbuf = replicate 16 0\<rparr>" "replicate 65 7" "[[1, 2], [3]]" True "(16, 64, 128)" 9 "[]"]
  by simp

end
