(* ===== verification/Fillp_Cookie.thy ===== *)
theory Fillp_Cookie
  imports Fillp_Hmac
begin

text \<open>
  The state cookie of the transport's four-way handshake: the refreshing of the server's keys
  (\<^verbatim>\<open>fillp_lib/src/fillp_cookie.c\<close> and the timer in \<^verbatim>\<open>spunge_core.c\<close>), the generation of a cookie for a connection request
  and its validation (\<^verbatim>\<open>fillp_lib/src/fillp/fillp_conn.c\<close>), with the address comparison of
  \<^verbatim>\<open>public/include/utils.h\<close>, all below \<^verbatim>\<open>components/nstackx/fillp/src\<close>. The server keeps no state for a
  half-open connection: everything is in the cookie, authenticated with HMAC-SHA-256.

  Random numbers and the time are arguments. A socket address is the image of a \<open>sockaddr_in6\<close> in
  memory (28 bytes), whose first bytes a \<open>sockaddr_in\<close> shares.
\<close>

section \<open>Addresses\<close>

type_synonym sockaddr = "u8 list"

abbreviation (input) AF_INET :: u16 where "AF_INET \<equiv> 2"
abbreviation (input) sizeof_sockaddr_in :: nat where "sizeof_sockaddr_in \<equiv> 16"
abbreviation (input) sizeof_sockaddr_in6 :: nat where "sizeof_sockaddr_in6 \<equiv> 28"

definition sin_family :: "bool \<Rightarrow> sockaddr \<Rightarrow> u16" where
  "sin_family le a = mem_word le (take 2 a)"

definition sin_port :: "bool \<Rightarrow> sockaddr \<Rightarrow> u16" where
  "sin_port le a = mem_word le (take 2 (drop 2 a))"

definition sin_addr :: "bool \<Rightarrow> sockaddr \<Rightarrow> u32" where
  "sin_addr le a = mem_word le (take 4 (drop 4 a))"

definition sin6_addr :: "sockaddr \<Rightarrow> u8 list" where
  "sin6_addr a = take 16 (drop 8 a)"

definition UtilsIpv6AddrMatch :: "sockaddr \<Rightarrow> sockaddr \<Rightarrow> bool" where
  "UtilsIpv6AddrMatch a b = list_all (\<lambda>i. sin6_addr a ! i = sin6_addr b ! i) [0..<16]"

definition UtilsAddrMatch :: "bool \<Rightarrow> sockaddr \<Rightarrow> sockaddr \<Rightarrow> bool" where
  "UtilsAddrMatch le addrA addrB =
     (if sin_family le addrA \<noteq> sin_family le addrB then False
      else if sin_family le addrA = AF_INET
      then sin_addr le addrA = sin_addr le addrB \<and> sin_port le addrA = sin_port le addrB
      else sin_port le addrA = sin_port le addrB \<and> UtilsIpv6AddrMatch addrA addrB)"

text \<open>The part of an address that is copied: its family says how much of it is meaningful.\<close>

definition addr_size :: "bool \<Rightarrow> sockaddr \<Rightarrow> nat" where
  "addr_size le a = (if sin_family le a = AF_INET then sizeof_sockaddr_in else sizeof_sockaddr_in6)"

definition addr_copy :: "bool \<Rightarrow> sockaddr \<Rightarrow> sockaddr \<Rightarrow> sockaddr" where
  "addr_copy le dest src = take (addr_size le src) src @ drop (addr_size le src) dest"

section \<open>Keys\<close>

record FillpMacInfo =
  currentMacKey :: "u8 list"
  oldMacKey :: "u8 list"
  switchOverTime :: u64

abbreviation (input) FILLP_KEYSIZE :: nat where "FILLP_KEYSIZE \<equiv> 32"

text \<open>The loop of the refresh: \<open>rands\<close> are the random numbers that are drawn.\<close>

fun mac_loop :: "nat list \<Rightarrow> u32 list \<Rightarrow> FillpMacInfo \<Rightarrow> FillpMacInfo" where
  "mac_loop (counter # cs) (rand # rands) macInfo =
     mac_loop cs rands (macInfo\<lparr>oldMacKey := (oldMacKey macInfo)[counter := currentMacKey macInfo ! counter],
       currentMacKey := (currentMacKey macInfo)[counter := ucast rand]\<rparr>)"
| "mac_loop _ _ macInfo = macInfo"

definition FillpMacTimerExpire :: "u32 list \<Rightarrow> FillpMacInfo \<Rightarrow> u64 \<Rightarrow> FillpMacInfo" where
  "FillpMacTimerExpire rands macInfo curTime =
     (mac_loop [0, 4, 8, 12, 16, 20, 24, 28] rands macInfo)\<lparr>switchOverTime := curTime\<rparr>"

text \<open>The keys of a new instance, from the initialisation of its timers.\<close>

definition SpungeInstTimerInit_mac :: "u32 list \<Rightarrow> u64 \<Rightarrow> FillpMacInfo" where
  "SpungeInstTimerInit_mac rands curTime =
     FillpMacTimerExpire rands \<lparr>currentMacKey = replicate 32 0, oldMacKey = replicate 32 0, switchOverTime = 0\<rparr> curTime"

abbreviation (input) FILLP_KEY_REFRESH_TIME :: int where "FILLP_KEY_REFRESH_TIME \<equiv> 1800000000"

text \<open>The periodic check; the timer is armed again in every case.\<close>

definition SpinstLoopMacTimerChecker :: "u32 list \<Rightarrow> u64 \<Rightarrow> FillpMacInfo \<Rightarrow> FillpMacInfo" where
  "SpinstLoopMacTimerChecker rands curTime macInfo =
     (if sint (curTime - switchOverTime macInfo) > FILLP_KEY_REFRESH_TIME
      then FillpMacTimerExpire rands macInfo curTime else macInfo)"

section \<open>Cookies\<close>

record FillpCookieContent =
  digest :: "u8 list"
  arr :: "u8 list"
  lifeTime :: u32
  localPacketSeqNumber :: u32
  remotePacketSeqNumber :: u32
  localMessageSeqNumber :: u32
  remoteMessageSeqNumber :: u32
  remoteSendCache :: u32
  remoteRecvCache :: u32
  srcPort :: u16
  addressType :: u16
  remoteSockIpv6Addr :: sockaddr

text \<open>The packed structure in memory, from the field after the digest on.\<close>

definition cookie_bytes :: "bool \<Rightarrow> FillpCookieContent \<Rightarrow> u8 list" where
  "cookie_bytes le c =
     arr c @ mem_bytes le 4 (lifeTime c) @ mem_bytes le 4 (localPacketSeqNumber c) @
     mem_bytes le 4 (remotePacketSeqNumber c) @ mem_bytes le 4 (localMessageSeqNumber c) @
     mem_bytes le 4 (remoteMessageSeqNumber c) @ mem_bytes le 4 (remoteSendCache c) @
     mem_bytes le 4 (remoteRecvCache c) @ mem_bytes le 2 (srcPort c) @ mem_bytes le 2 (addressType c) @
     remoteSockIpv6Addr c"

definition cookie_time :: "bool \<Rightarrow> FillpCookieContent \<Rightarrow> u64" where
  "cookie_time le c = mem_word le (take 8 (arr c))"

text \<open>The data that is authenticated: the cookie after its digest and the server's own address.\<close>

definition cookieCal_data :: "bool \<Rightarrow> sockaddr \<Rightarrow> FillpCookieContent \<Rightarrow> u8 list" where
  "cookieCal_data le localAddr c = cookie_bytes le c @ addr_copy le (replicate 28 0) localAddr"

record FillpPktConnReq =
  cookiePreserveTime :: u32
  sendCache :: u32
  recvCache :: u32
  req_seqNum :: u32
  req_pktNum :: u32

abbreviation (input) FILLP_MAX_COOKIE_LIFETIME :: u32 where "FILLP_MAX_COOKIE_LIFETIME \<equiv> 20000000"
abbreviation (input) FILLP_INITIAL_COOKIE_LIFETIME :: u32 where "FILLP_INITIAL_COOKIE_LIFETIME \<equiv> 10000000"

text \<open>
  Computing the digest of some data with a key. \<open>env\<close> has what the stack decides: the addresses of the buffers and the
  contents of the contexts before they are set.
\<close>

record hmac_env =
  env_addrs :: "u64 \<times> u64 \<times> u64"
  env_tctx :: FillpSha256Ctx
  env_ctx :: FillpHmacSha256Ctx

definition hmac_with :: "bool \<Rightarrow> hmac_env \<Rightarrow> u8 list \<Rightarrow> u8 list \<Rightarrow> u8 list \<Rightarrow> u8 \<Rightarrow> (u8 list \<times> u8) option" where
  "hmac_with le env key data out ctr =
     Option.bind (FillpHmacSha256Init le (env_addrs env) (env_tctx env) (Some (env_ctx env)) (Some key) ctr) (\<lambda>(ctx, ctr).
     let ctx = FillpHmacSha256Update le ctx (Some data) (length data) in
     Option.bind (FillpHmacSha256Final le ctx (Some out) FILLP_KEYSIZE) (\<lambda>(_, d).
     case d of Some d \<Rightarrow> Some (d, ctr) | None \<Rightarrow> None))"

definition FillpGenerateCookie ::
  "bool \<Rightarrow> hmac_env \<Rightarrow> FillpMacInfo \<Rightarrow> u8 \<Rightarrow> sockaddr \<Rightarrow> FillpPktConnReq \<Rightarrow> sockaddr \<Rightarrow> u16 \<Rightarrow> u64 \<Rightarrow> u32 \<times> u32 \<Rightarrow> FillpCookieContent \<Rightarrow>
    (FillpCookieContent \<times> u8) option" where
  "FillpGenerateCookie le env macInfo ctr localAddr req remoteAddr serverPort curTime rands stateCookie =
     (let c = stateCookie\<lparr>digest := currentMacKey macInfo\<rparr>;
          c = c\<lparr>remoteSockIpv6Addr := addr_copy le (remoteSockIpv6Addr c) remoteAddr\<rparr>;
          c = c\<lparr>remoteRecvCache := recvCache req, remoteSendCache := sendCache req\<rparr>;
          c = c\<lparr>arr := mem_bytes le 8 curTime @ drop 8 (arr c)\<rparr>;
          c = c\<lparr>localMessageSeqNumber := fst rands, localPacketSeqNumber := snd rands\<rparr>;
          c = c\<lparr>remoteMessageSeqNumber := req_seqNum req, remotePacketSeqNumber := req_pktNum req\<rparr>;
          c = c\<lparr>addressType := sin_family le remoteAddr, srcPort := serverPort\<rparr>;
          c = (if cookiePreserveTime req \<le> FILLP_MAX_COOKIE_LIFETIME
               then c\<lparr>lifeTime := FILLP_INITIAL_COOKIE_LIFETIME + cookiePreserveTime req\<rparr>
               else c\<lparr>lifeTime := FILLP_INITIAL_COOKIE_LIFETIME\<rparr>)
      in map_option (\<lambda>(d, ctr). (c\<lparr>digest := d\<rparr>, ctr))
           (hmac_with le env (currentMacKey macInfo) (cookieCal_data le localAddr c) (digest c) ctr))"

abbreviation (input) ERR_OK :: int where "ERR_OK \<equiv> 0"
abbreviation (input) FILLP_SUCCESS :: int where "FILLP_SUCCESS \<equiv> 0"
abbreviation (input) ERR_HMAC_SHA2_DIGEST_MISMATCH :: int where "ERR_HMAC_SHA2_DIGEST_MISMATCH \<equiv> -519"
abbreviation (input) ERR_STALE_COOKIE_ERROR :: int where "ERR_STALE_COOKIE_ERROR \<equiv> -520"
abbreviation (input) ERR_COOKIE_PORT_MISMATCH :: int where "ERR_COOKIE_PORT_MISMATCH \<equiv> -521"

definition FillpValidateCookieHmac ::
  "bool \<Rightarrow> hmac_env \<Rightarrow> FillpMacInfo \<Rightarrow> u8 \<Rightarrow> sockaddr \<Rightarrow> FillpCookieContent \<Rightarrow> (int \<times> u8) option" where
  "FillpValidateCookieHmac le env macInfo ctr localAddr stateCookie =
     (let key = (if switchOverTime macInfo < cookie_time le stateCookie
                 then map (\<lambda>count. currentMacKey macInfo ! count) [0..<FILLP_KEYSIZE]
                 else map (\<lambda>count. oldMacKey macInfo ! count) [0..<FILLP_KEYSIZE])
      in map_option (\<lambda>(outDigest, ctr).
           (if list_ex (\<lambda>count. digest stateCookie ! count \<noteq> outDigest ! count) [0..<FILLP_KEYSIZE]
            then ERR_HMAC_SHA2_DIGEST_MISMATCH else ERR_OK, ctr))
         (hmac_with le env key (cookieCal_data le localAddr stateCookie) (replicate 32 0) ctr))"

definition FillpValidateCookie ::
  "bool \<Rightarrow> hmac_env \<Rightarrow> FillpMacInfo \<Rightarrow> u8 \<Rightarrow> sockaddr \<Rightarrow> u16 \<Rightarrow> sockaddr \<Rightarrow> u64 \<Rightarrow> FillpCookieContent \<Rightarrow> (int \<times> u8) option" where
  "FillpValidateCookie le env macInfo ctr localAddr serverPort clientAddr curTime stateCookie =
     map_option (\<lambda>(ret, ctr).
       (if ret \<noteq> ERR_OK then ret
        else if srcPort stateCookie \<noteq> serverPort then ERR_COOKIE_PORT_MISMATCH
        else if \<not> UtilsAddrMatch le (remoteSockIpv6Addr stateCookie) clientAddr then ERR_COOKIE_PORT_MISMATCH
        else
          let timeDiffVal = sint (curTime - cookie_time le stateCookie) in
          if timeDiffVal < 0 then ERR_STALE_COOKIE_ERROR
          else if timeDiffVal > uint (lifeTime stateCookie) then ERR_STALE_COOKIE_ERROR
          else FILLP_SUCCESS, ctr))
     (FillpValidateCookieHmac le env macInfo ctr localAddr stateCookie)"

section \<open>The keys\<close>

text \<open>The keys after some checks of the timer; an event has the random numbers and the time.\<close>

definition mac_checks :: "FillpMacInfo \<Rightarrow> (u32 list \<times> u64) list \<Rightarrow> FillpMacInfo" where
  "mac_checks macInfo evs = foldl (\<lambda>m (rands, t). SpinstLoopMacTimerChecker rands t m) macInfo evs"

lemma mac_checks_simps [simp]:
  "mac_checks m [] = m"
  "mac_checks m ((rands, t) # evs) = mac_checks (SpinstLoopMacTimerChecker rands t m) evs"
  by (simp_all add: mac_checks_def)

text \<open>The invariant of the keys: outside the places that the loop visits both are zero.\<close>

definition mac_wf :: "FillpMacInfo \<Rightarrow> bool" where
  "mac_wf m \<longleftrightarrow> length (currentMacKey m) = 32 \<and> length (oldMacKey m) = 32 \<and>
     (\<forall>i < 32. i mod 4 \<noteq> 0 \<longrightarrow> currentMacKey m ! i = 0 \<and> oldMacKey m ! i = 0)"

lemma mac_loop_wf: "mac_wf m \<Longrightarrow> \<forall>c \<in> set cs. c mod 4 = 0 \<Longrightarrow> mac_wf (mac_loop cs rands m)"
proof (induction cs rands m rule: mac_loop.induct)
  case (1 counter cs rand rands m)
  have "mac_wf (m\<lparr>oldMacKey := (oldMacKey m)[counter := currentMacKey m ! counter],
      currentMacKey := (currentMacKey m)[counter := ucast rand]\<rparr>)"
  proof -
    have "xs[counter := v] ! i = xs ! i" if "i mod 4 \<noteq> 0" for xs :: "u8 list" and v i
      using 1(3) that by (intro nth_list_update_neq) auto
    then show ?thesis using 1(2) unfolding mac_wf_def by simp
  qed
  then show ?case using 1 by simp
qed simp_all

lemma Expire_wf: "mac_wf m \<Longrightarrow> mac_wf (FillpMacTimerExpire rands m t)"
  using mac_loop_wf [of m "[0, 4, 8, 12, 16, 20, 24, 28]" rands]
  by (simp add: FillpMacTimerExpire_def) (simp add: mac_wf_def)

lemma Init_wf: "mac_wf (SpungeInstTimerInit_mac rands t)"
  unfolding SpungeInstTimerInit_mac_def by (rule Expire_wf) (simp add: mac_wf_def)

lemma Checker_wf: "mac_wf m \<Longrightarrow> mac_wf (SpinstLoopMacTimerChecker rands t m)"
  by (simp add: SpinstLoopMacTimerChecker_def Expire_wf)

lemma mac_checks_wf: "mac_wf m \<Longrightarrow> mac_wf (mac_checks m evs)"
  by (induction evs arbitrary: m) (auto simp: Checker_wf)

text \<open>With enough random numbers the loop moves the current key to the old one at every place it visits.\<close>

lemma mac_loop_old:
  assumes "length cs \<le> length rands" and "distinct cs" and "\<forall>c \<in> set cs. c < length (oldMacKey m)"
  shows "i < length (oldMacKey m) \<Longrightarrow>
    oldMacKey (mac_loop cs rands m) ! i = (if i \<in> set cs then currentMacKey m ! i else oldMacKey m ! i)"
  using assms
proof (induction cs rands m rule: mac_loop.induct)
  case (1 counter cs rand rands m)
  then show ?case by (cases "i = counter") (auto simp: nth_list_update)
qed simp_all

lemma places_mod4: "(i :: nat) < 32 \<Longrightarrow> i mod 4 = 0 \<Longrightarrow> i \<in> set [0, 4, 8, 12, 16, 20, 24, 28]"
proof -
  assume i: "i < 32" "i mod 4 = 0"
  then obtain k where k: "i = 4 * k" by (auto elim: dvdE simp: mod_eq_0_iff_dvd)
  then have "k < 8" using i by simp
  then have "k = 0 \<or> k = 1 \<or> k = 2 \<or> k = 3 \<or> k = 4 \<or> k = 5 \<or> k = 6 \<or> k = 7" by arith
  then show ?thesis using k by auto
qed

lemma Expire_old:
  assumes "mac_wf m" and "8 \<le> length rands"
  shows "oldMacKey (FillpMacTimerExpire rands m t) = currentMacKey m"
proof (rule nth_equalityI)
  define cs where "cs = [0, 4, 8, 12, 16, 20, 24, 28 :: nat]"
  have len: "length (oldMacKey (FillpMacTimerExpire rands m t)) = 32" "length (currentMacKey m) = 32" "length (oldMacKey m) = 32"
    using Expire_wf [OF assms(1)] assms(1) by (simp_all add: mac_wf_def)
  show "length (oldMacKey (FillpMacTimerExpire rands m t)) = length (currentMacKey m)" using len by simp
  fix i assume "i < length (oldMacKey (FillpMacTimerExpire rands m t))"
  then have i: "i < 32" using len by simp
  have cs: "length cs \<le> length rands" "distinct cs" "\<forall>c \<in> set cs. c < length (oldMacKey m)"
    using assms(2) len by (simp_all add: cs_def)
  have "oldMacKey (mac_loop cs rands m) ! i = currentMacKey m ! i"
  proof (cases "i mod 4 = 0")
    case True
    then show ?thesis using mac_loop_old [OF cs, of i] i len places_mod4 [OF i True] by (simp add: cs_def)
  next
    case False
    then have "currentMacKey m ! i = oldMacKey m ! i" using assms(1) i by (simp add: mac_wf_def)
    then show ?thesis using mac_loop_old [OF cs, of i] i len by simp
  qed
  then show "oldMacKey (FillpMacTimerExpire rands m t) ! i = currentMacKey m ! i"
    by (simp add: FillpMacTimerExpire_def cs_def)
qed

text \<open>
  Within the lifetime of a cookie the keys are refreshed at most once: the key that was current when
  the cookie was made is still current, or it is the old one.
\<close>

definition key_kept :: "u8 list \<Rightarrow> u64 \<Rightarrow> FillpMacInfo \<Rightarrow> bool" where
  "key_kept K T m \<longleftrightarrow> mac_wf m \<and> unat (switchOverTime m) < 2 ^ 63 \<and>
     (if switchOverTime m < T then currentMacKey m = K else oldMacKey m = K)"

lemma sint_diff:
  fixes a b :: u64
  assumes "unat a < 2 ^ 63" and "unat b < 2 ^ 63"
  shows "sint (a - b) = int (unat a) - int (unat b)"
proof -
  define d where "d = int (unat a) - int (unat b)"
  have e: "a - b = of_int d" by (simp add: d_def)
  have "- (2 ^ 63) \<le> int x - int y \<and> int x - int y < 2 ^ 63" if "x < 2 ^ 63" and "y < 2 ^ 63" for x y
    using that by simp
  from this [OF assms] have "- (2 ^ 63) \<le> d" and "d < 2 ^ 63" unfolding d_def by blast+
  then have "sint (a - b) = d" unfolding e by (simp add: signed_of_int signed_take_bit_int_eq_self)
  then show ?thesis by (simp only: d_def)
qed

lemma Checker_key_kept:
  assumes "key_kept K T m" and "8 \<le> length rands" and "T \<le> t" and "unat t < 2 ^ 63"
    and "int (unat t) - int (unat T) \<le> FILLP_KEY_REFRESH_TIME"
  shows "key_kept K T (SpinstLoopMacTimerChecker rands t m)"
proof (cases "sint (t - switchOverTime m) > FILLP_KEY_REFRESH_TIME")
  case False
  then show ?thesis using assms(1) by (simp add: SpinstLoopMacTimerChecker_def)
next
  case True
  have wf: "mac_wf m" and s: "unat (switchOverTime m) < 2 ^ 63" using assms(1) by (simp_all add: key_kept_def)
  have "int (unat t) - int (unat (switchOverTime m)) > FILLP_KEY_REFRESH_TIME"
    using True sint_diff [OF assms(4) s] by simp
  then have "unat (switchOverTime m) < unat T" using assms(5) by linarith
  then have "currentMacKey m = K" using assms(1) by (simp add: key_kept_def word_less_nat_alt)
  then have "oldMacKey (FillpMacTimerExpire rands m t) = K" using Expire_old [OF wf assms(2)] by simp
  moreover have "switchOverTime (FillpMacTimerExpire rands m t) = t" by (simp add: FillpMacTimerExpire_def)
  ultimately show ?thesis
    using True assms(4) leD [OF assms(3)] Expire_wf [OF wf, of rands t]
    by (simp add: SpinstLoopMacTimerChecker_def key_kept_def)
qed

lemma checks_key_kept:
  "key_kept K T m \<Longrightarrow>
     \<forall>(rands, t) \<in> set evs. 8 \<le> length rands \<and> T \<le> t \<and> unat t < 2 ^ 63 \<and> int (unat t) - int (unat T) \<le> FILLP_KEY_REFRESH_TIME \<Longrightarrow>
     key_kept K T (mac_checks m evs)"
  by (induction evs arbitrary: m) (auto simp: Checker_key_kept)

section \<open>Generation and validation\<close>

definition env_wf :: "hmac_env \<Rightarrow> bool" where
  "env_wf env \<longleftrightarrow> length (wbuf (env_tctx env)) = 16 \<and> length (wbuf (hashki (env_ctx env))) = 16 \<and>
     length (wbuf (hashko (env_ctx env))) = 16"

lemma hmac_with_value:
  assumes "env_wf env" and "length key = 32" and "length data < 2 ^ 32"
  shows "\<exists>ctr'. hmac_with le env key data out ctr = Some (hmac_sha256 key data, ctr')"
proof -
  have k: "key \<noteq> []" "length key < 2 ^ 32" using assms(2) by auto
  obtain ctx c where i: "FillpHmacSha256Init le (env_addrs env) (env_tctx env) (Some (env_ctx env)) (Some key) ctr = Some (Some ctx, c)"
    and h: "hmac_state le key [] ctx"
    using Init_state [OF _ _ _ k] assms(1) unfolding env_wf_def by metis
  have "64 + length ([] :: u8 list) + length data < 2 ^ 64" using assms(3) by simp
  from Update_state [OF h this assms(3)] obtain ctx1
    where u: "FillpHmacSha256Update le (Some ctx) (Some data) (length data) = Some ctx1"
    and h1: "hmac_state le key data ctx1" by auto
  from Final_digest [OF h1, of out] obtain ctx2 where "FillpHmacSha256Final le (Some ctx1) (Some out) 32 = Some (Some ctx2, Some (hmac_sha256 key data))"
    by blast
  then show ?thesis by (simp add: hmac_with_def i u Let_def)
qed

definition cookie_wf :: "FillpCookieContent \<Rightarrow> bool" where
  "cookie_wf c \<longleftrightarrow> length (digest c) = 32 \<and> length (arr c) = 16 \<and> length (remoteSockIpv6Addr c) = 28"

lemma length_addr_copy: "length dest = 28 \<Longrightarrow> length src = 28 \<Longrightarrow> length (addr_copy le dest src) = 28"
  by (simp add: addr_copy_def addr_size_def)

lemma length_cookieCal_data: "cookie_wf c \<Longrightarrow> length localAddr = 28 \<Longrightarrow> length (cookieCal_data le localAddr c) = 104"
  by (simp add: cookieCal_data_def cookie_bytes_def cookie_wf_def length_addr_copy)

lemma map_nth_upt: "length xs = n \<Longrightarrow> map (\<lambda>i. xs ! i) [0..<n] = xs"
  by (metis map_nth)

lemma digests_differ:
  assumes "length a = 32" and "length b = 32"
  shows "list_ex (\<lambda>i. a ! i \<noteq> b ! i) [0..<32] \<longleftrightarrow> a \<noteq> b"
  using assms by (auto simp: list_ex_iff list_eq_iff_nth_eq)

lemma length_hmac: "length (hmac_sha256 k m) = 32"
  by (simp add: hmac_sha256_def length_sha256)

text \<open>The key that a cookie of a given time is checked with.\<close>

definition cookie_key :: "FillpMacInfo \<Rightarrow> u64 \<Rightarrow> u8 list" where
  "cookie_key m t = (if switchOverTime m < t then currentMacKey m else oldMacKey m)"

lemma ValidateHmac_value:
  assumes "env_wf env" and "mac_wf m" and "cookie_wf c" and "length localAddr = 28"
  shows "\<exists>ctr'. FillpValidateCookieHmac le env m ctr localAddr c =
    Some (if digest c = hmac_sha256 (cookie_key m (cookie_time le c)) (cookieCal_data le localAddr c)
          then ERR_OK else ERR_HMAC_SHA2_DIGEST_MISMATCH, ctr')"
proof -
  define key where "key = cookie_key m (cookie_time le c)"
  have key: "length key = 32" using assms(2) by (simp add: key_def cookie_key_def mac_wf_def)
  have k: "(if switchOverTime m < cookie_time le c then map (\<lambda>count. currentMacKey m ! count) [0..<32]
      else map (\<lambda>count. oldMacKey m ! count) [0..<32]) = key"
    using assms(2) by (simp add: key_def cookie_key_def mac_wf_def map_nth_upt)
  have "length (cookieCal_data le localAddr c) < 2 ^ 32" using length_cookieCal_data [OF assms(3,4)] by simp
  from hmac_with_value [OF assms(1) key this]
  obtain c' where h: "hmac_with le env key (cookieCal_data le localAddr c) (replicate 32 0) ctr =
      Some (hmac_sha256 key (cookieCal_data le localAddr c), c')" by blast
  have "length (digest c) = 32" using assms(3) by (simp add: cookie_wf_def)
  from digests_differ [OF this length_hmac] show ?thesis
    unfolding FillpValidateCookieHmac_def Let_def k h key_def [symmetric] by simp
qed

lemma addr_copy_matches:
  assumes "length dest = 28" and "length client = 28"
  shows "UtilsAddrMatch le (addr_copy le dest client) client"
proof -
  have "sin_family le (addr_copy le dest client) = sin_family le client"
    "sin_port le (addr_copy le dest client) = sin_port le client"
    "sin_addr le (addr_copy le dest client) = sin_addr le client"
    using assms by (simp_all add: sin_family_def sin_port_def sin_addr_def addr_copy_def addr_size_def drop_take)
  moreover have "addr_copy le dest client = client" if "sin_family le client \<noteq> AF_INET"
    using that assms by (simp add: addr_copy_def addr_size_def)
  ultimately show ?thesis by (auto simp: UtilsAddrMatch_def UtilsIpv6AddrMatch_def list_all_iff)
qed

lemma lifeTime_bound:
  fixes p :: u32
  assumes "l = (if p \<le> FILLP_MAX_COOKIE_LIFETIME then FILLP_INITIAL_COOKIE_LIFETIME + p else FILLP_INITIAL_COOKIE_LIFETIME)"
  shows "uint l \<le> 30000000"
proof (cases "p \<le> FILLP_MAX_COOKIE_LIFETIME")
  case True
  then have "uint p \<le> 20000000" by (simp add: word_le_def)
  moreover have "0 \<le> uint p" by simp
  ultimately have "uint (10000000 + p) = 10000000 + uint p" by (simp add: uint_word_ariths)
  then show ?thesis using True \<open>uint p \<le> 20000000\<close> by (simp add: assms)
next
  case False
  then show ?thesis by (simp add: assms)
qed

text \<open>The cookie as it is when the digest is computed.\<close>

definition cookie_body :: "bool \<Rightarrow> FillpPktConnReq \<Rightarrow> sockaddr \<Rightarrow> u16 \<Rightarrow> u64 \<Rightarrow> u32 \<times> u32 \<Rightarrow> FillpCookieContent \<Rightarrow> FillpCookieContent" where
  "cookie_body le req client port T rs c0 = c0\<lparr>
     arr := mem_bytes le 8 T @ drop 8 (arr c0),
     lifeTime := (if cookiePreserveTime req \<le> FILLP_MAX_COOKIE_LIFETIME
                  then FILLP_INITIAL_COOKIE_LIFETIME + cookiePreserveTime req else FILLP_INITIAL_COOKIE_LIFETIME),
     localPacketSeqNumber := snd rs, remotePacketSeqNumber := req_pktNum req,
     localMessageSeqNumber := fst rs, remoteMessageSeqNumber := req_seqNum req,
     remoteSendCache := sendCache req, remoteRecvCache := recvCache req,
     srcPort := port, addressType := sin_family le client,
     remoteSockIpv6Addr := addr_copy le (remoteSockIpv6Addr c0) client\<rparr>"

lemma cookieCal_data_digest [simp]: "cookieCal_data le a (c\<lparr>digest := d\<rparr>) = cookieCal_data le a c"
  by (simp add: cookieCal_data_def cookie_bytes_def)

lemma Generate_value:
  assumes "env_wf env" and "mac_wf m" and "cookie_wf c0" and "length localAddr = 28" and "length client = 28"
  shows "\<exists>ctr'. FillpGenerateCookie le env m ctr localAddr req client port T rs c0 =
    Some ((cookie_body le req client port T rs c0)\<lparr>digest :=
      hmac_sha256 (currentMacKey m) (cookieCal_data le localAddr (cookie_body le req client port T rs c0))\<rparr>, ctr')"
proof -
  define b where "b = cookie_body le req client port T rs c0"
  have key: "length (currentMacKey m) = 32" using assms(2) by (simp add: mac_wf_def)
  have "cookie_wf b"
    using assms(3,5) by (simp add: b_def cookie_body_def cookie_wf_def length_addr_copy)
  then have "length (cookieCal_data le localAddr b) < 2 ^ 32" using length_cookieCal_data [OF _ assms(4)] by simp
  from hmac_with_value [OF assms(1) key this, of le "currentMacKey m" ctr]
  obtain ctr' where h: "hmac_with le env (currentMacKey m) (cookieCal_data le localAddr b) (currentMacKey m) ctr =
      Some (hmac_sha256 (currentMacKey m) (cookieCal_data le localAddr b), ctr')" by blast
  have "FillpGenerateCookie le env m ctr localAddr req client port T rs c0 =
      map_option (\<lambda>(d, ctr). (b\<lparr>digest := d\<rparr>, ctr))
        (hmac_with le env (currentMacKey m) (cookieCal_data le localAddr b) (currentMacKey m) ctr)"
  proof -
    have e: "(let c = c0\<lparr>digest := currentMacKey m\<rparr>;
          c = c\<lparr>remoteSockIpv6Addr := addr_copy le (remoteSockIpv6Addr c) client\<rparr>;
          c = c\<lparr>remoteRecvCache := recvCache req, remoteSendCache := sendCache req\<rparr>;
          c = c\<lparr>arr := mem_bytes le 8 T @ drop 8 (arr c)\<rparr>;
          c = c\<lparr>localMessageSeqNumber := fst rs, localPacketSeqNumber := snd rs\<rparr>;
          c = c\<lparr>remoteMessageSeqNumber := req_seqNum req, remotePacketSeqNumber := req_pktNum req\<rparr>;
          c = c\<lparr>addressType := sin_family le client, srcPort := port\<rparr>
        in (if cookiePreserveTime req \<le> FILLP_MAX_COOKIE_LIFETIME
               then c\<lparr>lifeTime := FILLP_INITIAL_COOKIE_LIFETIME + cookiePreserveTime req\<rparr>
               else c\<lparr>lifeTime := FILLP_INITIAL_COOKIE_LIFETIME\<rparr>)) = b\<lparr>digest := currentMacKey m\<rparr>"
      by (simp add: Let_def b_def cookie_body_def)
    show ?thesis
      unfolding FillpGenerateCookie_def Let_def e [unfolded Let_def] by simp
  qed
  then show ?thesis using h by (simp add: b_def)
qed

text \<open>When no check has a time before the cookie was made, the cookie is held against the key it was made with.\<close>

lemma key_within_lifetime:
  assumes "mac_wf m" and "switchOverTime m < T" and "T \<le> now" and "unat now < 2 ^ 63"
    and "int (unat now) - int (unat T) \<le> FILLP_KEY_REFRESH_TIME"
    and "\<forall>(rands, t) \<in> set evs. 8 \<le> length rands \<and> T \<le> t \<and> t \<le> now"
  shows "cookie_key (mac_checks m evs) T = currentMacKey m \<and> mac_wf (mac_checks m evs)"
proof -
  have s: "unat (switchOverTime m) < 2 ^ 63" using assms(2-4) by (simp add: word_less_nat_alt word_le_nat_alt)
  have "key_kept (currentMacKey m) T (mac_checks m evs)"
  proof (rule checks_key_kept)
    show "key_kept (currentMacKey m) T m" using assms(1,2) s by (simp add: key_kept_def)
    show "\<forall>(rands, t) \<in> set evs. 8 \<le> length rands \<and> T \<le> t \<and> unat t < 2 ^ 63 \<and>
        int (unat t) - int (unat T) \<le> FILLP_KEY_REFRESH_TIME"
    proof (intro ballI, clarify, intro conjI)
      fix rands t assume "(rands, t) \<in> set evs"
      then have e: "8 \<le> length rands" "T \<le> t" "t \<le> now" using assms(6) by blast+
      then have le: "unat t \<le> unat now" by (simp add: word_le_nat_alt)
      show "8 \<le> length rands" and "T \<le> t" using e by simp_all
      show "unat t < 2 ^ 63" using le assms(4) by (rule le_less_trans)
      show "int (unat t) - int (unat T) \<le> FILLP_KEY_REFRESH_TIME" using le assms(5) by linarith
    qed
  qed
  then show ?thesis by (simp add: key_kept_def cookie_key_def split: if_splits)
qed

section \<open>Properties\<close>

text \<open>
  C14: a cookie is accepted exactly when its digest is the HMAC-SHA-256, with the key that belongs to its time, of its
  contents and the server's address, it was made for this port and this client, and it is not older
  than the lifetime it states; in every other case the answer is one of the three error codes.
\<close>

theorem FillpValidateCookie_accepts:
  assumes "env_wf env" and "mac_wf m" and "cookie_wf c" and "length localAddr = 28"
  shows "\<exists>ret ctr'. FillpValidateCookie le env m ctr localAddr port client now c = Some (ret, ctr') \<and>
    (ret = FILLP_SUCCESS \<longleftrightarrow>
       digest c = hmac_sha256 (cookie_key m (cookie_time le c)) (cookieCal_data le localAddr c) \<and>
       srcPort c = port \<and> UtilsAddrMatch le (remoteSockIpv6Addr c) client \<and>
       0 \<le> sint (now - cookie_time le c) \<and> sint (now - cookie_time le c) \<le> uint (lifeTime c)) \<and>
    ret \<in> {FILLP_SUCCESS, ERR_HMAC_SHA2_DIGEST_MISMATCH, ERR_COOKIE_PORT_MISMATCH, ERR_STALE_COOKIE_ERROR}"
proof -
  obtain ctr' where "FillpValidateCookieHmac le env m ctr localAddr c =
      Some (if digest c = hmac_sha256 (cookie_key m (cookie_time le c)) (cookieCal_data le localAddr c)
            then ERR_OK else ERR_HMAC_SHA2_DIGEST_MISMATCH, ctr')"
    using ValidateHmac_value [OF assms] by blast
  then show ?thesis by (auto simp: FillpValidateCookie_def Let_def)
qed


text \<open>A server that was just started, used by the witnesses.\<close>

definition sample_env :: hmac_env where
  "sample_env = (let s = \<lparr>count0 = 0, count1 = 0, sha_hash = [], wbuf = replicate 16 0\<rparr>
     in \<lparr>env_addrs = (0, 64, 128), env_tctx = s, env_ctx = \<lparr>hashki = s, hashko = s\<rparr>\<rparr>)"

definition sample_cookie :: FillpCookieContent where
  "sample_cookie = \<lparr>digest = replicate 32 0, arr = replicate 16 0, lifeTime = 0, localPacketSeqNumber = 0, remotePacketSeqNumber = 0,
     localMessageSeqNumber = 0, remoteMessageSeqNumber = 0, remoteSendCache = 0, remoteRecvCache = 0, srcPort = 0, addressType = 0,
     remoteSockIpv6Addr = replicate 28 0\<rparr>"

lemma samples_wf: "env_wf sample_env" "cookie_wf sample_cookie"
  by (simp_all add: env_wf_def sample_env_def Let_def cookie_wf_def sample_cookie_def)

theorem FillpValidateCookie_accepts_witness:
  "\<exists>ret ctr'. FillpValidateCookie True sample_env (SpungeInstTimerInit_mac [1, 2, 3, 4, 5, 6, 7, 8] 5) 0 (replicate 28 1) 80
      (replicate 28 2) 9 sample_cookie = Some (ret, ctr') \<and>
    (ret = FILLP_SUCCESS \<longleftrightarrow>
       digest sample_cookie = hmac_sha256 (cookie_key (SpungeInstTimerInit_mac [1, 2, 3, 4, 5, 6, 7, 8] 5) (cookie_time True sample_cookie))
         (cookieCal_data True (replicate 28 1) sample_cookie) \<and>
       srcPort sample_cookie = 80 \<and> UtilsAddrMatch True (remoteSockIpv6Addr sample_cookie) (replicate 28 2) \<and>
       0 \<le> sint (9 - cookie_time True sample_cookie) \<and> sint (9 - cookie_time True sample_cookie) \<le> uint (lifeTime sample_cookie)) \<and>
    ret \<in> {FILLP_SUCCESS, ERR_HMAC_SHA2_DIGEST_MISMATCH, ERR_COOKIE_PORT_MISMATCH, ERR_STALE_COOKIE_ERROR}"
  by (rule FillpValidateCookie_accepts [OF samples_wf(1) Init_wf samples_wf(2)]) simp

text \<open>
  C11: the handshake completes, if the refreshes of the keys are stamped in order. The cookie that the server makes for a
  client at time \<open>T\<close>, after the last refresh, is accepted from that client at every time up to its lifetime, however
  often the key timer fires in between and whatever random numbers it draws, when none of these checks has a time before
  \<open>T\<close>. When a check does have an older time, as the cached time of the main loop can be, and refreshes the keys, the
  switch-over is stamped before \<open>T\<close>, the cookie is held against the new key, and it is refused although it is
  valid, unless both keys happen to give the same digest.
\<close>

theorem cookie_accepted_in_lifetime:
  assumes "env_wf env1" and "env_wf env2" and "mac_wf m" and "cookie_wf c0" and "length localAddr = 28" and "length client = 28"
    and "switchOverTime m < T" and "T \<le> now" and "unat now < 2 ^ 63"
    and "\<forall>(rands, t) \<in> set evs. 8 \<le> length rands \<and> t \<le> now"
  shows "\<exists>c ctr1. FillpGenerateCookie le env1 m ctr localAddr req client port T rs c0 = Some (c, ctr1) \<and>
    (uint now - uint T \<le> uint (lifeTime c) \<and> (\<forall>(rands, t) \<in> set evs. T \<le> t) \<longrightarrow>
       (\<exists>ctr2. FillpValidateCookie le env2 (mac_checks m evs) ctr1 localAddr port client now c = Some (FILLP_SUCCESS, ctr2))) \<and>
    (switchOverTime (mac_checks m evs) < T \<and>
       hmac_sha256 (currentMacKey (mac_checks m evs)) (cookieCal_data le localAddr c) \<noteq>
         hmac_sha256 (currentMacKey m) (cookieCal_data le localAddr c) \<longrightarrow>
       (\<exists>ctr2. FillpValidateCookie le env2 (mac_checks m evs) ctr1 localAddr port client now c =
          Some (ERR_HMAC_SHA2_DIGEST_MISMATCH, ctr2)))"
proof -
  define b where "b = cookie_body le req client port T rs c0"
  define c where "c = b\<lparr>digest := hmac_sha256 (currentMacKey m) (cookieCal_data le localAddr b)\<rparr>"
  obtain ctr1 where g: "FillpGenerateCookie le env1 m ctr localAddr req client port T rs c0 = Some (c, ctr1)"
    using Generate_value [OF assms(1,3-6)] unfolding c_def b_def by blast
  have ct: "cookie_time le c = T" and port: "srcPort c = port"
    by (simp_all add: c_def b_def cookie_body_def cookie_time_def mem_word_bytes)
  have addr: "UtilsAddrMatch le (remoteSockIpv6Addr c) client"
    using assms(4,6) by (simp add: c_def b_def cookie_body_def cookie_wf_def addr_copy_matches)
  have wf: "cookie_wf c"
    using assms(4,6) by (simp add: c_def b_def cookie_body_def cookie_wf_def length_addr_copy length_hmac)
  have T: "unat T < 2 ^ 63" using assms(8,9) by (simp add: word_le_nat_alt)
  have d: "sint (now - T) = uint now - uint T" using sint_diff [OF assms(9) T] by simp
  have d0: "0 \<le> uint now - uint T" using assms(8) by (simp add: word_le_def)
  have "\<exists>ctr2. FillpValidateCookie le env2 (mac_checks m evs) ctr1 localAddr port client now c = Some (FILLP_SUCCESS, ctr2)"
    if life: "uint now - uint T \<le> uint (lifeTime c)" and late: "\<forall>(rands, t) \<in> set evs. T \<le> t"
  proof -
    have "uint (lifeTime c) \<le> 30000000" by (rule lifeTime_bound) (simp add: c_def b_def cookie_body_def)
    then have near: "int (unat now) - int (unat T) \<le> FILLP_KEY_REFRESH_TIME" using life by simp
    have key: "cookie_key (mac_checks m evs) T = currentMacKey m" and mwf: "mac_wf (mac_checks m evs)"
      using key_within_lifetime [OF assms(3,7-9) near, of evs] assms(10) late by auto
    have dig: "digest c = hmac_sha256 (cookie_key (mac_checks m evs) (cookie_time le c)) (cookieCal_data le localAddr c)"
      unfolding ct key by (simp add: c_def)
    from ValidateHmac_value [OF assms(2) mwf wf assms(5), of le ctr1] dig
    obtain ctr2 where "FillpValidateCookieHmac le env2 (mac_checks m evs) ctr1 localAddr c = Some (ERR_OK, ctr2)" by auto
    then show ?thesis using port addr life d0 by (simp add: FillpValidateCookie_def Let_def ct d)
  qed
  moreover have "\<exists>ctr2. FillpValidateCookie le env2 (mac_checks m evs) ctr1 localAddr port client now c =
      Some (ERR_HMAC_SHA2_DIGEST_MISMATCH, ctr2)"
    if "switchOverTime (mac_checks m evs) < T" and ne: "hmac_sha256 (currentMacKey (mac_checks m evs)) (cookieCal_data le localAddr c) \<noteq>
         hmac_sha256 (currentMacKey m) (cookieCal_data le localAddr c)"
  proof -
    have "cookie_key (mac_checks m evs) (cookie_time le c) = currentMacKey (mac_checks m evs)"
      using that(1) by (simp add: ct cookie_key_def)
    then have "digest c \<noteq> hmac_sha256 (cookie_key (mac_checks m evs) (cookie_time le c)) (cookieCal_data le localAddr c)"
      using ne by (simp add: c_def)
    with ValidateHmac_value [OF assms(2) mac_checks_wf [OF assms(3)] wf assms(5), of le evs ctr1]
    obtain ctr2 where "FillpValidateCookieHmac le env2 (mac_checks m evs) ctr1 localAddr c =
        Some (ERR_HMAC_SHA2_DIGEST_MISMATCH, ctr2)" by auto
    then show ?thesis by (simp add: FillpValidateCookie_def)
  qed
  ultimately show ?thesis using g by blast
qed


definition sample_req :: FillpPktConnReq where
  "sample_req = \<lparr>cookiePreserveTime = 5, sendCache = 100, recvCache = 100, req_seqNum = 3, req_pktNum = 4\<rparr>"

theorem cookie_accepted_in_lifetime_witness:
  "\<exists>c ctr1. FillpGenerateCookie True sample_env (SpungeInstTimerInit_mac [1, 2, 3, 4, 5, 6, 7, 8] 5) 0 (replicate 28 1) sample_req
        (replicate 28 2) 80 (1800000000 :: u64) (11, 12) sample_cookie = Some (c, ctr1) \<and>
      (\<exists>ctr2. FillpValidateCookie True sample_env
         (mac_checks (SpungeInstTimerInit_mac [1, 2, 3, 4, 5, 6, 7, 8] 5) [([8, 7, 6, 5, 4, 3, 2, 1], 1800000007)])
         ctr1 (replicate 28 1) 80 (replicate 28 2) 1800000009 c = Some (FILLP_SUCCESS, ctr2))"
proof -
  define m where "m = SpungeInstTimerInit_mac [1, 2, 3, 4, 5, 6, 7, 8] 5"
  have "mac_wf m" and "switchOverTime m < 1800000000"
    by (simp_all add: m_def Init_wf) (simp add: SpungeInstTimerInit_mac_def FillpMacTimerExpire_def)
  then obtain c ctr1 where g: "FillpGenerateCookie True sample_env m 0 (replicate 28 1) sample_req (replicate 28 2) 80 1800000000
      (11, 12) sample_cookie = Some (c, ctr1)"
    and v: "uint (1800000009 :: u64) - uint (1800000000 :: u64) \<le> uint (lifeTime c) \<longrightarrow>
       (\<exists>ctr2. FillpValidateCookie True sample_env (mac_checks m [([8, 7, 6, 5, 4, 3, 2, 1], 1800000007)]) ctr1 (replicate 28 1) 80
          (replicate 28 2) 1800000009 c = Some (FILLP_SUCCESS, ctr2))"
    using cookie_accepted_in_lifetime [OF samples_wf(1) samples_wf(1) _ samples_wf(2), of m "replicate 28 1" "replicate 28 2" 1800000000
        1800000009 "[([8, 7, 6, 5, 4, 3, 2, 1], 1800000007)]" True 0 sample_req 80 "(11, 12)"]
    by auto
  obtain ctr' where "FillpGenerateCookie True sample_env m 0 (replicate 28 1) sample_req (replicate 28 2) 80 1800000000
      (11, 12) sample_cookie =
    Some ((cookie_body True sample_req (replicate 28 2) 80 1800000000 (11, 12) sample_cookie)\<lparr>digest :=
      hmac_sha256 (currentMacKey m) (cookieCal_data True (replicate 28 1)
        (cookie_body True sample_req (replicate 28 2) 80 1800000000 (11, 12) sample_cookie))\<rparr>, ctr')"
    using Generate_value [OF samples_wf(1) \<open>mac_wf m\<close> samples_wf(2), of "replicate 28 1" "replicate 28 2" True 0 sample_req 80
        1800000000 "(11, 12)"] by auto
  then have "lifeTime c = 10000005" using g by (auto simp: cookie_body_def sample_req_def)
  then show ?thesis using g v by (auto simp: m_def)
qed

text \<open>
  C17: of the thirty-two bytes of a key only eight are ever set. The loop of the refresh advances by four bytes and
  stores one of them, so that twenty-four bytes of the current and of the old key stay zero from the start of the
  instance on, after any number of refreshes and whatever the random numbers are.
\<close>

theorem mac_keys_mostly_zero:
  "map (\<lambda>i. currentMacKey (mac_checks (SpungeInstTimerInit_mac rands t) evs) ! i) (filter (\<lambda>i. i mod 4 \<noteq> 0) [0..<32]) =
     replicate 24 0 \<and>
   map (\<lambda>i. oldMacKey (mac_checks (SpungeInstTimerInit_mac rands t) evs) ! i) (filter (\<lambda>i. i mod 4 \<noteq> 0) [0..<32]) =
     replicate 24 0"
proof -
  define m where "m = mac_checks (SpungeInstTimerInit_mac rands t) evs"
  have wf: "mac_wf m" unfolding m_def by (rule mac_checks_wf [OF Init_wf])
  have len: "length (filter (\<lambda>i. i mod 4 \<noteq> 0) [0..<32 :: nat]) = 24" by code_simp
  have "map (\<lambda>i. key ! i) (filter (\<lambda>i. i mod 4 \<noteq> 0) [0..<32]) = replicate 24 (0 :: u8)"
    if "\<forall>i < 32. i mod 4 \<noteq> 0 \<longrightarrow> key ! i = 0" for key
  proof -
    have "map (\<lambda>i. key ! i) (filter (\<lambda>i. i mod 4 \<noteq> 0) [0..<32]) =
        map (\<lambda>i. 0 :: u8) (filter (\<lambda>i. i mod 4 \<noteq> 0) [0..<32 :: nat])"
      using that by (intro map_cong) auto
    then show ?thesis using len by (simp add: map_replicate_const)
  qed
  then show ?thesis using wf unfolding m_def [symmetric] mac_wf_def by blast
qed

end
