(* ===== verification/Fillp_Ring.thy ===== *)
theory Fillp_Ring
  imports Softbus_Prelude
begin

text \<open>
  The lock-free ring of the transport for several producers and several consumers,
  \<^verbatim>\<open>components/nstackx/fillp/src/public/src/lf_ring.c\<close>. Each operation is a thread that takes one access to the shared
  ring per step; the steps of different threads interleave in any order. A compare-and-swap is one
  step, and the accesses are seen in program order, which is what the barriers of the source are for.
  An event records which values a step reserves or hands out, so that a run has a log of both.
\<close>

section \<open>Model\<close>

record 'a FillpLfRing =
  prod_head :: u64
  prod_tail :: u64
  cons_head :: u64
  cons_tail :: u64
  ring_size :: u64
  prodSafe :: bool
  consSafe :: bool
  ringCache :: "'a list"

abbreviation (input) sizeof_ptr :: u64 where "sizeof_ptr \<equiv> 8"
abbreviation (input) sizeof_FillpLfRing :: u64 where "sizeof_FillpLfRing \<equiv> 88"

definition FillpLfRingCalMemSize :: "u64 \<Rightarrow> u64" where
  "FillpLfRingCalMemSize sz =
     (let memSize = sz * sizeof_ptr in
      if memSize = 0 \<or> memSize div sizeof_ptr \<noteq> sz then 0
      else let memSize = memSize + sizeof_FillpLfRing in if memSize < sizeof_FillpLfRing then 0 else memSize)"

definition FillpLfRingInit :: "'a FillpLfRing option \<Rightarrow> u64 \<Rightarrow> 'a FillpLfRing option" where
  "FillpLfRingInit ring sz =
     (case ring of
        None \<Rightarrow> None
      | Some r \<Rightarrow>
          if sz = 0 then Some r
          else Some (r\<lparr>ring_size := sz, cons_head := 0, cons_tail := 0, prod_head := 0, prod_tail := 0,
                     consSafe := True, prodSafe := True\<rparr>))"

definition FillpLfRingSetProdSafe :: "'a FillpLfRing \<Rightarrow> bool \<Rightarrow> 'a FillpLfRing" where
  "FillpLfRingSetProdSafe ring safe = ring\<lparr>prodSafe := safe\<rparr>"

definition FillpLfRingSetConsSafe :: "'a FillpLfRing \<Rightarrow> bool \<Rightarrow> 'a FillpLfRing" where
  "FillpLfRingSetConsSafe ring safe = ring\<lparr>consSafe := safe\<rparr>"

definition FillpRingEmpty :: "'a FillpLfRing \<Rightarrow> bool" where
  "FillpRingEmpty r = (cons_tail r = prod_tail r)"

definition FillpRingFreeEntries :: "'a FillpLfRing option \<Rightarrow> int" where
  "FillpRingFreeEntries ring =
     (case ring of
        None \<Rightarrow> 0
      | Some r \<Rightarrow>
          let remain = ring_size r + cons_tail r - prod_head r;
              cnt = sint (ucast remain :: u32)
          in if cnt < 0 then 0 else cnt)"

definition FillpRingValidOnes :: "'a FillpLfRing option \<Rightarrow> u64" where
  "FillpRingValidOnes ring =
     (case ring of
        None \<Rightarrow> 0
      | Some r \<Rightarrow> let ret = prod_tail r - cons_head r in if sint ret < 0 then ring_size r else ret)"

text \<open>
  Where a thread is in \<open>FillpLfRingMpEnqueue\<close> or \<open>FillpLfRingMcDequeue\<close>, with its local variables. \<open>EnqHead\<close> and \<open>EnqTail\<close> are before the two reads
  of the loop, \<open>EnqCas\<close> before the reservation, \<open>EnqWrite\<close> in the loop that stores the entries and
  \<open>EnqWait\<close> in the one that waits for earlier producers; the consumer has the same places.
\<close>

datatype 'a thread =
    Idle
  | EnqHead "'a list"
  | EnqTail "'a list" u64
  | EnqCas "'a list" u64 u64
  | EnqWrite "'a list" u64 u64 nat
  | EnqWait "'a list" u64 u64
  | DeqHead u32
  | DeqTail u32 u64
  | DeqCas u32 u64 u64
  | DeqCopy u64 u64 "'a list"
  | DeqWait u64 u64 "'a list"

datatype 'a event =
    Silent
  | Reserved "'a list"
  | Delivered "'a list"

text \<open>One iteration of the reservation of a producer, and the rest of the operation.\<close>

fun MpEnqueueWait_step :: "'a FillpLfRing \<Rightarrow> 'a thread \<Rightarrow> 'a FillpLfRing \<times> 'a thread \<times> 'a event" where
  "MpEnqueueWait_step r (EnqHead items) = (r, EnqTail items (prod_head r), Silent)"
| "MpEnqueueWait_step r (EnqTail items prodHead) =
     (let consTail = cons_tail r;
          freeEntries = ring_size r + consTail - prodHead;
          count = of_nat (length items)
      in if freeEntries = 0 then (r, Idle, Silent)
         else let ret = (if freeEntries > count then count else freeEntries) in (r, EnqCas items prodHead ret, Silent))"
| "MpEnqueueWait_step r (EnqCas items prodHead ret) =
     (let prodNext = prodHead + ret in
      if \<not> prodSafe r \<or> prod_head r = prodHead
      then (r\<lparr>prod_head := prodNext\<rparr>, EnqWrite items prodHead ret 0, Reserved (take (unat ret) items))
      else (r, EnqHead items, Silent))"
| "MpEnqueueWait_step r l = (r, l, Silent)"

fun MpEnqueue_step :: "'a FillpLfRing \<Rightarrow> 'a thread \<Rightarrow> 'a FillpLfRing \<times> 'a thread \<times> 'a event" where
  "MpEnqueue_step r (EnqWrite items prodHead ret i) =
     (if i < unat (ucast ret :: u32)
      then (r\<lparr>ringCache := (ringCache r)[unat ((prodHead + of_nat (i + 1)) mod ring_size r) := items ! i]\<rparr>,
            EnqWrite items prodHead ret (i + 1), Silent)
      else (r, EnqWait items prodHead ret, Silent))"
| "MpEnqueue_step r (EnqWait items prodHead ret) =
     (if prod_tail r \<noteq> prodHead then (r, EnqWait items prodHead ret, Silent)
      else (r\<lparr>prod_tail := prodHead + ret\<rparr>, Idle, Silent))"
| "MpEnqueue_step r l = MpEnqueueWait_step r l"

fun McDequeueWait_step :: "'a FillpLfRing \<Rightarrow> 'a thread \<Rightarrow> 'a FillpLfRing \<times> 'a thread \<times> 'a event" where
  "McDequeueWait_step r (DeqHead count) = (r, DeqTail count (cons_head r), Silent)"
| "McDequeueWait_step r (DeqTail count consHead) =
     (let prodTail = prod_tail r;
          entries = prodTail - consHead
      in if entries = 0 then (r, Idle, Silent)
         else let ret = (if entries > ucast count then ucast count else entries) in (r, DeqCas count consHead ret, Silent))"
| "McDequeueWait_step r (DeqCas count consHead ret) =
     (let consNext = consHead + ret in
      if \<not> consSafe r \<or> cons_head r = consHead
      then (r\<lparr>cons_head := consNext\<rparr>, DeqCopy consHead ret [], Silent)
      else (r, DeqHead count, Silent))"
| "McDequeueWait_step r l = (r, l, Silent)"

fun McDequeue_step :: "'a FillpLfRing \<Rightarrow> 'a thread \<Rightarrow> 'a FillpLfRing \<times> 'a thread \<times> 'a event" where
  "McDequeue_step r (DeqCopy consHead ret dataTable) =
     (let i = length dataTable in
      if i < unat ret
      then (r, DeqCopy consHead ret (dataTable @ [ringCache r ! unat ((consHead + of_nat (i + 1)) mod ring_size r)]), Silent)
      else (r, DeqWait consHead ret dataTable, Silent))"
| "McDequeue_step r (DeqWait consHead ret dataTable) =
     (if cons_tail r \<noteq> consHead then (r, DeqWait consHead ret dataTable, Silent)
      else (r\<lparr>cons_tail := consHead + ret\<rparr>, Idle, Delivered dataTable))"
| "McDequeue_step r l = McDequeueWait_step r l"

text \<open>The value an operation returns, when its next step is its last.\<close>

abbreviation (input) ERR_NOBUFS :: int where "ERR_NOBUFS \<equiv> -2"

fun op_return :: "'a FillpLfRing \<Rightarrow> 'a thread \<Rightarrow> int option" where
  "op_return r (EnqTail items prodHead) = (if ring_size r + cons_tail r - prodHead = 0 then Some ERR_NOBUFS else None)"
| "op_return r (EnqWait items prodHead ret) = (if prod_tail r = prodHead then Some (sint (ucast ret :: u32)) else None)"
| "op_return r (DeqTail count consHead) = (if prod_tail r - consHead = 0 then Some ERR_NOBUFS else None)"
| "op_return r (DeqWait consHead ret dataTable) = (if cons_tail r = consHead then Some (sint (ucast ret :: u32)) else None)"
| "op_return r _ = None"

fun is_producer :: "'a thread \<Rightarrow> bool" where
  "is_producer (EnqHead _) = True"
| "is_producer (EnqTail _ _) = True"
| "is_producer (EnqCas _ _ _) = True"
| "is_producer (EnqWrite _ _ _ _) = True"
| "is_producer (EnqWait _ _ _) = True"
| "is_producer _ = False"

fun is_consumer :: "'a thread \<Rightarrow> bool" where
  "is_consumer (DeqHead _) = True"
| "is_consumer (DeqTail _ _) = True"
| "is_consumer (DeqCas _ _ _) = True"
| "is_consumer (DeqCopy _ _ _) = True"
| "is_consumer (DeqWait _ _ _) = True"
| "is_consumer _ = False"

definition thread_step :: "'a FillpLfRing \<Rightarrow> 'a thread \<Rightarrow> 'a FillpLfRing \<times> 'a thread \<times> 'a event" where
  "thread_step r l = (if is_producer l then MpEnqueue_step r l else McDequeue_step r l)"

text \<open>
  The checks of the arguments at the beginning of the two operations. \<open>dataTable\<close> is what the caller's table
  holds; an enqueue goes on with its first \<open>count\<close> entries.
\<close>

abbreviation (input) ERR_PARAM :: int where "ERR_PARAM \<equiv> -4"

definition FillpLfRingMpEnqueue_start ::
  "'a FillpLfRing option \<Rightarrow> 'a list option \<Rightarrow> u32 \<Rightarrow> int + 'a thread" where
  "FillpLfRingMpEnqueue_start ring dataTable count =
     (if ring = None \<or> dataTable = None \<or> count = 0 then Inl ERR_PARAM
      else Inr (EnqHead (take (unat count) (the dataTable))))"

definition FillpLfRingMcDequeue_start ::
  "'a FillpLfRing option \<Rightarrow> 'a list option \<Rightarrow> u32 \<Rightarrow> int + 'a thread" where
  "FillpLfRingMcDequeue_start ring dataTable count =
     (if ring = None \<or> dataTable = None \<or> count = 0 then Inl ERR_PARAM else Inr (DeqHead count))"

text \<open>The whole system: the ring, the threads and what was reserved and delivered so far.\<close>

record 'a ring_state =
  rs_ring :: "'a FillpLfRing"
  rs_threads :: "nat \<Rightarrow> 'a thread"
  rs_log :: "'a list"
  rs_out :: "'a list"

fun record_event :: "'a event \<Rightarrow> 'a ring_state \<Rightarrow> 'a ring_state" where
  "record_event Silent s = s"
| "record_event (Reserved vs) s = s\<lparr>rs_log := rs_log s @ vs\<rparr>"
| "record_event (Delivered vs) s = s\<lparr>rs_out := rs_out s @ vs\<rparr>"

text \<open>
  An idle thread begins an operation, with a table of at least \<open>count\<close> entries, or a thread that is in one takes its
  next step. A ring that was declared unsafe on one side has one thread at a time on that side: that is what the
  declaration means.
\<close>

inductive ring_step :: "'a ring_state \<Rightarrow> 'a ring_state \<Rightarrow> bool" where
  enqueue: "rs_threads s t = Idle \<Longrightarrow> FillpLfRingMpEnqueue_start (Some (rs_ring s)) (Some dataTable) count = Inr l \<Longrightarrow>
    unat count \<le> length dataTable \<Longrightarrow>
    prodSafe (rs_ring s) \<or> (\<forall>u. \<not> is_producer (rs_threads s u)) \<Longrightarrow>
    ring_step s (s\<lparr>rs_threads := (rs_threads s)(t := l)\<rparr>)"
| dequeue: "rs_threads s t = Idle \<Longrightarrow> FillpLfRingMcDequeue_start (Some (rs_ring s)) (Some dataTable) count = Inr l \<Longrightarrow>
    unat count \<le> length dataTable \<Longrightarrow>
    consSafe (rs_ring s) \<or> (\<forall>u. \<not> is_consumer (rs_threads s u)) \<Longrightarrow>
    ring_step s (s\<lparr>rs_threads := (rs_threads s)(t := l)\<rparr>)"
| advance: "rs_threads s t = l \<Longrightarrow> l \<noteq> Idle \<Longrightarrow> thread_step (rs_ring s) l = (r', l', ev) \<Longrightarrow>
    ring_step s (record_event ev (s\<lparr>rs_ring := r', rs_threads := (rs_threads s)(t := l')\<rparr>))"

inductive_cases ring_stepE: "ring_step s s'"

section \<open>Reservations\<close>

text \<open>The interval of positions that a thread has reserved and not published yet.\<close>

fun reservation_p :: "'a thread \<Rightarrow> (nat \<times> nat) option" where
  "reservation_p (EnqWrite items h ret i) = Some (unat h, unat ret)"
| "reservation_p (EnqWait items h ret) = Some (unat h, unat ret)"
| "reservation_p _ = None"

fun reservation_c :: "'a thread \<Rightarrow> (nat \<times> nat) option" where
  "reservation_c (DeqCopy h ret tab) = Some (unat h, unat ret)"
| "reservation_c (DeqWait h ret tab) = Some (unat h, unat ret)"
| "reservation_c _ = None"

text \<open>The reservations follow one another without a gap from \<open>a\<close> to \<open>b\<close>.\<close>

fun chain :: "(nat \<Rightarrow> (nat \<times> nat) option) \<Rightarrow> nat \<Rightarrow> nat \<Rightarrow> nat list \<Rightarrow> bool" where
  "chain f a b [] = (a = b)"
| "chain f a b (t # ts) = (case f t of None \<Rightarrow> False | Some (h, n) \<Rightarrow> h = a \<and> 0 < n \<and> chain f (a + n) b ts)"

definition in_order :: "(nat \<Rightarrow> (nat \<times> nat) option) \<Rightarrow> nat \<Rightarrow> nat \<Rightarrow> bool" where
  "in_order f a b \<longleftrightarrow> (\<exists>ts. distinct ts \<and> (\<forall>t. t \<in> set ts \<longleftrightarrow> f t \<noteq> None) \<and> chain f a b ts)"

lemma chain_cong: "(\<And>t. t \<in> set ts \<Longrightarrow> f t = g t) \<Longrightarrow> chain f a b ts = chain g a b ts"
  by (induction ts arbitrary: a) (auto split: option.splits)

lemma chain_upd [simp]: "t \<notin> set ts \<Longrightarrow> chain (f(t := x)) a b ts = chain f a b ts"
  by (rule chain_cong) auto

lemma chain_snoc: "chain f a b ts \<Longrightarrow> f t = Some (b, n) \<Longrightarrow> 0 < n \<Longrightarrow> chain f a (b + n) (ts @ [t])"
  by (induction ts arbitrary: a) (auto split: option.splits)

lemma chain_le: "chain f a b ts \<Longrightarrow> a \<le> b"
  by (induction ts arbitrary: a) (fastforce split: option.splits)+

lemma chain_bounds: "chain f a b ts \<Longrightarrow> t \<in> set ts \<Longrightarrow> f t = Some (h, n) \<Longrightarrow> a \<le> h \<and> h + n \<le> b \<and> 0 < n"
proof (induction ts arbitrary: a)
  case (Cons u ts)
  from Cons.prems(1) obtain n' where u: "f u = Some (a, n')" "0 < n'" and c: "chain f (a + n') b ts"
    by (auto split: option.splits)
  show ?case
  proof (cases "t = u")
    case True
    then show ?thesis using u c Cons.prems(3) chain_le [OF c] by simp
  next
    case False
    then show ?thesis using Cons.IH [OF c _ Cons.prems(3)] Cons.prems(2) by simp
  qed
qed simp

lemma chain_disjoint:
  "chain f a b ts \<Longrightarrow> distinct ts \<Longrightarrow> t \<in> set ts \<Longrightarrow> u \<in> set ts \<Longrightarrow> t \<noteq> u \<Longrightarrow> f t = Some (h, n) \<Longrightarrow> f u = Some (h', n') \<Longrightarrow>
     h + n \<le> h' \<or> h' + n' \<le> h"
proof (induction ts arbitrary: a)
  case (Cons v ts)
  from Cons.prems(1) obtain m where v: "f v = Some (a, m)" and c: "chain f (a + m) b ts"
    by (auto split: option.splits)
  consider "t = v" "u \<in> set ts" | "u = v" "t \<in> set ts" | "t \<in> set ts" "u \<in> set ts" using Cons.prems(3-5) by auto
  then show ?case
  proof cases
    case 1
    then show ?thesis using v Cons.prems(6,7) chain_bounds [OF c 1(2) Cons.prems(7)] by simp
  next
    case 2
    then show ?thesis using v Cons.prems(6,7) chain_bounds [OF c 2(2) Cons.prems(6)] by simp
  next
    case 3
    then show ?thesis using Cons.IH [OF c _ 3 Cons.prems(5-7)] Cons.prems(2) by simp
  qed
qed simp

lemma in_order_bounds:
  "in_order f a b \<Longrightarrow> f t = Some (h, n) \<Longrightarrow> a \<le> h \<and> h + n \<le> b \<and> 0 < n"
  unfolding in_order_def using chain_bounds by (metis option.distinct(1))

lemma in_order_disjoint:
  assumes "in_order f a b" and "f t = Some (h, n)" and "f u = Some (h', n')" and "t \<noteq> u"
  shows "h + n \<le> h' \<or> h' + n' \<le> h"
proof -
  obtain ts where ts: "distinct ts" "\<forall>t. t \<in> set ts \<longleftrightarrow> f t \<noteq> None" "chain f a b ts"
    using assms(1) by (auto simp: in_order_def)
  have "t \<in> set ts" "u \<in> set ts" using ts(2) assms(2,3) by simp_all
  from chain_disjoint [OF ts(3,1) this assms(4,2,3)] show ?thesis .
qed

lemma in_order_none: "(\<And>t. f t = None) \<Longrightarrow> in_order f a a"
  unfolding in_order_def by (rule exI [of _ "[]"]) simp

lemma in_order_same:
  assumes "in_order f a b" and "\<And>t. f t = g t"
  shows "in_order g a b"
proof -
  have "f = g" using assms(2) by blast
  then show ?thesis using assms(1) by simp
qed

text \<open>A new reservation goes to the end, and the first one is published.\<close>

lemma in_order_reserve:
  assumes "in_order f a b" and "f t = None" and "0 < n"
  shows "in_order (f(t := Some (b, n))) a (b + n)"
proof -
  obtain ts where ts: "distinct ts" "\<forall>t. t \<in> set ts \<longleftrightarrow> f t \<noteq> None" "chain f a b ts"
    using assms(1) by (auto simp: in_order_def)
  have t: "t \<notin> set ts" using ts(2) assms(2) by simp
  have "chain (f(t := Some (b, n))) a b ts" using ts(3) t by simp
  then have "chain (f(t := Some (b, n))) a (b + n) (ts @ [t])" using assms(3) by (intro chain_snoc) simp_all
  then show ?thesis
    unfolding in_order_def using ts(1,2) t by (intro exI [of _ "ts @ [t]"]) auto
qed

lemma in_order_head:
  assumes "in_order f a b" and "a < b"
  obtains t n where "f t = Some (a, n)"
proof -
  obtain ts where ts: "chain f a b ts" using assms(1) by (auto simp: in_order_def)
  then show ?thesis using assms(2) that by (cases ts) (auto split: option.splits)
qed

lemma in_order_publish:
  assumes "in_order f a b" and "f t = Some (a, n)"
  shows "in_order (f(t := None)) (a + n) b"
proof -
  obtain ts where ts: "distinct ts" "\<forall>t. t \<in> set ts \<longleftrightarrow> f t \<noteq> None" "chain f a b ts"
    using assms(1) by (auto simp: in_order_def)
  have "t \<in> set ts" using ts(2) assms(2) by simp
  then obtain u us where us: "ts = u # us" by (cases ts) auto
  obtain m where u: "f u = Some (a, m)" "0 < m" and c: "chain f (a + m) b us"
    using ts(3) us by (auto split: option.splits)
  have "t = u"
  proof (rule ccontr)
    assume "t \<noteq> u"
    then have "t \<in> set us" using \<open>t \<in> set ts\<close> us by simp
    from chain_bounds [OF c this assms(2)] u(2) show False by simp
  qed
  moreover have "n = m" using u(1) assms(2) \<open>t = u\<close> by simp
  moreover have "chain (f(u := None)) (a + m) b us"
    using c ts(1) us by simp
  ultimately show ?thesis
    unfolding in_order_def using ts(1,2) us by (intro exI [of _ us]) auto
qed

lemma in_order_upd:
  assumes "in_order f a b" and "f t = Some x"
  shows "in_order (f(t := Some x)) a b"
  using assms by (simp add: fun_upd_idem)

section \<open>The invariant\<close>

text \<open>The slot of a position.\<close>

definition slot :: "nat \<Rightarrow> nat \<Rightarrow> nat" where
  "slot N k = Suc k mod N"

lemma low_word: "unat x < 2 ^ 32 \<Longrightarrow> unat (ucast (x :: u64) :: u32) = unat x"
  by (simp add: unsigned_ucast_eq take_bit_nat_eq_self)

lemma ring_slot_less: "0 < N \<Longrightarrow> slot N k < N"
  by (simp add: slot_def)

lemma slot_distinct:
  assumes "i \<noteq> j" and "a \<le> i" and "a \<le> j" and "i < a + N" and "j < a + N"
  shows "slot N i \<noteq> slot N j"
proof (cases "i < j")
  case True
  then show ?thesis using ring_slot_distinct [of i j N 1] assms by (simp add: slot_def)
next
  case False
  then have "j < i" using assms(1) by simp
  then show ?thesis using ring_slot_distinct [of j i N 1] assms by (simp add: slot_def)
qed

text \<open>What the local variables of a thread promise about the ring and the log.\<close>

fun thread_ok :: "'a FillpLfRing \<Rightarrow> 'a list \<Rightarrow> 'a thread \<Rightarrow> bool" where
  "thread_ok r L Idle = True"
| "thread_ok r L (EnqHead items) = (items \<noteq> [] \<and> length items < 2 ^ 32)"
| "thread_ok r L (EnqTail items h) =
     (items \<noteq> [] \<and> length items < 2 ^ 32 \<and> unat h \<le> unat (prod_head r) \<and> (\<not> prodSafe r \<longrightarrow> h = prod_head r))"
| "thread_ok r L (EnqCas items h ret) =
     (items \<noteq> [] \<and> length items < 2 ^ 32 \<and> unat h \<le> unat (prod_head r) \<and> (\<not> prodSafe r \<longrightarrow> h = prod_head r) \<and>
      0 < unat ret \<and> unat ret \<le> length items \<and> unat h + unat ret \<le> unat (cons_tail r) + unat (ring_size r))"
| "thread_ok r L (EnqWrite items h ret i) =
     (length items < 2 ^ 32 \<and> unat ret \<le> length items \<and> i \<le> unat ret \<and> take (unat ret) items = take (unat ret) (drop (unat h) L) \<and>
      (\<forall>k < i. ringCache r ! slot (unat (ring_size r)) (unat h + k) = L ! (unat h + k)))"
| "thread_ok r L (EnqWait items h ret) =
     (\<forall>k < unat ret. ringCache r ! slot (unat (ring_size r)) (unat h + k) = L ! (unat h + k))"
| "thread_ok r L (DeqHead count) = (0 < count)"
| "thread_ok r L (DeqTail count h) =
     (0 < count \<and> unat h \<le> unat (cons_head r) \<and> (\<not> consSafe r \<longrightarrow> h = cons_head r))"
| "thread_ok r L (DeqCas count h ret) =
     (0 < count \<and> unat h \<le> unat (cons_head r) \<and> (\<not> consSafe r \<longrightarrow> h = cons_head r) \<and>
      0 < unat ret \<and> unat h + unat ret \<le> unat (prod_tail r))"
| "thread_ok r L (DeqCopy h ret tab) = (length tab \<le> unat ret \<and> tab = take (length tab) (drop (unat h) L))"
| "thread_ok r L (DeqWait h ret tab) = (length tab = unat ret \<and> tab = take (unat ret) (drop (unat h) L))"

definition ring_ok :: "nat \<Rightarrow> 'a FillpLfRing \<Rightarrow> 'a list \<Rightarrow> 'a list \<Rightarrow> bool" where
  "ring_ok N r L out \<longleftrightarrow>
     unat (ring_size r) = N \<and> 0 < N \<and> length (ringCache r) = N \<and>
     unat (cons_tail r) \<le> unat (cons_head r) \<and> unat (cons_head r) \<le> unat (prod_tail r) \<and>
     unat (prod_tail r) \<le> unat (prod_head r) \<and> unat (prod_head r) \<le> unat (cons_tail r) + N \<and>
     length L = unat (prod_head r) \<and> out = take (unat (cons_tail r)) L \<and>
     (\<forall>k. unat (cons_tail r) \<le> k \<and> k < unat (prod_tail r) \<longrightarrow> ringCache r ! slot N k = L ! k)"

definition one_side :: "'a FillpLfRing \<Rightarrow> (nat \<Rightarrow> 'a thread) \<Rightarrow> bool" where
  "one_side r thr \<longleftrightarrow>
     (\<not> prodSafe r \<longrightarrow> (\<forall>t u. is_producer (thr t) \<and> is_producer (thr u) \<longrightarrow> t = u)) \<and>
     (\<not> consSafe r \<longrightarrow> (\<forall>t u. is_consumer (thr t) \<and> is_consumer (thr u) \<longrightarrow> t = u))"

definition ring_inv :: "nat \<Rightarrow> 'a ring_state \<Rightarrow> bool" where
  "ring_inv N s \<longleftrightarrow>
     (let r = rs_ring s; L = rs_log s; thr = rs_threads s
      in ring_ok N r L (rs_out s) \<and> one_side r thr \<and>
         in_order (\<lambda>t. reservation_p (thr t)) (unat (prod_tail r)) (unat (prod_head r)) \<and>
         in_order (\<lambda>t. reservation_c (thr t)) (unat (cons_tail r)) (unat (cons_head r)) \<and>
         (\<forall>t. thread_ok r L (thr t)))"

text \<open>A thread's promise survives what the others do to the ring.\<close>

lemma thread_ok_stable:
  assumes "thread_ok r L l"
    and "ring_size r' = ring_size r" "prodSafe r' = prodSafe r" "consSafe r' = consSafe r"
    and "unat (prod_head r) \<le> unat (prod_head r')" "unat (prod_tail r) \<le> unat (prod_tail r')"
      "unat (cons_head r) \<le> unat (cons_head r')" "unat (cons_tail r) \<le> unat (cons_tail r')"
    and "\<not> prodSafe r \<and> is_producer l \<longrightarrow> prod_head r' = prod_head r"
    and "\<not> consSafe r \<and> is_consumer l \<longrightarrow> cons_head r' = cons_head r"
    and p: "\<And>h n. reservation_p l = Some (h, n) \<Longrightarrow> h + n \<le> length L \<and>
      (\<forall>k < n. ringCache r' ! slot (unat (ring_size r)) (h + k) = ringCache r ! slot (unat (ring_size r)) (h + k))"
    and c: "\<And>h n. reservation_c l = Some (h, n) \<Longrightarrow> h + n \<le> length L"
  shows "thread_ok r' (L @ vs) l"
proof (cases l)
  case (EnqWrite items h ret i)
  have "unat h + unat ret \<le> length L" and "\<forall>k < unat ret. ringCache r' ! slot (unat (ring_size r)) (unat h + k) =
      ringCache r ! slot (unat (ring_size r)) (unat h + k)"
    using p [of "unat h" "unat ret"] EnqWrite by simp_all
  then show ?thesis using assms(1,2) EnqWrite by (simp add: nth_append)
next
  case (EnqWait items h ret)
  then show ?thesis using assms(1,2) p [of "unat h" "unat ret"] by (simp add: nth_append)
next
  case (DeqCopy h ret tab)
  then show ?thesis using assms(1) c [of "unat h" "unat ret"] by simp
next
  case (DeqWait h ret tab)
  then show ?thesis using assms(1) c [of "unat h" "unat ret"] by simp
qed (use assms in auto)

lemma ring_invD:
  assumes "ring_inv N s"
  shows "ring_ok N (rs_ring s) (rs_log s) (rs_out s)" and "one_side (rs_ring s) (rs_threads s)"
    and "in_order (\<lambda>t. reservation_p (rs_threads s t)) (unat (prod_tail (rs_ring s))) (unat (prod_head (rs_ring s)))"
    and "in_order (\<lambda>t. reservation_c (rs_threads s t)) (unat (cons_tail (rs_ring s))) (unat (cons_head (rs_ring s)))"
    and "\<And>t. thread_ok (rs_ring s) (rs_log s) (rs_threads s t)"
  using assms by (simp_all add: ring_inv_def Let_def)

lemma ring_okD:
  assumes "ring_ok N r L out"
  shows "unat (ring_size r) = N" "0 < N" "length (ringCache r) = N"
    "unat (cons_tail r) \<le> unat (cons_head r)" "unat (cons_head r) \<le> unat (prod_tail r)"
    "unat (prod_tail r) \<le> unat (prod_head r)" "unat (prod_head r) \<le> unat (cons_tail r) + N"
    "length L = unat (prod_head r)" "out = take (unat (cons_tail r)) L"
    "\<And>k. unat (cons_tail r) \<le> k \<Longrightarrow> k < unat (prod_tail r) \<Longrightarrow> ringCache r ! slot N k = L ! k"
  using assms by (simp_all add: ring_ok_def)

lemma one_side_upd:
  assumes "one_side r thr" and "is_producer l \<Longrightarrow> is_producer (thr t)" and "is_consumer l \<Longrightarrow> is_consumer (thr t)"
    and "prodSafe r' = prodSafe r" and "consSafe r' = consSafe r"
  shows "one_side r' (thr(t := l))"
  using assms unfolding one_side_def by (metis fun_upd_apply)

text \<open>A step that changes nothing but the thread's own variables.\<close>

lemma ring_inv_local:
  assumes "ring_inv N s" and "rs_threads s t = l" and "thread_ok (rs_ring s) (rs_log s) l'"
    and "reservation_p l' = reservation_p l" and "reservation_c l' = reservation_c l"
    and "is_producer l' \<Longrightarrow> is_producer l" and "is_consumer l' \<Longrightarrow> is_consumer l"
  shows "ring_inv N (s\<lparr>rs_threads := (rs_threads s)(t := l')\<rparr>)"
proof -
  note d = ring_invD [OF assms(1)]
  have "one_side (rs_ring s) ((rs_threads s)(t := l'))"
    using d(2) assms(2,6,7) by (intro one_side_upd) auto
  moreover have "in_order (\<lambda>u. reservation_p (((rs_threads s)(t := l')) u)) (unat (prod_tail (rs_ring s))) (unat (prod_head (rs_ring s)))"
    by (rule in_order_same [OF d(3)]) (simp add: assms(2,4))
  moreover have "in_order (\<lambda>u. reservation_c (((rs_threads s)(t := l')) u)) (unat (cons_tail (rs_ring s))) (unat (cons_head (rs_ring s)))"
    by (rule in_order_same [OF d(4)]) (simp add: assms(2,5))
  ultimately show ?thesis using d(1,5) assms(3) by (simp add: ring_inv_def Let_def)
qed

text \<open>A step that changes the ring: the other threads keep their promises.\<close>

lemma others_ok:
  assumes "ring_inv N s" and "u \<noteq> t"
    and "ring_size r' = ring_size (rs_ring s)" "prodSafe r' = prodSafe (rs_ring s)" "consSafe r' = consSafe (rs_ring s)"
    and "unat (prod_head (rs_ring s)) \<le> unat (prod_head r')" "unat (prod_tail (rs_ring s)) \<le> unat (prod_tail r')"
      "unat (cons_head (rs_ring s)) \<le> unat (cons_head r')" "unat (cons_tail (rs_ring s)) \<le> unat (cons_tail r')"
    and "prod_head r' \<noteq> prod_head (rs_ring s) \<Longrightarrow> is_producer (rs_threads s t)"
    and "cons_head r' \<noteq> cons_head (rs_ring s) \<Longrightarrow> is_consumer (rs_threads s t)"
    and "\<And>h n k. reservation_p (rs_threads s u) = Some (h, n) \<Longrightarrow> k < n \<Longrightarrow> ringCache r' ! slot N (h + k) = ringCache (rs_ring s) ! slot N (h + k)"
  shows "thread_ok r' (rs_log s @ vs) (rs_threads s u)"
proof -
  note d = ring_invD [OF assms(1)]
  note k = ring_okD [OF d(1)]
  show ?thesis
  proof (rule thread_ok_stable [OF d(5) assms(3-9)])
    show "\<not> prodSafe (rs_ring s) \<and> is_producer (rs_threads s u) \<longrightarrow> prod_head r' = prod_head (rs_ring s)"
      using d(2) assms(2,10) unfolding one_side_def by blast
    show "\<not> consSafe (rs_ring s) \<and> is_consumer (rs_threads s u) \<longrightarrow> cons_head r' = cons_head (rs_ring s)"
      using d(2) assms(2,11) unfolding one_side_def by blast
    fix h n
    show "reservation_p (rs_threads s u) = Some (h, n) \<Longrightarrow> h + n \<le> length (rs_log s) \<and>
        (\<forall>k < n. ringCache r' ! slot (unat (ring_size (rs_ring s))) (h + k) =
           ringCache (rs_ring s) ! slot (unat (ring_size (rs_ring s))) (h + k))"
      using in_order_bounds [OF d(3), of u h n] assms(12) k(1,8) by auto
    show "reservation_c (rs_threads s u) = Some (h, n) \<Longrightarrow> h + n \<le> length (rs_log s)"
      using in_order_bounds [OF d(4), of u h n] k(4-8) by auto
  qed
qed


section \<open>Preservation\<close>

lemma unat_add64: "unat (a :: u64) + unat b < 2 ^ 64 \<Longrightarrow> unat (a + b) = unat a + unat b"
  by (simp add: unat_word_ariths)

lemma slot_index:
  assumes "unat h + i + 1 < 2 ^ 64" and "unat sz = N"
  shows "unat (((h :: u64) + of_nat (i + 1)) mod sz) = slot N (unat h + i)"
proof -
  have "i + 1 < 2 ^ 64" using assms(1) by simp
  then have "unat (of_nat (i + 1) :: u64) = i + 1" by (simp add: unat_of_nat take_bit_nat_eq_self del: of_nat_Suc of_nat_add)
  then have "unat (h + of_nat (i + 1)) = unat h + (i + 1)" using assms(1) unat_add64 [of h "of_nat (i + 1)"] by simp
  then show ?thesis using assms(2) by (simp add: unat_mod_distrib slot_def)
qed

text \<open>The number of free entries as the source computes it, also from an old value of the head.\<close>

lemma free_entries:
  assumes "ring_ok N r L out" and "unat (prod_head r) + N < 2 ^ 64" and "unat h \<le> unat (prod_head r)"
  shows "unat (ring_size r + cons_tail r - h) = N + unat (cons_tail r) - unat h"
proof -
  note k = ring_okD [OF assms(1)]
  have "unat (ring_size r) + unat (cons_tail r) < 2 ^ 64" using k assms(2) by linarith
  then have s: "unat (ring_size r + cons_tail r) = N + unat (cons_tail r)" using unat_add64 k(1) by simp
  moreover have "h \<le> ring_size r + cons_tail r" unfolding word_le_nat_alt s using assms(3) k(7) by linarith
  ultimately show ?thesis by (simp add: unat_sub)
qed

lemma EnqTail_ok:
  assumes "ring_ok N r L out" and "unat (prod_head r) + N < 2 ^ 64" and "thread_ok r L (EnqTail items h)"
    and "MpEnqueue_step r (EnqTail items h) = (r', l', ev)"
  shows "r' = r \<and> ev = Silent \<and> thread_ok r L l' \<and> (l' = Idle \<or> (\<exists>ret. l' = EnqCas items h ret))"
proof -
  note f = free_entries [OF assms(1,2), of h]
  have h: "unat h \<le> unat (prod_head r)" "items \<noteq> []" "length items < 2 ^ 32" using assms(3) by simp_all
  have c: "unat (of_nat (length items) :: u64) = length items"
    using h(3) by (simp add: unat_of_nat take_bit_nat_eq_self)
  define ret where "ret = (if ring_size r + cons_tail r - h > of_nat (length items) then of_nat (length items)
      else ring_size r + cons_tail r - h)"
  have ret: "unat ret = min (length items) (N + unat (cons_tail r) - unat h)"
    using f [OF h(1)] c by (auto simp: ret_def word_less_nat_alt min_def)
  show ?thesis
  proof (cases "ring_size r + cons_tail r - h = 0")
    case True
    then show ?thesis using assms(4) by simp
  next
    case False
    then have "0 < N + unat (cons_tail r) - unat h" using f [OF h(1)] unat_gt_0 by metis
    then have "0 < unat ret" "unat ret \<le> length items" "unat h + unat ret \<le> unat (cons_tail r) + N"
      using h(2) unfolding ret by (auto simp: min_def)
    then show ?thesis
      using assms(3,4) False ring_okD(1) [OF assms(1)] by (auto simp: Let_def ret_def [symmetric])
  qed
qed

lemma DeqTail_ok:
  assumes "ring_ok N r L out" and "thread_ok r L (DeqTail count h)"
    and "McDequeue_step r (DeqTail count h) = (r', l', ev)"
  shows "r' = r \<and> ev = Silent \<and> thread_ok r L l' \<and> (l' = Idle \<or> (\<exists>ret. l' = DeqCas count h ret))"
proof -
  note k = ring_okD [OF assms(1)]
  have h: "unat h \<le> unat (cons_head r)" "0 < count" using assms(2) by simp_all
  have "h \<le> prod_tail r" using h(1) k(5) by (simp add: word_le_nat_alt)
  then have e: "unat (prod_tail r - h) = unat (prod_tail r) - unat h" by (simp add: unat_sub)
  have "unat count < 2 ^ 64" by (rule less_trans [OF unat_lt32]) simp
  then have c: "unat (ucast count :: u64) = unat count" by (simp add: unsigned_ucast_eq take_bit_nat_eq_self)
  have c0: "0 < unat count" using h(2) by (simp add: word_less_nat_alt)
  define ret where "ret = (if prod_tail r - h > ucast count then ucast count else prod_tail r - h)"
  have ret: "unat ret = min (unat count) (unat (prod_tail r) - unat h)"
    using e c by (auto simp: ret_def word_less_nat_alt min_def)
  show ?thesis
  proof (cases "prod_tail r - h = 0")
    case True
    then show ?thesis using assms(3) by simp
  next
    case False
    then have "0 < unat (prod_tail r) - unat h" using e unat_gt_0 by metis
    then have "0 < unat ret" "unat h + unat ret \<le> unat (prod_tail r)"
      using c0 unfolding ret by (auto simp: min_def)
    then show ?thesis using assms(2,3) False by (auto simp: Let_def ret_def [symmetric])
  qed
qed

lemma reserve_p:
  assumes inv: "ring_inv N s" and t: "rs_threads s t = EnqCas items h ret" and go: "\<not> prodSafe (rs_ring s) \<or> prod_head (rs_ring s) = h"
    and bound: "unat (prod_head (rs_ring s)) + unat ret + N < 2 ^ 64"
  shows "ring_inv N (s\<lparr>rs_ring := (rs_ring s)\<lparr>prod_head := h + ret\<rparr>, rs_threads := (rs_threads s)(t := EnqWrite items h ret 0),
    rs_log := rs_log s @ take (unat ret) items\<rparr>)"
proof -
  note d = ring_invD [OF inv]
  note k = ring_okD [OF d(1)]
  define r where "r = rs_ring s"
  define r' where "r' = r\<lparr>prod_head := h + ret\<rparr>"
  have ok: "thread_ok r (rs_log s) (EnqCas items h ret)" using d(5) [of t] t by (simp add: r_def)
  have h: "h = prod_head r" using go ok by (auto simp: r_def)
  have ret: "0 < unat ret" "unat ret \<le> length items" "unat h + unat ret \<le> unat (cons_tail r) + N"
    using ok k(1) by (simp_all add: r_def)
  have "unat (prod_head r) + unat ret < 2 ^ 64" using bound by (simp add: r_def)
  then have ph: "unat (prod_head r') = unat (prod_head r) + unat ret" by (simp add: r'_def h unat_add64)
  have "ring_ok N r' (rs_log s @ take (unat ret) items) (rs_out s)"
  proof -
    have "unat (cons_tail r) \<le> length (rs_log s)" using k by (simp add: r_def)
    then show ?thesis
      unfolding ring_ok_def ph using k ret h by (simp add: r'_def r_def nth_append)
  qed
  moreover have "one_side r' ((rs_threads s)(t := EnqWrite items h ret 0))"
    using d(2) t by (intro one_side_upd [of r]) (simp_all add: r'_def r_def)
  moreover have "in_order (\<lambda>u. reservation_p (((rs_threads s)(t := EnqWrite items h ret 0)) u)) (unat (prod_tail r')) (unat (prod_head r'))"
  proof -
    have "in_order ((\<lambda>u. reservation_p (rs_threads s u))(t := Some (unat (prod_head r), unat ret))) (unat (prod_tail r)) (unat (prod_head r) + unat ret)"
      using d(3) t ret(1) by (intro in_order_reserve) (simp_all add: r_def)
    from in_order_same [OF this, of "\<lambda>u. reservation_p (((rs_threads s)(t := EnqWrite items h ret 0)) u)"]
    show ?thesis by (simp add: ph h) (simp add: r'_def)
  qed
  moreover have "in_order (\<lambda>u. reservation_c (((rs_threads s)(t := EnqWrite items h ret 0)) u)) (unat (cons_tail r')) (unat (cons_head r'))"
    by (rule in_order_same [of "\<lambda>u. reservation_c (rs_threads s u)"]) (use d(4) t in \<open>simp_all add: r'_def r_def\<close>)
  moreover have "thread_ok r' (rs_log s @ take (unat ret) items) (rs_threads s u)" if "u \<noteq> t" for u
  proof (rule others_ok [OF inv that])
    show "unat (prod_head (rs_ring s)) \<le> unat (prod_head r')" using ph by (simp add: r_def)
  qed (simp_all add: r'_def r_def t)
  moreover have "thread_ok r' (rs_log s @ take (unat ret) items) (EnqWrite items h ret 0)"
    using ok ret(2) h k(8) by (simp add: r_def)
  ultimately show ?thesis by (simp add: ring_inv_def Let_def r'_def r_def)
qed

lemma store_p:
  assumes inv: "ring_inv N s" and t: "rs_threads s t = EnqWrite items h ret i" and i: "i < unat ret"
    and bound: "unat (prod_head (rs_ring s)) + N < 2 ^ 64"
  shows "ring_inv N (s\<lparr>rs_ring := (rs_ring s)\<lparr>ringCache := (ringCache (rs_ring s))
      [unat ((h + of_nat (i + 1)) mod ring_size (rs_ring s)) := items ! i]\<rparr>,
    rs_threads := (rs_threads s)(t := EnqWrite items h ret (i + 1))\<rparr>)"
proof -
  note d = ring_invD [OF inv]
  note k = ring_okD [OF d(1)]
  define r where "r = rs_ring s"
  have b: "unat (prod_tail r) \<le> unat h" "unat h + unat ret \<le> unat (prod_head r)"
    using in_order_bounds [OF d(3), of t] t by (simp_all add: r_def)
  have "unat h + i + 1 < 2 ^ 64" using b(2) i bound by (simp add: r_def)
  then have ix: "unat ((h + of_nat (i + 1)) mod ring_size r) = slot N (unat h + i)"
    using k(1) by (intro slot_index) (simp_all add: r_def)
  define r' where "r' = r\<lparr>ringCache := (ringCache r)[slot N (unat h + i) := items ! i]\<rparr>"
  have ok: "thread_ok r (rs_log s) (EnqWrite items h ret i)" using d(5) [of t] t by (simp add: r_def)
  have item: "items ! i = rs_log s ! (unat h + i)"
  proof -
    have "items ! i = take (unat ret) items ! i" using i by simp
    also have "take (unat ret) items = take (unat ret) (drop (unat h) (rs_log s))" using ok by simp
    also have "\<dots> ! i = rs_log s ! (unat h + i)" using i b(2) k(8) by (simp add: r_def)
    finally show ?thesis .
  qed
  have same: "ringCache r' ! slot N j = ringCache r ! slot N j"
    if "j \<noteq> unat h + i" "unat (cons_tail r) \<le> j" "j < unat (prod_head r)" for j
  proof -
    have "slot N (unat h + i) \<noteq> slot N j"
      using that b i k(4-7) by (intro slot_distinct [of _ _ "unat (cons_tail r)"]) (simp_all add: r_def)
    then show ?thesis by (simp add: r'_def)
  qed
  have here: "ringCache r' ! slot N (unat h + i) = rs_log s ! (unat h + i)"
    using k(2,3) item by (simp add: r'_def r_def ring_slot_less)
  have "ring_ok N r' (rs_log s) (rs_out s)"
    unfolding ring_ok_def using k same b(1) by (simp add: r_def r'_def)
  moreover have "one_side r' ((rs_threads s)(t := EnqWrite items h ret (i + 1)))"
    using d(2) t by (intro one_side_upd [of r]) (simp_all add: r'_def r_def)
  moreover have "in_order (\<lambda>u. reservation_p (((rs_threads s)(t := EnqWrite items h ret (i + 1))) u)) (unat (prod_tail r')) (unat (prod_head r'))"
    by (rule in_order_same [of "\<lambda>u. reservation_p (rs_threads s u)"]) (use d(3) t in \<open>simp_all add: r'_def r_def\<close>)
  moreover have "in_order (\<lambda>u. reservation_c (((rs_threads s)(t := EnqWrite items h ret (i + 1))) u)) (unat (cons_tail r')) (unat (cons_head r'))"
    by (rule in_order_same [of "\<lambda>u. reservation_c (rs_threads s u)"]) (use d(4) t in \<open>simp_all add: r'_def r_def\<close>)
  moreover have "thread_ok r' (rs_log s @ []) (rs_threads s u)" if u: "u \<noteq> t" for u
  proof (rule others_ok [OF inv u])
    fix p n j assume p: "reservation_p (rs_threads s u) = Some (p, n)" and j: "j < n"
    have "p + n \<le> unat h \<or> unat h + unat ret \<le> p"
      using in_order_disjoint [OF d(3) p, of t "unat h" "unat ret"] t u by auto
    then have "p + j \<noteq> unat h + i" using i j by auto
    moreover have "unat (prod_tail r) \<le> p" "p + n \<le> unat (prod_head r)"
      using in_order_bounds [OF d(3) p] by (simp_all add: r_def)
    moreover have "unat (cons_tail r) \<le> unat (prod_tail r)" using k(4,5) by (simp add: r_def)
    ultimately show "ringCache r' ! slot N (p + j) = ringCache (rs_ring s) ! slot N (p + j)"
      using same [of "p + j"] i j by (simp add: r_def)
  qed (simp_all add: r'_def r_def)
  moreover have "thread_ok r' (rs_log s) (EnqWrite items h ret (i + 1))"
  proof -
    have "ringCache r' ! slot N (unat h + j) = rs_log s ! (unat h + j)" if "j < i + 1" for j
    proof (cases "j = i")
      case False
      then have "ringCache r' ! slot N (unat h + j) = ringCache r ! slot N (unat h + j)"
        using that b i k(4,5) by (intro same) (simp_all add: r_def)
      then show ?thesis using ok that False k(1) by (simp add: r_def)
    qed (use here in simp)
    then show ?thesis using ok i k(1) by (simp add: r'_def r_def)
  qed
  ultimately show ?thesis
    unfolding r_def [symmetric] ix by (simp add: ring_inv_def Let_def r'_def r_def)
qed

lemma publish_p:
  assumes inv: "ring_inv N s" and t: "rs_threads s t = EnqWait items h ret" and go: "prod_tail (rs_ring s) = h"
    and bound: "unat (prod_head (rs_ring s)) + N < 2 ^ 64"
  shows "ring_inv N (s\<lparr>rs_ring := (rs_ring s)\<lparr>prod_tail := h + ret\<rparr>, rs_threads := (rs_threads s)(t := Idle)\<rparr>)"
proof -
  note d = ring_invD [OF inv]
  note k = ring_okD [OF d(1)]
  define r where "r = rs_ring s"
  define r' where "r' = r\<lparr>prod_tail := h + ret\<rparr>"
  have ok: "thread_ok r (rs_log s) (EnqWait items h ret)" using d(5) [of t] t by (simp add: r_def)
  have b: "unat h + unat ret \<le> unat (prod_head r)" using in_order_bounds [OF d(3), of t] t by (simp_all add: r_def)
  then have pt: "unat (prod_tail r') = unat (prod_tail r) + unat ret"
    using bound go by (simp add: r'_def r_def unat_add64)
  have "ring_ok N r' (rs_log s) (rs_out s)"
  proof -
    have "ringCache r ! slot N j = rs_log s ! j" if "unat (cons_tail r) \<le> j" "j < unat (prod_tail r) + unat ret" for j
    proof (cases "j < unat (prod_tail r)")
      case True
      then show ?thesis using k(10) that by (simp add: r_def)
    next
      case False
      then have j: "j - unat h < unat ret" "unat h + (j - unat h) = j" using that(2) go by (auto simp: r_def)
      have "\<forall>k < unat ret. ringCache r ! slot N (unat h + k) = rs_log s ! (unat h + k)" using ok k(1) by (simp add: r_def)
      then show ?thesis using j by metis
    qed
    then show ?thesis unfolding ring_ok_def pt using k b go by (simp add: r'_def r_def)
  qed
  moreover have "one_side r' ((rs_threads s)(t := Idle))"
    using d(2) by (intro one_side_upd [of r]) (simp_all add: r'_def r_def)
  moreover have "in_order (\<lambda>u. reservation_p (((rs_threads s)(t := Idle)) u)) (unat (prod_tail r')) (unat (prod_head r'))"
  proof -
    have "in_order ((\<lambda>u. reservation_p (rs_threads s u))(t := None)) (unat (prod_tail r) + unat ret) (unat (prod_head r))"
      using d(3) t go by (intro in_order_publish) (simp_all add: r_def)
    from in_order_same [OF this, of "\<lambda>u. reservation_p (((rs_threads s)(t := Idle)) u)"]
    show ?thesis by (simp add: pt) (simp add: r'_def)
  qed
  moreover have "in_order (\<lambda>u. reservation_c (((rs_threads s)(t := Idle)) u)) (unat (cons_tail r')) (unat (cons_head r'))"
    by (rule in_order_same [of "\<lambda>u. reservation_c (rs_threads s u)"]) (use d(4) t in \<open>simp_all add: r'_def r_def\<close>)
  moreover have "thread_ok r' (rs_log s @ []) (rs_threads s u)" if "u \<noteq> t" for u
  proof (rule others_ok [OF inv that])
    show "unat (prod_tail (rs_ring s)) \<le> unat (prod_tail r')" using pt by (simp add: r_def)
  qed (simp_all add: r'_def r_def)
  ultimately show ?thesis by (simp add: ring_inv_def Let_def r'_def r_def)
qed

lemma reserve_c:
  assumes inv: "ring_inv N s" and t: "rs_threads s t = DeqCas count h ret" and go: "\<not> consSafe (rs_ring s) \<or> cons_head (rs_ring s) = h"
    and bound: "unat (prod_head (rs_ring s)) + N < 2 ^ 64"
  shows "ring_inv N (s\<lparr>rs_ring := (rs_ring s)\<lparr>cons_head := h + ret\<rparr>, rs_threads := (rs_threads s)(t := DeqCopy h ret [])\<rparr>)"
proof -
  note d = ring_invD [OF inv]
  note k = ring_okD [OF d(1)]
  define r where "r = rs_ring s"
  define r' where "r' = r\<lparr>cons_head := h + ret\<rparr>"
  have ok: "thread_ok r (rs_log s) (DeqCas count h ret)" using d(5) [of t] t by (simp add: r_def)
  have h: "h = cons_head r" using go ok by (auto simp: r_def)
  have ret: "0 < unat ret" "unat h + unat ret \<le> unat (prod_tail r)" using ok by simp_all
  then have ch: "unat (cons_head r') = unat (cons_head r) + unat ret"
    using bound k(6) by (simp add: r'_def r_def h unat_add64)
  have "ring_ok N r' (rs_log s) (rs_out s)"
    unfolding ring_ok_def ch using k ret h by (simp add: r'_def r_def)
  moreover have "one_side r' ((rs_threads s)(t := DeqCopy h ret []))"
    using d(2) t by (intro one_side_upd [of r]) (simp_all add: r'_def r_def)
  moreover have "in_order (\<lambda>u. reservation_c (((rs_threads s)(t := DeqCopy h ret [])) u)) (unat (cons_tail r')) (unat (cons_head r'))"
  proof -
    have "in_order ((\<lambda>u. reservation_c (rs_threads s u))(t := Some (unat (cons_head r), unat ret))) (unat (cons_tail r)) (unat (cons_head r) + unat ret)"
      using d(4) t ret(1) by (intro in_order_reserve) (simp_all add: r_def)
    from in_order_same [OF this, of "\<lambda>u. reservation_c (((rs_threads s)(t := DeqCopy h ret [])) u)"]
    show ?thesis by (simp add: ch h) (simp add: r'_def)
  qed
  moreover have "in_order (\<lambda>u. reservation_p (((rs_threads s)(t := DeqCopy h ret [])) u)) (unat (prod_tail r')) (unat (prod_head r'))"
    by (rule in_order_same [of "\<lambda>u. reservation_p (rs_threads s u)"]) (use d(3) t in \<open>simp_all add: r'_def r_def\<close>)
  moreover have "thread_ok r' (rs_log s @ []) (rs_threads s u)" if "u \<noteq> t" for u
  proof (rule others_ok [OF inv that])
    show "unat (cons_head (rs_ring s)) \<le> unat (cons_head r')" using ch by (simp add: r_def)
  qed (simp_all add: r'_def r_def t)
  ultimately show ?thesis by (simp add: ring_inv_def Let_def r'_def r_def)
qed

lemma publish_c:
  assumes inv: "ring_inv N s" and t: "rs_threads s t = DeqWait h ret tab" and go: "cons_tail (rs_ring s) = h"
    and bound: "unat (prod_head (rs_ring s)) + N < 2 ^ 64"
  shows "ring_inv N (s\<lparr>rs_ring := (rs_ring s)\<lparr>cons_tail := h + ret\<rparr>, rs_threads := (rs_threads s)(t := Idle), rs_out := rs_out s @ tab\<rparr>)"
proof -
  note d = ring_invD [OF inv]
  note k = ring_okD [OF d(1)]
  define r where "r = rs_ring s"
  define r' where "r' = r\<lparr>cons_tail := h + ret\<rparr>"
  have ok: "thread_ok r (rs_log s) (DeqWait h ret tab)" using d(5) [of t] t unfolding r_def by metis
  have b: "unat h + unat ret \<le> unat (cons_head r)" using in_order_bounds [OF d(4), of t] t by (simp_all add: r_def)
  then have ct: "unat (cons_tail r') = unat (cons_tail r) + unat ret"
    using bound go k(5,6) by (simp add: r'_def r_def unat_add64)
  have "ring_ok N r' (rs_log s) (rs_out s @ tab)"
  proof -
    have "rs_out s @ tab = take (unat (cons_tail r) + unat ret) (rs_log s)"
      using k(9) ok go by (simp add: take_add r_def)
    then show ?thesis unfolding ring_ok_def ct using k b go by (simp add: r'_def r_def)
  qed
  moreover have "one_side r' ((rs_threads s)(t := Idle))"
    using d(2) by (intro one_side_upd [of r]) (simp_all add: r'_def r_def)
  moreover have "in_order (\<lambda>u. reservation_c (((rs_threads s)(t := Idle)) u)) (unat (cons_tail r')) (unat (cons_head r'))"
  proof -
    have "in_order ((\<lambda>u. reservation_c (rs_threads s u))(t := None)) (unat (cons_tail r) + unat ret) (unat (cons_head r))"
      using d(4) t go by (intro in_order_publish) (simp_all add: r_def)
    from in_order_same [OF this, of "\<lambda>u. reservation_c (((rs_threads s)(t := Idle)) u)"]
    show ?thesis by (simp add: ct) (simp add: r'_def)
  qed
  moreover have "in_order (\<lambda>u. reservation_p (((rs_threads s)(t := Idle)) u)) (unat (prod_tail r')) (unat (prod_head r'))"
    by (rule in_order_same [of "\<lambda>u. reservation_p (rs_threads s u)"]) (use d(3) t in \<open>simp_all add: r'_def r_def\<close>)
  moreover have "thread_ok r' (rs_log s @ []) (rs_threads s u)" if "u \<noteq> t" for u
  proof (rule others_ok [OF inv that])
    show "unat (cons_tail (rs_ring s)) \<le> unat (cons_tail r')" using ct by (simp add: r_def)
  qed (simp_all add: r'_def r_def)
  ultimately show ?thesis by (simp add: ring_inv_def Let_def r'_def r_def)
qed

text \<open>The step of a thread, with its events recorded.\<close>

definition advance_thread :: "nat \<Rightarrow> 'a ring_state \<Rightarrow> 'a ring_state" where
  "advance_thread t s =
     (case thread_step (rs_ring s) (rs_threads s t) of
        (r', l', ev) \<Rightarrow> record_event ev (s\<lparr>rs_ring := r', rs_threads := (rs_threads s)(t := l')\<rparr>))"

lemma ring_inv_producer:
  assumes "ring_inv N s" and "is_producer (rs_threads s t)" and "length (rs_log (advance_thread t s)) + N < 2 ^ 64"
    and "unat (prod_head (rs_ring s)) + N < 2 ^ 64"
  shows "ring_inv N (advance_thread t s)"
proof -
  note d = ring_invD [OF assms(1)]
  note local = ring_inv_local [OF assms(1)]
  have pl: "thread_ok (rs_ring s) (rs_log s) (rs_threads s t)" by (rule d(5))
  show ?thesis
  proof (cases "rs_threads s t")
    case (EnqHead items)
    then show ?thesis
      using local [OF EnqHead, of "EnqTail items (prod_head (rs_ring s))"] pl by (simp add: advance_thread_def thread_step_def)
  next
    case (EnqTail items h)
    obtain r' l' ev where st: "MpEnqueue_step (rs_ring s) (EnqTail items h) = (r', l', ev)" using prod_cases3 by blast
    from EnqTail_ok [OF d(1) assms(4) _ this] pl EnqTail
    have "r' = rs_ring s" "ev = Silent" "thread_ok (rs_ring s) (rs_log s) l'" "l' = Idle \<or> (\<exists>ret. l' = EnqCas items h ret)"
      by simp_all
    then show ?thesis
      using local [OF EnqTail, of l'] st EnqTail by (auto simp: advance_thread_def thread_step_def)
  next
    case (EnqCas items h ret)
    show ?thesis
    proof (cases "\<not> prodSafe (rs_ring s) \<or> prod_head (rs_ring s) = h")
      case True
      have "advance_thread t s = s\<lparr>rs_ring := (rs_ring s)\<lparr>prod_head := h + ret\<rparr>,
          rs_threads := (rs_threads s)(t := EnqWrite items h ret 0), rs_log := rs_log s @ take (unat ret) items\<rparr>"
        using True by (simp add: advance_thread_def thread_step_def EnqCas Let_def)
      moreover have "unat (prod_head (rs_ring s)) + unat ret + N < 2 ^ 64"
        using assms(3) ring_okD(8) [OF d(1)] pl calculation by (simp add: EnqCas)
      ultimately show ?thesis using reserve_p [OF assms(1) EnqCas True] by simp
    next
      case False
      then show ?thesis
        using local [OF EnqCas, of "EnqHead items"] pl EnqCas by (simp add: advance_thread_def thread_step_def Let_def)
    qed
  next
    case (EnqWrite items h ret i)
    have w: "unat (ucast ret :: u32) = unat ret" using pl EnqWrite by (intro low_word) simp
    show ?thesis
    proof (cases "i < unat ret")
      case True
      then show ?thesis
        using w store_p [OF assms(1) EnqWrite True assms(4)] by (simp add: advance_thread_def thread_step_def EnqWrite)
    next
      case False
      then show ?thesis
        using w local [OF EnqWrite, of "EnqWait items h ret"] pl EnqWrite by (auto simp: advance_thread_def thread_step_def)
    qed
  next
    case (EnqWait items h ret)
    show ?thesis
    proof (cases "prod_tail (rs_ring s) = h")
      case True
      then show ?thesis
        using publish_p [OF assms(1) EnqWait True assms(4)] by (simp add: advance_thread_def thread_step_def EnqWait)
    next
      case False
      then show ?thesis
        using local [OF EnqWait, of "EnqWait items h ret"] pl EnqWait by (simp add: advance_thread_def thread_step_def)
    qed
  qed (use assms(2) in simp_all)
qed

lemma copy_next:
  assumes "ring_inv N s" and "rs_threads s t = DeqCopy h ret tab" and "length tab < unat ret"
    and "unat (prod_head (rs_ring s)) + N < 2 ^ 64"
  shows "thread_ok (rs_ring s) (rs_log s)
    (DeqCopy h ret (tab @ [ringCache (rs_ring s) ! unat ((h + of_nat (length tab + 1)) mod ring_size (rs_ring s))]))"
proof -
  note d = ring_invD [OF assms(1)]
  note k = ring_okD [OF d(1)]
  define r where "r = rs_ring s"
  have b: "unat (cons_tail r) \<le> unat h" "unat h + unat ret \<le> unat (cons_head r)"
    using in_order_bounds [OF d(4), of t] assms(2) by (simp_all add: r_def)
  have ok: "tab = take (length tab) (drop (unat h) (rs_log s))" using d(5) [of t] unfolding assms(2) thread_ok.simps by blast
  have "unat h + length tab + 1 < 2 ^ 64" using b(2) assms(3,4) k(5,6) by (simp add: r_def)
  then have "unat ((h + of_nat (length tab + 1)) mod ring_size r) = slot N (unat h + length tab)"
    using k(1) by (intro slot_index) (simp_all add: r_def)
  then have "ringCache r ! unat ((h + of_nat (length tab + 1)) mod ring_size r) = rs_log s ! (unat h + length tab)"
    using k(5,10) b assms(3) by (simp add: r_def)
  moreover have in_log: "unat h + length tab < length (rs_log s)" using b(2) assms(3) k(5,6,8) by (simp add: r_def)
  moreover have "take (Suc (length tab)) (drop (unat h) (rs_log s)) = tab @ [rs_log s ! (unat h + length tab)]"
  proof -
    have "length tab < length (drop (unat h) (rs_log s))" using in_log by simp
    from take_Suc_conv_app_nth [OF this] have "take (Suc (length tab)) (drop (unat h) (rs_log s)) =
        tab @ [drop (unat h) (rs_log s) ! length tab]" using ok by simp
    moreover have "unat h \<le> length (rs_log s)" using in_log by simp
    ultimately show ?thesis by simp
  qed
  ultimately show ?thesis using assms(3) unfolding r_def [symmetric] by simp
qed

lemma ring_inv_consumer:
  assumes "ring_inv N s" and "is_consumer (rs_threads s t)" and "unat (prod_head (rs_ring s)) + N < 2 ^ 64"
  shows "ring_inv N (advance_thread t s)"
proof -
  note d = ring_invD [OF assms(1)]
  note local = ring_inv_local [OF assms(1)]
  have pl: "thread_ok (rs_ring s) (rs_log s) (rs_threads s t)" by (rule d(5))
  show ?thesis
  proof (cases "rs_threads s t")
    case (DeqHead count)
    then show ?thesis
      using local [OF DeqHead, of "DeqTail count (cons_head (rs_ring s))"] pl by (simp add: advance_thread_def thread_step_def)
  next
    case (DeqTail count h)
    obtain r' l' ev where st: "McDequeue_step (rs_ring s) (DeqTail count h) = (r', l', ev)" using prod_cases3 by blast
    from DeqTail_ok [OF d(1) _ this] pl DeqTail
    have "r' = rs_ring s" "ev = Silent" "thread_ok (rs_ring s) (rs_log s) l'" "l' = Idle \<or> (\<exists>ret. l' = DeqCas count h ret)"
      by simp_all
    then show ?thesis
      using local [OF DeqTail, of l'] st DeqTail by (auto simp: advance_thread_def thread_step_def)
  next
    case (DeqCas count h ret)
    show ?thesis
    proof (cases "\<not> consSafe (rs_ring s) \<or> cons_head (rs_ring s) = h")
      case True
      then show ?thesis
        using reserve_c [OF assms(1) DeqCas True assms(3)] by (simp add: advance_thread_def thread_step_def DeqCas Let_def)
    next
      case False
      then show ?thesis
        using local [OF DeqCas, of "DeqHead count"] pl DeqCas by (simp add: advance_thread_def thread_step_def Let_def)
    qed
  next
    case (DeqCopy h ret tab)
    show ?thesis
    proof (cases "length tab < unat ret")
      case True
      from local [OF DeqCopy copy_next [OF assms(1) DeqCopy True assms(3)]] show ?thesis
        using True by (simp add: advance_thread_def thread_step_def DeqCopy Let_def)
    next
      case False
      have "thread_ok (rs_ring s) (rs_log s) (DeqWait h ret tab)" using pl False unfolding DeqCopy by simp metis
      from local [OF DeqCopy this] show ?thesis
        using False by (simp add: advance_thread_def thread_step_def DeqCopy Let_def)
    qed
  next
    case (DeqWait h ret tab)
    show ?thesis
    proof (cases "cons_tail (rs_ring s) = h")
      case True
      then show ?thesis
        using publish_c [OF assms(1) DeqWait True assms(3)] by (simp add: advance_thread_def thread_step_def DeqWait)
    next
      case False
      have "thread_ok (rs_ring s) (rs_log s) (DeqWait h ret tab)" using pl unfolding DeqWait .
      from local [OF DeqWait this] show ?thesis
        using False by (simp add: advance_thread_def thread_step_def DeqWait)
    qed
  qed (use assms(2) in simp_all)
qed

section \<open>Runs\<close>

lemma thread_step_busy:
  assumes "l \<noteq> Idle"
  shows "is_producer l \<or> is_consumer l"
  using assms by (cases l) simp_all

lemma record_event_log: "\<exists>vs. rs_log (record_event ev s) = rs_log s @ vs"
  by (cases ev) simp_all

lemma ring_step_log: "ring_step s s' \<Longrightarrow> \<exists>vs. rs_log s' = rs_log s @ vs"
proof (induction rule: ring_step.induct)
  case (advance s t l r' l' ev)
  from record_event_log [of ev "s\<lparr>rs_ring := r', rs_threads := (rs_threads s)(t := l')\<rparr>"] show ?case by simp
qed simp_all

lemma ring_steps_log: "ring_step\<^sup>*\<^sup>* s s' \<Longrightarrow> \<exists>vs. rs_log s' = rs_log s @ vs"
proof (induction rule: rtranclp_induct)
  case (step s1 s2)
  from step.IH obtain vs where "rs_log s1 = rs_log s @ vs" ..
  moreover from ring_step_log [OF step.hyps(2)] obtain ws where "rs_log s2 = rs_log s1 @ ws" ..
  ultimately show ?case by simp
qed simp

lemma ring_inv_start:
  assumes "ring_inv N s" and "rs_threads s t = Idle" and "thread_ok (rs_ring s) (rs_log s) l"
    and "reservation_p l = None" and "reservation_c l = None"
    and "is_producer l \<Longrightarrow> prodSafe (rs_ring s) \<or> (\<forall>u. \<not> is_producer (rs_threads s u))"
    and "is_consumer l \<Longrightarrow> consSafe (rs_ring s) \<or> (\<forall>u. \<not> is_consumer (rs_threads s u))"
  shows "ring_inv N (s\<lparr>rs_threads := (rs_threads s)(t := l)\<rparr>)"
proof -
  note d = ring_invD [OF assms(1)]
  have "one_side (rs_ring s) ((rs_threads s)(t := l))"
    using d(2) assms(6,7) unfolding one_side_def by (metis fun_upd_apply)
  moreover have "in_order (\<lambda>u. reservation_p (((rs_threads s)(t := l)) u)) (unat (prod_tail (rs_ring s))) (unat (prod_head (rs_ring s)))"
    by (rule in_order_same [OF d(3)]) (simp add: assms(2,4))
  moreover have "in_order (\<lambda>u. reservation_c (((rs_threads s)(t := l)) u)) (unat (cons_tail (rs_ring s))) (unat (cons_head (rs_ring s)))"
    by (rule in_order_same [OF d(4)]) (simp add: assms(2,5))
  ultimately show ?thesis using d(1,5) assms(3) by (simp add: ring_inv_def Let_def)
qed

lemma ring_inv_step:
  assumes "ring_step s s'" and "ring_inv N s" and "length (rs_log s') + N < 2 ^ 64"
  shows "ring_inv N s'"
proof -
  have b: "unat (prod_head (rs_ring s)) + N < 2 ^ 64"
    using ring_step_log [OF assms(1)] assms(3) ring_okD(8) [OF ring_invD(1) [OF assms(2)]] by auto
  from assms(1) show ?thesis
  proof (cases rule: ring_step.cases)
    case (enqueue t dataTable count l)
    then have l: "l = EnqHead (take (unat count) dataTable)" and "count \<noteq> 0"
      by (auto simp: FillpLfRingMpEnqueue_start_def split: if_splits)
    then have "dataTable \<noteq> []" "0 < length (take (unat count) dataTable)" "length (take (unat count) dataTable) < 2 ^ 32"
      using enqueue(4) unat_lt32 [of count] by (auto simp: unat_eq_0 unat_gt_0)
    then show ?thesis using l enqueue ring_inv_start [OF assms(2) enqueue(2), of l] by auto
  next
    case (dequeue t dataTable count l)
    then have "l = DeqHead count" "0 < count" by (auto simp: FillpLfRingMcDequeue_start_def word_neq_0_conv split: if_splits)
    then show ?thesis using dequeue ring_inv_start [OF assms(2) dequeue(2), of l] by simp
  next
    case (advance t l r' l' ev)
    then have s': "s' = advance_thread t s" by (simp add: advance_thread_def)
    have "is_producer (rs_threads s t) \<or> is_consumer (rs_threads s t)" using advance by (intro thread_step_busy) simp
    then show ?thesis
      using ring_inv_producer [OF assms(2)] ring_inv_consumer [OF assms(2)] assms(3) b by (auto simp: s')
  qed
qed

lemma ring_inv_steps:
  "ring_step\<^sup>*\<^sup>* s s' \<Longrightarrow> ring_inv N s \<Longrightarrow> length (rs_log s') + N < 2 ^ 64 \<Longrightarrow> ring_inv N s'"
proof (induction rule: rtranclp_induct)
  case (step s1 s2)
  from ring_step_log [OF step.hyps(2)] obtain vs where "rs_log s2 = rs_log s1 @ vs" ..
  then have "ring_inv N s1" using step by simp
  from ring_inv_step [OF step.hyps(2) this step.prems(2)] show ?case .
qed simp

text \<open>A ring that was just initialised, with its sides declared safe or not, and no operation in progress.\<close>

definition ring_start :: "'a FillpLfRing \<Rightarrow> u64 \<Rightarrow> bool \<Rightarrow> bool \<Rightarrow> 'a ring_state option" where
  "ring_start r sz psafe csafe =
     map_option (\<lambda>r. \<lparr>rs_ring = FillpLfRingSetConsSafe (FillpLfRingSetProdSafe r psafe) csafe, rs_threads = (\<lambda>_. Idle), rs_log = [], rs_out = []\<rparr>)
       (FillpLfRingInit (Some r) sz)"

lemma ring_start_inv:
  assumes "ring_start r sz psafe csafe = Some s" and "sz \<noteq> 0" and "length (ringCache r) = unat sz"
  shows "ring_inv (unat sz) s"
proof -
  have s: "s = \<lparr>rs_ring = r\<lparr>ring_size := sz, cons_head := 0, cons_tail := 0, prod_head := 0, prod_tail := 0,
      consSafe := csafe, prodSafe := psafe\<rparr>, rs_threads = (\<lambda>_. Idle), rs_log = [], rs_out = []\<rparr>"
    using assms(1,2) by (auto simp: ring_start_def FillpLfRingInit_def FillpLfRingSetConsSafe_def FillpLfRingSetProdSafe_def)
  have "0 < unat sz" using assms(2) by (simp add: unat_gt_0)
  then show ?thesis
    unfolding s ring_inv_def Let_def using assms(3)
    by (simp add: ring_ok_def one_side_def in_order_none)
qed

text \<open>
  In a state of the invariant the thread whose reservation comes first is never held up, so that not all
  threads that are in an operation can be waiting.
\<close>

definition can_move :: "'a ring_state \<Rightarrow> nat \<Rightarrow> bool" where
  "can_move s t \<longleftrightarrow> rs_threads s t \<noteq> Idle \<and>
     (case thread_step (rs_ring s) (rs_threads s t) of (r', l', ev) \<Rightarrow> l' \<noteq> rs_threads s t)"

lemma waiting_producer:
  assumes "ring_inv N s" and "rs_threads s t = EnqWait items h ret"
  shows "\<exists>u. can_move s u"
proof -
  note d = ring_invD [OF assms(1)]
  have "unat (prod_tail (rs_ring s)) < unat (prod_head (rs_ring s))"
    using in_order_bounds [OF d(3), of t] assms(2) by fastforce
  from in_order_head [OF d(3) this] obtain u n where u: "reservation_p (rs_threads s u) = Some (unat (prod_tail (rs_ring s)), n)" .
  show ?thesis
  proof (cases "rs_threads s u")
    case (EnqWrite items' h' ret' i)
    then have "can_move s u" by (simp add: can_move_def thread_step_def)
    then show ?thesis ..
  next
    case (EnqWait items' h' ret')
    then have "h' = prod_tail (rs_ring s)" using u by (simp add: word_unat_eq_iff)
    then have "can_move s u" using EnqWait by (simp add: can_move_def thread_step_def)
    then show ?thesis ..
  qed (use u in simp_all)
qed

lemma waiting_consumer:
  assumes "ring_inv N s" and "rs_threads s t = DeqWait h ret tab"
  shows "\<exists>u. can_move s u"
proof -
  note d = ring_invD [OF assms(1)]
  have "unat (cons_tail (rs_ring s)) < unat (cons_head (rs_ring s))"
    using in_order_bounds [OF d(4), of t] assms(2) by fastforce
  from in_order_head [OF d(4) this] obtain u n where u: "reservation_c (rs_threads s u) = Some (unat (cons_tail (rs_ring s)), n)" .
  show ?thesis
  proof (cases "rs_threads s u")
    case (DeqCopy h' ret' tab')
    then have "can_move s u" by (simp add: can_move_def thread_step_def Let_def)
    then show ?thesis ..
  next
    case (DeqWait h' ret' tab')
    then have "h' = cons_tail (rs_ring s)" using u by (simp add: word_unat_eq_iff)
    then have "can_move s u" using DeqWait by (simp add: can_move_def thread_step_def)
    then show ?thesis ..
  qed (use u in simp_all)
qed

lemma some_thread_moves:
  assumes "ring_inv N s" and "rs_threads s t \<noteq> Idle"
  shows "\<exists>u. can_move s u"
proof (cases "rs_threads s t")
  case (EnqWait items h ret)
  then show ?thesis by (rule waiting_producer [OF assms(1)])
next
  case (DeqWait h ret tab)
  then show ?thesis by (rule waiting_consumer [OF assms(1)])
qed (use assms(2) in \<open>auto simp: can_move_def thread_step_def Let_def split: if_splits intro!: exI [of _ t]\<close>)

text \<open>A schedule that can be evaluated: which thread begins what, and which thread takes the next step.\<close>

datatype 'a move = BeginEnq nat "'a list" | BeginDeq nat u32 | Move nat

fun do_move :: "'a ring_state \<Rightarrow> 'a move \<Rightarrow> 'a ring_state" where
  "do_move s (BeginEnq t items) =
     (if rs_threads s t = Idle \<and> items \<noteq> [] \<and> length items < 2 ^ 32 \<and> prodSafe (rs_ring s)
      then s\<lparr>rs_threads := (rs_threads s)(t := EnqHead items)\<rparr> else s)"
| "do_move s (BeginDeq t count) =
     (if rs_threads s t = Idle \<and> count \<noteq> 0 \<and> consSafe (rs_ring s)
      then s\<lparr>rs_threads := (rs_threads s)(t := DeqHead count)\<rparr> else s)"
| "do_move s (Move t) = (if rs_threads s t \<noteq> Idle then advance_thread t s else s)"

lemma do_move_steps: "ring_step\<^sup>*\<^sup>* s (do_move s m)"
proof (cases m)
  case (BeginEnq t items)
  have "FillpLfRingMpEnqueue_start (Some (rs_ring s)) (Some items) (of_nat (length items)) = Inr (EnqHead items)"
    if "items \<noteq> []" "length items < 2 ^ 32"
  proof -
    have u: "unat (of_nat (length items) :: u32) = length items" using that(2) by (rule unat_of_nat_word32)
    then have "(of_nat (length items) :: u32) \<noteq> 0" using that(1) by (metis length_0_conv unat_0)
    then show ?thesis using u by (simp add: FillpLfRingMpEnqueue_start_def)
  qed
  then show ?thesis
    using BeginEnq ring_step.enqueue [of s t items "of_nat (length items)" "EnqHead items"] by auto
next
  case (BeginDeq t count)
  then show ?thesis
    using ring_step.dequeue [of s t "replicate (unat count) undefined" count "DeqHead count"]
    by (auto simp: FillpLfRingMcDequeue_start_def)
next
  case (Move t)
  show ?thesis
  proof (cases "rs_threads s t = Idle")
    case False
    obtain r' l' ev where st: "thread_step (rs_ring s) (rs_threads s t) = (r', l', ev)" using prod_cases3 by blast
    from ring_step.advance [OF refl False st] have "ring_step s (advance_thread t s)"
      by (simp add: advance_thread_def st)
    then show ?thesis using Move False by auto
  qed (use Move in simp)
qed

lemma do_moves_steps: "ring_step\<^sup>*\<^sup>* s (foldl do_move s ms)"
proof (induction ms arbitrary: s)
  case (Cons m ms)
  from do_move_steps [of s m] Cons [of "do_move s m"] show ?case by simp
qed simp

text \<open>
  An enqueue that is not disturbed: the same thread takes all steps. \<open>solo\<close> says how far it is, when it began in the
  state \<open>s0\<close> with room for \<open>f\<close> entries.
\<close>

fun solo_at :: "'a ring_state \<Rightarrow> 'a list \<Rightarrow> nat \<Rightarrow> 'a ring_state \<Rightarrow> 'a thread \<Rightarrow> bool" where
  "solo_at s0 items f s (EnqHead i) = (i = items \<and> rs_ring s = rs_ring s0 \<and> rs_log s = rs_log s0)"
| "solo_at s0 items f s (EnqTail i h) =
     (i = items \<and> h = prod_head (rs_ring s0) \<and> rs_ring s = rs_ring s0 \<and> rs_log s = rs_log s0)"
| "solo_at s0 items f s (EnqCas i h ret) =
     (i = items \<and> h = prod_head (rs_ring s0) \<and> rs_ring s = rs_ring s0 \<and> rs_log s = rs_log s0 \<and> unat ret = min (length items) f)"
| "solo_at s0 items f s (EnqWrite i h ret k) = (rs_log s = rs_log s0 @ take f items \<and> unat ret = min (length items) f)"
| "solo_at s0 items f s (EnqWait i h ret) = (rs_log s = rs_log s0 @ take f items \<and> unat ret = min (length items) f)"
| "solo_at s0 items f s Idle = (rs_log s = rs_log s0 @ take f items)"
| "solo_at s0 items f s _ = False"

definition solo :: "nat \<Rightarrow> 'a ring_state \<Rightarrow> 'a list \<Rightarrow> nat \<Rightarrow> 'a ring_state \<Rightarrow> bool" where
  "solo t s0 items f s \<longleftrightarrow> (\<forall>u. u \<noteq> t \<longrightarrow> rs_threads s u = Idle) \<and> rs_out s = rs_out s0 \<and> solo_at s0 items f s (rs_threads s t)"

fun steps_left :: "'a thread \<Rightarrow> nat" where
  "steps_left (EnqHead items) = length items + 5"
| "steps_left (EnqTail items h) = length items + 4"
| "steps_left (EnqCas items h ret) = length items + 3"
| "steps_left (EnqWrite items h ret i) = unat ret - i + 2"
| "steps_left (EnqWait items h ret) = 1"
| "steps_left _ = 0"

definition enqueue_result :: "'a list \<Rightarrow> nat \<Rightarrow> int" where
  "enqueue_result items f = (if f = 0 then ERR_NOBUFS else int (min (length items) f))"

lemma sint_low_word: "unat x < 2 ^ 31 \<Longrightarrow> sint (ucast (x :: u64) :: u32) = int (unat x)"
proof -
  assume a: "unat x < 2 ^ 31"
  then have "unat (ucast x :: u32) = unat x" by (intro low_word) simp
  then have "uint (ucast x :: u32) = int (unat x)" by (metis uint_nat)
  moreover have "sint (ucast x :: u32) = uint (ucast x :: u32)" if "uint (ucast x :: u32) < 2 ^ 31"
  proof -
    have "- (2 ^ 31) \<le> uint (ucast x :: u32)" by (rule order_trans [OF _ uint_ge_0]) simp
    from signed_take_bit_int_eq_self [OF this that] show ?thesis by (simp add: sint_uint)
  qed
  moreover have "int (unat x) < 2 ^ 31" by (rule iffD2 [OF of_nat_less_numeral_power_cancel_iff a])
  ultimately show ?thesis by metis
qed

lemma solo_step:
  assumes "ring_inv N s0" and "f = N + unat (cons_tail (rs_ring s0)) - unat (prod_head (rs_ring s0))"
    and "unat (prod_head (rs_ring s0)) + length items + N < 2 ^ 64" and "length items < 2 ^ 31" and "items \<noteq> []"
    and "ring_inv N s" and "solo t s0 items f s" and "rs_threads s t \<noteq> Idle"
  shows "solo t s0 items f (advance_thread t s)"
    and "steps_left (rs_threads (advance_thread t s) t) < steps_left (rs_threads s t)"
    and "rs_threads (advance_thread t s) t = Idle \<Longrightarrow> op_return (rs_ring s) (rs_threads s t) = Some (enqueue_result items f)"
proof -
  have b0: "unat (prod_head (rs_ring s0)) + N < 2 ^ 64" using assms(3) by simp
  have at: "solo_at s0 items f s (rs_threads s t)" and idle: "\<forall>u. u \<noteq> t \<longrightarrow> rs_threads s u = Idle"
    and out: "rs_out s = rs_out s0"
    using assms(7) by (simp_all add: solo_def)
  have "solo t s0 items f (advance_thread t s) \<and>
    steps_left (rs_threads (advance_thread t s) t) < steps_left (rs_threads s t) \<and>
    (rs_threads (advance_thread t s) t = Idle \<longrightarrow> op_return (rs_ring s) (rs_threads s t) = Some (enqueue_result items f))"
  proof (cases "rs_threads s t")
    case (EnqHead i)
    then show ?thesis using at idle out by (simp add: solo_def advance_thread_def thread_step_def)
  next
    case (EnqTail i h)
    note fr = free_entries [OF ring_invD(1) [OF assms(1)] b0 order_refl]
    have c: "unat (of_nat (length items) :: u64) = length items" using assms(4) by (simp add: unat_of_nat take_bit_nat_eq_self)
    have z: "ring_size (rs_ring s0) + cons_tail (rs_ring s0) - prod_head (rs_ring s0) = 0 \<longleftrightarrow> f = 0"
      using fr assms(2) by (metis unat_eq_zero)
    show ?thesis
    proof (cases "f = 0")
      case True
      then show ?thesis
        using at idle out EnqTail z by (simp add: solo_def advance_thread_def thread_step_def enqueue_result_def)
    next
      case False
      define ret where "ret = (if ring_size (rs_ring s0) + cons_tail (rs_ring s0) - prod_head (rs_ring s0) > of_nat (length items)
         then of_nat (length items) else ring_size (rs_ring s0) + cons_tail (rs_ring s0) - prod_head (rs_ring s0))"
      have "unat ret = min (length items) f"
        using fr c assms(2) by (auto simp: ret_def word_less_nat_alt min_def)
      moreover have "MpEnqueue_step (rs_ring s) (rs_threads s t) = (rs_ring s0, EnqCas items (prod_head (rs_ring s0)) ret, Silent)"
        using at EnqTail False z by (simp add: Let_def ret_def)
      then have "advance_thread t s = s\<lparr>rs_ring := rs_ring s0,
          rs_threads := (rs_threads s)(t := EnqCas items (prod_head (rs_ring s0)) ret)\<rparr>"
        by (simp add: advance_thread_def thread_step_def EnqTail del: MpEnqueue_step.simps)
      ultimately show ?thesis
        using at idle out EnqTail by (simp add: solo_def)
    qed
  next
    case (EnqCas i h ret)
    have "take (unat ret) items = take f items" using at EnqCas by (simp add: min_def)
    moreover have "unat ret < length items + 1" using at EnqCas by simp
    ultimately show ?thesis
      using at idle out EnqCas by (simp add: solo_def advance_thread_def thread_step_def Let_def)
  next
    case (EnqWrite i h ret j)
    have "unat (ucast ret :: u32) = unat ret" using at EnqWrite assms(4) by (intro low_word) simp
    then show ?thesis using at idle out EnqWrite by (auto simp: solo_def advance_thread_def thread_step_def)
  next
    case (EnqWait i h ret)
    note d = ring_invD [OF assms(6)]
    have n: "unat (prod_tail (rs_ring s)) < unat (prod_head (rs_ring s))" "0 < unat ret"
      using in_order_bounds [OF d(3), of t] EnqWait by fastforce+
    from in_order_head [OF d(3) n(1)] obtain u n where u: "reservation_p (rs_threads s u) = Some (unat (prod_tail (rs_ring s)), n)" .
    then have "u = t" using idle by (cases "u = t") auto
    then have "prod_tail (rs_ring s) = h" using u EnqWait by (simp add: word_unat_eq_iff)
    moreover have "sint (ucast ret :: u32) = enqueue_result items f"
      using at EnqWait n(2) assms(4) sint_low_word [of ret] by (simp add: enqueue_result_def)
    ultimately show ?thesis using at idle out EnqWait by (simp add: solo_def advance_thread_def thread_step_def)
  qed (use at assms(8) in simp_all)
  then show "solo t s0 items f (advance_thread t s)"
    and "steps_left (rs_threads (advance_thread t s) t) < steps_left (rs_threads s t)"
    and "rs_threads (advance_thread t s) t = Idle \<Longrightarrow> op_return (rs_ring s) (rs_threads s t) = Some (enqueue_result items f)"
    by blast+
qed

lemma solo_log_bound:
  assumes "ring_inv N s0" and "unat (prod_head (rs_ring s0)) + length items + N < 2 ^ 64" and "solo t s0 items f s"
  shows "length (rs_log s) + N < 2 ^ 64"
proof -
  have "length (rs_log s0) = unat (prod_head (rs_ring s0))" using ring_okD(8) [OF ring_invD(1) [OF assms(1)]] .
  moreover have "length (rs_log s) \<le> length (rs_log s0) + length items"
    using assms(3) by (cases "rs_threads s t") (auto simp: solo_def)
  ultimately show ?thesis using assms(2) by linarith
qed

lemma advance_is_step:
  assumes "rs_threads s t \<noteq> Idle"
  shows "ring_step s (advance_thread t s)"
proof -
  obtain r' l' ev where e: "thread_step (rs_ring s) (rs_threads s t) = (r', l', ev)" using prod_cases3 by blast
  from ring_step.advance [OF refl assms e] show ?thesis by (simp add: advance_thread_def e)
qed

lemma solo_completes:
  assumes "ring_inv N s0" and "f = N + unat (cons_tail (rs_ring s0)) - unat (prod_head (rs_ring s0))"
    and "unat (prod_head (rs_ring s0)) + length items + N < 2 ^ 64" and "length items < 2 ^ 31" and "items \<noteq> []"
  shows "ring_inv N s \<Longrightarrow> solo t s0 items f s \<Longrightarrow> rs_threads s t \<noteq> Idle \<Longrightarrow>
    \<exists>n < steps_left (rs_threads s t). let s1 = (advance_thread t ^^ n) s; s2 = advance_thread t s1
      in op_return (rs_ring s1) (rs_threads s1 t) = Some (enqueue_result items f) \<and>
         rs_threads s2 t = Idle \<and> solo t s0 items f s2 \<and> ring_inv N s2"
proof (induction "steps_left (rs_threads s t)" arbitrary: s rule: less_induct)
  case less
  define s1 where "s1 = advance_thread t s"
  note st = solo_step [OF assms less.prems, folded s1_def]
  have inv: "ring_inv N s1"
    using ring_inv_step [OF advance_is_step [OF less.prems(3)] less.prems(1)] solo_log_bound [OF assms(1,3) st(1)] by (simp add: s1_def)
  show ?case
  proof (cases "rs_threads s1 t = Idle")
    case True
    then show ?thesis using st inv by (intro exI [of _ 0]) (auto simp: Let_def s1_def)
  next
    case False
    from less.hyps [OF st(2) inv st(1) False] obtain n where n: "n < steps_left (rs_threads s1 t)"
      "let s1 = (advance_thread t ^^ n) s1; s2 = advance_thread t s1
       in op_return (rs_ring s1) (rs_threads s1 t) = Some (enqueue_result items f) \<and>
         rs_threads s2 t = Idle \<and> solo t s0 items f s2 \<and> ring_inv N s2" by blast
    have "(advance_thread t ^^ Suc n) s = (advance_thread t ^^ n) s1" by (simp add: s1_def funpow_swap1)
    then show ?thesis using n st(2) by (intro exI [of _ "Suc n"]) (simp del: funpow.simps)
  qed
qed

text \<open>Between two idle states of the invariant the log tells what the slots hold.\<close>

lemma idle_published:
  assumes "ring_inv N s" and "\<forall>t. rs_threads s t = Idle"
  shows "prod_tail (rs_ring s) = prod_head (rs_ring s)"
  using in_order_head [OF ring_invD(3) [OF assms(1)]] assms(2) ring_okD(6) [OF ring_invD(1) [OF assms(1)]]
  by (metis le_neq_implies_less option.distinct(1) reservation_p.simps(3) word_unat_eq_iff)

lemma idle_enqueue_stored:
  assumes "ring_inv N s" and "\<forall>t. rs_threads s t = Idle" and "ring_inv N s'" and "\<forall>t. rs_threads s' t = Idle"
    and "rs_log s' = rs_log s @ take f items" and "rs_out s' = rs_out s"
  shows "\<forall>i < min (length items) f. ringCache (rs_ring s') ! ((unat (prod_head (rs_ring s)) + i + 1) mod N) = items ! i"
    and "\<forall>k. unat (cons_tail (rs_ring s)) \<le> k \<and> k < unat (prod_head (rs_ring s)) \<longrightarrow>
      ringCache (rs_ring s') ! ((k + 1) mod N) = ringCache (rs_ring s) ! ((k + 1) mod N)"
    and "unat (prod_head (rs_ring s')) = unat (prod_head (rs_ring s)) + min (length items) f"
    and "prod_tail (rs_ring s') = prod_head (rs_ring s')" and "cons_tail (rs_ring s') = cons_tail (rs_ring s)"
proof -
  note k = ring_okD [OF ring_invD(1) [OF assms(1)]] and k' = ring_okD [OF ring_invD(1) [OF assms(3)]]
  note p = idle_published [OF assms(1,2)] and p' = idle_published [OF assms(3,4)]
  have "length (rs_out s) = unat (cons_tail (rs_ring s))" using k(4-9) by simp
  moreover have "length (rs_out s') = unat (cons_tail (rs_ring s'))" using k'(4-9) by simp
  ultimately show c: "cons_tail (rs_ring s') = cons_tail (rs_ring s)" using assms(6) by (simp add: word_unat_eq_iff)
  show "prod_tail (rs_ring s') = prod_head (rs_ring s')" by (rule p')
  show h: "unat (prod_head (rs_ring s')) = unat (prod_head (rs_ring s)) + min (length items) f"
    using k(8) k'(8) assms(5) by simp
  have slots: "ringCache (rs_ring s') ! slot N j = rs_log s' ! j"
    if "unat (cons_tail (rs_ring s)) \<le> j" "j < unat (prod_head (rs_ring s'))" for j
    using k'(10) [of j] that c p' by simp
  show "\<forall>i < min (length items) f. ringCache (rs_ring s') ! ((unat (prod_head (rs_ring s)) + i + 1) mod N) = items ! i"
    using slots h k(4-8) assms(5) by (auto simp: slot_def nth_append)
  show "\<forall>k. unat (cons_tail (rs_ring s)) \<le> k \<and> k < unat (prod_head (rs_ring s)) \<longrightarrow>
      ringCache (rs_ring s') ! ((k + 1) mod N) = ringCache (rs_ring s) ! ((k + 1) mod N)"
  proof (intro allI impI)
    fix j
    assume j: "unat (cons_tail (rs_ring s)) \<le> j \<and> j < unat (prod_head (rs_ring s))"
    then have "ringCache (rs_ring s') ! slot N j = rs_log s ! j" using slots [of j] h assms(5) k(8) by (simp add: nth_append)
    moreover have "ringCache (rs_ring s) ! slot N j = rs_log s ! j" using k(10) [of j] j p by simp
    ultimately show "ringCache (rs_ring s') ! ((j + 1) mod N) = ringCache (rs_ring s) ! ((j + 1) mod N)" by (simp add: slot_def)
  qed
qed

section \<open>Properties\<close>

text \<open>
  C1: Whatever the threads do and however their steps interleave, a ring that starts empty delivers what was put into it, in the
  order of the reservations: the values handed out by all dequeues together are a prefix of the values reserved by all
  enqueues together, nothing is lost, invented, repeated or swapped, and what is stored and not
  delivered yet never exceeds the capacity. The counters must not have wrapped around.
\<close>

theorem ring_delivers_in_order:
  assumes "ring_start r sz psafe csafe = Some s" and "sz \<noteq> 0" and "length (ringCache r) = unat sz"
    and "ring_step\<^sup>*\<^sup>* s s'" and "length (rs_log s') + unat sz < 2 ^ 64"
  shows "rs_out s' = take (length (rs_out s')) (rs_log s') \<and> length (rs_out s') \<le> length (rs_log s') \<and>
    length (rs_log s') \<le> length (rs_out s') + unat sz \<and>
    ((\<forall>t. rs_threads s' t = Idle) \<and> FillpRingEmpty (rs_ring s') \<longrightarrow> rs_out s' = rs_log s')"
proof -
  from ring_inv_steps [OF assms(4) ring_start_inv [OF assms(1-3)] assms(5)] have inv: "ring_inv (unat sz) s'" .
  note k = ring_okD [OF ring_invD(1) [OF inv]]
  have out: "length (rs_out s') = unat (cons_tail (rs_ring s'))" using k(4-9) by simp
  have "rs_out s' = rs_log s'" if i: "\<forall>t. rs_threads s' t = Idle" and e: "FillpRingEmpty (rs_ring s')"
  proof -
    have "unat (prod_tail (rs_ring s')) = unat (prod_head (rs_ring s'))"
      using in_order_head [OF ring_invD(3) [OF inv]] i k(6) by (metis le_neq_implies_less option.distinct(1) reservation_p.simps(3))
    then show ?thesis using k(8,9) e by (simp add: FillpRingEmpty_def)
  qed
  then show ?thesis using out k(4-9) by auto
qed

text \<open>A run that can be evaluated: of two producers the second stores first, and a consumer takes both values.\<close>

definition demo_ring :: "nat FillpLfRing" where
  "demo_ring = \<lparr>prod_head = 7, prod_tail = 7, cons_head = 7, cons_tail = 7, ring_size = 7, prodSafe = False, consSafe = False, ringCache = [0, 0]\<rparr>"

definition demo_start :: "nat ring_state" where
  "demo_start = \<lparr>rs_ring = demo_ring\<lparr>ring_size := 2, cons_head := 0, cons_tail := 0, prod_head := 0, prod_tail := 0,
      consSafe := True, prodSafe := True\<rparr>, rs_threads = (\<lambda>_. Idle), rs_log = [], rs_out = []\<rparr>"

definition demo_schedule :: "nat move list" where
  "demo_schedule = [BeginEnq 0 [11], BeginEnq 1 [22, 33], Move 0, Move 1, Move 0, Move 1, Move 0, Move 1,
     Move 1, Move 1, Move 1, Move 1, Move 1, Move 1, Move 0, Move 0, Move 0, Move 1, BeginDeq 2 9, Move 2, Move 2, Move 2,
     Move 2, Move 2, Move 2, Move 2]"

lemma demo_start: "ring_start demo_ring 2 True True = Some demo_start"
  by (simp add: ring_start_def demo_start_def FillpLfRingInit_def FillpLfRingSetConsSafe_def FillpLfRingSetProdSafe_def)

lemma demo_inv: "ring_inv 2 demo_start"
  using ring_start_inv [OF demo_start] by (simp add: demo_ring_def)

lemma demo_log:
  "rs_log (foldl do_move demo_start demo_schedule) = [11, 22]" "rs_out (foldl do_move demo_start demo_schedule) = [11, 22]"
  by (simp_all add: demo_schedule_def demo_start_def demo_ring_def advance_thread_def thread_step_def Let_def)

theorem ring_delivers_in_order_witness:
  "\<exists>s'. ring_step\<^sup>*\<^sup>* demo_start s' \<and> rs_out s' = [11, 22] \<and> rs_out s' = take (length (rs_out s')) (rs_log s')"
  using ring_delivers_in_order [OF demo_start _ _ do_moves_steps [of _ demo_schedule]] do_moves_steps [of demo_start demo_schedule] demo_log
  by (intro exI [of _ "foldl do_move demo_start demo_schedule"]) (simp add: demo_ring_def)

text \<open>
  C10: The ring is type safe as a concurrent object. Every step of every thread keeps the invariant (sizes, order of the four counters, the
  positions that each thread holds and the contents of the published ones), as long as the counters have not wrapped around;
  and no state of the invariant is stuck: when a thread is inside an operation, some thread can change its state with its next step,
  so the loops in which a thread waits for the earlier ones never wait for each other.
\<close>

theorem ring_well_typed:
  assumes "ring_inv N s" and "ring_step s s'" and "length (rs_log s') + N < 2 ^ 64"
  shows "ring_inv N s' \<and> ((\<exists>t. rs_threads s' t \<noteq> Idle) \<longrightarrow> (\<exists>u. can_move s' u))"
  using ring_inv_step [OF assms(2,1,3)] some_thread_moves by blast

theorem ring_well_typed_witness:
  "\<exists>s'. ring_step demo_start s' \<and> rs_threads s' 4 = EnqHead [5] \<and> ring_inv 2 s' \<and> (\<exists>u. can_move s' u)"
proof -
  let ?s = "demo_start\<lparr>rs_threads := (rs_threads demo_start)(4 := EnqHead [5])\<rparr>"
  have "ring_step demo_start ?s"
    by (rule ring_step.enqueue [where dataTable = "[5]" and count = 1]) (simp_all add: demo_start_def FillpLfRingMpEnqueue_start_def)
  moreover have "ring_inv 2 ?s \<and> ((\<exists>t. rs_threads ?s t \<noteq> Idle) \<longrightarrow> (\<exists>u. can_move ?s u))"
    by (rule ring_well_typed [OF demo_inv calculation]) (simp add: demo_start_def)
  moreover have "rs_threads ?s 4 = EnqHead [5]" by simp
  ultimately show ?thesis by (metis thread.distinct(1))
qed

text \<open>
  C15: An enqueue of fewer than \<open>2 ^ 31\<close> entries that no other operation disturbs always ends: after at most \<open>length items + 5\<close>
  steps it has returned. With \<open>f\<close> free places it stores the first \<open>f\<close> entries (all of them if there is room), in order in the
  slots behind the head, leaves the slots of all entries that are not delivered yet as they were, moves head and tail behind
  the new entries and returns their number, or \<open>ERR_NOBUFS\<close> when the ring is full. The counters must not wrap around meanwhile.
\<close>

theorem enqueue_alone_returns:
  assumes "ring_inv N s" and "\<forall>t. rs_threads s t = Idle" and "items \<noteq> []" and "length items < 2 ^ 31"
    and "unat (prod_head (rs_ring s)) + length items + N < 2 ^ 64"
  defines "f \<equiv> N - (unat (prod_head (rs_ring s)) - unat (cons_tail (rs_ring s)))"
  shows "\<exists>n < length items + 5.
    let s1 = (advance_thread t ^^ n) (s\<lparr>rs_threads := (rs_threads s)(t := EnqHead items)\<rparr>); s2 = advance_thread t s1
    in op_return (rs_ring s1) (rs_threads s1 t) = Some (if f = 0 then ERR_NOBUFS else int (min (length items) f)) \<and>
       (\<forall>u. rs_threads s2 u = Idle) \<and> rs_log s2 = rs_log s @ take f items \<and> rs_out s2 = rs_out s \<and>
       (\<forall>i < min (length items) f. ringCache (rs_ring s2) ! ((unat (prod_head (rs_ring s)) + i + 1) mod N) = items ! i) \<and>
       (\<forall>k. unat (cons_tail (rs_ring s)) \<le> k \<and> k < unat (prod_head (rs_ring s)) \<longrightarrow>
          ringCache (rs_ring s2) ! ((k + 1) mod N) = ringCache (rs_ring s) ! ((k + 1) mod N)) \<and>
       unat (prod_head (rs_ring s2)) = unat (prod_head (rs_ring s)) + min (length items) f \<and>
       prod_tail (rs_ring s2) = prod_head (rs_ring s2) \<and> cons_tail (rs_ring s2) = cons_tail (rs_ring s)"
proof -
  let ?s = "s\<lparr>rs_threads := (rs_threads s)(t := EnqHead items)\<rparr>"
  note k = ring_okD [OF ring_invD(1) [OF assms(1)]]
  have f: "f = N + unat (cons_tail (rs_ring s)) - unat (prod_head (rs_ring s))" unfolding f_def using k(4-8) by simp
  have "ring_inv N ?s" by (rule ring_inv_start [OF assms(1)]) (use assms(2-4) in simp_all)
  moreover have "solo t s items f ?s" using assms(2) by (simp add: solo_def)
  ultimately obtain n where n: "n < length items + 5"
    "let s1 = (advance_thread t ^^ n) ?s; s2 = advance_thread t s1
     in op_return (rs_ring s1) (rs_threads s1 t) = Some (enqueue_result items f) \<and>
        rs_threads s2 t = Idle \<and> solo t s items f s2 \<and> ring_inv N s2"
    using solo_completes [OF assms(1) f assms(5,4,3), of ?s t] by auto
  define s1 where "s1 = (advance_thread t ^^ n) ?s"
  define s2 where "s2 = advance_thread t s1"
  have r: "op_return (rs_ring s1) (rs_threads s1 t) = Some (enqueue_result items f)" and idle: "rs_threads s2 t = Idle"
    and so: "solo t s items f s2" and inv: "ring_inv N s2"
    using n(2) by (simp_all add: Let_def s1_def s2_def)
  have all: "\<forall>u. rs_threads s2 u = Idle" using so idle unfolding solo_def by metis
  have log: "rs_log s2 = rs_log s @ take f items" "rs_out s2 = rs_out s"
    using so idle by (simp_all add: solo_def)
  note st = idle_enqueue_stored [OF assms(1,2) inv all log]
  then show ?thesis
    using r log all n(1) by (intro exI [of _ n]) (simp add: s1_def [symmetric] s2_def [symmetric] enqueue_result_def Let_def)
qed

theorem enqueue_alone_returns_witness:
  "\<exists>n < 8. let s1 = (advance_thread 3 ^^ n) (demo_start\<lparr>rs_threads := (rs_threads demo_start)(3 := EnqHead [5, 6, 7])\<rparr>); s2 = advance_thread 3 s1
    in op_return (rs_ring s1) (rs_threads s1 3) = Some 2 \<and> rs_log s2 = [5, 6] \<and>
       ringCache (rs_ring s2) ! 1 = 5 \<and> ringCache (rs_ring s2) ! 0 = 6"
proof -
  have i: "\<forall>t. rs_threads demo_start t = Idle" and l: "rs_log demo_start = []" "rs_out demo_start = []"
    "prod_head (rs_ring demo_start) = 0" "cons_tail (rs_ring demo_start) = 0" by (simp_all add: demo_start_def)
  obtain n where "n < 8" "let s1 = (advance_thread 3 ^^ n) (demo_start\<lparr>rs_threads := (rs_threads demo_start)(3 := EnqHead [5, 6, 7])\<rparr>);
      s2 = advance_thread 3 s1
    in op_return (rs_ring s1) (rs_threads s1 3) = Some 2 \<and> rs_log s2 = [5, 6] \<and>
       (\<forall>i < 2. ringCache (rs_ring s2) ! ((i + 1) mod 2) = [5, 6, 7] ! i)"
    using enqueue_alone_returns [OF demo_inv i, of "[5, 6, 7]" 3] l by (auto simp: Let_def)
  then show ?thesis by (intro exI [of _ n]) (simp add: Let_def numeral_2_eq_2 All_less_Suc2)
qed

end
