(* ===== verification/Disc_Manager.thy ===== *)
theory Disc_Manager
  imports Softbus_Utils "HOL-Library.Monad_Syntax"
begin

text \<open>
  The discovery manager, \<^verbatim>\<open>core/discovery/manager/src/disc_manager.c\<close>, and the server on top of it,
  \<^verbatim>\<open>softbus_disc_server.c\<close>. Packages publish services and subscribe to capabilities; the manager keeps one
  item for each package with a node for each request, threads the subscriptions through one list per capability,
  drives the media (CoAP and BLE) and hands found devices to the subscribers.

  Items and nodes live in a store and are referred to by address, because a node is on two lists at once and points
  back to its item; a dereference of an address that is not in the store has no defined result (\<^const>\<open>None\<close>).
  A union of two function pointers is a value tagged with the member written last, and a read through the other member
  has no defined result either. An intrusive list is the sequence of its nodes, as \<open>Common_List\<close> justifies. The
  decisions of the system (locks, allocations) and of the media are functions of a tick that every decision advances.
\<close>

section \<open>Model\<close>

subsection \<open>Data\<close>

type_synonym addr = nat

abbreviation (input) SOFTBUS_DISCOVER_MANAGER_NOT_INIT :: int where "SOFTBUS_DISCOVER_MANAGER_NOT_INIT \<equiv> -264241148"
abbreviation (input) SOFTBUS_DISCOVER_MANAGER_ITEM_NOT_CREATE :: int where "SOFTBUS_DISCOVER_MANAGER_ITEM_NOT_CREATE \<equiv> -264241147"
abbreviation (input) SOFTBUS_DISCOVER_MANAGER_INFO_NOT_CREATE :: int where "SOFTBUS_DISCOVER_MANAGER_INFO_NOT_CREATE \<equiv> -264241146"
abbreviation (input) SOFTBUS_DISCOVER_MANAGER_INFO_NOT_DELETE :: int where "SOFTBUS_DISCOVER_MANAGER_INFO_NOT_DELETE \<equiv> -264241145"
abbreviation (input) SOFTBUS_DISCOVER_MANAGER_INNERFUNCTION_FAIL :: int where "SOFTBUS_DISCOVER_MANAGER_INNERFUNCTION_FAIL \<equiv> -264241144"
abbreviation (input) SOFTBUS_DISCOVER_MANAGER_CAPABILITY_INVALID :: int where "SOFTBUS_DISCOVER_MANAGER_CAPABILITY_INVALID \<equiv> -264241143"
abbreviation (input) SOFTBUS_DISCOVER_MANAGER_DUPLICATE_PARAM :: int where "SOFTBUS_DISCOVER_MANAGER_DUPLICATE_PARAM \<equiv> -264241142"
abbreviation (input) SOFTBUS_DISCOVER_MANAGER_INVALID_MEDIUM :: int where "SOFTBUS_DISCOVER_MANAGER_INVALID_MEDIUM \<equiv> -264241140"
abbreviation (input) SOFTBUS_DISCOVER_MANAGER_INVALID_PKGNAME :: int where "SOFTBUS_DISCOVER_MANAGER_INVALID_PKGNAME \<equiv> -264241139"
abbreviation (input) SOFTBUS_DISCOVER_MANAGER_INVALID_MODULE :: int where "SOFTBUS_DISCOVER_MANAGER_INVALID_MODULE \<equiv> -264241138"

abbreviation (input) DISCOVER_MODE_PASSIVE :: int where "DISCOVER_MODE_PASSIVE \<equiv> 0x55"
abbreviation (input) DISCOVER_MODE_ACTIVE :: int where "DISCOVER_MODE_ACTIVE \<equiv> 0xAA"
abbreviation (input) MEDIUM_AUTO :: int where "MEDIUM_AUTO \<equiv> 0"
abbreviation (input) MEDIUM_BLE :: int where "MEDIUM_BLE \<equiv> 1"
abbreviation (input) MEDIUM_COAP :: int where "MEDIUM_COAP \<equiv> 2"
abbreviation (input) FREQ_LOW :: int where "FREQ_LOW \<equiv> 0"
abbreviation (input) FREQ_SUPER_HIGH :: int where "FREQ_SUPER_HIGH \<equiv> 3"
abbreviation (input) MODULE_MIN :: int where "MODULE_MIN \<equiv> 1"
abbreviation (input) MODULE_MAX :: int where "MODULE_MAX \<equiv> 2"
abbreviation (input) CAPABILITY_MAX_BITNUM :: nat where "CAPABILITY_MAX_BITNUM \<equiv> 8"
abbreviation (input) PKG_NAME_SIZE_MAX :: nat where "PKG_NAME_SIZE_MAX \<equiv> 65"
abbreviation (input) MAX_CAPABILITYDATA_LEN :: nat where "MAX_CAPABILITYDATA_LEN \<equiv> 513"

datatype ServiceType = PUBLISH_SERVICE | PUBLISH_INNER_SERVICE | SUBSCRIBE_SERVICE | SUBSCRIBE_INNER_SERVICE

datatype InterfaceFuncType = PUBLISH_FUNC | UNPUBLISH_FUNC | STARTDISCOVERTY_FUNC | STOPDISCOVERY_FUNC

text \<open>The members of \<^verbatim>\<open>DiscoveryFuncInterface\<close>.\<close>

datatype DiscoveryFunc = Publish | StartScan | Unpublish | StopScan | StartAdvertise | Subscribe | Unsubscribe | StopAdvertise

record DiscoveryFuncInterface = hasUpdateLocalDeviceInfo :: bool

record PublishInfo =
  publishId :: int
  pi_mode :: int
  pi_medium :: int
  pi_freq :: int
  pi_capability :: string
  pi_capabilityData :: "u8 list option"
  pi_dataLen :: u32
  pi_ranging :: bool

record SubscribeInfo =
  subscribeId :: int
  si_mode :: int
  si_medium :: int
  si_freq :: int
  si_isSameAccount :: bool
  si_isWakeRemote :: bool
  si_capability :: string
  si_capabilityData :: "u8 list option"
  si_dataLen :: u32

record PublishOption =
  po_freq :: int
  po_capabilityBitmap :: u32
  po_capabilityData :: "u8 list"
  po_dataLen :: u32
  po_ranging :: bool

record SubscribeOption =
  so_freq :: int
  so_isSameAccount :: bool
  so_isWakeRemote :: bool
  so_capabilityBitmap :: u32
  so_capabilityData :: "u8 list"
  so_dataLen :: u32

datatype InnerOption = publishOption PublishOption | subscribeOption SubscribeOption

text \<open>The union \<^verbatim>\<open>InnerCallback\<close>: a null pointer, or a function written through one of the two members.\<close>

datatype InnerCallback = NullCb | ServerCb nat | InnerCb nat

record DiscItem =
  packageName :: string
  callback :: InnerCallback
  infoNum :: u32
  InfoList :: "addr list"

record DiscInfo =
  di_id :: int
  di_mode :: int
  di_medium :: int
  di_option :: InnerOption
  di_item :: "addr option"

record SoftBusList =
  sl_cnt :: u32
  sl_list :: "addr list"
  sl_depth :: nat

record DeviceInfo =
  devId :: string
  capabilityBitmap :: "u32 list"

datatype disc_event =
    MediumCall int DiscoveryFunc InnerOption
  | LinkStatusChanged int
  | UpdateLocalDeviceInfo int
  | OnServerDeviceFound nat string DeviceInfo int
  | OnDeviceFound nat DeviceInfo int
  | ClientIpcOnPublishFail string int int
  | ClientIpcOnPublishSuccess string int
  | ClientIpcOnDiscoverFailed string int int
  | ClientIpcDiscoverySuccess string int

record disc =
  g_isInited :: bool
  g_publishInfoList :: "SoftBusList option"
  g_discoveryInfoList :: "SoftBusList option"
  g_discCoapInterface :: "DiscoveryFuncInterface option"
  g_discBleInterface :: "DiscoveryFuncInterface option"
  g_capabilityList :: "addr list list"
  g_isCallLnn :: bool
  d_items :: "addr \<Rightarrow> DiscItem option"
  d_infos :: "addr \<Rightarrow> DiscInfo option"
  d_next :: addr
  d_tick :: nat
  d_lock_ok :: "nat \<Rightarrow> bool"
  d_calloc_ok :: "nat \<Rightarrow> bool"
  d_medium_ret :: "nat \<Rightarrow> int"
  d_name_room :: "nat \<Rightarrow> nat"
  d_events :: "disc_event list"

definition g_discModuleMap :: "string list" where
  "g_discModuleMap = [''MODULE_LNN'', ''MODULE_CONN'']"

definition g_capabilityMap :: "(int \<times> string) list" where
  "g_capabilityMap = [(0, ''hicall''), (1, ''profile''), (2, ''homevisionPic''), (3, ''castPlus''),
     (4, ''aaCapability''), (5, ''dvKit''), (6, ''ddmpCapability''), (7, ''osdCapability'')]"

text \<open>Which of the two service lists a function was given.\<close>

datatype service = Publications | Subscriptions

fun service_list :: "service \<Rightarrow> disc \<Rightarrow> SoftBusList option" where
  "service_list Publications s = g_publishInfoList s"
| "service_list Subscriptions s = g_discoveryInfoList s"

fun set_service_list :: "service \<Rightarrow> SoftBusList \<Rightarrow> disc \<Rightarrow> disc" where
  "set_service_list Publications l s = s\<lparr>g_publishInfoList := Some l\<rparr>"
| "set_service_list Subscriptions l s = s\<lparr>g_discoveryInfoList := Some l\<rparr>"

definition event :: "disc_event \<Rightarrow> disc \<Rightarrow> disc" where
  "event e s = s\<lparr>d_events := d_events s @ [e]\<rparr>"

subsection \<open>Locks and memory\<close>

text \<open>The lock of a service list is recursive: the depth counts how often its holder has taken it.\<close>

definition SoftBusMutexLock :: "service \<Rightarrow> disc \<Rightarrow> (bool \<times> disc) option" where
  "SoftBusMutexLock w s = do {
     l \<leftarrow> service_list w s;
     let s' = s\<lparr>d_tick := d_tick s + 1\<rparr>;
     Some (if d_lock_ok s (d_tick s) then (True, set_service_list w (l\<lparr>sl_depth := sl_depth l + 1\<rparr>) s') else (False, s'))
   }"

definition SoftBusMutexUnlock :: "service \<Rightarrow> disc \<Rightarrow> disc option" where
  "SoftBusMutexUnlock w s = do {
     l \<leftarrow> service_list w s;
     Some (set_service_list w (l\<lparr>sl_depth := sl_depth l - 1\<rparr>) s)
   }"

definition calloc :: "disc \<Rightarrow> bool \<times> disc" where
  "calloc s = (d_calloc_ok s (d_tick s), s\<lparr>d_tick := d_tick s + 1\<rparr>)"

subsection \<open>Capabilities and media\<close>

definition BitmapSet :: "u32 \<Rightarrow> u32 \<Rightarrow> u32" where
  "BitmapSet bitMap pos = (if pos > of_nat CAPABILITY_MAX_BITNUM then bitMap else bitMap OR push_bit (unat pos) 1)"

definition IsBitmapSet :: "u32 \<Rightarrow> u32 \<Rightarrow> bool" where
  "IsBitmapSet bitMap pos = (if pos > of_nat CAPABILITY_MAX_BITNUM then False else push_bit (unat pos) 1 AND bitMap \<noteq> 0)"

definition CapabilityStringToBimap :: "string \<Rightarrow> int" where
  "CapabilityStringToBimap cap =
     (case find (\<lambda>(b, c). cap = c) g_capabilityMap of
        Some (b, c) \<Rightarrow> b
      | None \<Rightarrow> SOFTBUS_DISCOVER_MANAGER_CAPABILITY_INVALID)"

fun interface_func :: "InterfaceFuncType \<Rightarrow> int \<Rightarrow> DiscoveryFunc" where
  "interface_func PUBLISH_FUNC md = (if md = DISCOVER_MODE_ACTIVE then Publish else StartScan)"
| "interface_func UNPUBLISH_FUNC md = (if md = DISCOVER_MODE_ACTIVE then Unpublish else StopScan)"
| "interface_func STARTDISCOVERTY_FUNC md = (if md = DISCOVER_MODE_ACTIVE then StartAdvertise else Subscribe)"
| "interface_func STOPDISCOVERY_FUNC md = (if md = DISCOVER_MODE_ACTIVE then StopAdvertise else Unsubscribe)"

definition DiscInterfaceProcess ::
    "InnerOption \<Rightarrow> int \<Rightarrow> DiscoveryFuncInterface option \<Rightarrow> int \<Rightarrow> InterfaceFuncType \<Rightarrow> disc \<Rightarrow> int \<times> disc" where
  "DiscInterfaceProcess opt medium interface md type s =
     (case interface of
        None \<Rightarrow> (SOFTBUS_DISCOVER_MANAGER_INNERFUNCTION_FAIL, s)
      | Some _ \<Rightarrow> (d_medium_ret s (d_tick s), event (MediumCall medium (interface_func type md) opt) (s\<lparr>d_tick := d_tick s + 1\<rparr>)))"

definition DiscInterfaceByMedium :: "DiscInfo \<Rightarrow> InterfaceFuncType \<Rightarrow> disc \<Rightarrow> int \<times> disc" where
  "DiscInterfaceByMedium info type s =
     (if di_medium info = MEDIUM_COAP
      then DiscInterfaceProcess (di_option info) MEDIUM_COAP (g_discCoapInterface s) (di_mode info) type s
      else if di_medium info = MEDIUM_BLE
      then DiscInterfaceProcess (di_option info) MEDIUM_BLE (g_discBleInterface s) (di_mode info) type s
      else if di_medium info = MEDIUM_AUTO
      then let (ret1, s) = DiscInterfaceProcess (di_option info) MEDIUM_COAP (g_discCoapInterface s) (di_mode info) type s;
               (ret2, s) = DiscInterfaceProcess (di_option info) MEDIUM_BLE (g_discBleInterface s) (di_mode info) type s
           in (if ret1 = SOFTBUS_OK \<or> ret2 = SOFTBUS_OK then SOFTBUS_OK else SOFTBUS_DISCOVER_MANAGER_INNERFUNCTION_FAIL, s)
      else (SOFTBUS_DISCOVER_MANAGER_INNERFUNCTION_FAIL, s))"

fun subscribe_bitmap :: "InnerOption \<Rightarrow> u32 option" where
  "subscribe_bitmap (subscribeOption opt) = Some (so_capabilityBitmap opt)"
| "subscribe_bitmap (publishOption _) = None"

definition is_subscribe :: "ServiceType \<Rightarrow> bool" where
  "is_subscribe type \<longleftrightarrow> type = SUBSCRIBE_SERVICE \<or> type = SUBSCRIBE_INNER_SERVICE"

definition AddInfoToCapability :: "addr \<Rightarrow> ServiceType \<Rightarrow> disc \<Rightarrow> disc option" where
  "AddInfoToCapability info type s =
     (if \<not> is_subscribe type then Some s
      else do {
        nd \<leftarrow> d_infos s info;
        bitmap \<leftarrow> subscribe_bitmap (di_option nd);
        case find (\<lambda>tmp. IsBitmapSet bitmap (of_nat tmp)) [0..<CAPABILITY_MAX_BITNUM] of
          None \<Rightarrow> Some s
        | Some tmp \<Rightarrow>
            let l = g_capabilityList s ! tmp
            in Some (s\<lparr>g_capabilityList := (g_capabilityList s)[tmp := if type = SUBSCRIBE_INNER_SERVICE then info # l else l @ [info]]\<rparr>)
      })"

definition DeleteInfoFromCapability :: "addr \<Rightarrow> ServiceType \<Rightarrow> disc \<Rightarrow> disc option" where
  "DeleteInfoFromCapability info type s =
     (if \<not> is_subscribe type then Some s
      else do { _ \<leftarrow> d_infos s info; Some (s\<lparr>g_capabilityList := map (remove1 info) (g_capabilityList s)\<rparr>) })"

definition ReleaseInfoNodeMem :: "addr \<Rightarrow> disc \<Rightarrow> disc option" where
  "ReleaseInfoNodeMem info s = do { _ \<leftarrow> d_infos s info; Some (s\<lparr>d_infos := (d_infos s)(info := None)\<rparr>) }"

subsection \<open>Found devices\<close>

definition InnerDeviceFound :: "addr \<Rightarrow> DeviceInfo \<Rightarrow> int \<Rightarrow> disc \<Rightarrow> disc option" where
  "InnerDeviceFound info device additions s = do {
     nd \<leftarrow> d_infos s info;
     a \<leftarrow> di_item nd;
     it \<leftarrow> d_items s a;
     if packageName it \<notin> set g_discModuleMap
     then (case callback it of
             ServerCb f \<Rightarrow> Some (event (OnServerDeviceFound f (packageName it) device additions) s)
           | _ \<Rightarrow> None)
     else (case callback it of
             NullCb \<Rightarrow> Some s
           | InnerCb f \<Rightarrow> Some (if g_isCallLnn s then event (OnDeviceFound f device additions) s else s)
           | ServerCb _ \<Rightarrow> None)
   }"

fun found_nodes :: "addr list \<Rightarrow> DeviceInfo \<Rightarrow> int \<Rightarrow> disc \<Rightarrow> disc option" where
  "found_nodes [] device additions s = Some s"
| "found_nodes (i # is) device additions s = do { s \<leftarrow> InnerDeviceFound i device additions s; found_nodes is device additions s }"

fun found_loop :: "nat list \<Rightarrow> DeviceInfo \<Rightarrow> int \<Rightarrow> disc \<Rightarrow> disc option" where
  "found_loop [] device additions s = Some s"
| "found_loop (tmp # tmps) device additions s =
     (if \<not> IsBitmapSet (capabilityBitmap device ! 0) (of_nat tmp) then found_loop tmps device additions s
      else do {
        (ok, s) \<leftarrow> SoftBusMutexLock Subscriptions s;
        if \<not> ok then Some s
        else do {
          s \<leftarrow> found_nodes (g_capabilityList s ! tmp) device additions s;
          s \<leftarrow> SoftBusMutexUnlock Subscriptions s;
          found_loop tmps device additions s
        }
      })"

definition DiscOnDeviceFound :: "DeviceInfo \<Rightarrow> int \<Rightarrow> disc \<Rightarrow> disc option" where
  "DiscOnDeviceFound device additions s = found_loop [0..<CAPABILITY_MAX_BITNUM] device additions s"

subsection \<open>Checks of the requests\<close>

definition info_check :: "int \<Rightarrow> int \<Rightarrow> int \<Rightarrow> u8 list option \<Rightarrow> u32 \<Rightarrow> int option" where
  "info_check md medium freq capabilityData dataLen =
     (if md \<noteq> DISCOVER_MODE_PASSIVE \<and> md \<noteq> DISCOVER_MODE_ACTIVE then Some SOFTBUS_INVALID_PARAM
      else if medium < MEDIUM_AUTO \<or> MEDIUM_COAP < medium then Some SOFTBUS_DISCOVER_MANAGER_INVALID_MEDIUM
      else if freq < FREQ_LOW \<or> FREQ_SUPER_HIGH < freq then Some SOFTBUS_INVALID_PARAM
      else case capabilityData of
          None \<Rightarrow> Some (if dataLen \<noteq> 0 then SOFTBUS_INVALID_PARAM else SOFTBUS_OK)
        | Some d \<Rightarrow>
            if unat dataLen > MAX_CAPABILITYDATA_LEN then Some SOFTBUS_INVALID_PARAM
            else map_option (\<lambda>n. if n \<ge> MAX_CAPABILITYDATA_LEN then SOFTBUS_INVALID_PARAM else SOFTBUS_OK) (strlen d))"

definition PublishInfoCheck :: "PublishInfo \<Rightarrow> int option" where
  "PublishInfoCheck info = info_check (pi_mode info) (pi_medium info) (pi_freq info) (pi_capabilityData info) (pi_dataLen info)"

definition SubscribeInfoCheck :: "SubscribeInfo \<Rightarrow> int option" where
  "SubscribeInfoCheck info = info_check (si_mode info) (si_medium info) (si_freq info) (si_capabilityData info) (si_dataLen info)"

subsection \<open>Items and nodes\<close>

definition AddCallbackToItem :: "DiscItem \<Rightarrow> InnerCallback option \<Rightarrow> ServiceType \<Rightarrow> DiscItem option" where
  "AddCallbackToItem it cb type =
     (if \<not> is_subscribe type then Some it
      else do {
        c \<leftarrow> cb;
        if type = SUBSCRIBE_SERVICE then (case c of InnerCb _ \<Rightarrow> None | _ \<Rightarrow> Some (it\<lparr>callback := c\<rparr>))
        else (case c of
                NullCb \<Rightarrow> (case callback it of NullCb \<Rightarrow> Some (it\<lparr>callback := NullCb\<rparr>) | InnerCb _ \<Rightarrow> Some it | ServerCb _ \<Rightarrow> None)
              | InnerCb _ \<Rightarrow> (case callback it of ServerCb _ \<Rightarrow> None | _ \<Rightarrow> Some (it\<lparr>callback := c\<rparr>))
              | ServerCb _ \<Rightarrow> None)
      })"

text \<open>
  \<^verbatim>\<open>memcpy_s\<close> reads \<open>PKG_NAME_SIZE_MAX\<close> bytes at the name of the package, whatever its length; \<open>room\<close> bytes can be read there. The name
  itself is shorter, as every caller checked, so that the array holds it with its terminator.
\<close>

definition CreateNewItem ::
    "service \<Rightarrow> nat \<Rightarrow> string \<Rightarrow> InnerCallback option \<Rightarrow> ServiceType \<Rightarrow> disc \<Rightarrow> (addr option \<times> disc) option" where
  "CreateNewItem w room pkg cb type s = do {
     let (ok, s) = calloc s;
     if \<not> ok then Some (None, s)
     else if room < PKG_NAME_SIZE_MAX then None
     else do {
       l \<leftarrow> service_list w s;
       let a = d_next s;
       it \<leftarrow> AddCallbackToItem \<lparr>packageName = take PKG_NAME_SIZE_MAX pkg, callback = NullCb, infoNum = 0, InfoList = []\<rparr> cb type;
       let nodes = (if type = PUBLISH_INNER_SERVICE \<or> type = SUBSCRIBE_INNER_SERVICE then a # sl_list l else sl_list l @ [a]);
       let s = set_service_list w (l\<lparr>sl_cnt := sl_cnt l + 1, sl_list := nodes\<rparr>) s;
       Some (Some a, s\<lparr>d_items := (d_items s)(a \<mapsto> it), d_next := a + 1\<rparr>)
     }
   }"

text \<open>\<^verbatim>\<open>memcpy_s\<close> of the capability data into a zeroed block of \<open>MAX_CAPABILITYDATA_LEN\<close> bytes.\<close>

definition copy_data :: "u8 list option \<Rightarrow> u32 \<Rightarrow> u8 list option option" where
  "copy_data capabilityData dataLen =
     (let n = unat dataLen in
      if n = 0 then Some (Some (replicate MAX_CAPABILITYDATA_LEN 0))
      else if n > MAX_CAPABILITYDATA_LEN then Some None
      else case capabilityData of
          None \<Rightarrow> Some None
        | Some d \<Rightarrow> if n \<le> length d then Some (Some (take n d @ replicate (MAX_CAPABILITYDATA_LEN - n) 0)) else None)"

definition CreateNewPublishInfoNode :: "PublishInfo \<Rightarrow> disc \<Rightarrow> (addr option \<times> disc) option" where
  "CreateNewPublishInfoNode info s =
     (let (ok, s) = calloc s in
      if \<not> ok then Some (None, s)
      else let (ok, s) = calloc s in
      if \<not> ok then Some (None, s)
      else do {
        copied \<leftarrow> copy_data (pi_capabilityData info) (pi_dataLen info);
        case copied of
          None \<Rightarrow> Some (None, s)
        | Some d \<Rightarrow>
            let ret = CapabilityStringToBimap (pi_capability info)
            in if ret < 0 then Some (None, s)
               else let opt = \<lparr>po_freq = pi_freq info, po_capabilityBitmap = BitmapSet 0 (of_int ret), po_capabilityData = d,
                               po_dataLen = pi_dataLen info, po_ranging = pi_ranging info\<rparr>;
                        nd = \<lparr>di_id = publishId info, di_mode = pi_mode info, di_medium = pi_medium info,
                               di_option = publishOption opt, di_item = None\<rparr>;
                        a = d_next s
                    in Some (Some a, s\<lparr>d_infos := (d_infos s)(a \<mapsto> nd), d_next := a + 1\<rparr>)
      })"

definition CreateNewSubscribeInfoNode :: "SubscribeInfo \<Rightarrow> disc \<Rightarrow> (addr option \<times> disc) option" where
  "CreateNewSubscribeInfoNode info s =
     (let (ok, s) = calloc s in
      if \<not> ok then Some (None, s)
      else let (ok, s) = calloc s in
      if \<not> ok then Some (None, s)
      else do {
        copied \<leftarrow> copy_data (si_capabilityData info) (si_dataLen info);
        case copied of
          None \<Rightarrow> Some (None, s)
        | Some d \<Rightarrow>
            let ret = CapabilityStringToBimap (si_capability info)
            in if ret < 0 then Some (None, s)
               else let opt = \<lparr>so_freq = si_freq info, so_isSameAccount = si_isSameAccount info, so_isWakeRemote = si_isWakeRemote info,
                               so_capabilityBitmap = BitmapSet 0 (of_int ret), so_capabilityData = d, so_dataLen = si_dataLen info\<rparr>;
                        nd = \<lparr>di_id = subscribeId info, di_mode = si_mode info, di_medium = si_medium info,
                               di_option = subscribeOption opt, di_item = None\<rparr>;
                        a = d_next s
                    in Some (Some a, s\<lparr>d_infos := (d_infos s)(a \<mapsto> nd), d_next := a + 1\<rparr>)
      })"

text \<open>The two loops over the lists of items and of nodes.\<close>

fun find_item :: "(addr \<Rightarrow> DiscItem option) \<Rightarrow> string \<Rightarrow> addr list \<Rightarrow> addr option option" where
  "find_item its pkg [] = Some None"
| "find_item its pkg (a # as) = do { it \<leftarrow> its a; if packageName it \<noteq> pkg then find_item its pkg as else Some (Some a) }"

fun find_id :: "(addr \<Rightarrow> DiscInfo option) \<Rightarrow> int \<Rightarrow> addr list \<Rightarrow> addr option option" where
  "find_id infs n [] = Some None"
| "find_id infs n (i # is) = do { nd \<leftarrow> infs i; if di_id nd = n then Some (Some i) else find_id infs n is }"

definition link_info :: "addr \<Rightarrow> addr \<Rightarrow> ServiceType \<Rightarrow> disc \<Rightarrow> disc option" where
  "link_info a info type s = do {
     it \<leftarrow> d_items s a;
     nd \<leftarrow> d_infos s info;
     AddInfoToCapability info type
       (s\<lparr>d_items := (d_items s)(a \<mapsto> it\<lparr>infoNum := infoNum it + 1, InfoList := InfoList it @ [info]\<rparr>),
          d_infos := (d_infos s)(info \<mapsto> nd\<lparr>di_item := Some a\<rparr>)\<rparr>)
   }"

definition AddInfoToList ::
    "service \<Rightarrow> nat \<Rightarrow> string \<Rightarrow> InnerCallback option \<Rightarrow> addr \<Rightarrow> ServiceType \<Rightarrow> disc \<Rightarrow> (int \<times> disc) option" where
  "AddInfoToList w room pkg cb info type s = do {
     (ok, s) \<leftarrow> SoftBusMutexLock w s;
     if \<not> ok then Some (SOFTBUS_LOCK_ERR, s)
     else do {
       l \<leftarrow> service_list w s;
       nd \<leftarrow> d_infos s info;
       found \<leftarrow> find_item (d_items s) pkg (sl_list l);
       case found of
         Some a \<Rightarrow> do {
           it \<leftarrow> d_items s a;
           dup \<leftarrow> find_id (d_infos s) (di_id nd) (InfoList it);
           if dup \<noteq> None
           then do { s \<leftarrow> SoftBusMutexUnlock w s; Some (SOFTBUS_DISCOVER_MANAGER_DUPLICATE_PARAM, s) }
           else do {
             it \<leftarrow> AddCallbackToItem it cb type;
             s \<leftarrow> link_info a info type (s\<lparr>d_items := (d_items s)(a \<mapsto> it)\<rparr>);
             s \<leftarrow> SoftBusMutexUnlock w s;
             Some (SOFTBUS_OK, s)
           }
         }
       | None \<Rightarrow> do {
           (new, s) \<leftarrow> CreateNewItem w room pkg cb type s;
           case new of
             None \<Rightarrow> do { s \<leftarrow> SoftBusMutexUnlock w s; Some (SOFTBUS_DISCOVER_MANAGER_ITEM_NOT_CREATE, s) }
           | Some a \<Rightarrow> do {
               s \<leftarrow> link_info a info type s;
               s \<leftarrow> SoftBusMutexUnlock w s;
               Some (SOFTBUS_OK, s)
             }
         }
     }
   }"

definition delete_item :: "service \<Rightarrow> addr \<Rightarrow> disc \<Rightarrow> disc option" where
  "delete_item w a s = do {
     l \<leftarrow> service_list w s;
     let s = set_service_list w (l\<lparr>sl_cnt := sl_cnt l - 1, sl_list := remove1 a (sl_list l)\<rparr>) s;
     Some (s\<lparr>d_items := (d_items s)(a := None)\<rparr>)
   }"

definition DeleteInfoFromList :: "service \<Rightarrow> string \<Rightarrow> int \<Rightarrow> ServiceType \<Rightarrow> disc \<Rightarrow> (addr option \<times> disc) option" where
  "DeleteInfoFromList w pkg n type s = do {
     (ok, s) \<leftarrow> SoftBusMutexLock w s;
     if \<not> ok then Some (None, s)
     else do {
       l \<leftarrow> service_list w s;
       found \<leftarrow> find_item (d_items s) pkg (sl_list l);
       case found of
         None \<Rightarrow> do { s \<leftarrow> SoftBusMutexUnlock w s; Some (None, s) }
       | Some a \<Rightarrow> do {
           it \<leftarrow> d_items s a;
           if infoNum it = 0
           then do { s \<leftarrow> delete_item w a s; s \<leftarrow> SoftBusMutexUnlock w s; Some (None, s) }
           else do {
             i \<leftarrow> find_id (d_infos s) n (InfoList it);
             case i of
               None \<Rightarrow> do { s \<leftarrow> SoftBusMutexUnlock w s; Some (None, s) }
             | Some info \<Rightarrow> do {
                 let it' = it\<lparr>infoNum := infoNum it - 1, InfoList := remove1 info (InfoList it)\<rparr>;
                 s \<leftarrow> DeleteInfoFromCapability info type s;
                 let s = s\<lparr>d_items := (d_items s)(a \<mapsto> it')\<rparr>;
                 s \<leftarrow> (if infoNum it' = 0 then delete_item w a s else Some s);
                 s \<leftarrow> SoftBusMutexUnlock w s;
                 Some (Some info, s)
               }
           }
         }
     }
   }"

subsection \<open>Publishing and subscribing\<close>

text \<open>What is undone when the medium refuses a request.\<close>

definition unlink_info :: "addr \<Rightarrow> ServiceType \<Rightarrow> disc \<Rightarrow> disc option" where
  "unlink_info info type s = do {
     nd \<leftarrow> d_infos s info;
     a \<leftarrow> di_item nd;
     it \<leftarrow> d_items s a;
     s \<leftarrow> DeleteInfoFromCapability info type s;
     Some (s\<lparr>d_items := (d_items s)(a \<mapsto> it\<lparr>infoNum := infoNum it - 1, InfoList := remove1 info (InfoList it)\<rparr>)\<rparr>)
   }"

text \<open>
  The node is added under the lock; the medium is driven after the lock was released.
\<close>

definition drive_medium :: "InterfaceFuncType \<Rightarrow> addr \<Rightarrow> ServiceType \<Rightarrow> disc \<Rightarrow> (int \<times> disc) option" where
  "drive_medium func info type s = do {
     nd \<leftarrow> d_infos s info;
     let (ret, s) = DiscInterfaceByMedium nd func s;
     if ret \<noteq> SOFTBUS_OK then do { s \<leftarrow> unlink_info info type s; Some (ret, s) }
     else Some (SOFTBUS_OK, s)
   }"

definition InnerPublishService :: "nat \<Rightarrow> string \<Rightarrow> addr \<Rightarrow> ServiceType \<Rightarrow> disc \<Rightarrow> (int \<times> disc) option" where
  "InnerPublishService room pkg info type s = do {
     (ret, s) \<leftarrow> AddInfoToList Publications room pkg None info type s;
     if ret \<noteq> SOFTBUS_OK then Some (ret, s) else drive_medium PUBLISH_FUNC info type s
   }"

text \<open>The end of a request: when the medium refuses, the node stays allocated although it is on no list any more.\<close>

definition release_medium :: "InterfaceFuncType \<Rightarrow> addr option \<Rightarrow> disc \<Rightarrow> (int \<times> disc) option" where
  "release_medium func i s =
     (case i of
        None \<Rightarrow> Some (SOFTBUS_DISCOVER_MANAGER_INFO_NOT_DELETE, s)
      | Some info \<Rightarrow> do {
          nd \<leftarrow> d_infos s info;
          let (ret, s) = DiscInterfaceByMedium nd func s;
          if ret \<noteq> SOFTBUS_OK then Some (ret, s)
          else do { s \<leftarrow> ReleaseInfoNodeMem info s; Some (SOFTBUS_OK, s) }
        })"

definition InnerUnPublishService :: "string \<Rightarrow> int \<Rightarrow> ServiceType \<Rightarrow> disc \<Rightarrow> (int \<times> disc) option" where
  "InnerUnPublishService pkg n type s = do {
     (i, s) \<leftarrow> DeleteInfoFromList Publications pkg n type s;
     release_medium UNPUBLISH_FUNC i s
   }"

definition InnerStartDiscovery :: "nat \<Rightarrow> string \<Rightarrow> addr \<Rightarrow> InnerCallback option \<Rightarrow> ServiceType \<Rightarrow> disc \<Rightarrow> (int \<times> disc) option" where
  "InnerStartDiscovery room pkg info cb type s = do {
     let callback = (case cb of None \<Rightarrow> NullCb | Some c \<Rightarrow> c);
     (ret, s) \<leftarrow> AddInfoToList Subscriptions room pkg (Some callback) info type s;
     if ret \<noteq> SOFTBUS_OK then Some (ret, s) else drive_medium STARTDISCOVERTY_FUNC info type s
   }"

definition InnerStopDiscovery :: "string \<Rightarrow> int \<Rightarrow> ServiceType \<Rightarrow> disc \<Rightarrow> (int \<times> disc) option" where
  "InnerStopDiscovery pkg n type s = do {
     (i, s) \<leftarrow> DeleteInfoFromList Subscriptions pkg n type s;
     release_medium STOPDISCOVERY_FUNC i s
   }"

definition ModuleIdToPackageName :: "int \<Rightarrow> disc \<Rightarrow> string option \<times> disc" where
  "ModuleIdToPackageName moduleId s =
     (let (ok, s) = calloc s in (if ok then Some (g_discModuleMap ! nat (moduleId - 1)) else None, s))"

definition InnerSetDiscoverCallback :: "nat \<Rightarrow> string \<Rightarrow> InnerCallback \<Rightarrow> disc \<Rightarrow> (int \<times> disc) option" where
  "InnerSetDiscoverCallback room pkg cb s = do {
     (ok, s) \<leftarrow> SoftBusMutexLock Subscriptions s;
     if \<not> ok then Some (SOFTBUS_LOCK_ERR, s)
     else do {
       l \<leftarrow> service_list Subscriptions s;
       found \<leftarrow> find_item (d_items s) pkg (sl_list l);
       case found of
         Some a \<Rightarrow> do {
           it \<leftarrow> d_items s a;
           s \<leftarrow> SoftBusMutexUnlock Subscriptions (s\<lparr>d_items := (d_items s)(a \<mapsto> it\<lparr>callback := cb\<rparr>)\<rparr>);
           Some (SOFTBUS_OK, s)
         }
       | None \<Rightarrow> do {
           (new, s) \<leftarrow> CreateNewItem Subscriptions room pkg (Some cb) SUBSCRIBE_INNER_SERVICE s;
           s \<leftarrow> SoftBusMutexUnlock Subscriptions s;
           Some (if new = None then SOFTBUS_DISCOVER_MANAGER_ITEM_NOT_CREATE else SOFTBUS_OK, s)
         }
     }
   }"

subsection \<open>Interface for the modules of the bus\<close>

abbreviation (input) bad_module :: "int \<Rightarrow> bool" where "bad_module m \<equiv> m < MODULE_MIN \<or> MODULE_MAX < m"

definition DiscSetDiscoverCallback :: "int \<Rightarrow> InnerCallback option \<Rightarrow> disc \<Rightarrow> (int \<times> disc) option" where
  "DiscSetDiscoverCallback moduleId cb s =
     (case cb of
        None \<Rightarrow> Some (SOFTBUS_INVALID_PARAM, s)
      | Some c \<Rightarrow>
          if bad_module moduleId then Some (SOFTBUS_INVALID_PARAM, s)
          else if \<not> g_isInited s then Some (SOFTBUS_DISCOVER_MANAGER_NOT_INIT, s)
          else let (pkg, s) = ModuleIdToPackageName moduleId s in
            case pkg of
              None \<Rightarrow> Some (SOFTBUS_DISCOVER_MANAGER_INVALID_MODULE, s)
            | Some pkg \<Rightarrow> InnerSetDiscoverCallback PKG_NAME_SIZE_MAX pkg c s)"

text \<open>The rest of a request once its arguments were checked.\<close>

definition publish_node :: "nat \<Rightarrow> string \<Rightarrow> PublishInfo \<Rightarrow> ServiceType \<Rightarrow> disc \<Rightarrow> (int \<times> disc) option" where
  "publish_node room pkg info type s = do {
     (nd, s) \<leftarrow> CreateNewPublishInfoNode info s;
     case nd of
       None \<Rightarrow> Some (SOFTBUS_DISCOVER_MANAGER_INFO_NOT_CREATE, s)
     | Some i \<Rightarrow> do {
         (ret, s) \<leftarrow> InnerPublishService room pkg i type s;
         if ret \<noteq> SOFTBUS_OK then do { s \<leftarrow> ReleaseInfoNodeMem i s; Some (ret, s) }
         else Some (SOFTBUS_OK, s)
       }
   }"

definition subscribe_node :: "nat \<Rightarrow> string \<Rightarrow> SubscribeInfo \<Rightarrow> InnerCallback option \<Rightarrow> ServiceType \<Rightarrow> disc \<Rightarrow> (int \<times> disc) option" where
  "subscribe_node room pkg info cb type s = do {
     (nd, s) \<leftarrow> CreateNewSubscribeInfoNode info s;
     case nd of
       None \<Rightarrow> Some (SOFTBUS_DISCOVER_MANAGER_INFO_NOT_CREATE, s)
     | Some i \<Rightarrow> do {
         (ret, s) \<leftarrow> InnerStartDiscovery room pkg i cb type s;
         if ret \<noteq> SOFTBUS_OK then do { s \<leftarrow> ReleaseInfoNodeMem i s; Some (ret, s) }
         else Some (SOFTBUS_OK, s)
       }
   }"

definition module_publish :: "int \<Rightarrow> int \<Rightarrow> PublishInfo option \<Rightarrow> disc \<Rightarrow> (int \<times> disc) option" where
  "module_publish md moduleId info s =
     (case info of
        None \<Rightarrow> Some (SOFTBUS_INVALID_PARAM, s)
      | Some info \<Rightarrow>
          if bad_module moduleId \<or> pi_mode info \<noteq> md then Some (SOFTBUS_INVALID_PARAM, s)
          else do {
            chk \<leftarrow> PublishInfoCheck info;
            if chk \<noteq> SOFTBUS_OK then Some (SOFTBUS_INVALID_PARAM, s)
            else if \<not> g_isInited s then Some (SOFTBUS_DISCOVER_MANAGER_NOT_INIT, s)
            else let (pkg, s) = ModuleIdToPackageName moduleId s in
              case pkg of
                None \<Rightarrow> Some (SOFTBUS_DISCOVER_MANAGER_INVALID_MODULE, s)
              | Some pkg \<Rightarrow> publish_node PKG_NAME_SIZE_MAX pkg info PUBLISH_INNER_SERVICE s
          })"

definition DiscPublish :: "int \<Rightarrow> PublishInfo option \<Rightarrow> disc \<Rightarrow> (int \<times> disc) option" where
  "DiscPublish moduleId info s = module_publish DISCOVER_MODE_ACTIVE moduleId info s"

definition DiscStartScan :: "int \<Rightarrow> PublishInfo option \<Rightarrow> disc \<Rightarrow> (int \<times> disc) option" where
  "DiscStartScan moduleId info s = module_publish DISCOVER_MODE_PASSIVE moduleId info s"

definition DiscUnpublish :: "int \<Rightarrow> int \<Rightarrow> disc \<Rightarrow> (int \<times> disc) option" where
  "DiscUnpublish moduleId n s =
     (if bad_module moduleId then Some (SOFTBUS_INVALID_PARAM, s)
      else if \<not> g_isInited s then Some (SOFTBUS_DISCOVER_MANAGER_NOT_INIT, s)
      else let (pkg, s) = ModuleIdToPackageName moduleId s in
        case pkg of
          None \<Rightarrow> Some (SOFTBUS_DISCOVER_MANAGER_INVALID_MODULE, s)
        | Some pkg \<Rightarrow> InnerUnPublishService pkg n PUBLISH_INNER_SERVICE s)"

definition module_subscribe :: "int \<Rightarrow> int \<Rightarrow> int \<Rightarrow> SubscribeInfo option \<Rightarrow> disc \<Rightarrow> (int \<times> disc) option" where
  "module_subscribe md no_name moduleId info s =
     (case info of
        None \<Rightarrow> Some (SOFTBUS_INVALID_PARAM, s)
      | Some info \<Rightarrow>
          if bad_module moduleId \<or> si_mode info \<noteq> md then Some (SOFTBUS_INVALID_PARAM, s)
          else do {
            chk \<leftarrow> SubscribeInfoCheck info;
            if chk \<noteq> SOFTBUS_OK then Some (SOFTBUS_INVALID_PARAM, s)
            else if \<not> g_isInited s then Some (SOFTBUS_DISCOVER_MANAGER_NOT_INIT, s)
            else let (pkg, s) = ModuleIdToPackageName moduleId s in
              case pkg of
                None \<Rightarrow> Some (no_name, s)
              | Some pkg \<Rightarrow> subscribe_node PKG_NAME_SIZE_MAX pkg info None SUBSCRIBE_INNER_SERVICE s
          })"

definition DiscStartAdvertise :: "int \<Rightarrow> SubscribeInfo option \<Rightarrow> disc \<Rightarrow> (int \<times> disc) option" where
  "DiscStartAdvertise moduleId info s =
     module_subscribe DISCOVER_MODE_ACTIVE SOFTBUS_DISCOVER_MANAGER_INVALID_MODULE moduleId info s"

definition DiscSubscribe :: "int \<Rightarrow> SubscribeInfo option \<Rightarrow> disc \<Rightarrow> (int \<times> disc) option" where
  "DiscSubscribe moduleId info s =
     module_subscribe DISCOVER_MODE_PASSIVE SOFTBUS_DISCOVER_MANAGER_INVALID_PKGNAME moduleId info s"

definition DiscStopAdvertise :: "int \<Rightarrow> int \<Rightarrow> disc \<Rightarrow> (int \<times> disc) option" where
  "DiscStopAdvertise moduleId n s =
     (if bad_module moduleId then Some (SOFTBUS_INVALID_PARAM, s)
      else if \<not> g_isInited s then Some (SOFTBUS_DISCOVER_MANAGER_NOT_INIT, s)
      else let (pkg, s) = ModuleIdToPackageName moduleId s in
        case pkg of
          None \<Rightarrow> Some (SOFTBUS_DISCOVER_MANAGER_INVALID_PKGNAME, s)
        | Some pkg \<Rightarrow> InnerStopDiscovery pkg n SUBSCRIBE_INNER_SERVICE s)"

subsection \<open>Interface for the packages\<close>

definition DiscPublishService :: "string option \<Rightarrow> PublishInfo option \<Rightarrow> disc \<Rightarrow> (int \<times> disc) option" where
  "DiscPublishService pkg info s =
     (case (pkg, info) of
        (Some pkg, Some info) \<Rightarrow>
          if length pkg \<ge> PKG_NAME_SIZE_MAX then Some (SOFTBUS_INVALID_PARAM, s)
          else do {
            ret \<leftarrow> PublishInfoCheck info;
            if ret \<noteq> SOFTBUS_OK then Some (ret, s)
            else if \<not> g_isInited s then Some (SOFTBUS_DISCOVER_MANAGER_NOT_INIT, s)
            else publish_node (d_name_room s (d_tick s)) pkg info PUBLISH_SERVICE s
          }
      | _ \<Rightarrow> Some (SOFTBUS_INVALID_PARAM, s))"

definition DiscUnPublishService :: "string option \<Rightarrow> int \<Rightarrow> disc \<Rightarrow> (int \<times> disc) option" where
  "DiscUnPublishService pkg n s =
     (case pkg of
        None \<Rightarrow> Some (SOFTBUS_INVALID_PARAM, s)
      | Some pkg \<Rightarrow>
          if length pkg \<ge> PKG_NAME_SIZE_MAX then Some (SOFTBUS_INVALID_PARAM, s)
          else if \<not> g_isInited s then Some (SOFTBUS_DISCOVER_MANAGER_NOT_INIT, s)
          else InnerUnPublishService pkg n PUBLISH_SERVICE s)"

definition DiscStartDiscovery ::
    "string option \<Rightarrow> SubscribeInfo option \<Rightarrow> InnerCallback option \<Rightarrow> disc \<Rightarrow> (int \<times> disc) option" where
  "DiscStartDiscovery pkg info cb s =
     (case (pkg, info, cb) of
        (Some pkg, Some info, Some cb) \<Rightarrow>
          if length pkg \<ge> PKG_NAME_SIZE_MAX then Some (SOFTBUS_INVALID_PARAM, s)
          else do {
            ret \<leftarrow> SubscribeInfoCheck info;
            if ret \<noteq> SOFTBUS_OK then Some (ret, s)
            else if \<not> g_isInited s then Some (SOFTBUS_DISCOVER_MANAGER_NOT_INIT, s)
            else subscribe_node (d_name_room s (d_tick s)) pkg info (Some cb) SUBSCRIBE_SERVICE s
          }
      | _ \<Rightarrow> Some (SOFTBUS_INVALID_PARAM, s))"

definition DiscStopDiscovery :: "string option \<Rightarrow> int \<Rightarrow> disc \<Rightarrow> (int \<times> disc) option" where
  "DiscStopDiscovery pkg n s =
     (case pkg of
        None \<Rightarrow> Some (SOFTBUS_INVALID_PARAM, s)
      | Some pkg \<Rightarrow>
          if length pkg \<ge> PKG_NAME_SIZE_MAX then Some (SOFTBUS_INVALID_PARAM, s)
          else if \<not> g_isInited s then Some (SOFTBUS_DISCOVER_MANAGER_NOT_INIT, s)
          else InnerStopDiscovery pkg n SUBSCRIBE_SERVICE s)"

definition DiscLinkStatusChanged :: "int \<Rightarrow> int \<Rightarrow> disc \<Rightarrow> disc" where
  "DiscLinkStatusChanged status medium s =
     (if medium = MEDIUM_COAP \<and> g_discCoapInterface s \<noteq> None then event (LinkStatusChanged status) s else s)"

definition DiscUpdateLocalDeviceInfo :: "int \<Rightarrow> disc \<Rightarrow> disc" where
  "DiscUpdateLocalDeviceInfo type s =
     (case g_discBleInterface s of
        None \<Rightarrow> s
      | Some f \<Rightarrow> if hasUpdateLocalDeviceInfo f then event (UpdateLocalDeviceInfo type) s else s)"

definition DiscDeviceInfoChanged :: "int \<Rightarrow> disc \<Rightarrow> disc" where
  "DiscDeviceInfoChanged type s = DiscUpdateLocalDeviceInfo type s"

subsection \<open>Start and end\<close>

text \<open>One decision stands for the allocation of a list and the initialisation of its lock; both failures have the same effect.\<close>

definition CreateSoftBusList :: "disc \<Rightarrow> SoftBusList option \<times> disc" where
  "CreateSoftBusList s = (let (ok, s) = calloc s in (if ok then Some \<lparr>sl_cnt = 0, sl_list = [], sl_depth = 0\<rparr> else None, s))"

definition DiscMgrInit :: "DiscoveryFuncInterface option \<Rightarrow> DiscoveryFuncInterface option \<Rightarrow> disc \<Rightarrow> int \<times> disc" where
  "DiscMgrInit coap ble s =
     (if g_isInited s then (SOFTBUS_OK, s)
      else let s = s\<lparr>g_discCoapInterface := coap, g_discBleInterface := ble\<rparr> in
        if coap = None \<and> ble = None then (SOFTBUS_ERR, s)
        else let (pl, s) = CreateSoftBusList s; (dl, s) = CreateSoftBusList s;
                 s = s\<lparr>g_publishInfoList := pl, g_discoveryInfoList := dl\<rparr>
             in if pl = None \<or> dl = None then (SOFTBUS_ERR, s)
                else (SOFTBUS_OK, s\<lparr>g_capabilityList := replicate CAPABILITY_MAX_BITNUM [], g_isInited := True\<rparr>))"

record IdContainer =
  ic_id :: int
  ic_pkgName :: "string option"

text \<open>The containers are private to one call: what matters is whether they could be allocated.\<close>

definition CreateIdContainer :: "int \<Rightarrow> string option \<Rightarrow> disc \<Rightarrow> IdContainer option \<times> disc" where
  "CreateIdContainer n pkg s =
     (let (ok, s) = calloc s in
      if \<not> ok then (None, s)
      else case pkg of
          None \<Rightarrow> (Some \<lparr>ic_id = n, ic_pkgName = None\<rparr>, s)
        | Some p \<Rightarrow>
            let (ok, s) = calloc s in (if ok then Some \<lparr>ic_id = n, ic_pkgName = Some p\<rparr> else None, s))"

fun CleanupPublishDiscovery :: "IdContainer list \<Rightarrow> ServiceType \<Rightarrow> disc \<Rightarrow> disc option" where
  "CleanupPublishDiscovery [] type s = Some s"
| "CleanupPublishDiscovery (it # its) type s = do {
     s \<leftarrow> (case type of
             PUBLISH_SERVICE \<Rightarrow> map_option snd (DiscUnPublishService (ic_pkgName it) (ic_id it) s)
           | SUBSCRIBE_SERVICE \<Rightarrow> map_option snd (DiscStopDiscovery (ic_pkgName it) (ic_id it) s)
           | _ \<Rightarrow> Some s);
     CleanupPublishDiscovery its type s
   }"

text \<open>
  Collecting the requests: the result says whether all containers could be allocated.
\<close>

fun collect_infos :: "string \<Rightarrow> addr list \<Rightarrow> IdContainer list \<Rightarrow> disc \<Rightarrow> (bool \<times> IdContainer list \<times> disc) option" where
  "collect_infos pkg [] ids s = Some (True, ids, s)"
| "collect_infos pkg (i # is) ids s = do {
     nd \<leftarrow> d_infos s i;
     let (c, s) = CreateIdContainer (di_id nd) (Some pkg) s;
     case c of
       None \<Rightarrow> Some (False, ids, s)
     | Some c \<Rightarrow> collect_infos pkg is (ids @ [c]) s
   }"

fun collect_items :: "string option \<Rightarrow> addr list \<Rightarrow> IdContainer list \<Rightarrow> disc \<Rightarrow> (bool \<times> IdContainer list \<times> disc) option" where
  "collect_items pkg [] ids s = Some (True, ids, s)"
| "collect_items pkg (a # as) ids s = do {
     it \<leftarrow> d_items s a;
     if pkg \<noteq> None \<and> packageName it \<noteq> the pkg then collect_items pkg as ids s
     else do {
       (ok, ids, s) \<leftarrow> collect_infos (packageName it) (InfoList it) ids s;
       if ok then collect_items pkg as ids s else Some (False, ids, s)
     }
   }"

definition DiscMgrInfoListDeinit :: "service \<Rightarrow> ServiceType \<Rightarrow> string option \<Rightarrow> disc \<Rightarrow> disc option" where
  "DiscMgrInfoListDeinit w type pkg s = do {
     (ok, s) \<leftarrow> SoftBusMutexLock w s;
     if \<not> ok then Some s
     else let (ids, s) = CreateIdContainer 0 None s in
       case ids of
         None \<Rightarrow> Some s
       | Some _ \<Rightarrow> do {
           l \<leftarrow> service_list w s;
           (ok, ids, s) \<leftarrow> collect_items pkg (sl_list l) [] s;
           s \<leftarrow> (if ok then CleanupPublishDiscovery ids type s else Some s);
           SoftBusMutexUnlock w s
         }
   }"

definition DiscMgrDeinit :: "disc \<Rightarrow> disc option" where
  "DiscMgrDeinit s =
     (if \<not> g_isInited s then Some s
      else do {
        s \<leftarrow> DiscMgrInfoListDeinit Publications PUBLISH_SERVICE None s;
        s \<leftarrow> DiscMgrInfoListDeinit Subscriptions SUBSCRIBE_SERVICE None s;
        Some (s\<lparr>g_publishInfoList := None, g_discoveryInfoList := None, g_discCoapInterface := None,
              g_discBleInterface := None, g_isInited := False\<rparr>)
      })"

definition DiscMgrDeathCallback :: "string option \<Rightarrow> disc \<Rightarrow> disc option" where
  "DiscMgrDeathCallback pkg s =
     (if pkg = None \<or> \<not> g_isInited s then Some s
      else do {
        s \<leftarrow> DiscMgrInfoListDeinit Publications PUBLISH_SERVICE pkg s;
        DiscMgrInfoListDeinit Subscriptions SUBSCRIBE_SERVICE pkg s
      })"

subsection \<open>The server\<close>

abbreviation (input) FAIL_REASON_NOT_SUPPORT_MEDIUM :: int where "FAIL_REASON_NOT_SUPPORT_MEDIUM \<equiv> 1"
abbreviation (input) FAIL_REASON_INTERNAL :: int where "FAIL_REASON_INTERNAL \<equiv> 2"

definition PublishErroCodeProcess :: "int \<Rightarrow> int" where
  "PublishErroCodeProcess erroCode =
     (if erroCode = SOFTBUS_DISCOVER_MANAGER_INVALID_MEDIUM then FAIL_REASON_NOT_SUPPORT_MEDIUM else FAIL_REASON_INTERNAL)"

definition DiscoveryErroCodeProcess :: "int \<Rightarrow> int" where
  "DiscoveryErroCodeProcess erroCode =
     (if erroCode = SOFTBUS_DISCOVER_MANAGER_INVALID_MEDIUM then FAIL_REASON_NOT_SUPPORT_MEDIUM else FAIL_REASON_INTERNAL)"

definition DiscIpcPublishService :: "string \<Rightarrow> PublishInfo option \<Rightarrow> disc \<Rightarrow> (int \<times> disc) option" where
  "DiscIpcPublishService pkg info s = do {
     (ret, s) \<leftarrow> DiscPublishService (Some pkg) info s;
     info \<leftarrow> info;
     if ret \<noteq> SOFTBUS_OK
     then Some (ret, event (ClientIpcOnPublishFail pkg (publishId info) (PublishErroCodeProcess ret)) s)
     else Some (SOFTBUS_OK, event (ClientIpcOnPublishSuccess pkg (publishId info)) s)
   }"

definition DiscIpcUnPublishService :: "string \<Rightarrow> int \<Rightarrow> disc \<Rightarrow> (int \<times> disc) option" where
  "DiscIpcUnPublishService pkg n s = DiscUnPublishService (Some pkg) n s"

definition SetCallLnnStatus :: "bool \<Rightarrow> disc \<Rightarrow> disc" where
  "SetCallLnnStatus flag s = s\<lparr>g_isCallLnn := flag\<rparr>"

text \<open>The callback of the server, \<^verbatim>\<open>ClientIpcOnDeviceFound\<close>, is function 0.\<close>

definition DiscIpcStartDiscovery :: "string \<Rightarrow> SubscribeInfo option \<Rightarrow> disc \<Rightarrow> (int \<times> disc) option" where
  "DiscIpcStartDiscovery pkg info s = do {
     (ret, s) \<leftarrow> DiscStartDiscovery (Some pkg) info (Some (ServerCb 0)) (SetCallLnnStatus False s);
     info \<leftarrow> info;
     if ret \<noteq> SOFTBUS_OK
     then Some (ret, event (ClientIpcOnDiscoverFailed pkg (subscribeId info) (DiscoveryErroCodeProcess ret)) s)
     else Some (SOFTBUS_OK, event (ClientIpcDiscoverySuccess pkg (subscribeId info)) s)
   }"

definition DiscIpcStopDiscovery :: "string \<Rightarrow> int \<Rightarrow> disc \<Rightarrow> (int \<times> disc) option" where
  "DiscIpcStopDiscovery pkg n s = DiscStopDiscovery (Some pkg) n s"

definition GetCallLnnStatus :: "disc \<Rightarrow> bool" where
  "GetCallLnnStatus s = g_isCallLnn s"

definition DiscServerInit :: "DiscoveryFuncInterface option \<Rightarrow> DiscoveryFuncInterface option \<Rightarrow> disc \<Rightarrow> int \<times> disc" where
  "DiscServerInit coap ble s =
     (let (ret, s) = DiscMgrInit coap ble s in if ret \<noteq> SOFTBUS_OK then (ret, s) else (SOFTBUS_OK, s))"

definition DiscServerDeinit :: "disc \<Rightarrow> disc option" where
  "DiscServerDeinit s = DiscMgrDeinit s"

definition DiscServerDeathCallback :: "string option \<Rightarrow> disc \<Rightarrow> disc option" where
  "DiscServerDeathCallback pkg s = DiscMgrDeathCallback pkg s"
end
