(* ===== verification/Disc_Registry.thy ===== *)
theory Disc_Registry
  imports Disc_Manager
begin

text \<open>
  The invariant of the discovery manager's data and what each elementary change does to it: changing a node that is on no list,
  a new item, a node put on the list of an item and on the list of its capability, a node taken away, and the
  deletion of an empty item. The abstraction is the set of the requests, pairs of a package and the contents
  of a node; every change says which request it adds or removes.
\<close>

section \<open>Invariant\<close>

fun option_ok :: "service \<Rightarrow> InnerOption \<Rightarrow> bool" where
  "option_ok Publications opt = (case opt of publishOption _ \<Rightarrow> True | _ \<Rightarrow> False)"
| "option_ok Subscriptions opt =
     (case opt of subscribeOption so \<Rightarrow> (\<exists>k < CAPABILITY_MAX_BITNUM. so_capabilityBitmap so = push_bit k 1) | _ \<Rightarrow> False)"

fun callback_ok :: "service \<Rightarrow> DiscItem \<Rightarrow> bool" where
  "callback_ok Publications it = (callback it = NullCb)"
| "callback_ok Subscriptions it =
     (if packageName it \<in> set g_discModuleMap then (\<forall>f. callback it \<noteq> ServerCb f) else (\<exists>f. callback it = ServerCb f))"

definition node_ok :: "service \<Rightarrow> (addr \<Rightarrow> DiscInfo option) \<Rightarrow> addr \<Rightarrow> addr \<Rightarrow> bool" where
  "node_ok w infs a i \<longleftrightarrow> (\<exists>nd. infs i = Some nd \<and> di_item nd = Some a \<and> option_ok w (di_option nd))"

definition item_ok :: "service \<Rightarrow> (addr \<Rightarrow> DiscItem option) \<Rightarrow> (addr \<Rightarrow> DiscInfo option) \<Rightarrow> addr \<Rightarrow> bool" where
  "item_ok w its infs a \<longleftrightarrow>
     (\<exists>it. its a = Some it \<and> distinct (InfoList it) \<and> infoNum it = of_nat (length (InfoList it)) \<and>
        (\<forall>i \<in> set (InfoList it). node_ok w infs a i) \<and> inj_on (\<lambda>i. di_id (the (infs i))) (set (InfoList it)) \<and>
        callback_ok w it \<and> length (packageName it) < PKG_NAME_SIZE_MAX)"

definition list_ok :: "service \<Rightarrow> SoftBusList \<Rightarrow> (addr \<Rightarrow> DiscItem option) \<Rightarrow> (addr \<Rightarrow> DiscInfo option) \<Rightarrow> bool" where
  "list_ok w l its infs \<longleftrightarrow>
     distinct (sl_list l) \<and> sl_cnt l = of_nat (length (sl_list l)) \<and> (\<forall>a \<in> set (sl_list l). item_ok w its infs a) \<and>
     inj_on (\<lambda>a. packageName (the (its a))) (set (sl_list l))"

text \<open>The nodes of the items of a list, with the names of the packages, and the subscriptions to one capability.\<close>

definition owned :: "addr list \<Rightarrow> (addr \<Rightarrow> DiscItem option) \<Rightarrow> (string \<times> addr) set" where
  "owned as its = {(packageName it, i) | a it i. a \<in> set as \<and> its a = Some it \<and> i \<in> set (InfoList it)}"

definition has_capability :: "(addr \<Rightarrow> DiscInfo option) \<Rightarrow> nat \<Rightarrow> addr \<Rightarrow> bool" where
  "has_capability infs k i \<longleftrightarrow>
     (\<exists>nd so. infs i = Some nd \<and> di_option nd = subscribeOption so \<and> so_capabilityBitmap so = push_bit k 1)"

definition subscribed :: "addr list \<Rightarrow> (addr \<Rightarrow> DiscItem option) \<Rightarrow> (addr \<Rightarrow> DiscInfo option) \<Rightarrow> nat \<Rightarrow> addr set" where
  "subscribed as its infs k = {i \<in> snd ` owned as its. has_capability infs k i}"

definition caps_ok :: "addr list \<Rightarrow> (addr \<Rightarrow> DiscItem option) \<Rightarrow> (addr \<Rightarrow> DiscInfo option) \<Rightarrow> addr list list \<Rightarrow> bool" where
  "caps_ok as its infs caps \<longleftrightarrow>
     length caps = CAPABILITY_MAX_BITNUM \<and>
     (\<forall>k < CAPABILITY_MAX_BITNUM. distinct (caps ! k) \<and> set (caps ! k) = subscribed as its infs k)"

definition reg_ok :: "(service \<Rightarrow> SoftBusList) \<Rightarrow> (addr \<Rightarrow> DiscItem option) \<Rightarrow> (addr \<Rightarrow> DiscInfo option) \<Rightarrow> addr list list \<Rightarrow> bool" where
  "reg_ok L its infs caps \<longleftrightarrow>
     (\<forall>w. list_ok w (L w) its infs) \<and>
     (\<forall>w w' a. a \<in> set (sl_list (L w)) \<longrightarrow> a \<in> set (sl_list (L w')) \<longrightarrow> w = w') \<and>
     caps_ok (sl_list (L Subscriptions)) its infs caps"

text \<open>The requests of the packages: name of the package and contents of the node.\<close>

definition request_set :: "addr list \<Rightarrow> (addr \<Rightarrow> DiscItem option) \<Rightarrow> (addr \<Rightarrow> DiscInfo option) \<Rightarrow> (string \<times> DiscInfo) set" where
  "request_set as its infs = {(n, nd\<lparr>di_item := None\<rparr>) | n i nd. (n, i) \<in> owned as its \<and> infs i = Some nd}"

lemma item_okE:
  assumes "item_ok w its infs a"
  obtains it where "its a = Some it"
  using assms unfolding item_ok_def by blast

lemma item_okD:
  assumes "item_ok w its infs a" and "its a = Some it"
  shows "distinct (InfoList it)" "infoNum it = of_nat (length (InfoList it))"
    "\<And>i. i \<in> set (InfoList it) \<Longrightarrow> node_ok w infs a i" "inj_on (\<lambda>i. di_id (the (infs i))) (set (InfoList it))"
    "callback_ok w it" "length (packageName it) < PKG_NAME_SIZE_MAX"
  using assms unfolding item_ok_def by auto

lemma item_okI:
  assumes "its a = Some it" "distinct (InfoList it)" "infoNum it = of_nat (length (InfoList it))"
    "\<And>i. i \<in> set (InfoList it) \<Longrightarrow> node_ok w infs a i" "inj_on (\<lambda>i. di_id (the (infs i))) (set (InfoList it))"
    "callback_ok w it" "length (packageName it) < PKG_NAME_SIZE_MAX"
  shows "item_ok w its infs a"
  using assms unfolding item_ok_def by auto

lemma reg_okD:
  assumes "reg_ok L its infs caps"
  shows "distinct (sl_list (L w))" and "sl_cnt (L w) = of_nat (length (sl_list (L w)))"
    and "\<And>a. a \<in> set (sl_list (L w)) \<Longrightarrow> item_ok w its infs a"
    and "inj_on (\<lambda>a. packageName (the (its a))) (set (sl_list (L w)))"
    and "\<And>w w' a. a \<in> set (sl_list (L w)) \<Longrightarrow> a \<in> set (sl_list (L w')) \<Longrightarrow> w = w'"
    and "caps_ok (sl_list (L Subscriptions)) its infs caps"
  using assms unfolding reg_ok_def list_ok_def by blast+

text \<open>A node that is on a list belongs to the item whose list it is on.\<close>

lemma linked_item:
  assumes "reg_ok L its infs caps" and "a \<in> set (sl_list (L w))" and "its a = Some it" and "i \<in> set (InfoList it)"
  obtains nd where "infs i = Some nd" "di_item nd = Some a" "option_ok w (di_option nd)"
  using reg_okD(3) [OF assms(1,2)] assms(3,4) unfolding item_ok_def node_ok_def by fastforce

lemma linked_unique:
  assumes "reg_ok L its infs caps" and "a \<in> set (sl_list (L w))" and "its a = Some it" and "i \<in> set (InfoList it)"
    and "b \<in> set (sl_list (L w'))" and "its b = Some it'" and "i \<in> set (InfoList it')"
  shows "a = b" "w = w'"
proof -
  obtain nd where nd: "infs i = Some nd" "di_item nd = Some a" by (rule linked_item [OF assms(1-4)])
  obtain nd' where nd': "infs i = Some nd'" "di_item nd' = Some b" by (rule linked_item [OF assms(1,5-7)])
  show "a = b" using nd nd' by simp
  then have "a \<in> set (sl_list (L w'))" using assms(5) by simp
  then show "w = w'" by (rule reg_okD(5) [OF assms(1,2)])
qed

definition unlinked :: "(service \<Rightarrow> SoftBusList) \<Rightarrow> (addr \<Rightarrow> DiscItem option) \<Rightarrow> addr \<Rightarrow> bool" where
  "unlinked L its i \<longleftrightarrow> (\<forall>w. i \<notin> snd ` owned (sl_list (L w)) its)"

lemma ownedI: "a \<in> set as \<Longrightarrow> its a = Some it \<Longrightarrow> i \<in> set (InfoList it) \<Longrightarrow> (packageName it, i) \<in> owned as its"
  unfolding owned_def by blast

lemma ownedE:
  assumes "(n, i) \<in> owned as its"
  obtains a it where "a \<in> set as" "its a = Some it" "n = packageName it" "i \<in> set (InfoList it)"
  using assms unfolding owned_def by blast

lemma owned_snd: "(n, i) \<in> owned as its \<Longrightarrow> i \<in> snd ` owned as its"
  by (rule image_eqI [where x = "(n, i)"]) simp_all

lemma unlinkedD:
  assumes "unlinked L its i" and "a \<in> set (sl_list (L w))" and "its a = Some it"
  shows "i \<notin> set (InfoList it)"
proof
  assume "i \<in> set (InfoList it)"
  from owned_snd [OF ownedI [where its = its, OF assms(2,3) this]] show False using assms(1) unfolding unlinked_def by blast
qed

text \<open>Changing a node that is on no list, and allocating one.\<close>

lemma reg_ok_infs:
  assumes "reg_ok L its infs caps" and "unlinked L its i"
  shows "reg_ok L its (infs(i := x)) caps" and "request_set (sl_list (L w)) its (infs(i := x)) = request_set (sl_list (L w)) its infs"
proof -
  have item: "item_ok w its (infs(i := x)) a" if "a \<in> set (sl_list (L w))" for w a
  proof -
    note ok = reg_okD(3) [OF assms(1) that]
    from ok obtain it where it: "its a = Some it" by (rule item_okE)
    note d = item_okD [OF ok it]
    have ne: "i \<notin> set (InfoList it)" by (rule unlinkedD [OF assms(2) that it])
    show ?thesis
    proof (rule item_okI [of its a it w, OF it d(1,2) _ _ d(5,6)])
      show "node_ok w (infs(i := x)) a j" if "j \<in> set (InfoList it)" for j
        using d(3) [OF that] ne that by (auto simp: node_ok_def)
      show "inj_on (\<lambda>j. di_id (the ((infs(i := x)) j))) (set (InfoList it))"
        using d(4) ne by (simp add: inj_on_def)
    qed
  qed
  have nj: "j \<noteq> i" if "j \<in> snd ` owned (sl_list (L w)) its" for j w
    using assms(2) that unfolding unlinked_def by blast
  have hc: "has_capability (infs(i := x)) k j = has_capability infs k j" if "j \<noteq> i" for j k
    using that by (simp add: has_capability_def)
  have "subscribed (sl_list (L Subscriptions)) its (infs(i := x)) k = subscribed (sl_list (L Subscriptions)) its infs k" for k
    using nj hc unfolding subscribed_def by blast
  then show "reg_ok L its (infs(i := x)) caps"
    using assms(1) item unfolding reg_ok_def list_ok_def caps_ok_def by simp
  have "((n, j) \<in> owned (sl_list (L w)) its \<and> (infs(i := x)) j = Some nd) = ((n, j) \<in> owned (sl_list (L w)) its \<and> infs j = Some nd)" for n j nd
    using nj owned_snd by (metis fun_upd_other)
  then show "request_set (sl_list (L w)) its (infs(i := x)) = request_set (sl_list (L w)) its infs"
    unfolding request_set_def by simp
qed

text \<open>Changing the callback of an item.\<close>

lemma owned_callback:
  assumes "its a = Some it" and "InfoList it' = InfoList it" and "packageName it' = packageName it"
  shows "owned as (its(a \<mapsto> it')) = owned as its"
proof -
  have "(\<exists>x. (its(a \<mapsto> it')) b = Some x \<and> i \<in> set (InfoList x) \<and> n = packageName x) =
      (\<exists>x. its b = Some x \<and> i \<in> set (InfoList x) \<and> n = packageName x)" for b i n
    using assms by (cases "b = a") simp_all
  then show ?thesis unfolding owned_def by blast
qed

text \<open>A new item has no nodes.\<close>

lemma owned_new_item:
  assumes "a \<notin> set as" and "set as' = insert a (set as)" and "InfoList it = []"
  shows "owned as' (its(a \<mapsto> it)) = owned as its"
proof -
  have "(b \<in> set as' \<and> (its(a \<mapsto> it)) b = Some x \<and> i \<in> set (InfoList x)) = (b \<in> set as \<and> its b = Some x \<and> i \<in> set (InfoList x))" for b x i
    using assms by (cases "b = a") auto
  then show ?thesis unfolding owned_def by simp
qed

lemma owned_other:
  assumes "a \<notin> set as"
  shows "owned as (its(a := x)) = owned as its"
proof -
  have "(b \<in> set as \<and> (its(a := x)) b = Some y \<and> i \<in> set (InfoList y)) = (b \<in> set as \<and> its b = Some y \<and> i \<in> set (InfoList y))" for b y i
    using assms by (cases "b = a") auto
  then show ?thesis unfolding owned_def by simp
qed

lemma inj_on_fresh:
  assumes "inj_on f A" and "\<And>y. y \<in> A \<Longrightarrow> g y = f y" and "\<And>y. y \<in> A \<Longrightarrow> f y \<noteq> g a"
  shows "inj_on g (insert a A)"
proof (cases "a \<in> A")
  case True
  then have "insert a A = A" by blast
  then show ?thesis using assms(1,2) by (simp add: inj_on_def)
next
  case False
  have "inj_on g A" using assms(1,2) by (simp add: inj_on_def)
  moreover have "g a \<notin> g ` A" using assms(2,3) by force
  ultimately show ?thesis using False by (simp add: inj_on_insert)
qed

lemma reg_ok_new_item:
  assumes "reg_ok L its infs caps" and "\<And>v. a \<notin> set (sl_list (L v))"
    and "set as = insert a (set (sl_list (L w)))" "distinct as" "length as = Suc (length (sl_list (L w)))"
    and "InfoList it = []" "infoNum it = 0" "callback_ok w it" "length (packageName it) < PKG_NAME_SIZE_MAX"
    and "\<And>b x. b \<in> set (sl_list (L w)) \<Longrightarrow> its b = Some x \<Longrightarrow> packageName x \<noteq> packageName it"
    and "sl_list l = as" "sl_cnt l = sl_cnt (L w) + 1"
  shows "reg_ok (L(w := l)) (its(a \<mapsto> it)) infs caps"
proof -
  let ?L = "L(w := l)"
  have mem: "b \<in> set (sl_list (?L v)) \<longleftrightarrow> b \<in> set (sl_list (L v)) \<or> (v = w \<and> b = a)" for b v
    using assms(3,11) by auto
  have old: "item_ok v (its(a \<mapsto> it)) infs b" if "b \<in> set (sl_list (L v))" for v b
  proof -
    have "b \<noteq> a" using that assms(2) by blast
    then show ?thesis using reg_okD(3) [OF assms(1) that] by (simp add: item_ok_def)
  qed
  have new: "item_ok w (its(a \<mapsto> it)) infs a"
    by (rule item_okI [of _ _ it]) (use assms(6-9) in simp_all)
  have names: "inj_on (\<lambda>b. packageName (the ((its(a \<mapsto> it)) b))) (set (sl_list (?L v)))" for v
  proof (cases "v = w")
    case True
    have "inj_on (\<lambda>b. packageName (the ((its(a \<mapsto> it)) b))) (insert a (set (sl_list (L w))))"
    proof (rule inj_on_fresh [OF reg_okD(4) [OF assms(1)]])
      fix y assume y: "y \<in> set (sl_list (L w))"
      then show "packageName (the ((its(a \<mapsto> it)) y)) = packageName (the (its y))" using assms(2) by auto
      from y obtain x where "its y = Some x" by (meson item_okE reg_okD(3) [OF assms(1)])
      then show "packageName (the (its y)) \<noteq> packageName (the ((its(a \<mapsto> it)) a))" using assms(10) [OF y] by simp
    qed
    then show ?thesis using True assms(3,11) by simp
  next
    case False
    have "inj_on (\<lambda>b. packageName (the ((its(a \<mapsto> it)) b))) (set (sl_list (L v))) = inj_on (\<lambda>b. packageName (the (its b))) (set (sl_list (L v)))"
      by (rule inj_on_cong) (use assms(2) in auto)
    then show ?thesis using False reg_okD(4) [OF assms(1), of v] by simp
  qed
  have o: "owned (sl_list (?L Subscriptions)) (its(a \<mapsto> it)) = owned (sl_list (L Subscriptions)) its"
  proof (cases "w = Subscriptions")
    case True
    then show ?thesis using owned_new_item [OF assms(2) assms(3,6)] assms(11) by simp
  next
    case False
    then show ?thesis using owned_other [OF assms(2)] by simp
  qed
  moreover have "\<forall>v v' b. b \<in> set (sl_list (?L v)) \<longrightarrow> b \<in> set (sl_list (?L v')) \<longrightarrow> v = v'"
    unfolding mem using reg_okD(5) [OF assms(1)] assms(2) by blast
  moreover have "list_ok v (?L v) (its(a \<mapsto> it)) infs" for v
  proof -
    have "item_ok v (its(a \<mapsto> it)) infs b" if "b \<in> set (sl_list (?L v))" for b
      using that old new unfolding mem by blast
    then show ?thesis
      unfolding list_ok_def using reg_okD(1,2) [OF assms(1)] assms(4,5,11,12) names [of v] by (cases "v = w") simp_all
  qed
  moreover have "caps_ok (sl_list (?L Subscriptions)) (its(a \<mapsto> it)) infs caps"
    using reg_okD(6) [OF assms(1)] unfolding caps_ok_def subscribed_def o .
  ultimately show ?thesis unfolding reg_ok_def by blast
qed

text \<open>Putting a node on the list of an item, and taking it away.\<close>

lemma push_bit_inj: "j < CAPABILITY_MAX_BITNUM \<Longrightarrow> k < CAPABILITY_MAX_BITNUM \<Longrightarrow> push_bit j (1 :: u32) = push_bit k 1 \<Longrightarrow> j = k"
proof -
  assume j: "j < CAPABILITY_MAX_BITNUM" and eq: "push_bit j (1 :: u32) = push_bit k 1"
  have "bit (2 ^ j :: u32) j" using j by (simp add: bit_exp_iff)
  then have "bit (2 ^ k :: u32) j" using eq by simp
  then show ?thesis by (simp add: bit_exp_iff)
qed

lemma owned_upd:
  assumes "its a = Some it" and "a \<in> set as" and "packageName it' = packageName it"
    and "\<And>b x j. b \<in> set as \<Longrightarrow> b \<noteq> a \<Longrightarrow> its b = Some x \<Longrightarrow> packageName x \<noteq> packageName it"
  shows "owned as (its(a \<mapsto> it')) = {x \<in> owned as its. fst x \<noteq> packageName it} \<union> Pair (packageName it) ` set (InfoList it')"
proof (intro equalityI subsetI)
  fix x assume "x \<in> owned as (its(a \<mapsto> it'))"
  then obtain n i where x: "x = (n, i)" "(n, i) \<in> owned as (its(a \<mapsto> it'))" by (cases x) simp
  from x(2) obtain b y where b: "b \<in> set as" "(its(a \<mapsto> it')) b = Some y" "n = packageName y" "i \<in> set (InfoList y)" by (rule ownedE)
  show "x \<in> {x \<in> owned as its. fst x \<noteq> packageName it} \<union> Pair (packageName it) ` set (InfoList it')"
  proof (cases "b = a")
    case True
    then show ?thesis using b x(1) assms(3) by simp
  next
    case False
    then have y: "its b = Some y" using b(2) by simp
    have "(n, i) \<in> owned as its" unfolding b(3) by (rule ownedI [of b _ its, OF b(1) y b(4)])
    moreover have "n \<noteq> packageName it" unfolding b(3) by (rule assms(4) [OF b(1) False y])
    ultimately show ?thesis using x(1) by simp
  qed
next
  fix x assume "x \<in> {x \<in> owned as its. fst x \<noteq> packageName it} \<union> Pair (packageName it) ` set (InfoList it')"
  then consider "x \<in> owned as its" "fst x \<noteq> packageName it" | i where "x = (packageName it', i)" "i \<in> set (InfoList it')"
    using assms(3) by auto
  then show "x \<in> owned as (its(a \<mapsto> it'))"
  proof cases
    case 1
    obtain n i where x: "x = (n, i)" by (cases x)
    from 1(1) obtain b y where b: "b \<in> set as" "its b = Some y" "n = packageName y" "i \<in> set (InfoList y)" unfolding x by (rule ownedE)
    have "b \<noteq> a" using 1(2) b(2,3) assms(1) x by auto
    then have "(its(a \<mapsto> it')) b = Some y" using b(2) by simp
    from ownedI [of b _ "its(a \<mapsto> it')", OF b(1) this b(4)] show ?thesis using x b(3) by simp
  next
    case 2
    then show ?thesis using ownedI [of a as "its(a \<mapsto> it')" it'] assms(2) by simp
  qed
qed

lemma owned_name:
  assumes "reg_ok L its infs caps" and "a \<in> set (sl_list (L w))" and "its a = Some it"
  shows "(packageName it, i) \<in> owned (sl_list (L w)) its \<longleftrightarrow> i \<in> set (InfoList it)"
    and "b \<in> set (sl_list (L w)) \<Longrightarrow> b \<noteq> a \<Longrightarrow> its b = Some x \<Longrightarrow> packageName x \<noteq> packageName it"
proof -
  have inj: "b = a" if "b \<in> set (sl_list (L w))" "its b = Some x" "packageName x = packageName it" for b x
    using inj_onD [OF reg_okD(4) [OF assms(1)], of b a w] that assms(2,3) by simp
  then show "b \<in> set (sl_list (L w)) \<Longrightarrow> b \<noteq> a \<Longrightarrow> its b = Some x \<Longrightarrow> packageName x \<noteq> packageName it" by blast
  show "(packageName it, i) \<in> owned (sl_list (L w)) its \<longleftrightarrow> i \<in> set (InfoList it)"
  proof
    assume "(packageName it, i) \<in> owned (sl_list (L w)) its"
    then obtain b x where b: "b \<in> set (sl_list (L w))" "its b = Some x" "packageName it = packageName x" "i \<in> set (InfoList x)" by (rule ownedE)
    then have "b = a" using inj by simp
    then show "i \<in> set (InfoList it)" using b assms(3) by simp
  next
    assume "i \<in> set (InfoList it)"
    then show "(packageName it, i) \<in> owned (sl_list (L w)) its" by (rule ownedI [of a _ its, OF assms(2,3)])
  qed
qed

text \<open>What a change of the nodes of one item means for the whole registry.\<close>

lemma caps_ok_other:
  assumes "reg_ok L its infs caps" and "a \<in> set (sl_list (L Publications))"
  shows "caps_ok (sl_list (L Subscriptions)) (its(a := x)) infs caps"
proof -
  have "a \<notin> set (sl_list (L Subscriptions))" using reg_okD(5) [OF assms(1,2)] by blast
  then show ?thesis using reg_okD(6) [OF assms(1)] unfolding caps_ok_def subscribed_def by (simp add: owned_other)
qed

lemma reg_ok_nodes:
  assumes "reg_ok L its infs caps" and "a \<in> set (sl_list (L w))" and "its a = Some it"
    and "distinct (InfoList it')" "infoNum it' = of_nat (length (InfoList it'))" "packageName it' = packageName it" "callback_ok w it'"
    and "\<And>i. i \<in> set (InfoList it') \<Longrightarrow> node_ok w infs a i" and "inj_on (\<lambda>i. di_id (the (infs i))) (set (InfoList it'))"
    and "w = Subscriptions \<Longrightarrow> caps_ok (sl_list (L w)) (its(a \<mapsto> it')) infs caps'" and "w = Publications \<Longrightarrow> caps' = caps"
  shows "reg_ok L (its(a \<mapsto> it')) infs caps'"
proof -
  have item: "item_ok v (its(a \<mapsto> it')) infs b" if "b \<in> set (sl_list (L v))" for v b
  proof (cases "b = a")
    case True
    then have vw: "v = w" using reg_okD(5) [OF assms(1)] assms(2) that by metis
    have "length (packageName it') < PKG_NAME_SIZE_MAX" using item_okD(6) [OF reg_okD(3) [OF assms(1,2)] assms(3)] assms(6) by simp
    then show ?thesis unfolding vw True by (intro item_okI [of _ _ it']) (use assms(4-9) in simp_all)
  next
    case False
    then show ?thesis using reg_okD(3) [OF assms(1) that] by (simp add: item_ok_def)
  qed
  have "(\<lambda>b. packageName (the ((its(a \<mapsto> it')) b))) = (\<lambda>b. packageName (the (its b)))"
    using assms(3,6) by (simp add: fun_eq_iff)
  then have "inj_on (\<lambda>b. packageName (the ((its(a \<mapsto> it')) b))) (set (sl_list (L v)))" for v
    using reg_okD(4) [OF assms(1), of v] by simp
  then have "list_ok v (L v) (its(a \<mapsto> it')) infs" for v
    using reg_okD(1,2) [OF assms(1)] item unfolding list_ok_def by blast
  moreover have "caps_ok (sl_list (L Subscriptions)) (its(a \<mapsto> it')) infs caps'"
  proof (cases w)
    case Publications
    then show ?thesis using caps_ok_other [OF assms(1)] assms(2,11) by simp
  next
    case Subscriptions
    then show ?thesis using assms(10) by simp
  qed
  ultimately show ?thesis using reg_okD(5) [OF assms(1)] unfolding reg_ok_def by blast
qed

lemma reg_ok_callback:
  assumes "reg_ok L its infs caps" and "a \<in> set (sl_list (L w))" and "its a = Some it"
    and "InfoList it' = InfoList it" "infoNum it' = infoNum it" "packageName it' = packageName it" "callback_ok w it'"
  shows "reg_ok L (its(a \<mapsto> it')) infs caps"
proof -
  note d = item_okD [OF reg_okD(3) [OF assms(1,2)] assms(3)]
  show ?thesis
  proof (rule reg_ok_nodes [OF assms(1-3) _ _ assms(6,7)])
    show "caps_ok (sl_list (L w)) (its(a \<mapsto> it')) infs caps" if "w = Subscriptions"
      using reg_okD(6) [OF assms(1)] that unfolding caps_ok_def subscribed_def owned_callback [of its, OF assms(3,4,6)] by simp
  qed (use d assms(4,5) in simp_all)
qed

text \<open>The new contents of the capability lists.\<close>

fun caps_insert :: "service \<Rightarrow> nat \<Rightarrow> addr list \<Rightarrow> addr list list \<Rightarrow> addr list list" where
  "caps_insert Publications k xs caps = caps"
| "caps_insert Subscriptions k xs caps = caps[k := xs]"

fun caps_remove :: "service \<Rightarrow> addr \<Rightarrow> addr list list \<Rightarrow> addr list list" where
  "caps_remove Publications i caps = caps"
| "caps_remove Subscriptions i caps = map (remove1 i) caps"

lemma owned_names:
  assumes "reg_ok L its infs caps" and "a \<in> set (sl_list (L w))" and "its a = Some it" and "packageName it' = packageName it"
  shows "owned (sl_list (L w)) (its(a \<mapsto> it')) =
    {x \<in> owned (sl_list (L w)) its. fst x \<noteq> packageName it} \<union> Pair (packageName it) ` set (InfoList it')"
  by (rule owned_upd [of its, OF assms(3,2,4)]) (use owned_name(2) [OF assms(1-3)] in blast)

lemma owned_link:
  assumes "reg_ok L its infs caps" and "a \<in> set (sl_list (L w))" and "its a = Some it" and "packageName it' = packageName it"
    and "set (InfoList it') = insert i (set (InfoList it))"
  shows "owned (sl_list (L w)) (its(a \<mapsto> it')) = insert (packageName it, i) (owned (sl_list (L w)) its)"
proof -
  note n = owned_name(1) [OF assms(1-3)]
  have "x \<in> owned (sl_list (L w)) (its(a \<mapsto> it')) \<longleftrightarrow> x \<in> insert (packageName it, i) (owned (sl_list (L w)) its)" for x
    unfolding owned_names [OF assms(1-4)] assms(5) using n by (cases x) auto
  then show ?thesis by blast
qed

lemma owned_unlink:
  assumes "reg_ok L its infs caps" and "a \<in> set (sl_list (L w))" and "its a = Some it" and "packageName it' = packageName it"
    and "set (InfoList it') = set (InfoList it) - {i}"
  shows "owned (sl_list (L w)) (its(a \<mapsto> it')) = owned (sl_list (L w)) its - {(packageName it, i)}"
proof -
  note n = owned_name(1) [OF assms(1-3)]
  have "x \<in> owned (sl_list (L w)) (its(a \<mapsto> it')) \<longleftrightarrow> x \<in> owned (sl_list (L w)) its - {(packageName it, i)}" for x
    unfolding owned_names [OF assms(1-4)] assms(5) using n by (cases x) auto
  then show ?thesis by blast
qed

lemma caps_okD:
  assumes "caps_ok as its infs caps" and "k < CAPABILITY_MAX_BITNUM"
  shows "distinct (caps ! k)" and "set (caps ! k) = subscribed as its infs k" and "k < length caps"
  using assms unfolding caps_ok_def by auto

lemma caps_ok_insert:
  assumes "caps_ok as its infs caps" and "owned as' its' = insert (n, i) (owned as its)"
    and "infs i = Some nd" "di_option nd = subscribeOption so" "so_capabilityBitmap so = push_bit k 1" "k < CAPABILITY_MAX_BITNUM"
    and "distinct xs" "set xs = insert i (set (caps ! k))"
  shows "caps_ok as' its' infs (caps[k := xs])"
  unfolding caps_ok_def
proof (intro conjI allI impI)
  show "length (caps[k := xs]) = CAPABILITY_MAX_BITNUM" using assms(1) by (simp add: caps_ok_def)
  fix j assume j: "j < CAPABILITY_MAX_BITNUM"
  note cj = caps_okD [OF assms(1) j] and ck = caps_okD [OF assms(1,6)]
  show "distinct (caps[k := xs] ! j)" using cj(1,3) assms(7) by (cases "j = k") simp_all
  have cap: "has_capability infs j i \<longleftrightarrow> j = k"
  proof
    assume "has_capability infs j i"
    then have "push_bit j (1 :: u32) = push_bit k 1" using assms(3-5) unfolding has_capability_def by auto
    then show "j = k" by (rule push_bit_inj [OF j assms(6)])
  qed (use assms(3-5) in \<open>auto simp: has_capability_def\<close>)
  have "subscribed as' its' infs j = (if j = k then insert i (subscribed as its infs j) else subscribed as its infs j)"
    unfolding subscribed_def assms(2) using cap by auto
  then show "set (caps[k := xs] ! j) = subscribed as' its' infs j"
    using cj(2,3) ck(2) assms(8) by (cases "j = k") simp_all
qed

lemma caps_ok_remove:
  assumes "caps_ok as its infs caps" and "snd ` owned as' its' = snd ` owned as its - {i}"
  shows "caps_ok as' its' infs (map (remove1 i) caps)"
  unfolding caps_ok_def
proof (intro conjI allI impI)
  show "length (map (remove1 i) caps) = CAPABILITY_MAX_BITNUM" using assms(1) by (simp add: caps_ok_def)
  fix j assume j: "j < CAPABILITY_MAX_BITNUM"
  note cj = caps_okD [OF assms(1) j]
  show "distinct (map (remove1 i) caps ! j)" using cj by (simp add: distinct_remove1)
  have "subscribed as' its' infs j = subscribed as its infs j - {i}"
    unfolding subscribed_def assms(2) by auto
  then show "set (map (remove1 i) caps ! j) = subscribed as' its' infs j" using cj by (simp add: set_remove1_eq)
qed

lemma request_set_other: "a \<notin> set as \<Longrightarrow> request_set as (its(a := x)) infs = request_set as its infs"
  by (simp add: request_set_def owned_other)

lemma reg_ok_link:
  assumes "reg_ok L its infs caps" and "a \<in> set (sl_list (L w))" and "its a = Some it" and "infs i = Some nd" and "unlinked L its i"
    and "option_ok w (di_option nd)" and "\<forall>j \<in> set (InfoList it). di_id (the (infs j)) \<noteq> di_id nd"
    and "InfoList it' = InfoList it @ [i]" "infoNum it' = infoNum it + 1" "packageName it' = packageName it" "callback_ok w it'"
    and "nd' = nd\<lparr>di_item := Some a\<rparr>"
    and "\<forall>so. w = Subscriptions \<and> di_option nd = subscribeOption so \<longrightarrow>
      k < CAPABILITY_MAX_BITNUM \<and> so_capabilityBitmap so = push_bit k 1 \<and> distinct xs \<and> set xs = insert i (set (caps ! k))"
  shows "reg_ok L (its(a \<mapsto> it')) (infs(i \<mapsto> nd')) (caps_insert w k xs caps)"
    and "request_set (sl_list (L w)) (its(a \<mapsto> it')) (infs(i \<mapsto> nd')) =
      insert (packageName it, nd\<lparr>di_item := None\<rparr>) (request_set (sl_list (L w)) its infs)"
    and "v \<noteq> w \<Longrightarrow> request_set (sl_list (L v)) (its(a \<mapsto> it')) (infs(i \<mapsto> nd')) = request_set (sl_list (L v)) its infs"
proof -
  let ?infs = "infs(i \<mapsto> nd')"
  note reg = reg_ok_infs [OF assms(1,5), where x = "Some nd'"]
  note d = item_okD [OF reg_okD(3) [OF reg(1) assms(2)] assms(3)]
  have new: "i \<notin> set (InfoList it)" by (rule unlinkedD [OF assms(5,2,3)])
  have own: "owned (sl_list (L w)) (its(a \<mapsto> it')) = insert (packageName it, i) (owned (sl_list (L w)) its)"
    using owned_link [OF assms(1-3,10)] assms(8) by simp
  show "reg_ok L (its(a \<mapsto> it')) ?infs (caps_insert w k xs caps)"
  proof (rule reg_ok_nodes [OF reg(1) assms(2,3) _ _ assms(10,11)])
    show "distinct (InfoList it')" using d(1) new assms(8) by simp
    show "infoNum it' = of_nat (length (InfoList it'))" using d(2) assms(8,9) by simp
    show "node_ok w ?infs a j" if "j \<in> set (InfoList it')" for j
    proof (cases "j = i")
      case True
      then show ?thesis using assms(6,12) by (simp add: node_ok_def)
    next
      case False
      then show ?thesis using d(3) [of j] that assms(8) by simp
    qed
    show "inj_on (\<lambda>j. di_id (the (?infs j))) (set (InfoList it'))"
    proof -
      have "inj_on (\<lambda>j. di_id (the (?infs j))) (insert i (set (InfoList it)))"
        by (rule inj_on_fresh [OF d(4)]) (use new assms(7,12) in auto)
      then show ?thesis using assms(8) by simp
    qed
    show "caps_ok (sl_list (L w)) (its(a \<mapsto> it')) ?infs (caps_insert w k xs caps)" if w: "w = Subscriptions"
    proof -
      obtain so where so: "di_option nd = subscribeOption so" using assms(6) w by (auto split: InnerOption.splits)
      have k: "k < CAPABILITY_MAX_BITNUM \<and> so_capabilityBitmap so = push_bit k 1 \<and> distinct xs \<and> set xs = insert i (set (caps ! k))"
        using assms(13) w so by blast
      show ?thesis
        unfolding w caps_insert.simps
        by (rule caps_ok_insert [OF reg_okD(6) [OF reg(1)], of _ _ "packageName it" i nd' so k])
          (use own k so w assms(12) in simp_all)
    qed
  qed simp
  have keep: "?infs j = infs j" if "(n, j) \<in> owned (sl_list (L v)) its" for n j v
    using owned_snd [OF that] assms(5) unfolding unlinked_def by (metis fun_upd_other)
  show "request_set (sl_list (L w)) (its(a \<mapsto> it')) ?infs =
      insert (packageName it, nd\<lparr>di_item := None\<rparr>) (request_set (sl_list (L w)) its infs)"
  proof -
    have "request_set (sl_list (L w)) (its(a \<mapsto> it')) ?infs =
        insert (packageName it, nd'\<lparr>di_item := None\<rparr>) (request_set (sl_list (L w)) its ?infs)"
      unfolding request_set_def own by auto
    then show ?thesis using reg(2) assms(12) by simp
  qed
  show "request_set (sl_list (L v)) (its(a \<mapsto> it')) ?infs = request_set (sl_list (L v)) its infs" if "v \<noteq> w"
  proof -
    have "a \<notin> set (sl_list (L v))" using reg_okD(5) [OF assms(1,2)] that by blast
    then show ?thesis using reg(2) by (simp add: request_set_other)
  qed
qed

lemma of_nat_remove1: "i \<in> set xs \<Longrightarrow> of_nat (length xs) - 1 = (of_nat (length (remove1 i xs)) :: u32)"
proof -
  assume "i \<in> set xs"
  then have l: "length xs = Suc (length (remove1 i xs))" using length_pos_if_in_set [of i xs] by (simp add: length_remove1)
  show ?thesis by (subst l) simp
qed

lemma reg_ok_unlink:
  assumes "reg_ok L its infs caps" and "a \<in> set (sl_list (L w))" and "its a = Some it" and "i \<in> set (InfoList it)" and "infs i = Some nd"
    and "it' = it\<lparr>infoNum := infoNum it - 1, InfoList := remove1 i (InfoList it)\<rparr>"
  shows "reg_ok L (its(a \<mapsto> it')) infs (caps_remove w i caps)" and "unlinked L (its(a \<mapsto> it')) i"
    and "request_set (sl_list (L w)) (its(a \<mapsto> it')) infs = request_set (sl_list (L w)) its infs - {(packageName it, nd\<lparr>di_item := None\<rparr>)}"
    and "v \<noteq> w \<Longrightarrow> request_set (sl_list (L v)) (its(a \<mapsto> it')) infs = request_set (sl_list (L v)) its infs"
proof -
  note d = item_okD [OF reg_okD(3) [OF assms(1,2)] assms(3)]
  have set': "set (InfoList it') = set (InfoList it) - {i}" using d(1) assms(6) by (simp add: set_remove1_eq)
  have name: "packageName it' = packageName it" using assms(6) by simp
  have own: "owned (sl_list (L w)) (its(a \<mapsto> it')) = owned (sl_list (L w)) its - {(packageName it, i)}"
    by (rule owned_unlink [OF assms(1-3) name set'])
  have only: "n = packageName it \<and> v = w" if "(n, i) \<in> owned (sl_list (L v)) its" for n v
  proof -
    from that obtain b x where b: "b \<in> set (sl_list (L v))" "its b = Some x" "n = packageName x" "i \<in> set (InfoList x)" by (rule ownedE)
    from linked_unique [OF assms(1) b(1,2,4) assms(2-4)] show ?thesis using b(2,3) assms(3) by simp
  qed
  have img: "snd ` owned (sl_list (L w)) (its(a \<mapsto> it')) = snd ` owned (sl_list (L w)) its - {i}"
    unfolding own using only by force
  show "reg_ok L (its(a \<mapsto> it')) infs (caps_remove w i caps)"
  proof (rule reg_ok_nodes [OF assms(1-3) _ _ name])
    show "distinct (InfoList it')" using d(1) assms(6) by (simp add: distinct_remove1)
    show "infoNum it' = of_nat (length (InfoList it'))" using d(2) of_nat_remove1 [OF assms(4)] assms(6) by simp
    show "callback_ok w it'" using d(5) assms(6) by (cases w) simp_all
    show "node_ok w infs a j" if "j \<in> set (InfoList it')" for j using d(3) that set' by simp
    show "inj_on (\<lambda>j. di_id (the (infs j))) (set (InfoList it'))" using d(4) set' by (auto intro: inj_on_subset)
    show "caps_ok (sl_list (L w)) (its(a \<mapsto> it')) infs (caps_remove w i caps)" if "w = Subscriptions"
      using caps_ok_remove [OF reg_okD(6) [OF assms(1)]] img that by simp
  qed simp
  have other: "a \<notin> set (sl_list (L v))" if "v \<noteq> w" for v using reg_okD(5) [OF assms(1,2)] that by blast
  show "unlinked L (its(a \<mapsto> it')) i"
    unfolding unlinked_def
  proof
    fix v show "i \<notin> snd ` owned (sl_list (L v)) (its(a \<mapsto> it'))"
      using only [of _ v] img other [of v] by (cases "v = w") (auto simp: owned_other)
  qed
  show "request_set (sl_list (L v)) (its(a \<mapsto> it')) infs = request_set (sl_list (L v)) its infs" if "v \<noteq> w"
    using other [OF that] by (rule request_set_other)
  have same: "j = i" if "(packageName it, j) \<in> owned (sl_list (L w)) its" "infs j = Some x" "x\<lparr>di_item := None\<rparr> = nd\<lparr>di_item := None\<rparr>" for j x
  proof (rule inj_onD [OF d(4)])
    show "j \<in> set (InfoList it)" using that(1) owned_name(1) [OF assms(1-3)] by blast
    have "di_id (x\<lparr>di_item := None\<rparr>) = di_id (nd\<lparr>di_item := None\<rparr>)" using that(3) by simp
    then show "di_id (the (infs j)) = di_id (the (infs i))" using that(2) assms(5) by simp
  qed (rule assms(4))
  show "request_set (sl_list (L w)) (its(a \<mapsto> it')) infs = request_set (sl_list (L w)) its infs - {(packageName it, nd\<lparr>di_item := None\<rparr>)}"
  proof (intro set_eqI iffI)
    fix y assume "y \<in> request_set (sl_list (L w)) (its(a \<mapsto> it')) infs"
    then obtain n j x where y: "y = (n, x\<lparr>di_item := None\<rparr>)" "(n, j) \<in> owned (sl_list (L w)) its" "(n, j) \<noteq> (packageName it, i)" "infs j = Some x"
      unfolding request_set_def own by blast
    have "y \<noteq> (packageName it, nd\<lparr>di_item := None\<rparr>)"
    proof
      assume "y = (packageName it, nd\<lparr>di_item := None\<rparr>)"
      then have "n = packageName it" and e: "x\<lparr>di_item := None\<rparr> = nd\<lparr>di_item := None\<rparr>" using y(1) by simp_all
      then show False using same [of j x] y(2-4) by simp
    qed
    then show "y \<in> request_set (sl_list (L w)) its infs - {(packageName it, nd\<lparr>di_item := None\<rparr>)}"
      using y unfolding request_set_def by blast
  next
    fix y assume y: "y \<in> request_set (sl_list (L w)) its infs - {(packageName it, nd\<lparr>di_item := None\<rparr>)}"
    then obtain n j x where x: "y = (n, x\<lparr>di_item := None\<rparr>)" "(n, j) \<in> owned (sl_list (L w)) its" "infs j = Some x"
      unfolding request_set_def by blast
    have "(n, j) \<noteq> (packageName it, i)" using x y assms(5) by auto
    then show "y \<in> request_set (sl_list (L w)) (its(a \<mapsto> it')) infs" using x unfolding request_set_def own by blast
  qed
qed

lemma reg_ok_delete:
  assumes "reg_ok L its infs caps" and "a \<in> set (sl_list (L w))" and "its a = Some it" and "InfoList it = []"
    and "sl_list l = remove1 a (sl_list (L w))" "sl_cnt l = sl_cnt (L w) - 1"
  shows "reg_ok (L(w := l)) (its(a := None)) infs caps"
    and "request_set (sl_list ((L(w := l)) v)) (its(a := None)) infs = request_set (sl_list (L v)) its infs"
    and "owned (sl_list ((L(w := l)) v)) (its(a := None)) = owned (sl_list (L v)) its"
proof -
  let ?L = "L(w := l)"
  have sub: "set (sl_list (?L v)) = set (sl_list (L v)) - (if v = w then {a} else {})" for v
    using reg_okD(1) [OF assms(1), of w] assms(5) by (simp add: set_remove1_eq)
  have ne: "b \<noteq> a" if "b \<in> set (sl_list (?L v))" for b v
  proof
    assume ab: "b = a"
    then have "a \<in> set (sl_list (L v))" using that unfolding sub by blast
    then have "w = v" by (rule reg_okD(5) [OF assms(1,2)])
    then show False using that ab unfolding sub by simp
  qed
  have own: "owned (sl_list (?L v)) (its(a := None)) = owned (sl_list (L v)) its" for v
  proof -
    have "(b \<in> set (sl_list (?L v)) \<and> (its(a := None)) b = Some x \<and> i \<in> set (InfoList x)) =
        (b \<in> set (sl_list (L v)) \<and> its b = Some x \<and> i \<in> set (InfoList x))" for b x i
    proof (cases "b = a")
      case True
      then show ?thesis using assms(3,4) by auto
    next
      case False
      then have "b \<in> set (sl_list (?L v)) \<longleftrightarrow> b \<in> set (sl_list (L v))" unfolding sub by simp
      then show ?thesis using False by simp
    qed
    then show ?thesis unfolding owned_def by presburger
  qed
  have "list_ok v (?L v) (its(a := None)) infs" for v
    unfolding list_ok_def
  proof (intro conjI ballI)
    show "distinct (sl_list (?L v))" using reg_okD(1) [OF assms(1)] assms(5) by (simp add: distinct_remove1)
    show "sl_cnt (?L v) = of_nat (length (sl_list (?L v)))"
      using reg_okD(2) [OF assms(1)] of_nat_remove1 [OF assms(2)] assms(5,6) by simp
    show "item_ok v (its(a := None)) infs b" if b: "b \<in> set (sl_list (?L v))" for b
    proof -
      have "b \<in> set (sl_list (L v))" using b sub by auto
      from reg_okD(3) [OF assms(1) this] show ?thesis using ne [OF b] by (simp add: item_ok_def)
    qed
    have "inj_on (\<lambda>b. packageName (the (its b))) (set (sl_list (?L v)))"
      using reg_okD(4) [OF assms(1), of v] by (rule inj_on_subset) (use sub in auto)
    moreover have "inj_on (\<lambda>b. packageName (the ((its(a := None)) b))) (set (sl_list (?L v))) =
        inj_on (\<lambda>b. packageName (the (its b))) (set (sl_list (?L v)))"
      by (rule inj_on_cong) (use ne in auto)
    ultimately show "inj_on (\<lambda>b. packageName (the ((its(a := None)) b))) (set (sl_list (?L v)))" by simp
  qed
  moreover have "caps_ok (sl_list (?L Subscriptions)) (its(a := None)) infs caps"
    using reg_okD(6) [OF assms(1)] unfolding caps_ok_def subscribed_def own .
  moreover have "v = v'" if "b \<in> set (sl_list (?L v))" "b \<in> set (sl_list (?L v'))" for v v' b
    using reg_okD(5) [OF assms(1), of b v v'] that unfolding sub by blast
  ultimately show "reg_ok ?L (its(a := None)) infs caps" unfolding reg_ok_def by blast
  show "request_set (sl_list (?L v)) (its(a := None)) infs = request_set (sl_list (L v)) its infs"
    unfolding request_set_def own ..
  show "owned (sl_list (?L v)) (its(a := None)) = owned (sl_list (L v)) its" by (rule own)
qed
end
