(* ===== verification/Disc_State.thy ===== *)
theory Disc_State
  imports Disc_Registry
begin

text \<open>
  The invariant of a state of the discovery manager and the elementary operations on it, as rules for \<open>returns c Q\<close>:
  the computation \<open>c\<close> has a defined result, and the result satisfies \<open>Q\<close>.
\<close>

section \<open>Computations that return\<close>

definition returns :: "'a option \<Rightarrow> ('a \<Rightarrow> bool) \<Rightarrow> bool" where
  "returns c Q \<longleftrightarrow> (\<exists>x. c = Some x \<and> Q x)"

lemma returns_Some [simp]: "returns (Some x) Q = Q x"
  by (simp add: returns_def)

lemma returns_None [simp]: "\<not> returns None Q"
  by (simp add: returns_def)

lemma returns_bind [simp]: "returns (Option.bind c f) Q = returns c (\<lambda>x. returns (f x) Q)"
  by (cases c) simp_all

lemma returns_mono: "returns c P \<Longrightarrow> (\<And>x. P x \<Longrightarrow> Q x) \<Longrightarrow> returns c Q"
  by (auto simp: returns_def)

lemma returns_conj: "returns c P \<Longrightarrow> returns c Q \<Longrightarrow> returns c (\<lambda>x. P x \<and> Q x)"
  by (auto simp: returns_def)

section \<open>Invariant of a state\<close>

definition lists :: "disc \<Rightarrow> service \<Rightarrow> SoftBusList" where
  "lists s w = (the (service_list w s))\<lparr>sl_depth := 0\<rparr>"

definition depth :: "disc \<Rightarrow> service \<Rightarrow> nat" where
  "depth s w = sl_depth (the (service_list w s))"

definition disc_inv :: "disc \<Rightarrow> bool" where
  "disc_inv s \<longleftrightarrow>
     (\<forall>a. d_items s a \<noteq> None \<longrightarrow> a < d_next s) \<and> (\<forall>i. d_infos s i \<noteq> None \<longrightarrow> i < d_next s) \<and>
     (g_isInited s \<longrightarrow> (\<forall>w. service_list w s \<noteq> None) \<and> reg_ok (lists s) (d_items s) (d_infos s) (g_capabilityList s))"

definition requests :: "service \<Rightarrow> disc \<Rightarrow> (string \<times> DiscInfo) set" where
  "requests w s = request_set (sl_list (lists s w)) (d_items s) (d_infos s)"

text \<open>What no operation but the start and the end of the manager changes.\<close>

definition fixed :: "disc \<Rightarrow> disc \<Rightarrow> bool" where
  "fixed s s' \<longleftrightarrow> g_isInited s' = g_isInited s \<and> g_discCoapInterface s' = g_discCoapInterface s \<and>
     g_discBleInterface s' = g_discBleInterface s \<and> d_lock_ok s' = d_lock_ok s \<and>
     d_calloc_ok s' = d_calloc_ok s \<and> d_medium_ret s' = d_medium_ret s \<and> g_isCallLnn s' = g_isCallLnn s \<and> d_tick s \<le> d_tick s'"

lemma fixed_refl [simp]: "fixed s s"
  by (simp add: fixed_def)

lemma fixed_trans: "fixed s t \<Longrightarrow> fixed t u \<Longrightarrow> fixed s u"
  by (simp add: fixed_def)

lemma service_list_set [simp]: "service_list v (set_service_list w l s) = (if v = w then Some l else service_list v s)"
  by (cases v; cases w) simp_all

lemma set_service_list_fields [simp]:
  "d_items (set_service_list w l s) = d_items s" "d_infos (set_service_list w l s) = d_infos s"
  "g_capabilityList (set_service_list w l s) = g_capabilityList s" "d_next (set_service_list w l s) = d_next s"
  "g_isInited (set_service_list w l s) = g_isInited s" "d_events (set_service_list w l s) = d_events s"
  "g_discCoapInterface (set_service_list w l s) = g_discCoapInterface s" "g_discBleInterface (set_service_list w l s) = g_discBleInterface s"
  "d_lock_ok (set_service_list w l s) = d_lock_ok s" "d_calloc_ok (set_service_list w l s) = d_calloc_ok s"
  "d_medium_ret (set_service_list w l s) = d_medium_ret s" "d_tick (set_service_list w l s) = d_tick s"
  "g_isCallLnn (set_service_list w l s) = g_isCallLnn s"
  by (cases w; simp)+

lemma service_list_upd [simp]:
  "service_list v (s\<lparr>d_items := x1\<rparr>) = service_list v s" "service_list v (s\<lparr>d_infos := x2\<rparr>) = service_list v s"
  "service_list v (s\<lparr>g_capabilityList := x3\<rparr>) = service_list v s" "service_list v (s\<lparr>d_next := x4\<rparr>) = service_list v s"
  "service_list v (s\<lparr>d_tick := x5\<rparr>) = service_list v s" "service_list v (s\<lparr>d_events := x6\<rparr>) = service_list v s"
  "service_list v (s\<lparr>g_isCallLnn := x7\<rparr>) = service_list v s"
  by (cases v; simp)+

lemma lists_upd [simp]:
  "lists (s\<lparr>d_items := x1\<rparr>) = lists s" "lists (s\<lparr>d_infos := x2\<rparr>) = lists s"
  "lists (s\<lparr>g_capabilityList := x3\<rparr>) = lists s" "lists (s\<lparr>d_next := x4\<rparr>) = lists s"
  "lists (s\<lparr>d_tick := x5\<rparr>) = lists s" "lists (s\<lparr>d_events := x6\<rparr>) = lists s" "lists (s\<lparr>g_isCallLnn := x7\<rparr>) = lists s"
  by (simp_all add: lists_def fun_eq_iff)

lemma depth_upd [simp]:
  "depth (s\<lparr>d_items := x1\<rparr>) = depth s" "depth (s\<lparr>d_infos := x2\<rparr>) = depth s"
  "depth (s\<lparr>g_capabilityList := x3\<rparr>) = depth s" "depth (s\<lparr>d_next := x4\<rparr>) = depth s"
  "depth (s\<lparr>d_tick := x5\<rparr>) = depth s" "depth (s\<lparr>d_events := x6\<rparr>) = depth s" "depth (s\<lparr>g_isCallLnn := x7\<rparr>) = depth s"
  by (simp_all add: depth_def fun_eq_iff)

lemma lists_set [simp]: "lists (set_service_list w l s) = (lists s)(w := l\<lparr>sl_depth := 0\<rparr>)"
  by (simp add: lists_def fun_eq_iff)

lemma depth_set [simp]: "depth (set_service_list w l s) = (depth s)(w := sl_depth l)"
  by (simp add: depth_def fun_eq_iff)

text \<open>Two states with the same data: they may differ in the depths of the locks, the tick and the events.\<close>

definition alike :: "disc \<Rightarrow> disc \<Rightarrow> bool" where
  "alike s s' \<longleftrightarrow> lists s' = lists s \<and> (\<forall>w. service_list w s' = None \<longleftrightarrow> service_list w s = None) \<and> d_items s' = d_items s \<and>
     d_infos s' = d_infos s \<and> g_capabilityList s' = g_capabilityList s \<and> d_next s' = d_next s \<and> g_isInited s' = g_isInited s"

lemma alike_refl [simp]: "alike s s"
  by (simp add: alike_def)

lemma alike_trans: "alike s t \<Longrightarrow> alike t u \<Longrightarrow> alike s u"
  by (simp add: alike_def)

lemma alike_inv: "alike s s' \<Longrightarrow> disc_inv s' = disc_inv s"
  unfolding alike_def disc_inv_def by simp

lemma alike_requests: "alike s s' \<Longrightarrow> requests w s' = requests w s"
  unfolding alike_def requests_def by simp

lemma inited_list:
  assumes "disc_inv s" and "g_isInited s"
  obtains l where "service_list w s = Some l" "lists s w = l\<lparr>sl_depth := 0\<rparr>" "depth s w = sl_depth l"
proof -
  have "service_list w s \<noteq> None" using assms unfolding disc_inv_def by blast
  then show ?thesis using that unfolding lists_def depth_def by (cases "service_list w s") simp_all
qed

lemma lock_returns:
  assumes "disc_inv s" and "g_isInited s"
    and "\<And>s'. alike s s' \<Longrightarrow> fixed s s' \<Longrightarrow> d_events s' = d_events s \<Longrightarrow> d_tick s' = d_tick s + 1 \<Longrightarrow>
      depth s' = (if d_lock_ok s (d_tick s) then (depth s)(w := depth s w + 1) else depth s) \<Longrightarrow> Q (d_lock_ok s (d_tick s), s')"
  shows "returns (SoftBusMutexLock w s) Q"
proof -
  obtain l where l: "service_list w s = Some l" "lists s w = l\<lparr>sl_depth := 0\<rparr>" "depth s w = sl_depth l" by (rule inited_list [OF assms(1,2)])
  let ?t = "s\<lparr>d_tick := d_tick s + 1\<rparr>"
  let ?s = "if d_lock_ok s (d_tick s) then set_service_list w (l\<lparr>sl_depth := sl_depth l + 1\<rparr>) ?t else ?t"
  have "SoftBusMutexLock w s = Some (d_lock_ok s (d_tick s), ?s)" using l(1) by (simp add: SoftBusMutexLock_def Let_def)
  moreover have "Q (d_lock_ok s (d_tick s), ?s)"
  proof (rule assms(3))
    have e: "(lists s)(w := l\<lparr>sl_depth := 0\<rparr>) = lists s" using l(2) by (metis fun_upd_triv)
    show "alike s ?s" using l e by (auto simp: alike_def)
  qed (use l in \<open>auto simp: fixed_def\<close>)
  ultimately show ?thesis by simp
qed

lemma unlock_returns:
  assumes "service_list w s \<noteq> None"
    and "\<And>s'. alike s s' \<Longrightarrow> fixed s s' \<Longrightarrow> d_events s' = d_events s \<Longrightarrow> d_tick s' = d_tick s \<Longrightarrow>
      depth s' = (depth s)(w := depth s w - 1) \<Longrightarrow> Q s'"
  shows "returns (SoftBusMutexUnlock w s) Q"
proof -
  obtain l where l: "service_list w s = Some l" using assms(1) by blast
  then have d: "lists s w = l\<lparr>sl_depth := 0\<rparr>" "depth s w = sl_depth l" by (simp_all add: lists_def depth_def)
  let ?s = "set_service_list w (l\<lparr>sl_depth := sl_depth l - 1\<rparr>) s"
  have "SoftBusMutexUnlock w s = Some ?s" using l by (simp add: SoftBusMutexUnlock_def)
  moreover have "Q ?s"
  proof (rule assms(2))
    have e: "(lists s)(w := l\<lparr>sl_depth := 0\<rparr>) = lists s" using d(1) by (metis fun_upd_triv)
    show "alike s ?s" using l e by (auto simp: alike_def)
  qed (use l d in \<open>auto simp: fixed_def\<close>)
  ultimately show ?thesis by simp
qed

lemma calloc_alike: "calloc s = (ok, s') \<Longrightarrow> alike s s' \<and> fixed s s' \<and> depth s' = depth s \<and> d_events s' = d_events s \<and> ok = d_calloc_ok s (d_tick s) \<and> d_tick s' = d_tick s + 1"
  by (auto simp: calloc_def alike_def fixed_def)

lemma medium_alike:
  assumes "DiscInterfaceByMedium nd type s = (ret, s')"
  shows "alike s s'" and "fixed s s'" and "depth s' = depth s" and "\<exists>es. d_events s' = d_events s @ es"
proof -
  have step: "alike s s' \<and> fixed s s' \<and> depth s' = depth s \<and> (\<exists>es. d_events s' = d_events s @ es)"
    if "DiscInterfaceProcess opt md ifc m type s = (ret, s')" for opt md ifc m s s' ret
    using that by (cases ifc) (auto simp: DiscInterfaceProcess_def event_def alike_def fixed_def)
  have "alike s s' \<and> fixed s s' \<and> depth s' = depth s \<and> (\<exists>es. d_events s' = d_events s @ es)"
  proof (cases "di_medium nd = MEDIUM_AUTO")
    case True
    obtain r1 s1 where 1: "DiscInterfaceProcess (di_option nd) MEDIUM_COAP (g_discCoapInterface s) (di_mode nd) type s = (r1, s1)" by fastforce
    obtain r2 s2 where 2: "DiscInterfaceProcess (di_option nd) MEDIUM_BLE (g_discBleInterface s1) (di_mode nd) type s1 = (r2, s2)" by fastforce
    have "s' = s2" using assms True 1 2 by (simp add: DiscInterfaceByMedium_def)
    then show ?thesis using step [OF 1] step [OF 2] alike_trans fixed_trans by fastforce
  next
    case False
    then show ?thesis using assms step by (auto simp: DiscInterfaceByMedium_def split: if_splits)
  qed
  then show "alike s s'" and "fixed s s'" and "depth s' = depth s" and "\<exists>es. d_events s' = d_events s @ es" by blast+
qed

section \<open>Searching\<close>

lemma find_item_cases:
  assumes "\<And>a. a \<in> set as \<Longrightarrow> its a \<noteq> None"
  obtains (found) a it where "find_item its pkg as = Some (Some a)" "a \<in> set as" "its a = Some it" "packageName it = pkg"
  | (absent) "find_item its pkg as = Some None" "\<forall>a \<in> set as. \<forall>it. its a = Some it \<longrightarrow> packageName it \<noteq> pkg"
  using assms
proof (induction as arbitrary: thesis)
  case (Cons b as)
  obtain x where x: "its b = Some x" using Cons.prems(3) [of b] by auto
  show ?case
  proof (cases "packageName x = pkg")
    case True
    then show ?thesis using Cons.prems(1) [of b x] x by simp
  next
    case False
    show ?thesis
    proof (rule Cons.IH)
      fix a it assume "find_item its pkg as = Some (Some a)" "a \<in> set as" "its a = Some it" "packageName it = pkg"
      then show thesis using Cons.prems(1) [of a it] x False by simp
    next
      assume n: "find_item its pkg as = Some None" "\<forall>a \<in> set as. \<forall>it. its a = Some it \<longrightarrow> packageName it \<noteq> pkg"
      show thesis by (rule Cons.prems(2)) (use n x False in auto)
    qed (use Cons.prems(3) in auto)
  qed
qed simp

lemma find_id_cases:
  assumes "\<And>i. i \<in> set is \<Longrightarrow> infs i \<noteq> None"
  obtains (found) i nd where "find_id infs n is = Some (Some i)" "i \<in> set is" "infs i = Some nd" "di_id nd = n"
  | (absent) "find_id infs n is = Some None" "\<forall>i \<in> set is. di_id (the (infs i)) \<noteq> n"
  using assms
proof (induction "is" arbitrary: thesis)
  case (Cons j "is")
  obtain x where x: "infs j = Some x" using Cons.prems(3) [of j] by auto
  show ?case
  proof (cases "di_id x = n")
    case True
    then show ?thesis using Cons.prems(1) [of j x] x by simp
  next
    case False
    show ?thesis
    proof (rule Cons.IH)
      fix i nd assume "find_id infs n is = Some (Some i)" "i \<in> set is" "infs i = Some nd" "di_id nd = n"
      then show thesis using Cons.prems(1) [of i nd] x False by simp
    next
      assume n: "find_id infs n is = Some None" "\<forall>i \<in> set is. di_id (the (infs i)) \<noteq> n"
      show thesis by (rule Cons.prems(2)) (use n x False in auto)
    qed (use Cons.prems(3) in auto)
  qed
qed simp

section \<open>Elementary changes of a state\<close>

lemma disc_invD:
  assumes "disc_inv s"
  shows "\<And>a. d_items s a \<noteq> None \<Longrightarrow> a < d_next s" and "\<And>i. d_infos s i \<noteq> None \<Longrightarrow> i < d_next s"
    and "g_isInited s \<Longrightarrow> service_list w s \<noteq> None"
    and "g_isInited s \<Longrightarrow> reg_ok (lists s) (d_items s) (d_infos s) (g_capabilityList s)"
  using assms unfolding disc_inv_def by blast+

lemma find_capability:
  assumes "k < CAPABILITY_MAX_BITNUM"
  shows "find (\<lambda>tmp. IsBitmapSet (push_bit k 1) (of_nat tmp)) [0..<CAPABILITY_MAX_BITNUM] = Some k"
proof -
  have "k = 0 \<or> k = 1 \<or> k = 2 \<or> k = 3 \<or> k = 4 \<or> k = 5 \<or> k = 6 \<or> k = 7" using assms by presburger
  moreover have "[0..<CAPABILITY_MAX_BITNUM] = [0, 1, 2, 3, 4, 5, 6, 7]" by (simp add: upt_rec)
  ultimately show ?thesis by (elim disjE) (simp_all add: IsBitmapSet_def)
qed

definition linked_in :: "service \<Rightarrow> disc \<Rightarrow> string \<Rightarrow> addr \<Rightarrow> DiscInfo \<Rightarrow> bool" where
  "linked_in w s pkg i nd \<longleftrightarrow> (\<exists>a it. a \<in> set (sl_list (lists s w)) \<and> d_items s a = Some it \<and> packageName it = pkg \<and>
     i \<in> set (InfoList it) \<and> d_infos s i = Some (nd\<lparr>di_item := Some a\<rparr>))"

lemma AddInfoToCapability_value:
  assumes "d_infos s i = Some nd" and "option_ok w (di_option nd)" and "is_subscribe type \<longleftrightarrow> w = Subscriptions"
  obtains k where "w = Subscriptions \<Longrightarrow> \<exists>so. k < CAPABILITY_MAX_BITNUM \<and> di_option nd = subscribeOption so \<and> so_capabilityBitmap so = push_bit k 1"
    and "AddInfoToCapability i type s = Some (s\<lparr>g_capabilityList :=
      caps_insert w k (if type = SUBSCRIBE_INNER_SERVICE then i # g_capabilityList s ! k else g_capabilityList s ! k @ [i]) (g_capabilityList s)\<rparr>)"
proof (cases w)
  case Publications
  then show ?thesis using that assms(3) by (simp add: AddInfoToCapability_def)
next
  case Subscriptions
  then obtain so k where k: "di_option nd = subscribeOption so" "k < CAPABILITY_MAX_BITNUM" "so_capabilityBitmap so = push_bit k 1"
    using assms(2) by (auto split: InnerOption.splits)
  then have "AddInfoToCapability i type s = Some (s\<lparr>g_capabilityList :=
      caps_insert w k (if type = SUBSCRIBE_INNER_SERVICE then i # g_capabilityList s ! k else g_capabilityList s ! k @ [i]) (g_capabilityList s)\<rparr>)"
    unfolding AddInfoToCapability_def using assms(1,3) Subscriptions find_capability [OF k(2)] by (simp add: Let_def del: upt_Suc push_bit_of_1)
  then show ?thesis using that [of k] k by blast
qed

lemma link_returns:
  assumes "disc_inv s" and "g_isInited s" and "a \<in> set (sl_list (lists s w))" and "d_items s a = Some it"
    and "d_infos s i = Some nd" and "unlinked (lists s) (d_items s) i" and "option_ok w (di_option nd)"
    and "\<And>j. j \<in> set (InfoList it) \<Longrightarrow> di_id (the (d_infos s j)) \<noteq> di_id nd" and "is_subscribe type \<longleftrightarrow> w = Subscriptions"
    and "\<And>s'. disc_inv s' \<Longrightarrow> fixed s s' \<Longrightarrow> depth s' = depth s \<Longrightarrow> d_events s' = d_events s \<Longrightarrow> d_tick s' = d_tick s \<Longrightarrow> d_next s' = d_next s \<Longrightarrow>
      requests w s' = insert (packageName it, nd\<lparr>di_item := None\<rparr>) (requests w s) \<Longrightarrow> (\<And>v. v \<noteq> w \<Longrightarrow> requests v s' = requests v s) \<Longrightarrow>
      linked_in w s' (packageName it) i nd \<Longrightarrow> Q s'"
  shows "returns (link_info a i type s) Q"
proof -
  note reg = disc_invD(4) [OF assms(1,2)]
  let ?it = "it\<lparr>infoNum := infoNum it + 1, InfoList := InfoList it @ [i]\<rparr>" and ?nd = "nd\<lparr>di_item := Some a\<rparr>"
  let ?t = "s\<lparr>d_items := (d_items s)(a \<mapsto> ?it), d_infos := (d_infos s)(i \<mapsto> ?nd)\<rparr>"
  have "d_infos ?t i = Some ?nd" "option_ok w (di_option ?nd)" using assms(7) by simp_all
  from AddInfoToCapability_value [OF this assms(9)] obtain k where
      k: "w = Subscriptions \<Longrightarrow> \<exists>so. k < CAPABILITY_MAX_BITNUM \<and> di_option ?nd = subscribeOption so \<and> so_capabilityBitmap so = push_bit k 1"
      and add: "AddInfoToCapability i type ?t = Some (?t\<lparr>g_capabilityList :=
        caps_insert w k (if type = SUBSCRIBE_INNER_SERVICE then i # g_capabilityList ?t ! k else g_capabilityList ?t ! k @ [i]) (g_capabilityList ?t)\<rparr>)"
    by blast
  define xs where "xs = (if type = SUBSCRIBE_INNER_SERVICE then i # g_capabilityList s ! k else g_capabilityList s ! k @ [i])"
  let ?s = "?t\<lparr>g_capabilityList := caps_insert w k xs (g_capabilityList s)\<rparr>"
  have ret: "link_info a i type s = Some ?s" unfolding link_info_def using add assms(4,5) by (simp add: xs_def)
  have cap: "k < CAPABILITY_MAX_BITNUM \<and> so_capabilityBitmap so = push_bit k 1 \<and> distinct xs \<and> set xs = insert i (set (g_capabilityList s ! k))"
    if w: "w = Subscriptions" and so: "di_option nd = subscribeOption so" for so
  proof -
    have k': "k < CAPABILITY_MAX_BITNUM" "so_capabilityBitmap so = push_bit k 1" using k [OF w] so by auto
    note c = caps_okD [OF reg_okD(6) [OF reg] k'(1)]
    have "i \<notin> set (g_capabilityList s ! k)" using assms(6) unfolding c(2) subscribed_def unlinked_def by blast
    then show ?thesis using c(1) k' by (simp add: xs_def)
  qed
  have cb: "callback_ok w ?it" using item_okD(5) [OF reg_okD(3) [OF reg assms(3)] assms(4)] by (cases w) simp_all
  have fresh: "\<forall>j \<in> set (InfoList it). di_id (the (d_infos s j)) \<noteq> di_id nd" using assms(8) by blast
  have caps: "\<forall>so. w = Subscriptions \<and> di_option nd = subscribeOption so \<longrightarrow>
      k < CAPABILITY_MAX_BITNUM \<and> so_capabilityBitmap so = push_bit k 1 \<and> distinct xs \<and> set xs = insert i (set (g_capabilityList s ! k))"
    using cap by blast
  have nodes: "InfoList ?it = InfoList it @ [i]" "infoNum ?it = infoNum it + 1" "packageName ?it = packageName it" by simp_all
  note l = reg_ok_link [where L = "lists s" and its = "d_items s" and infs = "d_infos s" and caps = "g_capabilityList s"
      and a = a and w = w and it = it and i = i and nd = nd and it' = ?it and nd' = ?nd and k = k and xs = xs,
      OF reg assms(3-7) fresh nodes cb refl caps]
  have "requests w ?s = insert (packageName it, nd\<lparr>di_item := None\<rparr>) (requests w s)" using l(2) by (simp add: requests_def)
  moreover have "requests v ?s = requests v s" if "v \<noteq> w" for v using l(3) [OF that] by (simp add: requests_def)
  moreover have "disc_inv ?s"
    unfolding disc_inv_def
  proof (intro conjI allI impI)
    fix b assume "d_items ?s b \<noteq> None"
    then have "d_items s b \<noteq> None" using assms(4) by (cases "b = a") simp_all
    then show "b < d_next ?s" using disc_invD(1) [OF assms(1)] by simp
  next
    fix j assume "d_infos ?s j \<noteq> None"
    then have "d_infos s j \<noteq> None" using assms(5) by (cases "j = i") simp_all
    then show "j < d_next ?s" using disc_invD(2) [OF assms(1)] by simp
  next
    fix v show "service_list v ?s \<noteq> None" using disc_invD(3) [OF assms(1,2)] by simp
  next
    show "reg_ok (lists ?s) (d_items ?s) (d_infos ?s) (g_capabilityList ?s)" using l(1) by simp
  qed
  moreover have "linked_in w ?s (packageName it) i nd" using assms(3) unfolding linked_in_def by auto
  ultimately show ?thesis unfolding ret returns_Some by (intro assms(10)) (simp_all add: fixed_def)
qed

lemma disc_invI:
  assumes "disc_inv s" and "d_next s \<le> d_next s'"
    and "\<And>a. d_items s' a \<noteq> None \<Longrightarrow> d_items s a \<noteq> None \<or> a < d_next s'"
    and "\<And>i. d_infos s' i \<noteq> None \<Longrightarrow> d_infos s i \<noteq> None \<or> i < d_next s'"
    and "\<And>w. service_list w s' \<noteq> None" and "reg_ok (lists s') (d_items s') (d_infos s') (g_capabilityList s')"
  shows "disc_inv s'"
  unfolding disc_inv_def
proof (intro conjI allI impI)
  fix a assume "d_items s' a \<noteq> None"
  then show "a < d_next s'" using assms(3) disc_invD(1) [OF assms(1)] assms(2) by (meson less_le_trans)
next
  fix i assume "d_infos s' i \<noteq> None"
  then show "i < d_next s'" using assms(4) disc_invD(2) [OF assms(1)] assms(2) by (meson less_le_trans)
qed (use assms(5,6) in blast)+

lemma DeleteInfoFromCapability_value:
  assumes "d_infos s i \<noteq> None" and "is_subscribe type \<longleftrightarrow> w = Subscriptions"
  shows "DeleteInfoFromCapability i type s = Some (s\<lparr>g_capabilityList := caps_remove w i (g_capabilityList s)\<rparr>)"
  using assms by (cases w) (auto simp: DeleteInfoFromCapability_def)

lemma unlink_state:
  assumes "disc_inv s" and "g_isInited s" and "a \<in> set (sl_list (lists s w))" and "d_items s a = Some it"
    and "i \<in> set (InfoList it)" and "d_infos s i = Some nd"
    and "s' = s\<lparr>g_capabilityList := caps_remove w i (g_capabilityList s),
      d_items := (d_items s)(a \<mapsto> it\<lparr>infoNum := infoNum it - 1, InfoList := remove1 i (InfoList it)\<rparr>)\<rparr>"
  shows "disc_inv s'" and "unlinked (lists s') (d_items s') i"
    and "requests w s' = requests w s - {(packageName it, nd\<lparr>di_item := None\<rparr>)}" and "v \<noteq> w \<Longrightarrow> requests v s' = requests v s"
proof -
  note reg = disc_invD(4) [OF assms(1,2)]
  note u = reg_ok_unlink [where L = "lists s" and its = "d_items s", OF reg assms(3-6) refl]
  show "unlinked (lists s') (d_items s') i" using u(2) assms(7) by simp
  show "requests w s' = requests w s - {(packageName it, nd\<lparr>di_item := None\<rparr>)}" using u(3) assms(7) by (simp add: requests_def)
  show "v \<noteq> w \<Longrightarrow> requests v s' = requests v s" using u(4) [of v] assms(7) by (simp add: requests_def)
  show "disc_inv s'"
  proof (rule disc_invI [OF assms(1)])
    show "reg_ok (lists s') (d_items s') (d_infos s') (g_capabilityList s')" using u(1) assms(7) by simp
    show "service_list v s' \<noteq> None" for v using disc_invD(3) [OF assms(1,2)] assms(7) by simp
    show "d_items s b \<noteq> None \<or> b < d_next s'" if "d_items s' b \<noteq> None" for b
      using that assms(4,7) by (cases "b = a") simp_all
  qed (use assms(7) in simp_all)
qed

lemma delete_item_returns:
  assumes "disc_inv s" and "g_isInited s" and "a \<in> set (sl_list (lists s w))" and "d_items s a = Some it" and "InfoList it = []"
    and "\<And>s'. disc_inv s' \<Longrightarrow> fixed s s' \<Longrightarrow> depth s' = depth s \<Longrightarrow> d_events s' = d_events s \<Longrightarrow> d_tick s' = d_tick s \<Longrightarrow> d_next s' = d_next s \<Longrightarrow>
      d_infos s' = d_infos s \<Longrightarrow> (\<And>v. owned (sl_list (lists s' v)) (d_items s') = owned (sl_list (lists s v)) (d_items s)) \<Longrightarrow> Q s'"
  shows "returns (delete_item w a s) Q"
proof -
  note reg = disc_invD(4) [OF assms(1,2)]
  obtain l where l: "service_list w s = Some l" "lists s w = l\<lparr>sl_depth := 0\<rparr>" "depth s w = sl_depth l" by (rule inited_list [OF assms(1,2)])
  define l' where "l' = l\<lparr>sl_cnt := sl_cnt l - 1, sl_list := remove1 a (sl_list l)\<rparr>"
  define s' where "s' = (set_service_list w l' s)\<lparr>d_items := (d_items s)(a := None)\<rparr>"
  have ret: "delete_item w a s = Some s'" using l(1) by (simp add: delete_item_def s'_def l'_def Let_def)
  have l': "sl_list (l'\<lparr>sl_depth := 0\<rparr>) = remove1 a (sl_list (lists s w))" "sl_cnt (l'\<lparr>sl_depth := 0\<rparr>) = sl_cnt (lists s w) - 1"
    using l(2) by (simp_all add: l'_def)
  note d = reg_ok_delete [where L = "lists s" and its = "d_items s", OF reg assms(3-5) l']
  have "disc_inv s'"
  proof (rule disc_invI [OF assms(1)])
    show "reg_ok (lists s') (d_items s') (d_infos s') (g_capabilityList s')" using d(1) by (simp add: s'_def)
    show "service_list v s' \<noteq> None" for v using disc_invD(3) [OF assms(1,2)] by (simp add: s'_def)
    show "d_items s b \<noteq> None \<or> b < d_next s'" if "d_items s' b \<noteq> None" for b
      using that by (cases "b = a") (simp_all add: s'_def)
  qed (simp_all add: s'_def)
  moreover have "depth s' = depth s" using l(3) by (auto simp: s'_def l'_def fun_eq_iff)
  moreover have "owned (sl_list (lists s' v)) (d_items s') = owned (sl_list (lists s v)) (d_items s)" for v
    using reg_ok_delete(3) [where L = "lists s" and its = "d_items s", OF reg assms(3-5) l'] by (simp add: s'_def)
  ultimately show ?thesis unfolding ret returns_Some by (intro assms(6)) (simp_all add: fixed_def s'_def)
qed

lemma requests_owned:
  assumes "\<And>v. owned (sl_list (lists s' v)) (d_items s') = owned (sl_list (lists s v)) (d_items s)" and "d_infos s' = d_infos s"
  shows "requests w s' = requests w s" and "unlinked (lists s') (d_items s') i = unlinked (lists s) (d_items s) i"
  using assms by (simp_all add: requests_def request_set_def unlinked_def)

text \<open>Which callback fits a package.\<close>

fun callback_fits :: "service \<Rightarrow> string \<Rightarrow> ServiceType \<Rightarrow> InnerCallback option \<Rightarrow> bool" where
  "callback_fits Publications pkg type cb = (\<not> is_subscribe type)"
| "callback_fits Subscriptions pkg type cb =
     (if pkg \<in> set g_discModuleMap then type = SUBSCRIBE_INNER_SERVICE \<and> (\<exists>c. cb = Some c \<and> (\<forall>f. c \<noteq> ServerCb f))
      else type = SUBSCRIBE_SERVICE \<and> (\<exists>f. cb = Some (ServerCb f)))"

lemma callback_fits_type: "callback_fits w pkg type cb \<Longrightarrow> is_subscribe type \<longleftrightarrow> w = Subscriptions"
  by (cases w) (auto simp: is_subscribe_def split: if_splits)

lemma AddCallbackToItem_ok:
  assumes "callback_fits w (packageName it) type cb" and "callback_ok w it \<or> callback it = NullCb"
  obtains it' where "AddCallbackToItem it cb type = Some it'" "InfoList it' = InfoList it" "infoNum it' = infoNum it"
    "packageName it' = packageName it" "callback_ok w it'"
proof (cases w)
  case Publications
  then show ?thesis using assms that by (auto simp: AddCallbackToItem_def)
next
  case Subscriptions
  show ?thesis
  proof (cases "packageName it \<in> set g_discModuleMap")
    case True
    then obtain c where c: "cb = Some c" "\<And>f. c \<noteq> ServerCb f" "type = SUBSCRIBE_INNER_SERVICE" using assms(1) Subscriptions by auto
    have i: "\<And>f. callback it \<noteq> ServerCb f" using assms(2) True Subscriptions by auto
    show ?thesis
      using c i that Subscriptions True
      by (cases c; cases "callback it") (auto simp: AddCallbackToItem_def is_subscribe_def)
  next
    case False
    then obtain f where "cb = Some (ServerCb f)" "type = SUBSCRIBE_SERVICE" using assms(1) Subscriptions by auto
    then show ?thesis using that Subscriptions False by (simp add: AddCallbackToItem_def is_subscribe_def)
  qed
qed
end
