(* ===== verification/Disc_Lists.thy ===== *)
theory Disc_Lists
  imports Disc_State
begin

text \<open>
  What \<^verbatim>\<open>AddInfoToList\<close> and \<^verbatim>\<open>DeleteInfoFromList\<close> do to a state of the invariant: they have a defined result, keep the invariant and the depth of
  the locks, and change the set of requests as their names say, on every path.
\<close>

section \<open>Adding and deleting requests\<close>

lemma item_present:
  assumes "disc_inv s" and "g_isInited s" and "a \<in> set (sl_list (lists s w))"
  shows "d_items s a \<noteq> None"
  using reg_okD(3) [OF disc_invD(4) [OF assms(1,2)] assms(3)] unfolding item_ok_def by auto

lemma node_present:
  assumes "disc_inv s" and "g_isInited s" and "a \<in> set (sl_list (lists s w))" and "d_items s a = Some it" and "i \<in> set (InfoList it)"
  shows "d_infos s i \<noteq> None"
  using item_okD(3) [OF reg_okD(3) [OF disc_invD(4) [OF assms(1,2)] assms(3)] assms(4,5)] unfolding node_ok_def by auto

lemma alike_list: "alike s s' \<Longrightarrow> sl_list (lists s' w) = sl_list (lists s w)"
  by (simp add: alike_def)

lemma CreateNewItem_returns:
  assumes "disc_inv s" and "g_isInited s" and "callback_fits w pkg type cb" and "length pkg < PKG_NAME_SIZE_MAX \<and> PKG_NAME_SIZE_MAX \<le> room"
    and "\<And>a it. a \<in> set (sl_list (lists s w)) \<Longrightarrow> d_items s a = Some it \<Longrightarrow> packageName it \<noteq> pkg"
    and fail: "\<And>s'. alike s s' \<Longrightarrow> fixed s s' \<Longrightarrow> depth s' = depth s \<Longrightarrow> d_events s' = d_events s \<Longrightarrow> \<exists>n. \<not> d_calloc_ok s n \<Longrightarrow> Q (None, s')"
    and new: "\<And>a it s'. disc_inv s' \<Longrightarrow> fixed s s' \<Longrightarrow> depth s' = depth s \<Longrightarrow> d_events s' = d_events s \<Longrightarrow> d_next s' = d_next s + 1 \<Longrightarrow>
      d_infos s' = d_infos s \<Longrightarrow> (\<And>v. owned (sl_list (lists s' v)) (d_items s') = owned (sl_list (lists s v)) (d_items s)) \<Longrightarrow>
      a \<in> set (sl_list (lists s' w)) \<Longrightarrow> d_items s' a = Some it \<Longrightarrow> InfoList it = [] \<Longrightarrow> packageName it = pkg \<Longrightarrow> Q (Some a, s')"
  shows "returns (CreateNewItem w room pkg cb type s) Q"
proof -
  obtain ok t where t: "calloc s = (ok, t)" by fastforce
  note al = calloc_alike [OF t]
  show ?thesis
  proof (cases ok)
    case False
    then show ?thesis using t al fail by (simp add: CreateNewItem_def) blast
  next
    case True
    have inv: "disc_inv t" "g_isInited t" using al assms(1,2) alike_inv by (auto simp: alike_def)
    note reg = disc_invD(4) [OF inv]
    obtain l where l: "service_list w t = Some l" "lists t w = l\<lparr>sl_depth := 0\<rparr>" "depth t w = sl_depth l" by (rule inited_list [OF inv])
    let ?it = "\<lparr>packageName = take PKG_NAME_SIZE_MAX pkg, callback = NullCb, infoNum = 0, InfoList = []\<rparr>"
    have fits: "callback_fits w (packageName ?it) type cb" using assms(3,4) by simp
    obtain it where it: "AddCallbackToItem ?it cb type = Some it" "InfoList it = []" "infoNum it = 0" "packageName it = pkg" "callback_ok w it"
      by (rule AddCallbackToItem_ok [OF fits]) (use assms(4) in simp_all)
    define a where "a = d_next t"
    have fresh: "a \<notin> set (sl_list (lists t v))" for v
      using item_present [OF inv, of a v] disc_invD(1) [OF inv(1), of a] by (auto simp: a_def)
    define as where "as = (if type = PUBLISH_INNER_SERVICE \<or> type = SUBSCRIBE_INNER_SERVICE then a # sl_list l else sl_list l @ [a])"
    define l' where "l' = l\<lparr>sl_cnt := sl_cnt l + 1, sl_list := as\<rparr>"
    define s' where "s' = (set_service_list w l' t)\<lparr>d_items := (d_items t)(a \<mapsto> it), d_next := a + 1\<rparr>"
    have ret: "CreateNewItem w room pkg cb type s = Some (Some a, s')"
      using t True l(1) it(1) assms(4) by (simp add: CreateNewItem_def Let_def s'_def l'_def as_def a_def)
    have as: "set as = insert a (set (sl_list (lists t w)))" "distinct as" "length as = Suc (length (sl_list (lists t w)))"
      using l(2) fresh [of w] reg_okD(1) [OF reg, of w] by (auto simp: as_def)
    have other: "packageName x \<noteq> packageName it" if "b \<in> set (sl_list (lists t w))" "d_items t b = Some x" for b x
      using that assms(5) al it(4) by (simp add: alike_def)
    have l': "sl_list (l'\<lparr>sl_depth := 0\<rparr>) = as" "sl_cnt (l'\<lparr>sl_depth := 0\<rparr>) = sl_cnt (lists t w) + 1" using l(2) by (simp_all add: l'_def)
    have len: "length (packageName it) < PKG_NAME_SIZE_MAX" using it(4) assms(4) by simp
    have r: "reg_ok ((lists t)(w := l'\<lparr>sl_depth := 0\<rparr>)) ((d_items t)(a \<mapsto> it)) (d_infos t) (g_capabilityList t)"
      by (rule reg_ok_new_item [OF reg fresh as it(2,3,5) len other l'])
    have inv': "disc_inv s'"
    proof (rule disc_invI [OF inv(1)])
      show "reg_ok (lists s') (d_items s') (d_infos s') (g_capabilityList s')" using r by (simp add: s'_def)
      show "service_list v s' \<noteq> None" for v using disc_invD(3) [OF inv] by (simp add: s'_def)
    qed (auto simp: s'_def a_def split: if_splits)
    have own: "owned (sl_list (lists s' v)) (d_items s') = owned (sl_list (lists s v)) (d_items s)" for v
    proof (cases "v = w")
      case True
      have "owned as ((d_items t)(a \<mapsto> it)) = owned (sl_list (lists t w)) (d_items t)"
        by (rule owned_new_item [OF fresh as(1) it(2)])
      then show ?thesis using True al l' by (simp add: s'_def alike_def)
    next
      case False
      then show ?thesis using owned_other [OF fresh, where x = "Some it"] al by (simp add: s'_def alike_def)
    qed
    have dep: "depth s' = depth s" using l(3) al by (auto simp: s'_def l'_def fun_eq_iff)
    show ?thesis
      unfolding ret returns_Some
    proof (rule new [OF inv' _ dep _ _ _ own])
      show "fixed s s'" using al by (simp add: s'_def fixed_def)
      show "d_events s' = d_events s" using al by (simp add: s'_def)
      show "d_next s' = d_next s + 1" using al by (simp add: s'_def a_def alike_def)
      show "d_infos s' = d_infos s" using al by (simp add: s'_def alike_def)
      show "a \<in> set (sl_list (lists s' w))" using as(1) l' by (simp add: s'_def)
      show "d_items s' a = Some it" by (simp add: s'_def)
    qed (use it in simp_all)
  qed
qed

definition duplicate :: "service \<Rightarrow> disc \<Rightarrow> string \<Rightarrow> int \<Rightarrow> bool" where
  "duplicate w s pkg n \<longleftrightarrow> (\<exists>x. (pkg, x) \<in> requests w s \<and> di_id x = n)"

lemma duplicate_item:
  assumes "disc_inv s" and "g_isInited s" and "a \<in> set (sl_list (lists s w))" and "d_items s a = Some it"
  shows "duplicate w s (packageName it) n \<longleftrightarrow> (\<exists>i \<in> set (InfoList it). di_id (the (d_infos s i)) = n)"
proof -
  note own = owned_name(1) [OF disc_invD(4) [OF assms(1,2)] assms(3,4)]
  have "duplicate w s (packageName it) n \<longleftrightarrow> (\<exists>i nd. i \<in> set (InfoList it) \<and> d_infos s i = Some nd \<and> di_id nd = n)"
    unfolding duplicate_def requests_def request_set_def using own by fastforce
  also have "\<dots> \<longleftrightarrow> (\<exists>i \<in> set (InfoList it). di_id (the (d_infos s i)) = n)"
    using node_present [OF assms] by force
  finally show ?thesis .
qed

lemma duplicate_absent:
  assumes "\<forall>a \<in> set (sl_list (lists s w)). \<forall>it. d_items s a = Some it \<longrightarrow> packageName it \<noteq> pkg"
  shows "\<not> duplicate w s pkg n"
  unfolding duplicate_def requests_def request_set_def using assms by (auto elim!: ownedE)

lemma alike_duplicate: "alike s s' \<Longrightarrow> duplicate w s' pkg n = duplicate w s pkg n"
  by (simp add: duplicate_def alike_requests)

definition add_post :: "service \<Rightarrow> string \<Rightarrow> addr \<Rightarrow> DiscInfo \<Rightarrow> disc \<Rightarrow> int \<Rightarrow> disc \<Rightarrow> bool" where
  "add_post w pkg i nd s r s' \<longleftrightarrow>
     (if r = SOFTBUS_OK
      then d_lock_ok s (d_tick s) \<and> \<not> duplicate w s pkg (di_id nd) \<and>
        requests w s' = insert (pkg, nd\<lparr>di_item := None\<rparr>) (requests w s) \<and> linked_in w s' pkg i nd
      else requests w s' = requests w s \<and> d_infos s' = d_infos s \<and> unlinked (lists s') (d_items s') i \<and>
        (if \<not> d_lock_ok s (d_tick s) then r = SOFTBUS_LOCK_ERR
         else if duplicate w s pkg (di_id nd) then r = SOFTBUS_DISCOVER_MANAGER_DUPLICATE_PARAM
         else r = SOFTBUS_DISCOVER_MANAGER_ITEM_NOT_CREATE \<and> (\<exists>n. \<not> d_calloc_ok s n)))"

definition op_post :: "service \<Rightarrow> disc \<Rightarrow> disc \<Rightarrow> bool" where
  "op_post w s s' \<longleftrightarrow> disc_inv s' \<and> fixed s s' \<and> depth s' = depth s \<and> d_next s \<le> d_next s' \<and> d_next s' \<le> d_next s + 1 \<and>
     (\<forall>v. v \<noteq> w \<longrightarrow> requests v s' = requests v s)"

lemma lock_value:
  assumes "disc_inv s" and "g_isInited s"
  obtains t where "SoftBusMutexLock w s = Some (d_lock_ok s (d_tick s), t)" "alike s t" "fixed s t" "d_events t = d_events s"
    "depth t = (if d_lock_ok s (d_tick s) then (depth s)(w := depth s w + 1) else depth s)" "disc_inv t" "g_isInited t"
proof -
  have "returns (SoftBusMutexLock w s) (\<lambda>(ok, t). ok = d_lock_ok s (d_tick s) \<and> alike s t \<and> fixed s t \<and> d_events t = d_events s \<and>
      depth t = (if d_lock_ok s (d_tick s) then (depth s)(w := depth s w + 1) else depth s))"
    by (rule lock_returns [OF assms]) auto
  then show ?thesis using that assms alike_inv unfolding returns_def by (auto simp: alike_def)
qed

lemma unlock_after:
  assumes "disc_inv s" and "g_isInited s" and "\<And>s'. alike s s' \<Longrightarrow> fixed s s' \<Longrightarrow> d_events s' = d_events s \<Longrightarrow> depth s' = (depth s)(w := depth s w - 1) \<Longrightarrow> Q s'"
  shows "returns (SoftBusMutexUnlock w s) Q"
  by (rule unlock_returns) (use disc_invD(3) [OF assms(1,2)] assms(3) in blast)+

lemma linked_alike: "alike s s' \<Longrightarrow> linked_in w s' pkg i nd = linked_in w s pkg i nd"
  by (simp add: linked_in_def alike_def)

lemma unlinked_alike: "alike s s' \<Longrightarrow> unlinked (lists s') (d_items s') i = unlinked (lists s) (d_items s) i"
  by (simp add: alike_def)

lemma list_value:
  assumes "disc_inv s" and "g_isInited s"
  obtains l where "service_list w s = Some l" "sl_list l = sl_list (lists s w)"
  by (rule inited_list [OF assms, of w]) simp

lemma callback_state:
  assumes "disc_inv s" and "g_isInited s" and "a \<in> set (sl_list (lists s w))" and "d_items s a = Some it"
    and "InfoList it' = InfoList it" "infoNum it' = infoNum it" "packageName it' = packageName it" "callback_ok w it'"
  shows "disc_inv (s\<lparr>d_items := (d_items s)(a \<mapsto> it')\<rparr>)"
    and "\<And>as. owned as ((d_items s)(a \<mapsto> it')) = owned as (d_items s)"
proof -
  show "owned as ((d_items s)(a \<mapsto> it')) = owned as (d_items s)" for as by (rule owned_callback [of "d_items s", OF assms(4,5,7)])
  show "disc_inv (s\<lparr>d_items := (d_items s)(a \<mapsto> it')\<rparr>)"
  proof (rule disc_invI [OF assms(1)])
    show "reg_ok (lists (s\<lparr>d_items := (d_items s)(a \<mapsto> it')\<rparr>)) (d_items (s\<lparr>d_items := (d_items s)(a \<mapsto> it')\<rparr>))
        (d_infos (s\<lparr>d_items := (d_items s)(a \<mapsto> it')\<rparr>)) (g_capabilityList (s\<lparr>d_items := (d_items s)(a \<mapsto> it')\<rparr>))"
      using reg_ok_callback [OF disc_invD(4) [OF assms(1,2)] assms(3-8)] by simp
    show "service_list v (s\<lparr>d_items := (d_items s)(a \<mapsto> it')\<rparr>) \<noteq> None" for v using disc_invD(3) [OF assms(1,2)] by simp
  qed (use assms(4) in \<open>auto split: if_splits\<close>)
qed

text \<open>The end of a successful registration.\<close>

lemma linking_returns:
  assumes "disc_inv t" and "g_isInited t" and "a \<in> set (sl_list (lists t w))" and "d_items t a = Some it"
    and "d_infos t i = Some nd" and "unlinked (lists t) (d_items t) i" and "option_ok w (di_option nd)"
    and "\<And>j. j \<in> set (InfoList it) \<Longrightarrow> di_id (the (d_infos t j)) \<noteq> di_id nd" and "is_subscribe type \<longleftrightarrow> w = Subscriptions"
    and "d_lock_ok s (d_tick s)" "\<not> duplicate w s (packageName it) (di_id nd)" "\<And>v. requests v t = requests v s"
    and "fixed s t" "d_events t = d_events s" "depth t = (depth s)(w := depth s w + 1)" "d_next s \<le> d_next t" "d_next t \<le> d_next s + 1"
  shows "returns (link_info a i type t) (\<lambda>x. returns (SoftBusMutexUnlock w x)
    (\<lambda>s'. op_post w s s' \<and> d_events s' = d_events s \<and> add_post w (packageName it) i nd s SOFTBUS_OK s'))"
proof (rule link_returns [OF assms(1-9)])
  fix u assume u: "disc_inv u" "fixed t u" "depth u = depth t" "d_events u = d_events t" "d_tick u = d_tick t" "d_next u = d_next t"
    "requests w u = insert (packageName it, nd\<lparr>di_item := None\<rparr>) (requests w t)" "\<And>v. v \<noteq> w \<Longrightarrow> requests v u = requests v t"
    "linked_in w u (packageName it) i nd"
  have "g_isInited u" using u(2) assms(2) by (simp add: fixed_def)
  then show "returns (SoftBusMutexUnlock w u)
      (\<lambda>s'. op_post w s s' \<and> d_events s' = d_events s \<and> add_post w (packageName it) i nd s SOFTBUS_OK s')"
  proof (rule unlock_after [OF u(1)])
    fix s' assume e: "alike u s'" "fixed u s'" "d_events s' = d_events u" "depth s' = (depth u)(w := depth u w - 1)"
    have "depth s' = depth s" using e(4) u(3) assms(15) by simp
    moreover have "fixed s s'" using fixed_trans [OF assms(13) fixed_trans [OF u(2) e(2)]] .
    moreover have "d_next s' = d_next t" using e(1) u(6) by (simp add: alike_def)
    ultimately show "op_post w s s' \<and> d_events s' = d_events s \<and> add_post w (packageName it) i nd s SOFTBUS_OK s'"
      using u e assms(10-17) alike_requests [OF e(1)] alike_inv [OF e(1)] linked_alike [OF e(1)]
      by (auto simp: op_post_def add_post_def)
  qed
qed

lemma AddInfoToList_returns:
  assumes "disc_inv s" and "g_isInited s" and "callback_fits w pkg type cb" and "length pkg < PKG_NAME_SIZE_MAX \<and> PKG_NAME_SIZE_MAX \<le> room"
    and "d_infos s i = Some nd" and "unlinked (lists s) (d_items s) i" and "option_ok w (di_option nd)"
  shows "returns (AddInfoToList w room pkg cb i type s) (\<lambda>(r, s'). op_post w s s' \<and> d_events s' = d_events s \<and> add_post w pkg i nd s r s')"
proof -
  note type = callback_fits_type [OF assms(3)]
  obtain t where t: "SoftBusMutexLock w s = Some (d_lock_ok s (d_tick s), t)" and al: "alike s t" and fx: "fixed s t" and ev: "d_events t = d_events s"
    and dp: "depth t = (if d_lock_ok s (d_tick s) then (depth s)(w := depth s w + 1) else depth s)" and inv: "disc_inv t" "g_isInited t"
    by (rule lock_value [OF assms(1,2)])
  have i: "d_infos t i = Some nd" "unlinked (lists t) (d_items t) i" using al assms(5,6) by (simp_all add: alike_def)
  have nx: "d_next t = d_next s" using al by (simp add: alike_def)
  have rq: "requests v t = requests v s" for v by (rule alike_requests [OF al])
  show ?thesis
  proof (cases "d_lock_ok s (d_tick s)")
    case False
    then show ?thesis
      unfolding AddInfoToList_def using t al fx ev dp inv i nx rq by (simp add: op_post_def add_post_def alike_def)
  next
    case True
    have dp: "depth t = (depth s)(w := depth s w + 1)" using dp True by simp
    have refuse: "returns (SoftBusMutexUnlock w u) (\<lambda>s'. op_post w s s' \<and> d_events s' = d_events s \<and> add_post w pkg i nd s r s')"
      if u: "alike t u" "fixed t u" "depth u = depth t" "d_events u = d_events t" and "r \<noteq> SOFTBUS_OK"
        and r: "if duplicate w s pkg (di_id nd) then r = SOFTBUS_DISCOVER_MANAGER_DUPLICATE_PARAM 
          else r = SOFTBUS_DISCOVER_MANAGER_ITEM_NOT_CREATE \<and> (\<exists>n. \<not> d_calloc_ok s n)" for u r
    proof (rule unlock_after)
      show "disc_inv u" "g_isInited u" using u(1) inv alike_inv by (auto simp: alike_def)
      fix s' assume e: "alike u s'" "fixed u s'" "d_events s' = d_events u" "depth s' = (depth u)(w := depth u w - 1)"
      have a: "alike s s'" using alike_trans [OF al alike_trans [OF u(1) e(1)]] .
      moreover have "fixed s s'" using fixed_trans [OF fx fixed_trans [OF u(2) e(2)]] .
      moreover have "depth s' = depth s" using e(4) u(3) dp by simp
      ultimately show "op_post w s s' \<and> d_events s' = d_events s \<and> add_post w pkg i nd s r s'"
        using alike_inv [OF a] alike_requests [OF a] unlinked_alike [OF a] assms(1,6) e(3) u(4) ev True that(5) r
        by (auto simp: op_post_def add_post_def alike_def)
    qed
    obtain l where l: "service_list w t = Some l" "sl_list l = sl_list (lists t w)" by (rule list_value [OF inv])
    consider (found) a it where "find_item (d_items t) pkg (sl_list (lists t w)) = Some (Some a)" "a \<in> set (sl_list (lists t w))"
        "d_items t a = Some it" "packageName it = pkg"
      | (absent) "find_item (d_items t) pkg (sl_list (lists t w)) = Some None"
        "\<forall>a \<in> set (sl_list (lists t w)). \<forall>it. d_items t a = Some it \<longrightarrow> packageName it \<noteq> pkg"
      by (rule find_item_cases [OF item_present [OF inv, where w = w]])
    then show ?thesis
    proof cases
      case (found a it)
      have dup: "duplicate w s pkg (di_id nd) \<longleftrightarrow> (\<exists>i \<in> set (InfoList it). di_id (the (d_infos t i)) = di_id nd)"
        using duplicate_item [OF inv found(2,3)] alike_duplicate [OF al] found(4) by simp
      consider (again) j x where "find_id (d_infos t) (di_id nd) (InfoList it) = Some (Some j)" "j \<in> set (InfoList it)"
          "d_infos t j = Some x" "di_id x = di_id nd"
        | (fresh) "find_id (d_infos t) (di_id nd) (InfoList it) = Some None"
          "\<forall>j \<in> set (InfoList it). di_id (the (d_infos t j)) \<noteq> di_id nd"
        by (rule find_id_cases [OF node_present [OF inv found(2,3)]])
      then show ?thesis
      proof cases
        case (again j x)
        then have "duplicate w s pkg (di_id nd)" unfolding dup by (intro bexI [of _ j]) simp_all
        then have "returns (SoftBusMutexUnlock w t) (\<lambda>s'. op_post w s s' \<and> d_events s' = d_events s \<and>
            add_post w pkg i nd s SOFTBUS_DISCOVER_MANAGER_DUPLICATE_PARAM s')" by (intro refuse) simp_all
        then show ?thesis
          unfolding AddInfoToList_def using True t l i(1) found again(1) by simp
      next
        case fresh
        have cb: "callback_ok w it" by (rule item_okD(5) [OF reg_okD(3) [OF disc_invD(4) [OF inv] found(2)] found(3)])
        obtain it' where it': "AddCallbackToItem it cb type = Some it'" "InfoList it' = InfoList it" "infoNum it' = infoNum it"
            "packageName it' = packageName it" "callback_ok w it'"
          by (rule AddCallbackToItem_ok [of w it type cb]) (use assms(3) found(4) cb in simp_all)
        let ?t = "t\<lparr>d_items := (d_items t)(a \<mapsto> it')\<rparr>"
        note c = callback_state [OF inv found(2,3) it'(2-5)]
        have "returns (link_info a i type ?t) (\<lambda>x. returns (SoftBusMutexUnlock w x)
            (\<lambda>s'. op_post w s s' \<and> d_events s' = d_events s \<and> add_post w (packageName it') i nd s SOFTBUS_OK s'))"
        proof (rule linking_returns [OF c(1)])
          show "\<And>v. requests v ?t = requests v s" using c(2) rq by (simp add: requests_def request_set_def)
          show "unlinked (lists ?t) (d_items ?t) i" using i(2) c(2) by (simp add: unlinked_def)
          show "\<not> duplicate w s (packageName it') (di_id nd)" using dup fresh(2) it'(4) found(4) by auto
        qed (use inv found i assms(7) fresh(2) it' type True fx ev dp nx in \<open>simp_all add: fixed_def\<close>)
        then show ?thesis
          unfolding AddInfoToList_def using True t l i(1) found fresh(1) it'(1,4) by simp
      qed
    next
      case absent
      have nodup: "\<not> duplicate w s pkg (di_id nd)"
        using duplicate_absent [OF absent(2)] alike_duplicate [OF al] by blast
      have "returns (CreateNewItem w room pkg cb type t) (\<lambda>(new, u). returns (case new of
            None \<Rightarrow> do { s \<leftarrow> SoftBusMutexUnlock w u; Some (SOFTBUS_DISCOVER_MANAGER_ITEM_NOT_CREATE, s) }
          | Some a \<Rightarrow> do { s \<leftarrow> link_info a i type u; s \<leftarrow> SoftBusMutexUnlock w s; Some (SOFTBUS_OK, s) })
          (\<lambda>(r, s'). op_post w s s' \<and> d_events s' = d_events s \<and> add_post w pkg i nd s r s'))"
      proof (rule CreateNewItem_returns [OF inv assms(3,4)])
        show "packageName it \<noteq> pkg" if "a \<in> set (sl_list (lists t w))" "d_items t a = Some it" for a it using absent(2) that by blast
        fix u assume "alike t u" "fixed t u" "depth u = depth t" "d_events u = d_events t" "\<exists>n. \<not> d_calloc_ok t n"
        then show "case (None, u) of (new, u) \<Rightarrow> returns (case new of
            None \<Rightarrow> do { s \<leftarrow> SoftBusMutexUnlock w u; Some (SOFTBUS_DISCOVER_MANAGER_ITEM_NOT_CREATE, s) }
          | Some a \<Rightarrow> do { s \<leftarrow> link_info a i type u; s \<leftarrow> SoftBusMutexUnlock w s; Some (SOFTBUS_OK, s) })
          (\<lambda>(r, s'). op_post w s s' \<and> d_events s' = d_events s \<and> add_post w pkg i nd s r s')"
          using refuse [of u SOFTBUS_DISCOVER_MANAGER_ITEM_NOT_CREATE] nodup fx by (simp add: fixed_def)
      next
        fix a it u assume u: "disc_inv u" "fixed t u" "depth u = depth t" "d_events u = d_events t" "d_next u = d_next t + 1" "d_infos u = d_infos t"
          "\<And>v. owned (sl_list (lists u v)) (d_items u) = owned (sl_list (lists t v)) (d_items t)"
          "a \<in> set (sl_list (lists u w))" "d_items u a = Some it" "InfoList it = []" "packageName it = pkg"
        have "returns (link_info a i type u) (\<lambda>x. returns (SoftBusMutexUnlock w x)
            (\<lambda>s'. op_post w s s' \<and> d_events s' = d_events s \<and> add_post w (packageName it) i nd s SOFTBUS_OK s'))"
        proof (rule linking_returns [OF u(1) _ u(8,9)])
          show "\<And>v. requests v u = requests v s" using requests_owned(1) [OF u(7,6)] rq by simp
          show "unlinked (lists u) (d_items u) i" using requests_owned(2) [OF u(7,6)] i(2) by simp
          show "fixed s u" by (rule fixed_trans [OF fx u(2)])
        qed (use inv(2) i assms(7) u type True nodup ev dp nx in \<open>simp_all add: fixed_def\<close>)
        then show "case (Some a, u) of (new, u) \<Rightarrow> returns (case new of
            None \<Rightarrow> do { s \<leftarrow> SoftBusMutexUnlock w u; Some (SOFTBUS_DISCOVER_MANAGER_ITEM_NOT_CREATE, s) }
          | Some a \<Rightarrow> do { s \<leftarrow> link_info a i type u; s \<leftarrow> SoftBusMutexUnlock w s; Some (SOFTBUS_OK, s) })
          (\<lambda>(r, s'). op_post w s s' \<and> d_events s' = d_events s \<and> add_post w pkg i nd s r s')"
          using u(11) by simp
      qed
      then show ?thesis
        unfolding AddInfoToList_def using True t l i(1) absent(1) by (simp add: case_prod_unfold)
    qed
  qed
qed

lemma infoNum_zero:
  assumes "disc_inv s" and "g_isInited s" and "a \<in> set (sl_list (lists s w))" and "d_items s a = Some it" and "d_next s < 2 ^ 32"
    and "set xs \<subseteq> set (InfoList it)" and "distinct xs"
  shows "(of_nat (length xs) :: u32) = 0 \<longleftrightarrow> xs = []"
proof -
  have "set xs \<subseteq> {..<d_next s}"
  proof
    fix i assume "i \<in> set xs"
    then have "i \<in> set (InfoList it)" using assms(6) by blast
    then have "d_infos s i \<noteq> None" by (rule node_present [OF assms(1-4)])
    then show "i \<in> {..<d_next s}" using disc_invD(2) [OF assms(1)] by blast
  qed
  then have "card (set xs) \<le> d_next s" using card_mono [of "{..<d_next s}" "set xs"] by simp
  then have "length xs < 2 ^ 32" using assms(5,7) by (simp add: distinct_card)
  then have "unat (of_nat (length xs) :: u32) = length xs" by (simp add: unat_of_nat take_bit_nat_eq_self)
  then show ?thesis by (metis length_0_conv unat_0 unat_eq_zero)
qed

definition delete_post :: "service \<Rightarrow> string \<Rightarrow> int \<Rightarrow> disc \<Rightarrow> addr option \<Rightarrow> disc \<Rightarrow> bool" where
  "delete_post w pkg n s r s' \<longleftrightarrow>
     (case r of
        None \<Rightarrow> requests w s' = requests w s \<and> (d_lock_ok s (d_tick s) \<longrightarrow> \<not> duplicate w s pkg n)
      | Some i \<Rightarrow> d_lock_ok s (d_tick s) \<and> (pkg, i) \<in> owned (sl_list (lists s w)) (d_items s) \<and>
          (\<exists>nd. d_infos s i = Some nd \<and> di_id nd = n \<and> (pkg, nd\<lparr>di_item := None\<rparr>) \<in> requests w s \<and>
          requests w s' = requests w s - {(pkg, nd\<lparr>di_item := None\<rparr>)} \<and> unlinked (lists s') (d_items s') i))"

lemma DeleteInfoFromList_returns:
  assumes "disc_inv s" and "g_isInited s" and "is_subscribe type \<longleftrightarrow> w = Subscriptions" and "d_next s < 2 ^ 32"
  shows "returns (DeleteInfoFromList w pkg n type s) (\<lambda>(r, s'). op_post w s s' \<and> d_events s' = d_events s \<and>
    d_next s' = d_next s \<and> d_infos s' = d_infos s \<and> delete_post w pkg n s r s')"
proof -
  let ?P = "\<lambda>r s'. op_post w s s' \<and> d_events s' = d_events s \<and> d_next s' = d_next s \<and> d_infos s' = d_infos s \<and> delete_post w pkg n s r s'"
  obtain t where t: "SoftBusMutexLock w s = Some (d_lock_ok s (d_tick s), t)" and al: "alike s t" and fx: "fixed s t" and ev: "d_events t = d_events s"
    and dp: "depth t = (if d_lock_ok s (d_tick s) then (depth s)(w := depth s w + 1) else depth s)" and inv: "disc_inv t" "g_isInited t"
    by (rule lock_value [OF assms(1,2)])
  have nx: "d_next t = d_next s" and ni: "d_infos t = d_infos s" using al by (simp_all add: alike_def)
  have rq: "requests v t = requests v s" for v by (rule alike_requests [OF al])
  show ?thesis
  proof (cases "d_lock_ok s (d_tick s)")
    case False
    then show ?thesis
      unfolding DeleteInfoFromList_def using t al fx ev dp inv nx rq by (simp add: op_post_def delete_post_def alike_def)
  next
    case True
    have dp: "depth t = (depth s)(w := depth s w + 1)" using dp True by simp
    have finish: "returns (SoftBusMutexUnlock w u) (?P r)"
      if u: "disc_inv u" "fixed t u" "depth u = depth t" "d_events u = d_events t" "d_next u = d_next t" "d_infos u = d_infos t"
        and o: "\<And>v. v \<noteq> w \<Longrightarrow> requests v u = requests v t" and p: "delete_post w pkg n s r u" for u r
    proof (rule unlock_after [OF u(1)])
      show "g_isInited u" using u(2) inv(2) by (simp add: fixed_def)
      fix s' assume e: "alike u s'" "fixed u s'" "d_events s' = d_events u" "depth s' = (depth u)(w := depth u w - 1)"
      have "fixed s s'" using fixed_trans [OF fx fixed_trans [OF u(2) e(2)]] .
      moreover have "depth s' = depth s" using e(4) u(3) dp by simp
      moreover have "delete_post w pkg n s r s'"
        using p alike_requests [OF e(1)] unlinked_alike [OF e(1)] unfolding delete_post_def by (auto split: option.splits)
      ultimately show "?P r s'"
        using alike_inv [OF e(1)] alike_requests [OF e(1)] u o e(1,3) ev nx rq ni by (auto simp: op_post_def alike_def)
    qed
    obtain l where l: "service_list w t = Some l" "sl_list l = sl_list (lists t w)" by (rule list_value [OF inv])
    consider (found) a it where "find_item (d_items t) pkg (sl_list (lists t w)) = Some (Some a)" "a \<in> set (sl_list (lists t w))"
        "d_items t a = Some it" "packageName it = pkg"
      | (absent) "find_item (d_items t) pkg (sl_list (lists t w)) = Some None"
        "\<forall>a \<in> set (sl_list (lists t w)). \<forall>it. d_items t a = Some it \<longrightarrow> packageName it \<noteq> pkg"
      by (rule find_item_cases [OF item_present [OF inv, where w = w]])
    then show ?thesis
    proof cases
      case absent
      then have "\<not> duplicate w s pkg n" using duplicate_absent alike_duplicate [OF al] by blast
      then have "returns (SoftBusMutexUnlock w t) (?P None)" by (intro finish) (simp_all add: inv delete_post_def rq)
      then show ?thesis unfolding DeleteInfoFromList_def using True t l absent(1) by simp
    next
      case (found a it)
      note d = item_okD [OF reg_okD(3) [OF disc_invD(4) [OF inv] found(2)] found(3)]
      have dup: "duplicate w s pkg n \<longleftrightarrow> (\<exists>i \<in> set (InfoList it). di_id (the (d_infos t i)) = n)"
        using duplicate_item [OF inv found(2,3)] alike_duplicate [OF al] found(4) by simp
      have bound: "d_next t < 2 ^ 32" using nx assms(4) by simp
      have zero: "infoNum it = 0 \<longleftrightarrow> InfoList it = []" using infoNum_zero [OF inv found(2,3) bound order_refl d(1)] d(2) by simp
      show ?thesis
      proof (cases "InfoList it = []")
        case True
        then have nd: "\<not> duplicate w s pkg n" using dup by simp
        have "returns (delete_item w a t) (\<lambda>u. returns (SoftBusMutexUnlock w u) (?P None))"
        proof (rule delete_item_returns [OF inv found(2,3) True])
          fix u assume u: "disc_inv u" "fixed t u" "depth u = depth t" "d_events u = d_events t" "d_tick u = d_tick t" "d_next u = d_next t" "d_infos u = d_infos t"
            "\<And>v. owned (sl_list (lists u v)) (d_items u) = owned (sl_list (lists t v)) (d_items t)"
          show "returns (SoftBusMutexUnlock w u) (?P None)"
            using requests_owned(1) [OF u(8,7)] nd by (intro finish [OF u(1-4,6,7)]) (simp_all add: delete_post_def rq)
        qed
        then show ?thesis unfolding DeleteInfoFromList_def using \<open>d_lock_ok s (d_tick s)\<close> t l found True zero by simp
      next
        case False
        consider (hit) i nd where "find_id (d_infos t) n (InfoList it) = Some (Some i)" "i \<in> set (InfoList it)"
            "d_infos t i = Some nd" "di_id nd = n"
          | (miss) "find_id (d_infos t) n (InfoList it) = Some None" "\<forall>j \<in> set (InfoList it). di_id (the (d_infos t j)) \<noteq> n"
          by (rule find_id_cases [OF node_present [OF inv found(2,3)]])
        then show ?thesis
        proof cases
          case miss
          then have "\<not> duplicate w s pkg n" using dup by simp
          then have "returns (SoftBusMutexUnlock w t) (?P None)" by (intro finish) (simp_all add: inv delete_post_def rq)
          then show ?thesis unfolding DeleteInfoFromList_def using \<open>d_lock_ok s (d_tick s)\<close> t l found False zero miss(1) by simp
        next
          case (hit i nd)
          let ?it = "it\<lparr>infoNum := infoNum it - 1, InfoList := remove1 i (InfoList it)\<rparr>"
          define u where "u = t\<lparr>g_capabilityList := caps_remove w i (g_capabilityList t), d_items := (d_items t)(a \<mapsto> ?it)\<rparr>"
          note us = unlink_state [OF inv found(2,3) hit(2,3) u_def]
          have "(pkg, nd\<lparr>di_item := None\<rparr>) \<in> requests w t"
            using owned_name(1) [OF disc_invD(4) [OF inv] found(2,3), of i] hit(2,3) found(4)
            unfolding requests_def request_set_def by auto
          then have mem: "(pkg, nd\<lparr>di_item := None\<rparr>) \<in> requests w s" using rq by simp
          have own: "(pkg, i) \<in> owned (sl_list (lists s w)) (d_items s)"
            using owned_name(1) [OF disc_invD(4) [OF inv] found(2,3), of i] hit(2) found(4) al by (simp add: alike_def)
          have z: "infoNum ?it = 0 \<longleftrightarrow> InfoList ?it = []"
            using infoNum_zero [OF inv found(2,3) bound, of "remove1 i (InfoList it)"] d(1,2) of_nat_remove1 [OF hit(2)]
            by (simp add: set_remove1_eq distinct_remove1)
          have post: "delete_post w pkg n s (Some i) x" if "requests w x = requests w u" "unlinked (lists x) (d_items x) i" for x
            using us(3) that mem own hit(3,4) \<open>d_lock_ok s (d_tick s)\<close> ni rq found(4) by (auto simp: delete_post_def)
          have iu: "g_isInited u" "a \<in> set (sl_list (lists u w))" "d_items u a = Some ?it" using inv(2) found(2) by (simp_all add: u_def)
          have "returns (if infoNum ?it = 0 then delete_item w a u else Some u) (\<lambda>x. returns (SoftBusMutexUnlock w x) (?P (Some i)))"
          proof (cases "infoNum ?it = 0")
            case True
            have "returns (delete_item w a u) (\<lambda>x. returns (SoftBusMutexUnlock w x) (?P (Some i)))"
            proof (rule delete_item_returns [OF us(1) iu])
              show "InfoList ?it = []" using True z by blast
              fix x assume x: "disc_inv x" "fixed u x" "depth x = depth u" "d_events x = d_events u" "d_tick x = d_tick u" "d_next x = d_next u" "d_infos x = d_infos u"
                "\<And>v. owned (sl_list (lists x v)) (d_items x) = owned (sl_list (lists u v)) (d_items u)"
              note o = requests_owned [OF x(8,7)]
              show "returns (SoftBusMutexUnlock w x) (?P (Some i))"
              proof (rule finish [OF x(1)])
                show "delete_post w pkg n s (Some i) x" using post o us(2) by blast
                show "requests v x = requests v t" if "v \<noteq> w" for v using o(1) us(4) [OF that] by simp
              qed (use x(2-7) in \<open>simp_all add: u_def fixed_def\<close>)
            qed
            then show ?thesis using True by simp
          next
            case False
            have "returns (SoftBusMutexUnlock w u) (?P (Some i))"
            proof (rule finish [OF us(1)])
              show "delete_post w pkg n s (Some i) u" using post us(2) by blast
              show "requests v u = requests v t" if "v \<noteq> w" for v using us(4) [OF that] .
            qed (simp_all add: u_def fixed_def)
            then show ?thesis using False by simp
          qed
          moreover have "DeleteInfoFromCapability i type t = Some (t\<lparr>g_capabilityList := caps_remove w i (g_capabilityList t)\<rparr>)"
            by (rule DeleteInfoFromCapability_value [OF _ assms(3)]) (simp add: hit(3))
          ultimately show ?thesis
            unfolding DeleteInfoFromList_def using \<open>d_lock_ok s (d_tick s)\<close> t l found False zero hit(1)
            unfolding u_def by (auto simp add: Let_def split: if_splits)
        qed
      qed
    qed
  qed
qed
end
