(* ===== verification/Disc_Requests.thy ===== *)
theory Disc_Requests
  imports Disc_Lists
begin

text \<open>
  Requests from their checks to the answer of the medium: registration with its undoing when the medium refuses, withdrawal,
  and the operations of the interface built from them.
\<close>

section \<open>Requests\<close>

text \<open>What an operation on one service list leaves behind.\<close>

definition step_post :: "service \<Rightarrow> disc \<Rightarrow> disc \<Rightarrow> bool" where
  "step_post w s s' \<longleftrightarrow> disc_inv s' \<and> fixed s s' \<and> depth s' = depth s \<and> d_next s \<le> d_next s' \<and> d_next s' \<le> d_next s + 2 \<and>
     (\<forall>v. v \<noteq> w \<longrightarrow> requests v s' = requests v s)"

lemma unlink_info_returns:
  assumes "disc_inv t" and "g_isInited t" and "linked_in w t pkg i nd" and "is_subscribe type \<longleftrightarrow> w = Subscriptions"
    and "\<And>s'. disc_inv s' \<Longrightarrow> fixed t s' \<Longrightarrow> depth s' = depth t \<Longrightarrow> d_events s' = d_events t \<Longrightarrow> d_next s' = d_next t \<Longrightarrow> d_infos s' = d_infos t \<Longrightarrow>
      requests w s' = requests w t - {(pkg, nd\<lparr>di_item := None\<rparr>)} \<Longrightarrow> (\<And>v. v \<noteq> w \<Longrightarrow> requests v s' = requests v t) \<Longrightarrow>
      unlinked (lists s') (d_items s') i \<Longrightarrow> Q s'"
  shows "returns (unlink_info i type t) Q"
proof -
  obtain a it where a: "a \<in> set (sl_list (lists t w))" "d_items t a = Some it" "packageName it = pkg" "i \<in> set (InfoList it)"
      "d_infos t i = Some (nd\<lparr>di_item := Some a\<rparr>)"
    using assms(3) unfolding linked_in_def by blast
  define u where "u = t\<lparr>g_capabilityList := caps_remove w i (g_capabilityList t),
    d_items := (d_items t)(a \<mapsto> it\<lparr>infoNum := infoNum it - 1, InfoList := remove1 i (InfoList it)\<rparr>)\<rparr>"
  note us = unlink_state [OF assms(1,2) a(1,2,4,5) u_def]
  have "DeleteInfoFromCapability i type t = Some (t\<lparr>g_capabilityList := caps_remove w i (g_capabilityList t)\<rparr>)"
    by (rule DeleteInfoFromCapability_value [OF _ assms(4)]) (simp add: a(5))
  then have "unlink_info i type t = Some u" using a by (simp add: unlink_info_def u_def)
  moreover have "Q u" by (rule assms(5)) (use us a(3) in \<open>simp_all add: u_def fixed_def\<close>)
  ultimately show ?thesis by simp
qed

text \<open>A state in which no lock and no allocation fails, and one in which the medium of a request is there and accepts it.\<close>

definition no_failures :: "disc \<Rightarrow> bool" where
  "no_failures s \<longleftrightarrow> (\<forall>n. d_lock_ok s n) \<and> (\<forall>n. d_calloc_ok s n)"

definition medium_works :: "disc \<Rightarrow> DiscInfo \<Rightarrow> bool" where
  "medium_works s nd \<longleftrightarrow> (\<forall>n. d_medium_ret s n = SOFTBUS_OK) \<and>
     (if di_medium nd = MEDIUM_COAP then g_discCoapInterface s \<noteq> None
      else if di_medium nd = MEDIUM_BLE then g_discBleInterface s \<noteq> None
      else di_medium nd = MEDIUM_AUTO \<and> (g_discCoapInterface s \<noteq> None \<or> g_discBleInterface s \<noteq> None))"

lemma no_failures_fixed: "fixed s t \<Longrightarrow> no_failures t = no_failures s"
  by (simp add: no_failures_def fixed_def)

lemma medium_works_fixed: "fixed s t \<Longrightarrow> di_medium nd' = di_medium nd \<Longrightarrow> medium_works t nd' = medium_works s nd"
  by (simp add: medium_works_def fixed_def)

lemma medium_accepts:
  assumes "medium_works s nd" and "DiscInterfaceByMedium nd type s = (ret, s')"
  shows "ret = SOFTBUS_OK"
  using assms
  by (auto simp: medium_works_def DiscInterfaceByMedium_def DiscInterfaceProcess_def event_def
      split: if_splits prod.splits option.splits)

lemma drive_medium_returns:
  assumes "disc_inv t" and "g_isInited t" and "linked_in w t pkg i nd" and "is_subscribe type \<longleftrightarrow> w = Subscriptions"
  shows "returns (drive_medium func i type t) (\<lambda>(r, s'). op_post w t s' \<and> d_next s' = d_next t \<and> d_infos s' = d_infos t \<and>
    (if r = SOFTBUS_OK then requests w s' = requests w t
     else requests w s' = requests w t - {(pkg, nd\<lparr>di_item := None\<rparr>)} \<and> unlinked (lists s') (d_items s') i \<and> \<not> medium_works t nd))"
proof -
  obtain x where x: "d_infos t i = Some x" "di_medium x = di_medium nd" using assms(3) unfolding linked_in_def by auto
  obtain ret u where u: "DiscInterfaceByMedium x func t = (ret, u)" by fastforce
  note m = medium_alike [OF u]
  have inv: "disc_inv u" "g_isInited u" using alike_inv [OF m(1)] assms(1,2) m(1) by (simp_all add: alike_def)
  have nx: "d_next u = d_next t" "d_infos u = d_infos t" using m(1) by (simp_all add: alike_def)
  have rq: "requests v u = requests v t" for v by (rule alike_requests [OF m(1)])
  show ?thesis
  proof (cases "ret = SOFTBUS_OK")
    case True
    then show ?thesis using x u inv m nx rq by (simp add: drive_medium_def op_post_def)
  next
    case False
    have l: "linked_in w u pkg i nd" using linked_alike [OF m(1)] assms(3) by simp
    have "returns (unlink_info i type u) (\<lambda>s'. op_post w t s' \<and> d_next s' = d_next t \<and> d_infos s' = d_infos t \<and>
        requests w s' = requests w t - {(pkg, nd\<lparr>di_item := None\<rparr>)} \<and> unlinked (lists s') (d_items s') i)"
      by (rule unlink_info_returns [OF inv l assms(4)]) (use m nx rq fixed_trans in \<open>auto simp: op_post_def\<close>)
    moreover have "\<not> medium_works t nd"
      using medium_accepts [OF _ u] False medium_works_fixed [OF fixed_refl x(2)] by blast
    ultimately show ?thesis using x(1) u False by (simp add: drive_medium_def)
  qed
qed

lemma fresh_unlinked:
  assumes "disc_inv s" and "g_isInited s" and "d_infos s i = None"
  shows "unlinked (lists s) (d_items s) i"
  unfolding unlinked_def
proof (intro allI notI)
  fix w assume "i \<in> snd ` owned (sl_list (lists s w)) (d_items s)"
  then obtain n where "(n, i) \<in> owned (sl_list (lists s w)) (d_items s)" by auto
  then obtain a it where a: "a \<in> set (sl_list (lists s w))" "d_items s a = Some it" "i \<in> set (InfoList it)" by (rule ownedE)
  show False using node_present [OF assms(1,2) a] assms(3) by simp
qed

lemma infos_state:
  assumes "disc_inv s" and "g_isInited s" and "unlinked (lists s) (d_items s) i" and "i < d_next s \<or> x = None"
  shows "disc_inv (s\<lparr>d_infos := (d_infos s)(i := x)\<rparr>)" and "requests w (s\<lparr>d_infos := (d_infos s)(i := x)\<rparr>) = requests w s"
proof -
  note r = reg_ok_infs [OF disc_invD(4) [OF assms(1,2)] assms(3), where x = x]
  show "requests w (s\<lparr>d_infos := (d_infos s)(i := x)\<rparr>) = requests w s" using r(2) by (simp add: requests_def)
  show "disc_inv (s\<lparr>d_infos := (d_infos s)(i := x)\<rparr>)"
  proof (rule disc_invI [OF assms(1)])
    show "service_list v (s\<lparr>d_infos := (d_infos s)(i := x)\<rparr>) \<noteq> None" for v using disc_invD(3) [OF assms(1,2)] by simp
  qed (use r(1) assms(4) in \<open>auto split: if_splits\<close>)
qed

text \<open>A request from the new node to the answer of the medium.\<close>

definition register :: "service \<Rightarrow> InterfaceFuncType \<Rightarrow> nat \<Rightarrow> string \<Rightarrow> InnerCallback option \<Rightarrow> addr \<Rightarrow> ServiceType \<Rightarrow> disc \<Rightarrow> (int \<times> disc) option" where
  "register w func room pkg cb i type s = do {
     (ret, s) \<leftarrow> do {
       (ret, s) \<leftarrow> AddInfoToList w room pkg cb i type s;
       if ret \<noteq> SOFTBUS_OK then Some (ret, s) else drive_medium func i type s };
     if ret \<noteq> SOFTBUS_OK then do { s \<leftarrow> ReleaseInfoNodeMem i s; Some (ret, s) } else Some (SOFTBUS_OK, s)
   }"

definition register_post :: "service \<Rightarrow> string \<Rightarrow> DiscInfo \<Rightarrow> disc \<Rightarrow> int \<Rightarrow> disc \<Rightarrow> bool" where
  "register_post w pkg nd s r s' \<longleftrightarrow>
     (if r = SOFTBUS_OK
      then d_lock_ok s (d_tick s) \<and> \<not> duplicate w s pkg (di_id nd) \<and> requests w s' = insert (pkg, nd\<lparr>di_item := None\<rparr>) (requests w s)
      else requests w s' = requests w s \<and>
        (\<not> d_lock_ok s (d_tick s) \<longrightarrow> r = SOFTBUS_LOCK_ERR) \<and>
        (d_lock_ok s (d_tick s) \<and> duplicate w s pkg (di_id nd) \<longrightarrow> r = SOFTBUS_DISCOVER_MANAGER_DUPLICATE_PARAM) \<and>
        (no_failures s \<and> medium_works s nd \<longrightarrow> duplicate w s pkg (di_id nd)))"

lemma release_returns:
  assumes "disc_inv u" and "g_isInited u" and "unlinked (lists u) (d_items u) i" and "d_infos u i \<noteq> None"
    and "\<And>s'. disc_inv s' \<Longrightarrow> fixed u s' \<Longrightarrow> depth s' = depth u \<Longrightarrow> d_events s' = d_events u \<Longrightarrow> d_next s' = d_next u \<Longrightarrow>
      (\<And>v. requests v s' = requests v u) \<Longrightarrow> Q s'"
  shows "returns (ReleaseInfoNodeMem i u) Q"
proof -
  have "ReleaseInfoNodeMem i u = Some (u\<lparr>d_infos := (d_infos u)(i := None)\<rparr>)" using assms(4) by (auto simp: ReleaseInfoNodeMem_def)
  moreover have "Q (u\<lparr>d_infos := (d_infos u)(i := None)\<rparr>)"
    by (rule assms(5)) (use infos_state [OF assms(1-3), of None] in \<open>simp_all add: fixed_def\<close>)
  ultimately show ?thesis by simp
qed

lemma op_post_then:
  assumes "op_post w s u" and "disc_inv s'" and "fixed u s'" and "depth s' = depth u" and "d_next s' = d_next u"
    and "\<And>v. v \<noteq> w \<Longrightarrow> requests v s' = requests v u"
  shows "op_post w s s'"
  using assms fixed_trans [of s u s'] unfolding op_post_def by simp

lemma op_postD:
  assumes "op_post w s s'"
  shows "disc_inv s'" and "fixed s s'" and "depth s' = depth s" and "d_next s \<le> d_next s'" and "d_next s' \<le> d_next s + 1"
    and "\<And>v. v \<noteq> w \<Longrightarrow> requests v s' = requests v s"
  using assms unfolding op_post_def by blast+

lemma register_returns:
  assumes "disc_inv s" and "g_isInited s" and "callback_fits w pkg type cb" and "length pkg < PKG_NAME_SIZE_MAX \<and> PKG_NAME_SIZE_MAX \<le> room"
    and "d_infos s i = Some nd" and "unlinked (lists s) (d_items s) i" and "option_ok w (di_option nd)"
  shows "returns (register w func room pkg cb i type s) (\<lambda>(r, s'). op_post w s s' \<and> register_post w pkg nd s r s')"
proof -
  note type = callback_fits_type [OF assms(3)]
  have rel: "returns (ReleaseInfoNodeMem i u) (\<lambda>s'. op_post w s s' \<and> register_post w pkg nd s r s')"
    if u: "op_post w s u" "unlinked (lists u) (d_items u) i" "d_infos u i \<noteq> None" "requests w u = requests w s" and r: "r \<noteq> SOFTBUS_OK"
      "\<not> d_lock_ok s (d_tick s) \<longrightarrow> r = SOFTBUS_LOCK_ERR"
      "d_lock_ok s (d_tick s) \<and> duplicate w s pkg (di_id nd) \<longrightarrow> r = SOFTBUS_DISCOVER_MANAGER_DUPLICATE_PARAM"
      "no_failures s \<and> medium_works s nd \<longrightarrow> duplicate w s pkg (di_id nd)" for u r
  proof (rule release_returns [OF _ _ u(2,3)])
    show "disc_inv u" "g_isInited u" using u(1) assms(2) by (simp_all add: op_post_def fixed_def)
    fix s' assume e: "disc_inv s'" "fixed u s'" "depth s' = depth u" "d_events s' = d_events u" "d_next s' = d_next u" "\<And>v. requests v s' = requests v u"
    have "requests w s' = requests w s" using e(6) u(4) by simp
    then show "op_post w s s' \<and> register_post w pkg nd s r s'"
      using op_post_then [OF u(1) e(1-3,5,6)] r by (simp add: register_post_def)
  qed
  show ?thesis
    unfolding register_def returns_bind
  proof (rule returns_mono [OF AddInfoToList_returns [OF assms]])
    fix x assume x: "case x of (r, s') \<Rightarrow> op_post w s s' \<and> d_events s' = d_events s \<and> add_post w pkg i nd s r s'"
    obtain r t where rt: "x = (r, t)" by (cases x)
    have t: "op_post w s t" "add_post w pkg i nd s r t" using x rt by simp_all
    have "returns (if r \<noteq> SOFTBUS_OK then Some (r, t) else drive_medium func i type t)
       (\<lambda>(ret, u). returns (if ret \<noteq> SOFTBUS_OK then do { s \<leftarrow> ReleaseInfoNodeMem i u; Some (ret, s) } else Some (SOFTBUS_OK, u))
          (\<lambda>(r, s'). op_post w s s' \<and> register_post w pkg nd s r s'))"
    proof (cases "r = SOFTBUS_OK")
      case False
      have "returns (ReleaseInfoNodeMem i t) (\<lambda>s'. op_post w s s' \<and> register_post w pkg nd s r s')"
        by (rule rel [OF t(1)]) (use t(2) False assms(5) in \<open>auto simp: add_post_def no_failures_def split: if_splits\<close>)
      then show ?thesis using False by simp
    next
      case True
      have l: "linked_in w t pkg i nd" "requests w t = insert (pkg, nd\<lparr>di_item := None\<rparr>) (requests w s)"
          "d_lock_ok s (d_tick s)" "\<not> duplicate w s pkg (di_id nd)"
        using t(2) True by (simp_all add: add_post_def)
      have new: "(pkg, nd\<lparr>di_item := None\<rparr>) \<notin> requests w s" using l(4) unfolding duplicate_def by force
      have it: "disc_inv t" "g_isInited t" using t(1) assms(2) by (simp_all add: op_post_def fixed_def)
      have present: "d_infos t i \<noteq> None" using l(1) unfolding linked_in_def by auto
      have "returns (drive_medium func i type t)
         (\<lambda>(ret, u). returns (if ret \<noteq> SOFTBUS_OK then do { s \<leftarrow> ReleaseInfoNodeMem i u; Some (ret, s) } else Some (SOFTBUS_OK, u))
            (\<lambda>(r, s'). op_post w s s' \<and> register_post w pkg nd s r s'))"
      proof (rule returns_mono [OF drive_medium_returns [OF it l(1) type]])
        fix y assume y: "case y of (r, s') \<Rightarrow> op_post w t s' \<and> d_next s' = d_next t \<and> d_infos s' = d_infos t \<and>
          (if r = SOFTBUS_OK then requests w s' = requests w t
           else requests w s' = requests w t - {(pkg, nd\<lparr>di_item := None\<rparr>)} \<and> unlinked (lists s') (d_items s') i \<and> \<not> medium_works t nd)"
        obtain ret u where ru: "y = (ret, u)" by (cases y)
        have "op_post w t u" "d_next u = d_next t" using y ru by simp_all
        then have u: "op_post w s u" using op_post_then [OF t(1)] op_postD [of w t u] by blast
        show "case y of (ret, u) \<Rightarrow> returns (if ret \<noteq> SOFTBUS_OK then do { s \<leftarrow> ReleaseInfoNodeMem i u; Some (ret, s) } else Some (SOFTBUS_OK, u))
            (\<lambda>(r, s'). op_post w s s' \<and> register_post w pkg nd s r s')"
        proof (cases "ret = SOFTBUS_OK")
          case True
          then show ?thesis using u y ru l by (simp add: register_post_def)
        next
          case False
          have "returns (ReleaseInfoNodeMem i u) (\<lambda>s'. op_post w s s' \<and> register_post w pkg nd s ret s')"
            by (rule rel [OF u]) (use y ru l new False present medium_works_fixed [OF op_postD(2) [OF t(1)] refl, of nd] in auto)
          then show ?thesis using ru False by simp
        qed
      qed
      then show ?thesis using True by simp
    qed
    then show "returns (case x of (ret, s) \<Rightarrow> if ret \<noteq> SOFTBUS_OK then Some (ret, s) else drive_medium func i type s)
       (\<lambda>x. returns (case x of (ret, s) \<Rightarrow> if ret \<noteq> SOFTBUS_OK then do { s \<leftarrow> ReleaseInfoNodeMem i s; Some (ret, s) } else Some (SOFTBUS_OK, s))
          (\<lambda>(r, s'). op_post w s s' \<and> register_post w pkg nd s r s'))"
      unfolding rt by (simp only: case_prod_unfold fst_conv snd_conv)
  qed
qed

text \<open>The end of a request.\<close>

lemma owned_unique:
  assumes "disc_inv s" and "g_isInited s" and "(pkg, i) \<in> owned (sl_list (lists s w)) (d_items s)" and "(pkg, j) \<in> owned (sl_list (lists s w)) (d_items s)"
    and "di_id (the (d_infos s i)) = di_id (the (d_infos s j))"
  shows "i = j"
proof -
  note reg = disc_invD(4) [OF assms(1,2)]
  obtain a it where a: "a \<in> set (sl_list (lists s w))" "d_items s a = Some it" "pkg = packageName it" "i \<in> set (InfoList it)"
    using assms(3) by (rule ownedE)
  have j: "j \<in> set (InfoList it)" using owned_name(1) [OF reg a(1,2)] assms(4) a(3) by simp
  show ?thesis
    by (rule inj_onD [OF item_okD(4) [OF reg_okD(3) [OF reg a(1)] a(2)]]) (use assms(5) a(4) j in simp_all)
qed

lemma requests_unique:
  assumes "disc_inv s" and "g_isInited s" and "(pkg, x) \<in> requests w s" and "(pkg, y) \<in> requests w s" and "di_id x = di_id y"
  shows "x = y"
proof -
  obtain i nd where x: "(pkg, i) \<in> owned (sl_list (lists s w)) (d_items s)" "d_infos s i = Some nd" "x = nd\<lparr>di_item := None\<rparr>"
    using assms(3) unfolding requests_def request_set_def by blast
  obtain j md where y: "(pkg, j) \<in> owned (sl_list (lists s w)) (d_items s)" "d_infos s j = Some md" "y = md\<lparr>di_item := None\<rparr>"
    using assms(4) unfolding requests_def request_set_def by blast
  have "i = j" by (rule owned_unique [OF assms(1,2) x(1) y(1)]) (use x y assms(5) in simp)
  then show ?thesis using x y by simp
qed

definition withdraw_post :: "service \<Rightarrow> string \<Rightarrow> int \<Rightarrow> disc \<Rightarrow> int \<Rightarrow> disc \<Rightarrow> bool" where
  "withdraw_post w pkg n s r s' \<longleftrightarrow>
     (if d_lock_ok s (d_tick s) \<and> duplicate w s pkg n
      then requests w s' = {x \<in> requests w s. \<not> (fst x = pkg \<and> di_id (snd x) = n)}
      else r = SOFTBUS_DISCOVER_MANAGER_INFO_NOT_DELETE \<and> requests w s' = requests w s)"

lemma withdraw_returns:
  assumes "disc_inv s" and "g_isInited s" and "is_subscribe type \<longleftrightarrow> w = Subscriptions" and "d_next s < 2 ^ 32"
  shows "returns (DeleteInfoFromList w pkg n type s) (\<lambda>(i, t). returns (release_medium func i t)
    (\<lambda>(r, s'). op_post w s s' \<and> d_next s' = d_next s \<and> withdraw_post w pkg n s r s'))"
proof (rule returns_mono [OF DeleteInfoFromList_returns [OF assms]])
  fix x assume x: "case x of (r, s') \<Rightarrow> op_post w s s' \<and> d_events s' = d_events s \<and> d_next s' = d_next s \<and> d_infos s' = d_infos s \<and> delete_post w pkg n s r s'"
  obtain i t where it: "x = (i, t)" by (cases x)
  have t: "op_post w s t" "d_next t = d_next s" "d_infos t = d_infos s" "delete_post w pkg n s i t" using x it by simp_all
  have "returns (release_medium func i t) (\<lambda>(r, s'). op_post w s s' \<and> d_next s' = d_next s \<and> withdraw_post w pkg n s r s')"
  proof (cases i)
    case None
    then show ?thesis using t by (auto simp: release_medium_def withdraw_post_def delete_post_def)
  next
    case (Some j)
    obtain nd where nd: "d_infos s j = Some nd" "di_id nd = n" "(pkg, nd\<lparr>di_item := None\<rparr>) \<in> requests w s"
        "requests w t = requests w s - {(pkg, nd\<lparr>di_item := None\<rparr>)}" "unlinked (lists t) (d_items t) j" "d_lock_ok s (d_tick s)"
      using t(4) Some unfolding delete_post_def by auto
    have dup: "duplicate w s pkg n" unfolding duplicate_def using nd(2,3) by force
    have eq: "requests w t = {x \<in> requests w s. \<not> (fst x = pkg \<and> di_id (snd x) = n)}"
    proof -
      have "fst x = pkg \<and> di_id (snd x) = n \<longleftrightarrow> x = (pkg, nd\<lparr>di_item := None\<rparr>)" if "x \<in> requests w s" for x
      proof
        assume p: "fst x = pkg \<and> di_id (snd x) = n"
        then have "(pkg, snd x) \<in> requests w s" using that by (cases x) simp
        from requests_unique [OF assms(1,2) this nd(3)] p nd(2) show "x = (pkg, nd\<lparr>di_item := None\<rparr>)" by (cases x) simp
      qed (use nd(2) in simp)
      then show ?thesis unfolding nd(4) by blast
    qed
    obtain ret u where u: "DiscInterfaceByMedium nd func t = (ret, u)" by fastforce
    note m = medium_alike [OF u]
    have inv: "disc_inv t" "g_isInited t" using t(1) assms(2) by (simp_all add: op_post_def fixed_def)
    have iu: "disc_inv u" "g_isInited u" using alike_inv [OF m(1)] inv m(1) by (simp_all add: alike_def)
    have rq: "requests v u = requests v t" for v by (rule alike_requests [OF m(1)])
    have "d_next u = d_next t" using m(1) by (simp add: alike_def)
    then have opu: "op_post w s u" using op_post_then [OF t(1) iu(1) m(2,3)] rq by blast
    show ?thesis
    proof (cases "ret = SOFTBUS_OK")
      case False
      then show ?thesis
        using Some t(2,3) nd(1,6) u opu rq eq m(1) dup by (simp add: release_medium_def withdraw_post_def alike_def)
    next
      case True
      have "returns (ReleaseInfoNodeMem j u) (\<lambda>s'. op_post w s s' \<and> d_next s' = d_next s \<and> withdraw_post w pkg n s SOFTBUS_OK s')"
      proof (rule release_returns [OF iu])
        show "unlinked (lists u) (d_items u) j" using unlinked_alike [OF m(1)] nd(5) by simp
        show "d_infos u j \<noteq> None" using m(1) t(3) nd(1) by (simp add: alike_def)
        fix s' assume e: "disc_inv s'" "fixed u s'" "depth s' = depth u" "d_events s' = d_events u" "d_next s' = d_next u" "\<And>v. requests v s' = requests v u"
        have "d_next s' = d_next s" using e(5) t(2) m(1) by (simp add: alike_def)
        moreover have "requests w s' = requests w t" using e(6) rq by simp
        ultimately show "op_post w s s' \<and> d_next s' = d_next s \<and> withdraw_post w pkg n s SOFTBUS_OK s'"
          using op_post_then [OF opu e(1-3,5,6)] eq dup nd(6) by (simp add: withdraw_post_def)
      qed
      then show ?thesis using Some t(3) nd(1) u True by (simp add: release_medium_def)
    qed
  qed
  then show "case x of (i, t) \<Rightarrow> returns (release_medium func i t)
    (\<lambda>(r, s'). op_post w s s' \<and> d_next s' = d_next s \<and> withdraw_post w pkg n s r s')" using it by simp
qed

section \<open>New nodes\<close>

text \<open>The caller's data: a text that ends within its buffer, and a length that does not exceed the buffer.\<close>

definition data_ok :: "u8 list option \<Rightarrow> u32 \<Rightarrow> bool" where
  "data_ok d n \<longleftrightarrow> (case d of None \<Rightarrow> True | Some b \<Rightarrow> 0 \<in> set b \<and> unat n \<le> length b)"

definition padded :: "u8 list option \<Rightarrow> u32 \<Rightarrow> u8 list" where
  "padded d n = (case d of None \<Rightarrow> replicate MAX_CAPABILITYDATA_LEN 0
     | Some b \<Rightarrow> take (unat n) b @ replicate (MAX_CAPABILITYDATA_LEN - unat n) 0)"

definition publication :: "PublishInfo \<Rightarrow> DiscInfo" where
  "publication info = \<lparr>di_id = publishId info, di_mode = pi_mode info, di_medium = pi_medium info,
     di_option = publishOption \<lparr>po_freq = pi_freq info,
       po_capabilityBitmap = BitmapSet 0 (of_int (CapabilityStringToBimap (pi_capability info))),
       po_capabilityData = padded (pi_capabilityData info) (pi_dataLen info), po_dataLen = pi_dataLen info, po_ranging = pi_ranging info\<rparr>,
     di_item = None\<rparr>"

definition subscription :: "SubscribeInfo \<Rightarrow> DiscInfo" where
  "subscription info = \<lparr>di_id = subscribeId info, di_mode = si_mode info, di_medium = si_medium info,
     di_option = subscribeOption \<lparr>so_freq = si_freq info, so_isSameAccount = si_isSameAccount info, so_isWakeRemote = si_isWakeRemote info,
       so_capabilityBitmap = BitmapSet 0 (of_int (CapabilityStringToBimap (si_capability info))),
       so_capabilityData = padded (si_capabilityData info) (si_dataLen info), so_dataLen = si_dataLen info\<rparr>,
     di_item = None\<rparr>"

lemma info_check_total: "data_ok d n \<Longrightarrow> info_check md m f d n \<noteq> None"
  by (auto simp: info_check_def data_ok_def strlen_def split: option.splits)

lemma copy_data_checked:
  assumes "info_check md m f d n = Some SOFTBUS_OK" and "data_ok d n"
  shows "copy_data d n = Some (Some (padded d n))"
proof (cases d)
  case None
  then have "n = 0" using assms(1) by (auto simp: info_check_def split: if_splits)
  then show ?thesis using None by (simp add: copy_data_def padded_def)
next
  case (Some b)
  then have "unat n \<le> MAX_CAPABILITYDATA_LEN" using assms(1) by (auto simp: info_check_def split: if_splits)
  then show ?thesis using Some assms(2) by (auto simp: copy_data_def padded_def data_ok_def Let_def)
qed

lemma capability_range:
  assumes "0 \<le> CapabilityStringToBimap cap"
  obtains k where "k < CAPABILITY_MAX_BITNUM" "BitmapSet 0 (of_int (CapabilityStringToBimap cap)) = push_bit k 1"
proof -
  have "CapabilityStringToBimap cap \<in> {0, 1, 2, 3, 4, 5, 6, 7}"
    using assms by (simp add: CapabilityStringToBimap_def g_capabilityMap_def split: if_splits)
  then obtain k where k: "k < CAPABILITY_MAX_BITNUM" "CapabilityStringToBimap cap = int k"
    using that by (auto intro: that [of "nat (CapabilityStringToBimap cap)"])
  have "k = 0 \<or> k = 1 \<or> k = 2 \<or> k = 3 \<or> k = 4 \<or> k = 5 \<or> k = 6 \<or> k = 7" using k(1) by presburger
  then have "BitmapSet 0 (of_int (int k)) = push_bit k 1" by (elim disjE) (simp_all add: BitmapSet_def)
  then show ?thesis using that k by simp
qed

lemma new_node_state:
  assumes "disc_inv t" and "g_isInited t" and "i = d_next t" and "s' = t\<lparr>d_infos := (d_infos t)(i \<mapsto> nd), d_next := i + 1\<rparr>"
  shows "disc_inv s'" and "requests w s' = requests w t" and "unlinked (lists s') (d_items s') i" and "d_infos s' i = Some nd"
proof -
  have none: "d_infos t i = None" using disc_invD(2) [OF assms(1), of i] assms(3) by (cases "d_infos t i") auto
  have u: "unlinked (lists t) (d_items t) i" by (rule fresh_unlinked [OF assms(1,2) none])
  note r = reg_ok_infs [OF disc_invD(4) [OF assms(1,2)] u, where x = "Some nd"]
  show "requests w s' = requests w t" using r(2) assms(4) by (simp add: requests_def)
  show "unlinked (lists s') (d_items s') i" using u assms(4) by simp
  show "d_infos s' i = Some nd" using assms(4) by simp
  show "disc_inv s'"
  proof (rule disc_invI [OF assms(1)])
    show "service_list v s' \<noteq> None" for v using disc_invD(3) [OF assms(1,2)] assms(4) by simp
  qed (use r(1) assms(3,4) in \<open>auto split: if_splits\<close>)
qed

definition node_post :: "disc \<Rightarrow> DiscInfo \<Rightarrow> addr option \<Rightarrow> disc \<Rightarrow> bool" where
  "node_post s nd r s' \<longleftrightarrow> disc_inv s' \<and> fixed s s' \<and> depth s' = depth s \<and> d_next s \<le> d_next s' \<and> d_next s' \<le> d_next s + 1 \<and>
     (\<forall>v. requests v s' = requests v s) \<and>
     (\<forall>i. r = Some i \<longrightarrow> unlinked (lists s') (d_items s') i \<and> d_infos s' i = Some nd)"

lemma calloc_twice:
  assumes "disc_inv s" and "g_isInited s" and "calloc s = (ok, t)" and "calloc t = (ok', u)"
  shows "node_post s nd None t" and "node_post s nd None u" and "disc_inv u" "g_isInited u"
    and "s' = u\<lparr>d_infos := (d_infos u)(d_next u \<mapsto> nd), d_next := d_next u + 1\<rparr> \<Longrightarrow> node_post s nd (Some (d_next u)) s'"
proof -
  note a = calloc_alike [OF assms(3)] and b = calloc_alike [OF assms(4)]
  have al: "alike s t" "alike s u" using a b alike_trans by blast+
  have fx: "fixed s t" "fixed s u" using a b fixed_trans by blast+
  show iu: "disc_inv u" "g_isInited u" using alike_inv [OF al(2)] al(2) assms(1,2) by (simp_all add: alike_def)
  have it: "disc_inv t" using alike_inv [OF al(1)] assms(1) by simp
  show "node_post s nd None t" "node_post s nd None u"
    using al fx a b it iu alike_requests [OF al(1)] alike_requests [OF al(2)] by (simp_all add: node_post_def alike_def)
  assume s': "s' = u\<lparr>d_infos := (d_infos u)(d_next u \<mapsto> nd), d_next := d_next u + 1\<rparr>"
  note n = new_node_state [OF iu refl s']
  have "fixed s s'" "depth s' = depth s" "d_next s' = d_next s + 1"
    using fx(2) a b al(2) s' by (simp_all add: fixed_def alike_def)
  then show "node_post s nd (Some (d_next u)) s'" using n alike_requests [OF al(2)] by (simp add: node_post_def)
qed

lemma CreateNewPublishInfoNode_returns:
  assumes "disc_inv s" and "g_isInited s" and "PublishInfoCheck info = Some SOFTBUS_OK" and "data_ok (pi_capabilityData info) (pi_dataLen info)"
  shows "returns (CreateNewPublishInfoNode info s) (\<lambda>(r, s'). node_post s (publication info) r s' \<and>
    (r \<noteq> None \<longrightarrow> 0 \<le> CapabilityStringToBimap (pi_capability info)) \<and> (r = None \<and> no_failures s \<longrightarrow> CapabilityStringToBimap (pi_capability info) < 0))"
proof -
  obtain ok t where t: "calloc s = (ok, t)" by fastforce
  obtain ok' u where u: "calloc t = (ok', u)" by fastforce
  note c = calloc_twice(1,2,5) [where nd = "publication info", OF assms(1,2) t u]
  have ok: "no_failures s \<longrightarrow> ok \<and> ok'" using calloc_alike [OF t] calloc_alike [OF u] by (simp add: no_failures_def fixed_def)
  have "copy_data (pi_capabilityData info) (pi_dataLen info) = Some (Some (padded (pi_capabilityData info) (pi_dataLen info)))"
    using copy_data_checked assms(3,4) unfolding PublishInfoCheck_def by blast
  then show ?thesis
    unfolding CreateNewPublishInfoNode_def using t u c ok by (auto simp: Let_def publication_def)
qed

lemma CreateNewSubscribeInfoNode_returns:
  assumes "disc_inv s" and "g_isInited s" and "SubscribeInfoCheck info = Some SOFTBUS_OK" and "data_ok (si_capabilityData info) (si_dataLen info)"
  shows "returns (CreateNewSubscribeInfoNode info s)
    (\<lambda>(r, s'). node_post s (subscription info) r s' \<and> 
    (r \<noteq> None \<longrightarrow> 0 \<le> CapabilityStringToBimap (si_capability info)) \<and> (r = None \<and> no_failures s \<longrightarrow> CapabilityStringToBimap (si_capability info) < 0))"
proof -
  obtain ok t where t: "calloc s = (ok, t)" by fastforce
  obtain ok' u where u: "calloc t = (ok', u)" by fastforce
  note c = calloc_twice(1,2,5) [where nd = "subscription info", OF assms(1,2) t u]
  have ok: "no_failures s \<longrightarrow> ok \<and> ok'" using calloc_alike [OF t] calloc_alike [OF u] by (simp add: no_failures_def fixed_def)
  have "copy_data (si_capabilityData info) (si_dataLen info) = Some (Some (padded (si_capabilityData info) (si_dataLen info)))"
    using copy_data_checked assms(3,4) unfolding SubscribeInfoCheck_def by blast
  then show ?thesis
    unfolding CreateNewSubscribeInfoNode_def using t u c ok by (auto simp: Let_def subscription_def)
qed
end
