(* ===== verification/Disc_Interface.thy ===== *)
theory Disc_Interface
  imports Disc_Requests
begin

text \<open>
  The operations of the interface of the discovery manager: requests and withdrawals by packages and modules, and
  the callbacks of the modules, with their effect on the requests on every path.
\<close>

section \<open>Requests and withdrawals\<close>

definition request_post :: "service \<Rightarrow> string \<Rightarrow> DiscInfo \<Rightarrow> bool \<Rightarrow> disc \<Rightarrow> int \<Rightarrow> disc \<Rightarrow> bool" where
  "request_post w pkg nd known s r s' \<longleftrightarrow>
     (if r = SOFTBUS_OK then \<not> duplicate w s pkg (di_id nd) \<and> requests w s' = insert (pkg, nd) (requests w s)
      else requests w s' = requests w s \<and>
        (no_failures s \<and> medium_works s nd \<and> known \<longrightarrow>
           duplicate w s pkg (di_id nd) \<and> r = SOFTBUS_DISCOVER_MANAGER_DUPLICATE_PARAM))"

lemma step_op_post: "op_post w s s' \<Longrightarrow> step_post w s s'"
  by (simp add: step_post_def op_post_def)

lemma request_returns:
  assumes n: "node_post s nd (Some i) t" and "g_isInited s" and "callback_fits w pkg type cb" and "length pkg < PKG_NAME_SIZE_MAX \<and> PKG_NAME_SIZE_MAX \<le> room"
    and "option_ok w (di_option nd)" and "di_item nd = None"
  shows "returns (register w func room pkg cb i type t) (\<lambda>(r, s'). step_post w s s' \<and> request_post w pkg nd known s r s')"
proof -
  have t: "disc_inv t" "fixed s t" "depth t = depth s" "d_next s \<le> d_next t" "d_next t \<le> d_next s + 1" "\<And>v. requests v t = requests v s"
      "unlinked (lists t) (d_items t) i" "d_infos t i = Some nd"
    using n unfolding node_post_def by simp_all
  have "g_isInited t" using t(2) assms(2) by (simp add: fixed_def)
  note r = register_returns [OF t(1) this assms(3,4) t(8,7) assms(5), of func]
  have dup: "duplicate w t pkg m = duplicate w s pkg m" for m using t(6) by (simp add: duplicate_def)
  have same: "nd\<lparr>di_item := None\<rparr> = nd" using assms(6) by simp
  show ?thesis
  proof (rule returns_mono [OF r])
    fix x assume x: "case x of (r, s') \<Rightarrow> op_post w t s' \<and> register_post w pkg nd t r s'"
    obtain ret s' where rs: "x = (ret, s')" by (cases x)
    have o: "op_post w t s'" "register_post w pkg nd t ret s'" using x rs by simp_all
    note d = op_postD [OF o(1)]
    have "fixed s s'" by (rule fixed_trans [OF t(2) d(2)])
    then have "step_post w s s'" using d t by (simp add: step_post_def)
    moreover have "request_post w pkg nd known s ret s'"
      using o(2) t(6) dup no_failures_fixed [OF t(2)] medium_works_fixed [OF t(2) refl, of nd]
      unfolding request_post_def register_post_def same by (auto simp: no_failures_def split: if_splits)
    ultimately show "case x of (r, s') \<Rightarrow> step_post w s s' \<and> request_post w pkg nd known s r s'" using rs by simp
  qed
qed

lemma publish_node_register:
  "publish_node room pkg info type s = do { (nd, s) \<leftarrow> CreateNewPublishInfoNode info s;
     case nd of None \<Rightarrow> Some (SOFTBUS_DISCOVER_MANAGER_INFO_NOT_CREATE, s)
     | Some i \<Rightarrow> register Publications PUBLISH_FUNC room pkg None i type s }"
  unfolding publish_node_def register_def InnerPublishService_def ..

lemma subscribe_node_register:
  "subscribe_node room pkg info cb type s = do { (nd, s) \<leftarrow> CreateNewSubscribeInfoNode info s;
     case nd of None \<Rightarrow> Some (SOFTBUS_DISCOVER_MANAGER_INFO_NOT_CREATE, s)
     | Some i \<Rightarrow> register Subscriptions STARTDISCOVERTY_FUNC room pkg (Some (case cb of None \<Rightarrow> NullCb | Some c \<Rightarrow> c)) i type s }"
  unfolding subscribe_node_def register_def InnerStartDiscovery_def Let_def ..

lemma node_post_failed:
  assumes "node_post s nd None t" and "no_failures s \<Longrightarrow> \<not> known"
  shows "step_post w s t \<and> request_post w pkg nd known s SOFTBUS_DISCOVER_MANAGER_INFO_NOT_CREATE t"
  using assms by (auto simp: node_post_def step_post_def request_post_def)

lemma publish_node_returns:
  assumes "disc_inv s" and "g_isInited s" and "PublishInfoCheck info = Some SOFTBUS_OK" and "data_ok (pi_capabilityData info) (pi_dataLen info)"
    and "\<not> is_subscribe type" and "length pkg < PKG_NAME_SIZE_MAX \<and> PKG_NAME_SIZE_MAX \<le> room"
  shows "returns (publish_node room pkg info type s) (\<lambda>(r, s'). step_post Publications s s' \<and>
    request_post Publications pkg (publication info) (0 \<le> CapabilityStringToBimap (pi_capability info)) s r s')"
  unfolding publish_node_register returns_bind
proof (rule returns_mono [OF CreateNewPublishInfoNode_returns [OF assms(1-4)]])
  fix x assume x: "case x of (r, s') \<Rightarrow> node_post s (publication info) r s' \<and> (r \<noteq> None \<longrightarrow> 0 \<le> CapabilityStringToBimap (pi_capability info)) \<and>
    (r = None \<and> no_failures s \<longrightarrow> CapabilityStringToBimap (pi_capability info) < 0)"
  obtain r t where rt: "x = (r, t)" by (cases x)
  show "returns (case x of (nd, s) \<Rightarrow> case nd of None \<Rightarrow> Some (SOFTBUS_DISCOVER_MANAGER_INFO_NOT_CREATE, s)
     | Some i \<Rightarrow> register Publications PUBLISH_FUNC room pkg None i type s) (\<lambda>(r, s'). step_post Publications s s' \<and>
    request_post Publications pkg (publication info) (0 \<le> CapabilityStringToBimap (pi_capability info)) s r s')"
  proof (cases r)
    case None
    then show ?thesis using x rt node_post_failed [of s "publication info" t "0 \<le> CapabilityStringToBimap (pi_capability info)"] by auto
  next
    case (Some i)
    have n: "node_post s (publication info) (Some i) t" using x rt Some by simp
    show ?thesis
      using request_returns [OF n assms(2) _ assms(6)] rt Some assms(5) by (simp add: publication_def)
  qed
qed

lemma subscribe_node_returns:
  assumes "disc_inv s" and "g_isInited s" and "SubscribeInfoCheck info = Some SOFTBUS_OK" and "data_ok (si_capabilityData info) (si_dataLen info)"
    and "callback_fits Subscriptions pkg type (Some (case cb of None \<Rightarrow> NullCb | Some c \<Rightarrow> c))" and "length pkg < PKG_NAME_SIZE_MAX \<and> PKG_NAME_SIZE_MAX \<le> room"
  shows "returns (subscribe_node room pkg info cb type s) (\<lambda>(r, s'). step_post Subscriptions s s' \<and>
    request_post Subscriptions pkg (subscription info) (0 \<le> CapabilityStringToBimap (si_capability info)) s r s')"
  unfolding subscribe_node_register returns_bind
proof (rule returns_mono [OF CreateNewSubscribeInfoNode_returns [OF assms(1-4)]])
  fix x assume x: "case x of (r, s') \<Rightarrow> node_post s (subscription info) r s' \<and> (r \<noteq> None \<longrightarrow> 0 \<le> CapabilityStringToBimap (si_capability info)) \<and>
    (r = None \<and> no_failures s \<longrightarrow> CapabilityStringToBimap (si_capability info) < 0)"
  obtain r t where rt: "x = (r, t)" by (cases x)
  show "returns (case x of (nd, s) \<Rightarrow> case nd of None \<Rightarrow> Some (SOFTBUS_DISCOVER_MANAGER_INFO_NOT_CREATE, s)
     | Some i \<Rightarrow> register Subscriptions STARTDISCOVERTY_FUNC room pkg (Some (case cb of None \<Rightarrow> NullCb | Some c \<Rightarrow> c)) i type s)
    (\<lambda>(r, s'). step_post Subscriptions s s' \<and>
    request_post Subscriptions pkg (subscription info) (0 \<le> CapabilityStringToBimap (si_capability info)) s r s')"
  proof (cases r)
    case None
    then show ?thesis using x rt node_post_failed [of s "subscription info" t "0 \<le> CapabilityStringToBimap (si_capability info)"] by auto
  next
    case (Some i)
    have n: "node_post s (subscription info) (Some i) t" "0 \<le> CapabilityStringToBimap (si_capability info)" using x rt Some by simp_all
    obtain k where k: "k < CAPABILITY_MAX_BITNUM" "BitmapSet 0 (of_int (CapabilityStringToBimap (si_capability info))) = push_bit k 1"
      by (rule capability_range [OF n(2)])
    have "option_ok Subscriptions (di_option (subscription info))" using k by (auto simp: subscription_def)
    from request_returns [OF n(1) assms(2,5,6) this] show ?thesis using rt Some by (simp add: subscription_def)
  qed
qed

section \<open>The operations\<close>

definition usable :: "disc \<Rightarrow> string \<Rightarrow> string \<Rightarrow> int option \<Rightarrow> bool" where
  "usable s pkg cap chk \<longleftrightarrow> g_isInited s \<and> length pkg < PKG_NAME_SIZE_MAX \<and> chk = Some SOFTBUS_OK \<and> 0 \<le> CapabilityStringToBimap cap"

lemma DiscPublishService_returns:
  assumes "disc_inv s" and "data_ok (pi_capabilityData info) (pi_dataLen info)" and "PKG_NAME_SIZE_MAX \<le> d_name_room s (d_tick s)"
  shows "returns (DiscPublishService (Some pkg) (Some info) s) (\<lambda>(r, s'). step_post Publications s s' \<and>
    request_post Publications pkg (publication info) (usable s pkg (pi_capability info) (PublishInfoCheck info)) s r s')"
proof -
  obtain c where c: "PublishInfoCheck info = Some c" using info_check_total [OF assms(2)] unfolding PublishInfoCheck_def by blast
  show ?thesis
  proof (cases "length pkg < PKG_NAME_SIZE_MAX \<and> c = SOFTBUS_OK \<and> g_isInited s")
    case True
    then have "returns (publish_node (d_name_room s (d_tick s)) pkg info PUBLISH_SERVICE s) (\<lambda>(r, s'). step_post Publications s s' \<and>
        request_post Publications pkg (publication info) (0 \<le> CapabilityStringToBimap (pi_capability info)) s r s')"
      using publish_node_returns [OF assms(1) _ _ assms(2)] c assms(3) by (simp add: is_subscribe_def)
    then show ?thesis using True c by (simp add: DiscPublishService_def usable_def)
  next
    case False
    have "\<not> usable s pkg (pi_capability info) (PublishInfoCheck info)" using False c by (auto simp: usable_def)
    then show ?thesis using False c assms(1) by (auto simp: DiscPublishService_def step_post_def request_post_def)
  qed
qed

lemma DiscStartDiscovery_returns:
  assumes "disc_inv s" and "data_ok (si_capabilityData info) (si_dataLen info)" and "pkg \<notin> set g_discModuleMap" and "PKG_NAME_SIZE_MAX \<le> d_name_room s (d_tick s)"
  shows "returns (DiscStartDiscovery (Some pkg) (Some info) (Some (ServerCb f)) s) (\<lambda>(r, s'). step_post Subscriptions s s' \<and>
    request_post Subscriptions pkg (subscription info) (usable s pkg (si_capability info) (SubscribeInfoCheck info)) s r s')"
proof -
  obtain c where c: "SubscribeInfoCheck info = Some c" using info_check_total [OF assms(2)] unfolding SubscribeInfoCheck_def by blast
  show ?thesis
  proof (cases "length pkg < PKG_NAME_SIZE_MAX \<and> c = SOFTBUS_OK \<and> g_isInited s")
    case True
    then have "returns (subscribe_node (d_name_room s (d_tick s)) pkg info (Some (ServerCb f)) SUBSCRIBE_SERVICE s) (\<lambda>(r, s'). step_post Subscriptions s s' \<and>
        request_post Subscriptions pkg (subscription info) (0 \<le> CapabilityStringToBimap (si_capability info)) s r s')"
      using subscribe_node_returns [OF assms(1) _ _ assms(2)] c assms(3,4) by simp
    then show ?thesis using True c by (simp add: DiscStartDiscovery_def usable_def)
  next
    case False
    have "\<not> usable s pkg (si_capability info) (SubscribeInfoCheck info)" using False c by (auto simp: usable_def)
    then show ?thesis using False c assms(1) by (auto simp: DiscStartDiscovery_def step_post_def request_post_def)
  qed
qed

text \<open>Withdrawals. The lock of the list is the only failure that keeps a request.\<close>

definition end_post :: "service \<Rightarrow> string \<Rightarrow> int \<Rightarrow> disc \<Rightarrow> int \<Rightarrow> disc \<Rightarrow> bool" where
  "end_post w pkg n s r s' \<longleftrightarrow>
     (if g_isInited s \<and> length pkg < PKG_NAME_SIZE_MAX \<and> d_lock_ok s (d_tick s) \<and> duplicate w s pkg n
      then requests w s' = {x \<in> requests w s. \<not> (fst x = pkg \<and> di_id (snd x) = n)}
      else r \<noteq> SOFTBUS_OK \<and> requests w s' = requests w s)"

lemma withdrawn:
  assumes "disc_inv s" and "g_isInited s" and "is_subscribe type \<longleftrightarrow> w = Subscriptions" and "d_next s < 2 ^ 32" and "length pkg < PKG_NAME_SIZE_MAX"
  shows "returns (DeleteInfoFromList w pkg n type s) (\<lambda>(i, t). returns (release_medium func i t)
    (\<lambda>(r, s'). step_post w s s' \<and> d_next s' = d_next s \<and> end_post w pkg n s r s'))"
  by (rule returns_mono [OF withdraw_returns [OF assms(1-4)]], clarify, erule returns_mono)
     (use assms(2,5) step_op_post in \<open>auto simp: end_post_def withdraw_post_def split: if_splits\<close>)

lemma DiscUnPublishService_returns:
  assumes "disc_inv s" and "d_next s < 2 ^ 32"
  shows "returns (DiscUnPublishService (Some pkg) n s) (\<lambda>(r, s'). step_post Publications s s' \<and> d_next s' = d_next s \<and> end_post Publications pkg n s r s')"
proof (cases "length pkg < PKG_NAME_SIZE_MAX \<and> g_isInited s")
  case True
  then show ?thesis
    using withdrawn [OF assms(1) _ _ assms(2), of PUBLISH_SERVICE Publications pkg n UNPUBLISH_FUNC]
    by (simp add: DiscUnPublishService_def InnerUnPublishService_def is_subscribe_def case_prod_unfold)
next
  case False
  then show ?thesis using assms(1) by (auto simp: DiscUnPublishService_def end_post_def step_post_def)
qed

lemma DiscStopDiscovery_returns:
  assumes "disc_inv s" and "d_next s < 2 ^ 32"
  shows "returns (DiscStopDiscovery (Some pkg) n s) (\<lambda>(r, s'). step_post Subscriptions s s' \<and> d_next s' = d_next s \<and> end_post Subscriptions pkg n s r s')"
proof (cases "length pkg < PKG_NAME_SIZE_MAX \<and> g_isInited s")
  case True
  then show ?thesis
    using withdrawn [OF assms(1) _ _ assms(2), of SUBSCRIBE_SERVICE Subscriptions pkg n STOPDISCOVERY_FUNC]
    by (simp add: DiscStopDiscovery_def InnerStopDiscovery_def is_subscribe_def case_prod_unfold)
next
  case False
  then show ?thesis using assms(1) by (auto simp: DiscStopDiscovery_def end_post_def step_post_def)
qed

section \<open>Modules of the bus\<close>

text \<open>What every operation of the interface leaves behind.\<close>

definition op_safe :: "disc \<Rightarrow> disc \<Rightarrow> bool" where
  "op_safe s s' \<longleftrightarrow> disc_inv s' \<and> fixed s s' \<and> depth s' = depth s \<and> d_next s \<le> d_next s' \<and> d_next s' \<le> d_next s + 2"

lemma step_safe: "step_post w s s' \<Longrightarrow> op_safe s s'"
  by (simp add: step_post_def op_safe_def)

lemma alike_safe: "disc_inv s \<Longrightarrow> alike s s' \<Longrightarrow> fixed s s' \<Longrightarrow> depth s' = depth s \<Longrightarrow> op_safe s s'"
  using alike_inv [of s s'] by (simp add: op_safe_def alike_def)

lemma same_safe: "disc_inv s \<Longrightarrow> op_safe s s"
  by (simp add: op_safe_def)

lemma alike_then_safe: "alike s t \<Longrightarrow> fixed s t \<Longrightarrow> depth t = depth s \<Longrightarrow> op_safe t s' \<Longrightarrow> op_safe s s'"
  using fixed_trans [of s t s'] by (simp add: op_safe_def alike_def)

lemma name_of_module:
  assumes "ModuleIdToPackageName m s = (p, t)" and "\<not> bad_module m"
  shows "alike s t" and "fixed s t" and "depth t = depth s" and "p = Some x \<Longrightarrow> x \<in> set g_discModuleMap \<and> length x < PKG_NAME_SIZE_MAX"
proof -
  obtain ok u where u: "calloc s = (ok, u)" by fastforce
  have e: "t = u" "p = (if ok then Some (g_discModuleMap ! nat (m - 1)) else None)"
    using assms(1) u by (simp_all add: ModuleIdToPackageName_def)
  show "alike s t" "fixed s t" "depth t = depth s" using calloc_alike [OF u] e(1) by simp_all
  have "nat (m - 1) < 2" using assms(2) by linarith
  then have "nat (m - 1) = 0 \<or> nat (m - 1) = 1" by linarith
  then show "x \<in> set g_discModuleMap \<and> length x < PKG_NAME_SIZE_MAX" if "p = Some x" using that e(2)
    by (auto simp: g_discModuleMap_def split: if_splits)
qed

lemma module_operation:
  assumes "disc_inv s" and "g_isInited s" and "\<not> bad_module m"
    and "\<And>pkg t. disc_inv t \<Longrightarrow> g_isInited t \<Longrightarrow> d_next t = d_next s \<Longrightarrow> pkg \<in> set g_discModuleMap \<Longrightarrow> length pkg < PKG_NAME_SIZE_MAX \<Longrightarrow>
      returns (c pkg t) (\<lambda>(r, s'). op_safe t s')"
  shows "returns (let (pkg, s) = ModuleIdToPackageName m s in case pkg of None \<Rightarrow> Some (e, s) | Some pkg \<Rightarrow> c pkg s) (\<lambda>(r, s'). op_safe s s')"
proof -
  obtain p t where t: "ModuleIdToPackageName m s = (p, t)" by fastforce
  note n = name_of_module [OF t assms(3)]
  have inv: "disc_inv t" "g_isInited t" "d_next t = d_next s" using alike_inv [OF n(1)] n(1) assms(1,2) by (simp_all add: alike_def)
  show ?thesis
  proof (cases p)
    case None
    then show ?thesis using t alike_safe [OF assms(1) n(1-3)] by simp
  next
    case (Some x)
    have "returns (c x t) (\<lambda>(r, s'). op_safe s s')"
      by (rule returns_mono [OF assms(4) [OF inv]]) (use n(4) [OF Some] alike_then_safe [OF n(1-3)] in auto)
    then show ?thesis using t Some by simp
  qed
qed

lemma module_publish_safe:
  assumes "disc_inv s" and "\<forall>i. info = Some i \<longrightarrow> data_ok (pi_capabilityData i) (pi_dataLen i)"
  shows "returns (module_publish md m info s) (\<lambda>(r, s'). op_safe s s')"
proof (cases info)
  case None
  then show ?thesis using same_safe [OF assms(1)] by (simp add: module_publish_def)
next
  case (Some i)
  then have d: "data_ok (pi_capabilityData i) (pi_dataLen i)" using assms(2) by simp
  obtain c where c: "PublishInfoCheck i = Some c" using info_check_total [OF d] unfolding PublishInfoCheck_def by blast
  show ?thesis
  proof (cases "bad_module m \<or> pi_mode i \<noteq> md \<or> c \<noteq> SOFTBUS_OK \<or> \<not> g_isInited s")
    case True
    then show ?thesis using Some c same_safe [OF assms(1)] by (auto simp: module_publish_def)
  next
    case False
    have "returns (publish_node PKG_NAME_SIZE_MAX pkg i PUBLISH_INNER_SERVICE t) (\<lambda>(r, s'). op_safe t s')"
      if "disc_inv t" "g_isInited t" "length pkg < PKG_NAME_SIZE_MAX" for pkg t
      by (rule returns_mono [OF publish_node_returns [OF that(1,2) _ d]]) (use False c that(3) step_safe in \<open>auto simp: is_subscribe_def\<close>)
    then show ?thesis using module_operation [OF assms(1), of m "\<lambda>pkg. publish_node PKG_NAME_SIZE_MAX pkg i PUBLISH_INNER_SERVICE"] False Some c
      by (simp add: module_publish_def)
  qed
qed

lemma module_subscribe_safe:
  assumes "disc_inv s" and "\<forall>i. info = Some i \<longrightarrow> data_ok (si_capabilityData i) (si_dataLen i)"
  shows "returns (module_subscribe md e m info s) (\<lambda>(r, s'). op_safe s s')"
proof (cases info)
  case None
  then show ?thesis using same_safe [OF assms(1)] by (simp add: module_subscribe_def)
next
  case (Some i)
  then have d: "data_ok (si_capabilityData i) (si_dataLen i)" using assms(2) by simp
  obtain c where c: "SubscribeInfoCheck i = Some c" using info_check_total [OF d] unfolding SubscribeInfoCheck_def by blast
  show ?thesis
  proof (cases "bad_module m \<or> si_mode i \<noteq> md \<or> c \<noteq> SOFTBUS_OK \<or> \<not> g_isInited s")
    case True
    then show ?thesis using Some c same_safe [OF assms(1)] by (auto simp: module_subscribe_def)
  next
    case False
    have "returns (subscribe_node PKG_NAME_SIZE_MAX pkg i None SUBSCRIBE_INNER_SERVICE t) (\<lambda>(r, s'). op_safe t s')"
      if "disc_inv t" "g_isInited t" "pkg \<in> set g_discModuleMap" "length pkg < PKG_NAME_SIZE_MAX" for pkg t
      by (rule returns_mono [OF subscribe_node_returns [OF that(1,2) _ d]]) (use False c that(3,4) step_safe in auto)
    then show ?thesis using module_operation [OF assms(1), of m "\<lambda>pkg. subscribe_node PKG_NAME_SIZE_MAX pkg i None SUBSCRIBE_INNER_SERVICE" e] False Some c
      by (simp add: module_subscribe_def)
  qed
qed

lemma module_withdrawn_safe:
  assumes "disc_inv s" and "d_next s < 2 ^ 32"
  shows "returns (DiscUnpublish m n s) (\<lambda>(r, s'). op_safe s s')" and "returns (DiscStopAdvertise m n s) (\<lambda>(r, s'). op_safe s s')"
proof -
  have w: "returns (do { (i, s) \<leftarrow> DeleteInfoFromList w pkg n type t; release_medium func i s }) (\<lambda>(r, s'). op_safe t s')"
    if "disc_inv t" "g_isInited t" "d_next t = d_next s" "length pkg < PKG_NAME_SIZE_MAX" "is_subscribe type \<longleftrightarrow> w = Subscriptions" for pkg t w type func
    unfolding returns_bind
    by (rule returns_mono [OF withdrawn [OF that(1,2,5) _ that(4), of n func]])
       (use assms(2) that(3) step_safe in \<open>auto elim!: returns_mono\<close>)
  show "returns (DiscUnpublish m n s) (\<lambda>(r, s'). op_safe s s')"
    using module_operation [OF assms(1), of m "\<lambda>pkg. InnerUnPublishService pkg n PUBLISH_INNER_SERVICE"] w same_safe [OF assms(1)]
    by (simp add: DiscUnpublish_def InnerUnPublishService_def is_subscribe_def)
  show "returns (DiscStopAdvertise m n s) (\<lambda>(r, s'). op_safe s s')"
    using module_operation [OF assms(1), of m "\<lambda>pkg. InnerStopDiscovery pkg n SUBSCRIBE_INNER_SERVICE"] w same_safe [OF assms(1)]
    by (simp add: DiscStopAdvertise_def InnerStopDiscovery_def is_subscribe_def)
qed

lemma InnerSetDiscoverCallback_safe:
  assumes "disc_inv s" and "g_isInited s" and "pkg \<in> set g_discModuleMap" and "length pkg < PKG_NAME_SIZE_MAX \<and> PKG_NAME_SIZE_MAX \<le> room" and "\<forall>f. cb \<noteq> ServerCb f"
  shows "returns (InnerSetDiscoverCallback room pkg cb s) (\<lambda>(r, s'). op_safe s s' \<and> (\<forall>v. requests v s' = requests v s))"
proof -
  obtain t where t: "SoftBusMutexLock Subscriptions s = Some (d_lock_ok s (d_tick s), t)" and al: "alike s t" and fx: "fixed s t"
    and dp: "depth t = (if d_lock_ok s (d_tick s) then (depth s)(Subscriptions := depth s Subscriptions + 1) else depth s)"
    and inv: "disc_inv t" "g_isInited t"
    by (rule lock_value [OF assms(1,2)])
  have rq: "requests v t = requests v s" for v by (rule alike_requests [OF al])
  have nx: "d_next t = d_next s" using al by (simp add: alike_def)
  show ?thesis
  proof (cases "d_lock_ok s (d_tick s)")
    case False
    then show ?thesis using t dp alike_safe [OF assms(1) al fx] rq by (simp add: InnerSetDiscoverCallback_def)
  next
    case True
    have fin: "returns (SoftBusMutexUnlock Subscriptions u) (\<lambda>s'. op_safe s s' \<and> (\<forall>v. requests v s' = requests v s))"
      if u: "disc_inv u" "fixed t u" "depth u = depth t" "d_next t \<le> d_next u" "d_next u \<le> d_next t + 1" "\<And>v. requests v u = requests v t" for u
    proof (rule unlock_after [OF u(1)])
      show "g_isInited u" using u(2) inv(2) by (simp add: fixed_def)
      fix s' assume e: "alike u s'" "fixed u s'" "depth s' = (depth u)(Subscriptions := depth u Subscriptions - 1)"
      have "fixed s s'" by (rule fixed_trans [OF fx fixed_trans [OF u(2) e(2)]])
      moreover have "depth s' = depth s" using e(3) u(3) dp True by simp
      moreover have "d_next s' = d_next u" using e(1) by (simp add: alike_def)
      ultimately show "op_safe s s' \<and> (\<forall>v. requests v s' = requests v s)"
        using alike_inv [OF e(1)] alike_requests [OF e(1)] u rq nx by (simp add: op_safe_def)
    qed
    obtain l where l: "service_list Subscriptions t = Some l" "sl_list l = sl_list (lists t Subscriptions)" by (rule list_value [OF inv])
    consider (found) a it where "find_item (d_items t) pkg (sl_list (lists t Subscriptions)) = Some (Some a)" "a \<in> set (sl_list (lists t Subscriptions))"
        "d_items t a = Some it" "packageName it = pkg"
      | (absent) "find_item (d_items t) pkg (sl_list (lists t Subscriptions)) = Some None"
        "\<forall>a \<in> set (sl_list (lists t Subscriptions)). \<forall>it. d_items t a = Some it \<longrightarrow> packageName it \<noteq> pkg"
      by (rule find_item_cases [OF item_present [OF inv, where w = Subscriptions]])
    then show ?thesis
    proof cases
      case (found a it)
      let ?u = "t\<lparr>d_items := (d_items t)(a \<mapsto> it\<lparr>callback := cb\<rparr>)\<rparr>"
      have c: "disc_inv ?u" "\<And>v. owned (sl_list (lists ?u v)) (d_items ?u) = owned (sl_list (lists t v)) (d_items t)"
        using callback_state [OF inv found(2,3), of "it\<lparr>callback := cb\<rparr>"] assms(3,5) found(4) by simp_all
      have "returns (SoftBusMutexUnlock Subscriptions ?u) (\<lambda>s'. op_safe s s' \<and> (\<forall>v. requests v s' = requests v s))"
        by (rule fin [OF c(1)]) (use requests_owned(1) [OF c(2)] in \<open>simp_all add: fixed_def\<close>)
      then show ?thesis using t True l found by (simp add: InnerSetDiscoverCallback_def)
    next
      case absent
      have "returns (CreateNewItem Subscriptions room pkg (Some cb) SUBSCRIBE_INNER_SERVICE t) (\<lambda>(new, u). returns (SoftBusMutexUnlock Subscriptions u)
          (\<lambda>s'. op_safe s s' \<and> (\<forall>v. requests v s' = requests v s)))"
      proof (rule CreateNewItem_returns [OF inv _ assms(4)])
        show "callback_fits Subscriptions pkg SUBSCRIBE_INNER_SERVICE (Some cb)" using assms(3,5) by simp
        show "packageName it \<noteq> pkg" if "a \<in> set (sl_list (lists t Subscriptions))" "d_items t a = Some it" for a it using absent(2) that by blast
      next
        fix u assume u: "alike t u" "fixed t u" "depth u = depth t"
        then show "case (None, u) of (new, u) \<Rightarrow> returns (SoftBusMutexUnlock Subscriptions u) (\<lambda>s'. op_safe s s' \<and> (\<forall>v. requests v s' = requests v s))"
          using fin [of u] alike_inv [OF u(1)] alike_requests [OF u(1)] inv(1) by (simp add: alike_def)
      next
        fix a it u assume u: "disc_inv u" "fixed t u" "depth u = depth t" "d_next u = d_next t + 1" "d_infos u = d_infos t"
          "\<And>v. owned (sl_list (lists u v)) (d_items u) = owned (sl_list (lists t v)) (d_items t)"
        then show "case (Some a, u) of (new, u) \<Rightarrow> returns (SoftBusMutexUnlock Subscriptions u) (\<lambda>s'. op_safe s s' \<and> (\<forall>v. requests v s' = requests v s))"
          using fin [of u] requests_owned(1) [OF u(6,5)] by simp
      qed
      then show ?thesis using t True l absent(1) by (simp add: InnerSetDiscoverCallback_def case_prod_unfold)
    qed
  qed
qed

lemma DiscSetDiscoverCallback_safe:
  assumes "disc_inv s" and "\<forall>f. cb \<noteq> Some (ServerCb f)"
  shows "returns (DiscSetDiscoverCallback m cb s) (\<lambda>(r, s'). op_safe s s')"
proof (cases cb)
  case None
  then show ?thesis using same_safe [OF assms(1)] by (simp add: DiscSetDiscoverCallback_def)
next
  case (Some c)
  have "returns (InnerSetDiscoverCallback PKG_NAME_SIZE_MAX pkg c t) (\<lambda>(r, s'). op_safe t s')"
    if "disc_inv t" "g_isInited t" "pkg \<in> set g_discModuleMap" "length pkg < PKG_NAME_SIZE_MAX" for pkg t
    by (rule returns_mono [OF InnerSetDiscoverCallback_safe [OF that(1-3)]]) (use assms(2) that(4) Some in auto)
  then show ?thesis using module_operation [OF assms(1), of m "\<lambda>pkg. InnerSetDiscoverCallback PKG_NAME_SIZE_MAX pkg c"] Some same_safe [OF assms(1)]
    by (simp add: DiscSetDiscoverCallback_def)
qed
end
