(* ===== verification/Disc_Cleanup.thy ===== *)
theory Disc_Cleanup
  imports Disc_Interface
begin

text \<open>
  The callbacks for a found device, and the cleanup of the requests of a package that died or of all packages.
\<close>

section \<open>Found devices\<close>

text \<open>What the node \<open>i\<close> makes of a found device.\<close>

definition notified :: "disc \<Rightarrow> DeviceInfo \<Rightarrow> int \<Rightarrow> addr \<Rightarrow> disc_event list" where
  "notified s device additions i =
     (let it = the (d_items s (the (di_item (the (d_infos s i))))) in
      case callback it of
        NullCb \<Rightarrow> []
      | ServerCb f \<Rightarrow> [OnServerDeviceFound f (packageName it) device additions]
      | InnerCb f \<Rightarrow> if g_isCallLnn s then [OnDeviceFound f device additions] else [])"

lemma notified_alike: "alike s t \<Longrightarrow> fixed s t \<Longrightarrow> notified t = notified s"
  by (simp add: notified_def alike_def fixed_def fun_eq_iff Let_def split: InnerCallback.split)

lemma InnerDeviceFound_value:
  assumes "disc_inv s" and "g_isInited s" and "i \<in> snd ` owned (sl_list (lists s Subscriptions)) (d_items s)"
  shows "InnerDeviceFound i device additions s = Some (s\<lparr>d_events := d_events s @ notified s device additions i\<rparr>)"
proof -
  note reg = disc_invD(4) [OF assms(1,2)]
  obtain n where "(n, i) \<in> owned (sl_list (lists s Subscriptions)) (d_items s)" using assms(3) by auto
  then obtain a it where a: "a \<in> set (sl_list (lists s Subscriptions))" "d_items s a = Some it" "i \<in> set (InfoList it)" by (rule ownedE)
  obtain nd where nd: "d_infos s i = Some nd" "di_item nd = Some a" by (rule linked_item [OF reg a])
  have "callback_ok Subscriptions it" by (rule item_okD(5) [OF reg_okD(3) [OF reg a(1)] a(2)])
  then show ?thesis
    using nd a(2) by (cases "callback it") (auto simp: InnerDeviceFound_def notified_def event_def split: if_splits)
qed

lemma found_nodes_value:
  assumes "disc_inv s" and "g_isInited s" and "set is \<subseteq> snd ` owned (sl_list (lists s Subscriptions)) (d_items s)"
  shows "found_nodes is device additions s = Some (s\<lparr>d_events := d_events s @ concat (map (notified s device additions) is)\<rparr>)"
  using assms
proof (induction "is" arbitrary: s)
  case (Cons i "is")
  define t where "t = s\<lparr>d_events := d_events s @ notified s device additions i\<rparr>"
  have al: "alike s t" "fixed s t" by (simp_all add: t_def alike_def fixed_def)
  have "InnerDeviceFound i device additions s = Some t" using InnerDeviceFound_value [OF Cons.prems(1,2)] Cons.prems(3) by (simp add: t_def)
  moreover have "found_nodes is device additions t = Some (t\<lparr>d_events := d_events t @ concat (map (notified t device additions) is)\<rparr>)"
    by (rule Cons.IH) (use Cons.prems al alike_inv [OF al(1)] in \<open>simp_all add: alike_def\<close>)
  ultimately show ?case using notified_alike [OF al] by (simp add: t_def)
qed simp

definition found_events :: "disc \<Rightarrow> DeviceInfo \<Rightarrow> int \<Rightarrow> nat list \<Rightarrow> disc_event list" where
  "found_events s device additions ks =
     concat (map (\<lambda>k. concat (map (notified s device additions) (g_capabilityList s ! k)))
       (filter (\<lambda>k. IsBitmapSet (capabilityBitmap device ! 0) (of_nat k)) ks))"

lemma found_events_alike: "alike s t \<Longrightarrow> fixed s t \<Longrightarrow> found_events t device additions ks = found_events s device additions ks"
  using notified_alike [of s t] by (simp add: found_events_def alike_def)

lemma found_loop_returns:
  assumes "disc_inv s" and "g_isInited s" and "\<forall>k \<in> set ks. k < CAPABILITY_MAX_BITNUM"
  shows "returns (found_loop ks device additions s) (\<lambda>t. alike s t \<and> fixed s t \<and> depth t = depth s \<and>
    ((\<forall>n. d_lock_ok s n) \<longrightarrow> d_events t = d_events s @ found_events s device additions ks))"
  using assms
proof (induction ks arbitrary: s)
  case Nil
  then show ?case by (simp add: found_events_def)
next
  case (Cons k ks)
  show ?case
  proof (cases "IsBitmapSet (capabilityBitmap device ! 0) (of_nat k)")
    case False
    have "found_events s device additions (k # ks) = found_events s device additions ks" using False by (simp add: found_events_def)
    then show ?thesis using False Cons.IH [OF Cons.prems(1,2)] Cons.prems(3) by simp
  next
    case True
    obtain t where t: "SoftBusMutexLock Subscriptions s = Some (d_lock_ok s (d_tick s), t)" and al: "alike s t" and fx: "fixed s t" and ev: "d_events t = d_events s"
      and dp: "depth t = (if d_lock_ok s (d_tick s) then (depth s)(Subscriptions := depth s Subscriptions + 1) else depth s)"
      and inv: "disc_inv t" "g_isInited t"
      by (rule lock_value [OF Cons.prems(1,2)])
    show ?thesis
    proof (cases "d_lock_ok s (d_tick s)")
      case False
      then show ?thesis using True t al fx ev dp by auto
    next
      case lock: True
      have "caps_ok (sl_list (lists t Subscriptions)) (d_items t) (d_infos t) (g_capabilityList t)" by (rule reg_okD(6) [OF disc_invD(4) [OF inv]])
      then have "set (g_capabilityList t ! k) \<subseteq> snd ` owned (sl_list (lists t Subscriptions)) (d_items t)"
        using Cons.prems(3) by (auto simp: caps_ok_def subscribed_def)
      note v = found_nodes_value [OF inv this, of device additions]
      define u where "u = t\<lparr>d_events := d_events t @ concat (map (notified t device additions) (g_capabilityList t ! k))\<rparr>"
      have au: "alike t u" "fixed t u" "depth u = depth t" by (simp_all add: u_def alike_def fixed_def)
      have iu: "disc_inv u" "g_isInited u" using alike_inv [OF au(1)] inv au(1) by (simp_all add: alike_def)
      have "returns (SoftBusMutexUnlock Subscriptions u) (\<lambda>x. returns (found_loop ks device additions x) (\<lambda>t. alike s t \<and> fixed s t \<and> depth t = depth s \<and>
          ((\<forall>n. d_lock_ok s n) \<longrightarrow> d_events t = d_events s @ found_events s device additions (k # ks))))"
      proof (rule unlock_after [OF iu])
        fix x assume x: "alike u x" "fixed u x" "d_events x = d_events u" "depth x = (depth u)(Subscriptions := depth u Subscriptions - 1)"
        have ax: "alike s x" "fixed s x" using alike_trans [OF al alike_trans [OF au(1) x(1)]] fixed_trans [OF fx fixed_trans [OF au(2) x(2)]] .
        have lx: "d_lock_ok x = d_lock_ok s" using ax(2) by (simp add: fixed_def)
        have dx: "depth x = depth s" using x(4) au(3) dp lock by simp
        have ix: "disc_inv x" "g_isInited x" using alike_inv [OF x(1)] iu x(1) by (simp_all add: alike_def)
        have cp: "g_capabilityList t = g_capabilityList s" using al by (simp add: alike_def)
        have ex: "d_events x = d_events s @ concat (map (notified s device additions) (g_capabilityList s ! k))"
          using x(3) ev notified_alike [OF al fx] cp by (simp add: u_def)
        have split: "found_events s device additions (k # ks) =
            concat (map (notified s device additions) (g_capabilityList s ! k)) @ found_events s device additions ks"
          using True by (simp add: found_events_def)
        have "returns (found_loop ks device additions x) (\<lambda>t. alike x t \<and> fixed x t \<and> depth t = depth x \<and>
            ((\<forall>n. d_lock_ok x n) \<longrightarrow> d_events t = d_events x @ found_events x device additions ks))"
          by (rule Cons.IH [OF ix]) (use Cons.prems(3) in simp)
        then show "returns (found_loop ks device additions x) (\<lambda>t. alike s t \<and> fixed s t \<and> depth t = depth s \<and>
            ((\<forall>n. d_lock_ok s n) \<longrightarrow> d_events t = d_events s @ found_events s device additions (k # ks)))"
          by (rule returns_mono)
             (use alike_trans [OF ax(1)] fixed_trans [OF ax(2)] dx lx ex found_events_alike [OF ax] split in auto)
      qed
      then show ?thesis using True lock t v by (simp add: u_def)
    qed
  qed
qed

section \<open>Cleanup\<close>

lemma container_value:
  assumes "CreateIdContainer n p s = (c, t)"
  shows "alike s t" and "fixed s t" and "depth t = depth s" and "c = Some x \<Longrightarrow> x = \<lparr>ic_id = n, ic_pkgName = p\<rparr>" and "no_failures s \<Longrightarrow> c \<noteq> None"
proof -
  obtain ok u where u: "calloc s = (ok, u)" by fastforce
  obtain ok' v where v: "calloc u = (ok', v)" by fastforce
  note a = calloc_alike [OF u] and b = calloc_alike [OF v]
  have sv: "alike s v" "fixed s v" using a b alike_trans fixed_trans by blast+
  have t: "t = u \<or> t = v" using assms u v by (auto simp: CreateIdContainer_def split: if_splits option.splits)
  then show "alike s t" "fixed s t" "depth t = depth s" using a b sv by auto
  show "x = \<lparr>ic_id = n, ic_pkgName = p\<rparr>" if "c = Some x"
    using assms u v that by (auto simp: CreateIdContainer_def split: if_splits option.splits)
  have ok: "ok \<and> ok'" if "no_failures s" using a b that by (simp add: no_failures_def fixed_def)
  show "c \<noteq> None" if "no_failures s"
    using assms u v ok [OF that] by (cases p) (auto simp: CreateIdContainer_def)
qed

definition container :: "string \<Rightarrow> DiscInfo \<Rightarrow> IdContainer" where
  "container pkg nd = \<lparr>ic_id = di_id nd, ic_pkgName = Some pkg\<rparr>"

definition collected :: "disc \<Rightarrow> disc \<Rightarrow> bool \<Rightarrow> bool" where
  "collected s t ok \<longleftrightarrow> alike s t \<and> fixed s t \<and> depth t = depth s \<and> (no_failures s \<longrightarrow> ok)"

lemma collected_trans: "collected s t True \<Longrightarrow> collected t u ok \<Longrightarrow> collected s u ok"
  using alike_trans [of s t u] fixed_trans [of s t u] no_failures_fixed [of s t] by (simp add: collected_def)

lemma collect_infos_returns:
  assumes "\<forall>i \<in> set is. d_infos s i \<noteq> None"
  shows "returns (collect_infos pkg is ids s) (\<lambda>(ok, ids', t). collected s t ok \<and>
    (ok \<longrightarrow> set ids' = set ids \<union> (\<lambda>i. container pkg (the (d_infos s i))) ` set is))"
  using assms
proof (induction "is" arbitrary: ids s)
  case (Cons i "is")
  obtain nd where nd: "d_infos s i = Some nd" using Cons.prems by auto
  obtain c t where t: "CreateIdContainer (di_id nd) (Some pkg) s = (c, t)" by fastforce
  note v = container_value [OF t]
  show ?case
  proof (cases c)
    case None
    then show ?thesis using nd t v by (auto simp: collected_def)
  next
    case (Some x)
    have x: "x = container pkg nd" using v(4) [OF Some] by (simp add: container_def)
    have infs: "d_infos t = d_infos s" using v(1) by (simp add: alike_def)
    have ct: "collected s t True" using v by (simp add: collected_def)
    have "returns (collect_infos pkg is (ids @ [x]) t) (\<lambda>(ok, ids', u). collected t u ok \<and>
        (ok \<longrightarrow> set ids' = set (ids @ [x]) \<union> (\<lambda>i. container pkg (the (d_infos t i))) ` set is))"
      by (rule Cons.IH) (use Cons.prems infs in simp)
    then have "returns (collect_infos pkg is (ids @ [x]) t) (\<lambda>(ok, ids', u). collected s u ok \<and>
        (ok \<longrightarrow> set ids' = set ids \<union> (\<lambda>i. container pkg (the (d_infos s i))) ` set (i # is)))"
      by (rule returns_mono) (use collected_trans [OF ct] infs x nd in auto)
    then show ?thesis using nd t Some by simp
  qed
qed (simp add: collected_def)

definition to_clean :: "string option \<Rightarrow> addr list \<Rightarrow> disc \<Rightarrow> IdContainer set" where
  "to_clean pkg as s = (\<Union>a \<in> set as. case d_items s a of None \<Rightarrow> {}
     | Some it \<Rightarrow> if pkg = None \<or> pkg = Some (packageName it) then (\<lambda>i. container (packageName it) (the (d_infos s i))) ` set (InfoList it) else {})"

lemma to_clean_Cons:
  assumes "d_items s a = Some it"
  shows "to_clean pkg (a # as) s = (if pkg = None \<or> pkg = Some (packageName it)
    then (\<lambda>i. container (packageName it) (the (d_infos s i))) ` set (InfoList it) else {}) \<union> to_clean pkg as s"
  unfolding to_clean_def list.set UN_insert assms option.case ..

lemma to_clean_alike: "alike s t \<Longrightarrow> to_clean pkg as t = to_clean pkg as s"
  unfolding to_clean_def alike_def by (simp only:)

lemma collect_items_returns:
  assumes "\<forall>a \<in> set as. \<exists>it. d_items s a = Some it \<and> (\<forall>i \<in> set (InfoList it). d_infos s i \<noteq> None)"
  shows "returns (collect_items pkg as ids s) (\<lambda>(ok, ids', t). collected s t ok \<and> (ok \<longrightarrow> set ids' = set ids \<union> to_clean pkg as s))"
  using assms
proof (induction as arbitrary: ids s)
  case Nil
  then show ?case by (simp add: collected_def to_clean_def)
next
  case (Cons a as)
  obtain it where it: "d_items s a = Some it" "\<forall>i \<in> set (InfoList it). d_infos s i \<noteq> None" using Cons.prems by auto
  show ?case
  proof (cases "pkg \<noteq> None \<and> packageName it \<noteq> the pkg")
    case True
    then have "to_clean pkg (a # as) s = to_clean pkg as s" using to_clean_Cons [OF it(1), of pkg as] by auto
    then show ?thesis using True it(1) Cons.IH [of s ids] Cons.prems by simp
  next
    case False
    then have cl: "to_clean pkg (a # as) s = (\<lambda>i. container (packageName it) (the (d_infos s i))) ` set (InfoList it) \<union> to_clean pkg as s"
      using to_clean_Cons [OF it(1), of pkg as] by (cases pkg) auto
    have "returns (collect_infos (packageName it) (InfoList it) ids s)
      (\<lambda>(ok, ids1, t). returns (if ok then collect_items pkg as ids1 t else Some (False, ids1, t))
        (\<lambda>(ok, ids', t). collected s t ok \<and> (ok \<longrightarrow> set ids' = set ids \<union> to_clean pkg (a # as) s)))"
    proof (rule returns_mono [OF collect_infos_returns [OF it(2)]], clarify)
      fix ok ids1 t
      assume t: "collected s t ok" "ok \<longrightarrow> set ids1 = set ids \<union> (\<lambda>i. container (packageName it) (the (d_infos s i))) ` set (InfoList it)"
      show "returns (if ok then collect_items pkg as ids1 t else Some (False, ids1, t))
        (\<lambda>(ok, ids', t). collected s t ok \<and> (ok \<longrightarrow> set ids' = set ids \<union> to_clean pkg (a # as) s))"
      proof (cases ok)
        case True
        have al: "alike s t" using t(1) by (simp add: collected_def)
        have "returns (collect_items pkg as ids1 t) (\<lambda>(ok, ids', u). collected t u ok \<and> (ok \<longrightarrow> set ids' = set ids1 \<union> to_clean pkg as t))"
          by (rule Cons.IH) (use Cons.prems al in \<open>simp add: alike_def\<close>)
        then have "returns (collect_items pkg as ids1 t)
            (\<lambda>(ok, ids', t). collected s t ok \<and> (ok \<longrightarrow> set ids' = set ids \<union> to_clean pkg (a # as) s))"
          by (rule returns_mono) (use t True collected_trans [of s t] to_clean_alike [OF al] cl in auto)
        then show ?thesis using True by simp
      qed (use t in simp)
    qed
    then show ?thesis using it(1) False by (auto simp: case_prod_unfold)
  qed
qed

text \<open>The withdrawal of the collected requests.\<close>

definition named :: "IdContainer list \<Rightarrow> string \<times> DiscInfo \<Rightarrow> bool" where
  "named ids x \<longleftrightarrow> container (fst x) (snd x) \<in> set ids"

definition clean_post :: "service \<Rightarrow> disc \<Rightarrow> (string \<times> DiscInfo \<Rightarrow> bool) \<Rightarrow> disc \<Rightarrow> bool" where
  "clean_post w s P s' \<longleftrightarrow> disc_inv s' \<and> fixed s s' \<and> d_next s' = d_next s \<and> (\<forall>v. v \<noteq> w \<longrightarrow> requests v s' = requests v s) \<and>
     requests w s' \<subseteq> requests w s \<and> (no_failures s \<longrightarrow> requests w s' = {x \<in> requests w s. \<not> P x})"

lemma clean_post_trans:
  assumes "clean_post w s P t" and "clean_post w t Q u" and "\<And>x. R x \<longleftrightarrow> P x \<or> Q x"
  shows "clean_post w s R u"
  using assms fixed_trans [of s t u] no_failures_fixed [of s t] unfolding clean_post_def by auto

lemma end_post_clean:
  assumes "step_post w s s'" and "d_next s' = d_next s" and "end_post w pkg n s r s'" and "g_isInited s" and "length pkg < PKG_NAME_SIZE_MAX"
  shows "clean_post w s (named [\<lparr>ic_id = n, ic_pkgName = Some pkg\<rparr>]) s'" and "depth s' = depth s"
proof -
  have nm: "named [\<lparr>ic_id = n, ic_pkgName = Some pkg\<rparr>] x \<longleftrightarrow> fst x = pkg \<and> di_id (snd x) = n" for x
    by (auto simp: named_def container_def)
  have "requests w s' \<subseteq> requests w s" using assms(3) unfolding end_post_def by (auto split: if_splits)
  moreover have "requests w s' = {x \<in> requests w s. \<not> named [\<lparr>ic_id = n, ic_pkgName = Some pkg\<rparr>] x}" if "no_failures s"
  proof (cases "duplicate w s pkg n")
    case True
    then show ?thesis using assms(3-5) that nm by (simp add: end_post_def no_failures_def)
  next
    case False
    then have "\<not> (fst x = pkg \<and> di_id (snd x) = n)" if "x \<in> requests w s" for x using that by (cases x) (auto simp: duplicate_def)
    then show ?thesis using assms(3) False nm by (auto simp: end_post_def)
  qed
  ultimately show "clean_post w s (named [\<lparr>ic_id = n, ic_pkgName = Some pkg\<rparr>]) s'" "depth s' = depth s"
    using assms(1,2) by (simp_all add: clean_post_def step_post_def)
qed

fun cleanup_type :: "service \<Rightarrow> ServiceType" where
  "cleanup_type Publications = PUBLISH_SERVICE"
| "cleanup_type Subscriptions = SUBSCRIBE_SERVICE"

fun withdraw_request :: "service \<Rightarrow> string option \<Rightarrow> int \<Rightarrow> disc \<Rightarrow> (int \<times> disc) option" where
  "withdraw_request Publications = DiscUnPublishService"
| "withdraw_request Subscriptions = DiscStopDiscovery"

lemma withdraw_request_returns:
  assumes "disc_inv s" and "d_next s < 2 ^ 32"
  shows "returns (withdraw_request w (Some pkg) n s) (\<lambda>(r, s'). step_post w s s' \<and> d_next s' = d_next s \<and> end_post w pkg n s r s')"
  using DiscUnPublishService_returns [OF assms] DiscStopDiscovery_returns [OF assms] by (cases w) simp_all

lemma CleanupPublishDiscovery_Cons:
  "CleanupPublishDiscovery (c # cs) (cleanup_type w) s =
     Option.bind (withdraw_request w (ic_pkgName c) (ic_id c) s) (\<lambda>(r, t). CleanupPublishDiscovery cs (cleanup_type w) t)"
proof -
  have "Option.bind (map_option snd x) f = Option.bind x (\<lambda>(r, t). f t)" for x :: "(int \<times> disc) option" and f :: "disc \<Rightarrow> disc option"
    by (cases x) auto
  then show ?thesis by (cases w) simp_all
qed

lemma CleanupPublishDiscovery_returns:
  assumes "disc_inv s" and "g_isInited s" and "d_next s < 2 ^ 32"
    and "\<forall>c \<in> set ids. \<exists>pkg. ic_pkgName c = Some pkg \<and> length pkg < PKG_NAME_SIZE_MAX"
  shows "returns (CleanupPublishDiscovery ids (cleanup_type w) s) (\<lambda>s'. clean_post w s (named ids) s' \<and> depth s' = depth s)"
  using assms
proof (induction ids arbitrary: s)
  case Nil
  then show ?case by (auto simp: clean_post_def named_def)
next
  case (Cons c cs)
  obtain pkg where pkg: "ic_pkgName c = Some pkg" "length pkg < PKG_NAME_SIZE_MAX" using Cons.prems(4) by auto
  have c: "c = \<lparr>ic_id = ic_id c, ic_pkgName = Some pkg\<rparr>" using pkg(1) by simp
  show ?case
    unfolding CleanupPublishDiscovery_Cons pkg(1) returns_bind
  proof (rule returns_mono [OF withdraw_request_returns [OF Cons.prems(1,3)]], clarify)
    fix r t assume t: "step_post w s t" "d_next t = d_next s" "end_post w pkg (ic_id c) s r t"
    note e = end_post_clean [OF t Cons.prems(2) pkg(2)]
    have it: "disc_inv t" "g_isInited t" "d_next t < 2 ^ 32" using t(1,2) Cons.prems(2,3) by (simp_all add: step_post_def fixed_def)
    have "returns (CleanupPublishDiscovery cs (cleanup_type w) t) (\<lambda>s'. clean_post w t (named cs) s' \<and> depth s' = depth t)"
      by (rule Cons.IH [OF it]) (use Cons.prems(4) in simp)
    then show "returns (CleanupPublishDiscovery cs (cleanup_type w) t) (\<lambda>s'. clean_post w s (named (c # cs)) s' \<and> depth s' = depth s)"
    proof (rule returns_mono, intro conjI)
      fix s' assume s': "clean_post w t (named cs) s' \<and> depth s' = depth t"
      show "clean_post w s (named (c # cs)) s'"
        by (rule clean_post_trans [OF e(1) conjunct1 [OF s']]) (use c in \<open>auto simp: named_def\<close>)
      show "depth s' = depth s" using s' e(2) by simp
    qed
  qed
qed

lemma named_iff:
  assumes "set ids = to_clean pkg (sl_list (lists s w)) s" and "x \<in> requests w s"
  shows "named ids x \<longleftrightarrow> pkg = None \<or> pkg = Some (fst x)"
proof
  assume "named ids x"
  then have "container (fst x) (snd x) \<in> to_clean pkg (sl_list (lists s w)) s" using assms(1) by (simp add: named_def)
  then show "pkg = None \<or> pkg = Some (fst x)"
    by (auto simp: to_clean_def container_def split: option.splits if_splits)
next
  assume match: "pkg = None \<or> pkg = Some (fst x)"
  obtain n i nd where x: "x = (n, nd\<lparr>di_item := None\<rparr>)" "(n, i) \<in> owned (sl_list (lists s w)) (d_items s)" "d_infos s i = Some nd"
    using assms(2) unfolding requests_def request_set_def by blast
  obtain a it where a: "a \<in> set (sl_list (lists s w))" "d_items s a = Some it" "n = packageName it" "i \<in> set (InfoList it)"
    using x(2) by (rule ownedE)
  have "container (fst x) (snd x) = container (packageName it) (the (d_infos s i))" using x a(3) by (simp add: container_def)
  moreover have "\<dots> \<in> to_clean pkg (sl_list (lists s w)) s"
    unfolding to_clean_def by (rule UN_I [OF a(1)]) (use a x(1) match in auto)
  ultimately show "named ids x" using assms(1) by (simp add: named_def)
qed

lemma to_clean_names:
  assumes "disc_inv s" and "g_isInited s" and "c \<in> to_clean pkg (sl_list (lists s w)) s"
  shows "\<exists>n. ic_pkgName c = Some n \<and> length n < PKG_NAME_SIZE_MAX"
proof -
  obtain a it where a: "a \<in> set (sl_list (lists s w))" "d_items s a = Some it" "ic_pkgName c = Some (packageName it)"
    using assms(3) by (auto simp: to_clean_def container_def split: option.splits if_splits)
  then show ?thesis using item_okD(6) [OF reg_okD(3) [OF disc_invD(4) [OF assms(1,2)] a(1)] a(2)] by simp
qed

lemma clean_post_weaken:
  assumes "clean_post w s P t" and "\<And>x. x \<in> requests w s \<Longrightarrow> P x \<longleftrightarrow> Q x"
  shows "clean_post w s Q t"
  using assms unfolding clean_post_def by auto

lemma clean_post_alike:
  assumes "alike s t" and "fixed s t" and "clean_post w t P u" and "alike u s'" and "fixed u s'"
  shows "clean_post w s P s'"
  using assms fixed_trans [of s t s'] fixed_trans [of t u s'] no_failures_fixed [of s t] alike_requests [of s t] alike_requests [of u s'] alike_inv [of u s']
  unfolding clean_post_def by (auto simp: alike_def)

lemma alike_clean: "disc_inv s \<Longrightarrow> alike s t \<Longrightarrow> fixed s t \<Longrightarrow> \<not> no_failures s \<Longrightarrow> clean_post w s P t"
  using alike_requests [of s t] alike_inv [of s t] by (simp add: clean_post_def alike_def)

definition lock_left :: "service \<Rightarrow> disc \<Rightarrow> disc \<Rightarrow> bool" where
  "lock_left w s s' \<longleftrightarrow> depth s' = depth s \<or> (depth s' = (depth s)(w := depth s w + 1) \<and> \<not> (\<forall>n. d_calloc_ok s n))"

lemma DiscMgrInfoListDeinit_returns:
  assumes "disc_inv s" and "g_isInited s" and "d_next s < 2 ^ 32"
  shows "returns (DiscMgrInfoListDeinit w (cleanup_type w) pkg s)
    (\<lambda>s'. clean_post w s (\<lambda>x. pkg = None \<or> pkg = Some (fst x)) s' \<and> lock_left w s s')"
proof -
  obtain t where t: "SoftBusMutexLock w s = Some (d_lock_ok s (d_tick s), t)" and al: "alike s t" and fx: "fixed s t"
    and dp: "depth t = (if d_lock_ok s (d_tick s) then (depth s)(w := depth s w + 1) else depth s)" and inv: "disc_inv t" "g_isInited t"
    by (rule lock_value [OF assms(1,2)])
  obtain c u where u: "CreateIdContainer 0 None t = (c, u)" by fastforce
  note cu = container_value [OF u]
  have au: "alike s u" "fixed s u" using alike_trans [OF al cu(1)] fixed_trans [OF fx cu(2)] .
  have iu: "disc_inv u" "g_isInited u" "d_next u < 2 ^ 32" using alike_inv [OF au(1)] au(1) assms by (simp_all add: alike_def)
  show ?thesis
  proof (cases "d_lock_ok s (d_tick s)")
    case False
    then have "\<not> no_failures s" by (auto simp: no_failures_def)
    then show ?thesis using t False dp alike_clean [OF assms(1) al fx] by (simp add: DiscMgrInfoListDeinit_def lock_left_def)
  next
    case lock: True
    show ?thesis
    proof (cases c)
      case None
      have "\<not> d_calloc_ok t (d_tick t)" using u None by (auto simp: CreateIdContainer_def calloc_def split: if_splits)
      then have "\<not> (\<forall>n. d_calloc_ok s n)" "\<not> no_failures s" using fx by (auto simp: fixed_def no_failures_def)
      then show ?thesis using t u lock None dp cu(3) alike_clean [OF assms(1) au]
        by (simp add: DiscMgrInfoListDeinit_def lock_left_def)
    next
      case (Some c')
      obtain l where l: "service_list w u = Some l" "sl_list l = sl_list (lists u w)" by (rule list_value [OF iu(1,2)])
      have "\<forall>a \<in> set (sl_list (lists u w)). \<exists>it. d_items u a = Some it \<and> (\<forall>i \<in> set (InfoList it). d_infos u i \<noteq> None)"
        using item_present [OF iu(1,2)] node_present [OF iu(1,2)] by blast
      note col = collect_items_returns [OF this, of pkg "[]"]
      have "returns (collect_items pkg (sl_list (lists u w)) [] u)
        (\<lambda>(ok, ids, v). returns (if ok then CleanupPublishDiscovery ids (cleanup_type w) v else Some v)
          (\<lambda>x. returns (SoftBusMutexUnlock w x) (\<lambda>s'. clean_post w s (\<lambda>x. pkg = None \<or> pkg = Some (fst x)) s' \<and> lock_left w s s')))"
      proof (rule returns_mono [OF col], clarify)
        fix ok ids v assume v: "collected u v ok" "ok \<longrightarrow> set ids = set [] \<union> to_clean pkg (sl_list (lists u w)) u"
        have av: "alike u v" "fixed u v" "depth v = depth u" "no_failures u \<longrightarrow> ok" using v(1) by (simp_all add: collected_def)
        have iv: "disc_inv v" "g_isInited v" "d_next v < 2 ^ 32" using alike_inv [OF av(1)] av(1) iu by (simp_all add: alike_def)
        have asv: "alike s v" "fixed s v" using alike_trans [OF au(1) av(1)] fixed_trans [OF au(2) av(2)] .
        let ?P = "\<lambda>x. pkg = None \<or> pkg = Some (fst x)"
        have "returns (if ok then CleanupPublishDiscovery ids (cleanup_type w) v else Some v) (\<lambda>x. clean_post w v ?P x \<and> depth x = depth v)"
        proof (cases ok)
          case True
          have ids: "set ids = to_clean pkg (sl_list (lists v w)) v" using v(2) True to_clean_alike [OF av(1)] alike_list [OF av(1)] by simp
          have "returns (CleanupPublishDiscovery ids (cleanup_type w) v) (\<lambda>s'. clean_post w v (named ids) s' \<and> depth s' = depth v)"
            by (rule CleanupPublishDiscovery_returns [OF iv], unfold ids, rule ballI, rule to_clean_names [OF iv(1,2)])
          then have "returns (CleanupPublishDiscovery ids (cleanup_type w) v) (\<lambda>s'. clean_post w v ?P s' \<and> depth s' = depth v)"
            by (rule returns_mono, elim conjE, intro conjI) (rule clean_post_weaken, assumption, rule named_iff [OF ids])
          then show ?thesis using True by simp
        next
          case False
          then have "\<not> no_failures v" using av(4) no_failures_fixed [OF av(2)] by blast
          then show ?thesis using False alike_clean [OF iv(1) alike_refl fixed_refl] by simp
        qed
        then show "returns (if ok then CleanupPublishDiscovery ids (cleanup_type w) v else Some v)
          (\<lambda>x. returns (SoftBusMutexUnlock w x) (\<lambda>s'. clean_post w s ?P s' \<and> lock_left w s s'))"
        proof (rule returns_mono)
          fix x assume x: "clean_post w v ?P x \<and> depth x = depth v"
          show "returns (SoftBusMutexUnlock w x) (\<lambda>s'. clean_post w s ?P s' \<and> lock_left w s s')"
          proof (rule unlock_after)
            show "disc_inv x" "g_isInited x" using x iv(2) by (simp_all add: clean_post_def fixed_def)
            fix s' assume e: "alike x s'" "fixed x s'" "depth s' = (depth x)(w := depth x w - 1)"
            have "depth s' = depth s" using e(3) x av(3) cu(3) dp lock by simp
            then show "clean_post w s ?P s' \<and> lock_left w s s'"
              using clean_post_alike [OF asv conjunct1 [OF x] e(1,2)] by (simp add: lock_left_def)
          qed
        qed
      qed
      then show ?thesis using t lock u Some l by (simp add: DiscMgrInfoListDeinit_def case_prod_unfold)
    qed
  qed
qed
end
