(* ===== verification/Disc_Properties.thy ===== *)
theory Disc_Properties
  imports Disc_Cleanup
begin

text \<open>
  The discovery manager as a machine of operations and what holds for every sequence of them whose callers keep to their
  obligations: every operation returns, no operation follows a pointer to a released item or node, and the lists keep their
  invariant. Then the effect of each operation on the requests, the notification of found devices, the cleanup after the death
  of a package, and two situations in which the manager goes wrong.
\<close>

section \<open>The manager as a machine\<close>

datatype disc_op =
    OpInit "DiscoveryFuncInterface option" "DiscoveryFuncInterface option"
  | OpDeinit
  | OpDeath "string option"
  | OpSetCallback int "InnerCallback option"
  | OpPublish int "PublishInfo option"
  | OpStartScan int "PublishInfo option"
  | OpUnpublish int int
  | OpStartAdvertise int "SubscribeInfo option"
  | OpSubscribe int "SubscribeInfo option"
  | OpStopAdvertise int int
  | OpPublishService "string option" "PublishInfo option"
  | OpUnPublishService "string option" int
  | OpStartDiscovery "string option" "SubscribeInfo option" "InnerCallback option"
  | OpStopDiscovery "string option" int
  | OpIpcPublish string "PublishInfo option"
  | OpIpcUnPublish string int
  | OpIpcStart string "SubscribeInfo option"
  | OpIpcStop string int
  | OpLinkStatus int int
  | OpInfoChanged int
  | OpDeviceFound DeviceInfo int

abbreviation after :: "(int \<times> disc) option \<Rightarrow> disc option" where "after r \<equiv> map_option snd r"

fun do_op :: "disc_op \<Rightarrow> disc \<Rightarrow> disc option" where
  "do_op (OpInit coap ble) s = Some (snd (DiscMgrInit coap ble s))"
| "do_op OpDeinit s = DiscMgrDeinit s"
| "do_op (OpDeath pkg) s = DiscMgrDeathCallback pkg s"
| "do_op (OpSetCallback m cb) s = after (DiscSetDiscoverCallback m cb s)"
| "do_op (OpPublish m info) s = after (DiscPublish m info s)"
| "do_op (OpStartScan m info) s = after (DiscStartScan m info s)"
| "do_op (OpUnpublish m n) s = after (DiscUnpublish m n s)"
| "do_op (OpStartAdvertise m info) s = after (DiscStartAdvertise m info s)"
| "do_op (OpSubscribe m info) s = after (DiscSubscribe m info s)"
| "do_op (OpStopAdvertise m n) s = after (DiscStopAdvertise m n s)"
| "do_op (OpPublishService pkg info) s = after (DiscPublishService pkg info s)"
| "do_op (OpUnPublishService pkg n) s = after (DiscUnPublishService pkg n s)"
| "do_op (OpStartDiscovery pkg info cb) s = after (DiscStartDiscovery pkg info cb s)"
| "do_op (OpStopDiscovery pkg n) s = after (DiscStopDiscovery pkg n s)"
| "do_op (OpIpcPublish pkg info) s = after (DiscIpcPublishService pkg info s)"
| "do_op (OpIpcUnPublish pkg n) s = after (DiscIpcUnPublishService pkg n s)"
| "do_op (OpIpcStart pkg info) s = after (DiscIpcStartDiscovery pkg info s)"
| "do_op (OpIpcStop pkg n) s = after (DiscIpcStopDiscovery pkg n s)"
| "do_op (OpLinkStatus status medium) s = Some (DiscLinkStatusChanged status medium s)"
| "do_op (OpInfoChanged type) s = Some (DiscDeviceInfoChanged type s)"
| "do_op (OpDeviceFound device additions) s = DiscOnDeviceFound device additions s"

text \<open>
  What the callers owe: data that ends within its buffer, callbacks of the right kind, names of packages that are not
  those of the modules and at whose address \<open>PKG_NAME_SIZE_MAX\<close> bytes can be read, requests of clients that are not NULL, and found
  devices only while the manager is up. The code checks none of these; a package that names itself \<^verbatim>\<open>MODULE_LNN\<close>, for example, has its
  callback taken for one of the other kind.
\<close>

fun publish_ok :: "PublishInfo option \<Rightarrow> bool" where
  "publish_ok None = True"
| "publish_ok (Some i) = data_ok (pi_capabilityData i) (pi_dataLen i)"

fun subscribe_ok :: "SubscribeInfo option \<Rightarrow> bool" where
  "subscribe_ok None = True"
| "subscribe_ok (Some i) = data_ok (si_capabilityData i) (si_dataLen i)"

fun op_ok :: "disc_op \<Rightarrow> disc \<Rightarrow> bool" where
  "op_ok (OpSetCallback m cb) s = (case cb of Some (ServerCb f) \<Rightarrow> False | _ \<Rightarrow> True)"
| "op_ok (OpPublish m info) s = publish_ok info"
| "op_ok (OpStartScan m info) s = publish_ok info"
| "op_ok (OpStartAdvertise m info) s = subscribe_ok info"
| "op_ok (OpSubscribe m info) s = subscribe_ok info"
| "op_ok (OpPublishService pkg info) s = (publish_ok info \<and> PKG_NAME_SIZE_MAX \<le> d_name_room s (d_tick s))"
| "op_ok (OpStartDiscovery pkg info cb) s =
     (subscribe_ok info \<and> PKG_NAME_SIZE_MAX \<le> d_name_room s (d_tick s) \<and> (case pkg of None \<Rightarrow> True | Some p \<Rightarrow> p \<notin> set g_discModuleMap) \<and>
      (case cb of None \<Rightarrow> True | Some (ServerCb f) \<Rightarrow> True | _ \<Rightarrow> False))"
| "op_ok (OpIpcPublish pkg info) s = (info \<noteq> None \<and> publish_ok info \<and> PKG_NAME_SIZE_MAX \<le> d_name_room s (d_tick s))"
| "op_ok (OpIpcStart pkg info) s = (info \<noteq> None \<and> subscribe_ok info \<and> PKG_NAME_SIZE_MAX \<le> d_name_room s (d_tick s) \<and> pkg \<notin> set g_discModuleMap)"
| "op_ok (OpDeviceFound device additions) s = g_isInited s"
| "op_ok _ s = True"

fun run :: "disc_op list \<Rightarrow> disc \<Rightarrow> disc option" where
  "run [] s = Some s"
| "run (x # xs) s = Option.bind (do_op x s) (run xs)"

fun run_ok :: "disc_op list \<Rightarrow> disc \<Rightarrow> bool" where
  "run_ok [] s = True"
| "run_ok (x # xs) s = (op_ok x s \<and> (case do_op x s of None \<Rightarrow> True | Some t \<Rightarrow> run_ok xs t))"

section \<open>Every operation is safe\<close>

definition op_kept :: "disc \<Rightarrow> disc \<Rightarrow> bool" where
  "op_kept s s' \<longleftrightarrow> disc_inv s' \<and> depth s' = depth s \<and> d_next s' \<le> d_next s + 2"

lemma op_safe_kept: "op_safe s s' \<Longrightarrow> op_kept s s'"
  by (simp add: op_safe_def op_kept_def)

lemma after_kept: "returns c (\<lambda>(r, s'). op_safe s s') \<Longrightarrow> returns (after c) (op_kept s)"
  using op_safe_kept by (cases c) auto

lemma after_step: "returns c (\<lambda>(r, s'). step_post w s s' \<and> P r s') \<Longrightarrow> returns (after c) (op_kept s)"
  by (cases c) (auto intro: op_safe_kept [OF step_safe])

lemma publish_service_kept:
  assumes "disc_inv s" and "publish_ok info" and "PKG_NAME_SIZE_MAX \<le> d_name_room s (d_tick s)"
  shows "returns (after (DiscPublishService pkg info s)) (op_kept s)"
proof (cases pkg; cases info)
  fix p i assume *: "pkg = Some p" "info = Some i"
  then show ?thesis using after_step [OF DiscPublishService_returns [OF assms(1)]] assms(2,3) by simp
qed (use assms(1) in \<open>simp_all add: DiscPublishService_def op_kept_def\<close>)

lemma start_discovery_kept:
  assumes "disc_inv s" and "op_ok (OpStartDiscovery pkg info cb) s"
  shows "returns (after (DiscStartDiscovery pkg info cb s)) (op_kept s)"
proof (cases "\<exists>p i f. pkg = Some p \<and> info = Some i \<and> cb = Some (ServerCb f)")
  case True
  then show ?thesis using after_step [OF DiscStartDiscovery_returns [OF assms(1)]] assms(2) by auto
next
  case False
  then have "pkg = None \<or> info = None \<or> cb = None" using assms(2) by (cases pkg; cases info; cases cb) (auto split: InnerCallback.splits)
  then show ?thesis using assms(1) by (cases pkg; cases info; cases cb) (auto simp: DiscStartDiscovery_def op_kept_def)
qed

lemma unpublish_kept:
  assumes "disc_inv s" and "d_next s < 2 ^ 32"
  shows "returns (after (DiscUnPublishService pkg n s)) (op_kept s)" and "returns (after (DiscStopDiscovery pkg n s)) (op_kept s)"
proof -
  show "returns (after (DiscUnPublishService pkg n s)) (op_kept s)"
  proof (cases pkg)
    case (Some p)
    then show ?thesis using after_step [OF DiscUnPublishService_returns [OF assms]] by simp
  qed (use assms(1) in \<open>simp add: DiscUnPublishService_def op_kept_def\<close>)
  show "returns (after (DiscStopDiscovery pkg n s)) (op_kept s)"
  proof (cases pkg)
    case (Some p)
    then show ?thesis using after_step [OF DiscStopDiscovery_returns [OF assms]] by simp
  qed (use assms(1) in \<open>simp add: DiscStopDiscovery_def op_kept_def\<close>)
qed

text \<open>Events and the flag of the server leave the data alone.\<close>

lemma quiet [simp]:
  "disc_inv (event e s) = disc_inv s" "depth (event e s) = depth s" "d_next (event e s) = d_next s"
  "disc_inv (SetCallLnnStatus b s) = disc_inv s" "depth (SetCallLnnStatus b s) = depth s" "d_next (SetCallLnnStatus b s) = d_next s"
proof -
  have "alike s (event e s)" "alike s (SetCallLnnStatus b s)" by (simp_all add: event_def SetCallLnnStatus_def alike_def)
  then show "disc_inv (event e s) = disc_inv s" "disc_inv (SetCallLnnStatus b s) = disc_inv s" by (simp_all add: alike_inv)
qed (simp_all add: event_def SetCallLnnStatus_def)

lemma op_kept_quiet [simp]: "op_kept s (event e t) = op_kept s t" "op_kept (SetCallLnnStatus b s) t = op_kept s t"
  by (simp_all add: op_kept_def)

lemma ipc_kept:
  assumes "disc_inv s" and "PKG_NAME_SIZE_MAX \<le> d_name_room s (d_tick s)"
  shows "publish_ok info \<Longrightarrow> info \<noteq> None \<Longrightarrow> returns (after (DiscIpcPublishService pkg info s)) (op_kept s)"
    and "subscribe_ok sinfo \<Longrightarrow> sinfo \<noteq> None \<Longrightarrow> pkg \<notin> set g_discModuleMap \<Longrightarrow> returns (after (DiscIpcStartDiscovery pkg sinfo s)) (op_kept s)"
proof -
  show "returns (after (DiscIpcPublishService pkg info s)) (op_kept s)" if "publish_ok info" "info \<noteq> None"
    using publish_service_kept [OF assms(1) that(1) assms(2), of "Some pkg"] that(2) by (cases "DiscPublishService (Some pkg) info s") (auto simp: DiscIpcPublishService_def)
  assume *: "subscribe_ok sinfo" "sinfo \<noteq> None" "pkg \<notin> set g_discModuleMap"
  obtain j where j: "sinfo = Some j" using *(2) by blast
  let ?t = "SetCallLnnStatus False s"
  have room: "d_name_room ?t (d_tick ?t) = d_name_room s (d_tick s)" by (simp add: SetCallLnnStatus_def)
  have "returns (after (DiscStartDiscovery (Some pkg) sinfo (Some (ServerCb 0)) ?t)) (op_kept ?t)"
    by (rule start_discovery_kept) (use assms * room in simp_all)
  then show "returns (after (DiscIpcStartDiscovery pkg sinfo s)) (op_kept s)"
    using j by (cases "DiscStartDiscovery (Some pkg) sinfo (Some (ServerCb 0)) ?t") (auto simp: DiscIpcStartDiscovery_def)
qed

lemma empty_lists_ok:
  assumes "\<And>w. L w = \<lparr>sl_cnt = 0, sl_list = [], sl_depth = 0\<rparr>"
  shows "reg_ok L its infs (replicate CAPABILITY_MAX_BITNUM [])"
  using assms by (auto simp: reg_ok_def list_ok_def caps_ok_def subscribed_def owned_def)

lemma DiscMgrInit_kept:
  assumes "disc_inv s"
  shows "disc_inv (snd (DiscMgrInit coap ble s))" and "d_next (snd (DiscMgrInit coap ble s)) = d_next s"
proof -
  define s' where "s' = snd (DiscMgrInit coap ble s)"
  have st: "d_items s' = d_items s \<and> d_infos s' = d_infos s \<and> d_next s' = d_next s"
    by (simp add: s'_def DiscMgrInit_def CreateSoftBusList_def calloc_def Let_def)
  then show "d_next (snd (DiscMgrInit coap ble s)) = d_next s" by (simp add: s'_def)
  have new: "service_list w s' = Some \<lparr>sl_cnt = 0, sl_list = [], sl_depth = 0\<rparr> \<and> g_capabilityList s' = replicate CAPABILITY_MAX_BITNUM []"
    if "\<not> g_isInited s" "g_isInited s'" for w
    using that by (cases w) (auto simp: s'_def DiscMgrInit_def CreateSoftBusList_def calloc_def Let_def split: if_splits)
  have "disc_inv s'"
  proof (cases "g_isInited s")
    case True
    then show ?thesis using assms by (simp add: s'_def DiscMgrInit_def)
  next
    case False
    have "reg_ok (lists s') (d_items s') (d_infos s') (g_capabilityList s') \<and> (\<forall>w. service_list w s' \<noteq> None)" if "g_isInited s'"
      using new [OF False that] empty_lists_ok [of "lists s'"] by (simp add: lists_def)
    then show ?thesis using st assms unfolding disc_inv_def by simp
  qed
  then show "disc_inv (snd (DiscMgrInit coap ble s))" by (simp add: s'_def)
qed

lemma clean_postD:
  assumes "clean_post w s P t"
  shows "disc_inv t" and "fixed s t" and "d_next t = d_next s" and "\<And>v. v \<noteq> w \<Longrightarrow> requests v t = requests v s"
    and "no_failures s \<Longrightarrow> requests w t = {x \<in> requests w s. \<not> P x}"
  using assms by (auto simp: clean_post_def)

text \<open>Both lists are cleaned, one after the other.\<close>

lemma both_cleaned:
  assumes "disc_inv s" and "g_isInited s" and "d_next s < 2 ^ 32"
  shows "returns (do { s \<leftarrow> DiscMgrInfoListDeinit Publications PUBLISH_SERVICE pkg s; DiscMgrInfoListDeinit Subscriptions SUBSCRIBE_SERVICE pkg s })
    (\<lambda>u. disc_inv u \<and> fixed s u \<and> d_next u = d_next s \<and>
      (no_failures s \<longrightarrow> depth u = depth s \<and> (\<forall>w. requests w u = {x \<in> requests w s. \<not> (pkg = None \<or> pkg = Some (fst x))})))"
  unfolding returns_bind
proof (rule returns_mono [OF DiscMgrInfoListDeinit_returns [OF assms, of Publications pkg, simplified]])
  fix t assume t: "clean_post Publications s (\<lambda>x. pkg = None \<or> pkg = Some (fst x)) t \<and> lock_left Publications s t"
  note c = clean_postD [OF conjunct1 [OF t]]
  have it: "g_isInited t" "d_next t < 2 ^ 32" using c(2,3) assms(2,3) by (simp_all add: fixed_def)
  show "returns (DiscMgrInfoListDeinit Subscriptions SUBSCRIBE_SERVICE pkg t) (\<lambda>u. disc_inv u \<and> fixed s u \<and> d_next u = d_next s \<and>
      (no_failures s \<longrightarrow> depth u = depth s \<and> (\<forall>w. requests w u = {x \<in> requests w s. \<not> (pkg = None \<or> pkg = Some (fst x))})))"
  proof (rule returns_mono [OF DiscMgrInfoListDeinit_returns [OF c(1) it, of Subscriptions pkg, simplified]])
    fix u assume u: "clean_post Subscriptions t (\<lambda>x. pkg = None \<or> pkg = Some (fst x)) u \<and> lock_left Subscriptions t u"
    note d = clean_postD [OF conjunct1 [OF u]]
    have fx: "fixed s u" by (rule fixed_trans [OF c(2) d(2)])
    have "depth u = depth s \<and> (\<forall>w. requests w u = {x \<in> requests w s. \<not> (pkg = None \<or> pkg = Some (fst x))})" if nf: "no_failures s"
    proof (intro conjI allI)
      have nft: "no_failures t" using nf no_failures_fixed [OF c(2)] by simp
      show "depth u = depth s" using t u nf nft by (auto simp: lock_left_def no_failures_def)
      fix w show "requests w u = {x \<in> requests w s. \<not> (pkg = None \<or> pkg = Some (fst x))}"
        using c(4) d(4) d(5) [OF nft] c(5) [OF nf] by (cases w) simp_all
    qed
    then show "disc_inv u \<and> fixed s u \<and> d_next u = d_next s \<and>
      (no_failures s \<longrightarrow> depth u = depth s \<and> (\<forall>w. requests w u = {x \<in> requests w s. \<not> (pkg = None \<or> pkg = Some (fst x))}))"
      using d(1,3) c(3) fx by simp
  qed
qed

lemma DiscMgrDeinit_kept:
  assumes "disc_inv s" and "d_next s < 2 ^ 32"
  shows "returns (DiscMgrDeinit s) (\<lambda>s'. disc_inv s' \<and> d_next s' = d_next s)"
proof (cases "g_isInited s")
  case True
  let ?stopped = "\<lambda>s. s\<lparr>g_publishInfoList := None, g_discoveryInfoList := None, g_discCoapInterface := None, g_discBleInterface := None, g_isInited := False\<rparr>"
  have eq: "DiscMgrDeinit s = Option.bind (do { s \<leftarrow> DiscMgrInfoListDeinit Publications PUBLISH_SERVICE None s;
      DiscMgrInfoListDeinit Subscriptions SUBSCRIBE_SERVICE None s }) (\<lambda>s. Some (?stopped s))"
    using True by (simp add: DiscMgrDeinit_def)
  have "disc_inv (?stopped u)" if "disc_inv u" for u using that by (simp add: disc_inv_def)
  then have "returns (do { s \<leftarrow> DiscMgrInfoListDeinit Publications PUBLISH_SERVICE None s;
      DiscMgrInfoListDeinit Subscriptions SUBSCRIBE_SERVICE None s }) (\<lambda>u. disc_inv (?stopped u) \<and> d_next (?stopped u) = d_next s)"
    using returns_mono [OF both_cleaned [OF assms(1) True assms(2), of None]] by fastforce
  then show ?thesis unfolding eq by simp
qed (use assms(1) in \<open>simp add: DiscMgrDeinit_def\<close>)

lemma DiscMgrDeathCallback_kept:
  assumes "disc_inv s" and "d_next s < 2 ^ 32"
  shows "returns (DiscMgrDeathCallback pkg s) (\<lambda>s'. disc_inv s' \<and> d_next s' = d_next s)"
proof (cases "pkg = None \<or> \<not> g_isInited s")
  case False
  then show ?thesis
    using returns_mono [OF both_cleaned [OF assms(1) _ assms(2), of pkg], of "\<lambda>s'. disc_inv s' \<and> d_next s' = d_next s"]
    by (auto simp: DiscMgrDeathCallback_def)
qed (use assms(1) in \<open>simp add: DiscMgrDeathCallback_def\<close>)

text \<open>The operations that neither start nor end the manager nor clean up after a package.\<close>

fun request_op :: "disc_op \<Rightarrow> bool" where
  "request_op (OpInit _ _) = False"
| "request_op OpDeinit = False"
| "request_op (OpDeath _) = False"
| "request_op _ = True"

lemma publish_okD: "publish_ok info \<Longrightarrow> \<forall>i. info = Some i \<longrightarrow> data_ok (pi_capabilityData i) (pi_dataLen i)"
  by auto

lemma subscribe_okD: "subscribe_ok info \<Longrightarrow> \<forall>i. info = Some i \<longrightarrow> data_ok (si_capabilityData i) (si_dataLen i)"
  by auto

lemma request_op_kept:
  assumes "disc_inv s" and "d_next s < 2 ^ 32" and "op_ok x s" and "request_op x"
  shows "returns (do_op x s) (op_kept s)"
proof (cases x)
  case (OpDeviceFound device additions)
  then have "g_isInited s" using assms(3) by simp
  then have "returns (DiscOnDeviceFound device additions s) (\<lambda>t. alike s t \<and> fixed s t \<and> depth t = depth s \<and>
      ((\<forall>n. d_lock_ok s n) \<longrightarrow> d_events t = d_events s @ found_events s device additions [0..<CAPABILITY_MAX_BITNUM]))"
    unfolding DiscOnDeviceFound_def by (rule found_loop_returns [OF assms(1)]) simp
  then show ?thesis using OpDeviceFound returns_mono op_safe_kept alike_safe [OF assms(1)] by (auto elim!: returns_mono)
next
  case (OpSetCallback m cb)
  have "\<forall>f. cb \<noteq> Some (ServerCb f)" using assms(3) OpSetCallback by (auto split: option.splits InnerCallback.splits)
  then show ?thesis using OpSetCallback after_kept [OF DiscSetDiscoverCallback_safe [OF assms(1)]] by simp
next
  case (OpLinkStatus a b)
  then show ?thesis using assms(1) same_safe op_safe_kept by (simp add: DiscLinkStatusChanged_def)
next
  case (OpInfoChanged a)
  then show ?thesis using assms(1) same_safe op_safe_kept by (simp add: DiscDeviceInfoChanged_def DiscUpdateLocalDeviceInfo_def split: option.split)
qed (use assms after_kept [OF module_publish_safe [OF assms(1) publish_okD]] after_kept [OF module_subscribe_safe [OF assms(1) subscribe_okD]]
      after_kept [OF module_withdrawn_safe(1) [OF assms(1,2)]] after_kept [OF module_withdrawn_safe(2) [OF assms(1,2)]]
      publish_service_kept [OF assms(1)] start_discovery_kept [OF assms(1)] unpublish_kept [OF assms(1,2)] ipc_kept [OF assms(1)] in
     \<open>auto simp: DiscPublish_def DiscStartScan_def DiscStartAdvertise_def DiscSubscribe_def DiscIpcUnPublishService_def DiscIpcStopDiscovery_def\<close>)

lemma op_returns:
  assumes "disc_inv s" and "d_next s < 2 ^ 32" and "op_ok x s"
  shows "returns (do_op x s) (\<lambda>s'. disc_inv s' \<and> d_next s' \<le> d_next s + 2)"
proof (cases "request_op x")
  case True
  show ?thesis by (rule returns_mono [OF request_op_kept [OF assms True]]) (simp add: op_kept_def)
next
  case False
  then show ?thesis
    using DiscMgrInit_kept [OF assms(1)] returns_mono [OF DiscMgrDeinit_kept [OF assms(1,2)], of "\<lambda>s'. disc_inv s' \<and> d_next s' \<le> d_next s + 2"]
      returns_mono [OF DiscMgrDeathCallback_kept [OF assms(1,2)], of "\<lambda>s'. disc_inv s' \<and> d_next s' \<le> d_next s + 2"]
    by (cases x) simp_all
qed

lemma run_returns:
  assumes "disc_inv s" and "d_next s + 2 * length ops < 2 ^ 32" and "run_ok ops s"
  shows "returns (run ops s) disc_inv"
  using assms
proof (induction ops arbitrary: s)
  case (Cons x xs)
  have ok: "op_ok x s" using Cons.prems(3) by simp
  have b: "d_next s < 2 ^ 32" using Cons.prems(2) by linarith
  obtain t where t: "do_op x s = Some t" "disc_inv t" "d_next t \<le> d_next s + 2"
    using op_returns [OF Cons.prems(1) b ok] unfolding returns_def by blast
  have "d_next t + 2 * length xs \<le> d_next s + 2 * length (x # xs)" using t(3) by simp
  then have "d_next t + 2 * length xs < 2 ^ 32" using Cons.prems(2) by (rule le_less_trans)
  moreover have "run_ok xs t" using Cons.prems(3) t(1) by simp
  ultimately show ?case using Cons.IH [OF t(2)] t(1) by simp
qed simp

section \<open>Properties\<close>

text \<open>
  C3: whatever locks, allocations and media do, a sequence of operations of the discovery manager one after the other, whose callers
  keep to their obligations (\<^const>\<open>op_ok\<close>: data within its buffer, server callbacks from packages and module callbacks from modules,
  names that are no module's and have \<open>PKG_NAME_SIZE_MAX\<close> readable bytes, devices found only while the manager is up), always has a
  defined result: no step follows a pointer to a released item or node or reads a missing list. In the result each package has one
  item in each list, each request is on the list of exactly one item and, for a subscription, on the list of exactly its capability.
\<close>

theorem discovery_always_defined:
  assumes "disc_inv s" and "d_next s + 2 * length ops < 2 ^ 32" and "run_ok ops s"
  shows "\<exists>s'. run ops s = Some s' \<and> disc_inv s'"
  using run_returns [OF assms] unfolding returns_def .

definition coap_and_ble :: DiscoveryFuncInterface where
  "coap_and_ble = \<lparr>hasUpdateLocalDeviceInfo = True\<rparr>"

definition disc0 :: disc where
  "disc0 = \<lparr>g_isInited = False, g_publishInfoList = None, g_discoveryInfoList = None, g_discCoapInterface = None, g_discBleInterface = None,
     g_capabilityList = [], g_isCallLnn = True, d_items = (\<lambda>_. None), d_infos = (\<lambda>_. None), d_next = 0, d_tick = 0,
     d_lock_ok = (\<lambda>_. True), d_calloc_ok = (\<lambda>_. True), d_medium_ret = (\<lambda>_. 0), d_name_room = (\<lambda>_. 128), d_events = []\<rparr>"

definition info1 :: SubscribeInfo where
  "info1 = \<lparr>subscribeId = 7, si_mode = DISCOVER_MODE_ACTIVE, si_medium = MEDIUM_COAP, si_freq = FREQ_LOW, si_isSameAccount = False,
     si_isWakeRemote = False, si_capability = ''dvKit'', si_capabilityData = Some [65, 0], si_dataLen = 2\<rparr>"

definition device1 :: DeviceInfo where
  "device1 = \<lparr>devId = ''remote'', capabilityBitmap = [32]\<rparr>"

definition ops1 :: "disc_op list" where
  "ops1 = [OpInit (Some coap_and_ble) None, OpStartDiscovery (Some ''pkg'') (Some info1) (Some (ServerCb 0)),
     OpSubscribe 1 (Some (info1\<lparr>si_mode := DISCOVER_MODE_PASSIVE\<rparr>)), OpDeviceFound device1 0, OpDeath (Some ''pkg''), OpDeinit]"

lemma disc0_inv: "disc_inv disc0"
  by (simp add: disc_inv_def disc0_def)

lemma ops1_ok: "run_ok ops1 disc0"
  by code_simp

theorem discovery_always_defined_witness: "\<exists>s'. run ops1 disc0 = Some s' \<and> disc_inv s'"
  by (rule discovery_always_defined [OF disc0_inv _ ops1_ok]) (simp add: disc0_def ops1_def)

text \<open>A state with two subscriptions to one capability.\<close>

definition disc2 :: disc where
  "disc2 = the (run (take 3 ops1) disc0)"

lemma disc2_ok: "disc_inv disc2" "g_isInited disc2" "no_failures disc2" "d_next disc2 < 2 ^ 32"
proof -
  have "run_ok (take 3 ops1) disc0" by code_simp
  moreover have "d_next disc0 + 2 * length (take 3 ops1) < 2 ^ 32" by (simp add: disc0_def ops1_def)
  ultimately have "returns (run (take 3 ops1) disc0) disc_inv" by (intro run_returns [OF disc0_inv])
  then show "disc_inv disc2" by (auto simp: disc2_def returns_def)
  show "g_isInited disc2" by code_simp
  have "d_next disc2 = 4" by code_simp
  then show "d_next disc2 < 2 ^ 32" by simp
  have "d_lock_ok disc2 n" "d_calloc_ok disc2 n" for n by code_simp+
  then show "no_failures disc2" by (simp add: no_failures_def)
qed

text \<open>
  C9: every request, withdrawal, callback and notification whose caller keeps to its obligations gives back the locks it took, on
  every path, so that the depth of both locks is the same before and after.
\<close>

theorem discovery_locks_balanced:
  assumes "disc_inv s" and "d_next s < 2 ^ 32" and "op_ok x s" and "request_op x"
  shows "\<exists>s'. do_op x s = Some s' \<and> depth s' = depth s"
  using request_op_kept [OF assms] unfolding returns_def op_kept_def by blast

theorem discovery_locks_balanced_witness: "\<exists>s'. do_op (OpDeviceFound device1 0) disc2 = Some s' \<and> depth s' = depth disc2"
  by (rule discovery_locks_balanced [OF disc2_ok(1,4)]) (simp_all add: disc2_ok)

text \<open>
  C5: when data, name and callback are as the callers owe them, \<^verbatim>\<open>DiscStartDiscovery\<close> returns. If it answers with success, the package had no
  subscription with that id, and the set of subscriptions has this one more. If it answers with an error, the set of subscriptions is the
  same as before; an item without requests may have been added, or the callback of the package replaced. If moreover all locks,
  allocations and media work and the arguments are valid (\<^const>\<open>usable\<close>: the manager is up, the name is short enough, the parameters
  pass their check and the capability is known), an error means that the package has a subscription with that id, and the answer says
  so. The set of publications is the same in all cases.
\<close>

theorem start_discovery_effect:
  assumes "disc_inv s" and "data_ok (si_capabilityData info) (si_dataLen info)" and "pkg \<notin> set g_discModuleMap"
    and "PKG_NAME_SIZE_MAX \<le> d_name_room s (d_tick s)"
  shows "\<exists>r s'. DiscStartDiscovery (Some pkg) (Some info) (Some (ServerCb f)) s = Some (r, s') \<and> disc_inv s' \<and>
    requests Publications s' = requests Publications s \<and>
    (if r = SOFTBUS_OK
     then (\<forall>x. (pkg, x) \<in> requests Subscriptions s \<longrightarrow> di_id x \<noteq> subscribeId info) \<and>
       requests Subscriptions s' = insert (pkg, subscription info) (requests Subscriptions s)
     else requests Subscriptions s' = requests Subscriptions s \<and>
       (no_failures s \<and> medium_works s (subscription info) \<and> usable s pkg (si_capability info) (SubscribeInfoCheck info) \<longrightarrow>
          r = SOFTBUS_DISCOVER_MANAGER_DUPLICATE_PARAM \<and> (\<exists>x. (pkg, x) \<in> requests Subscriptions s \<and> di_id x = subscribeId info)))"
proof -
  have i: "di_id (subscription info) = subscribeId info" by (simp add: subscription_def)
  obtain r s' where e: "DiscStartDiscovery (Some pkg) (Some info) (Some (ServerCb f)) s = Some (r, s')" "step_post Subscriptions s s'"
      "request_post Subscriptions pkg (subscription info) (usable s pkg (si_capability info) (SubscribeInfoCheck info)) s r s'"
    using DiscStartDiscovery_returns [OF assms, of f] unfolding returns_def by auto
  show ?thesis
    by (rule exI [of _ r], rule exI [of _ s']) (use e i in \<open>auto simp: request_post_def step_post_def duplicate_def split: if_splits\<close>)
qed

theorem start_discovery_effect_witness:
  "\<exists>r s'. DiscStartDiscovery (Some ''pkg'') (Some (info1\<lparr>subscribeId := 8\<rparr>)) (Some (ServerCb 0)) disc2 = Some (r, s') \<and> r = SOFTBUS_OK \<and>
    requests Subscriptions s' = insert (''pkg'', subscription (info1\<lparr>subscribeId := 8\<rparr>)) (requests Subscriptions disc2)"
proof -
  have d: "data_ok (si_capabilityData (info1\<lparr>subscribeId := 8\<rparr>)) (si_dataLen (info1\<lparr>subscribeId := 8\<rparr>))" by (simp add: info1_def data_ok_def)
  have p: "''pkg'' \<notin> set g_discModuleMap" by (simp add: g_discModuleMap_def)
  have m: "PKG_NAME_SIZE_MAX \<le> d_name_room disc2 (d_tick disc2)" by code_simp
  have r: "map_option fst (DiscStartDiscovery (Some ''pkg'') (Some (info1\<lparr>subscribeId := 8\<rparr>)) (Some (ServerCb 0)) disc2) = Some SOFTBUS_OK" by code_simp
  show ?thesis using start_discovery_effect [OF disc2_ok(1) d p m, of 0] r by auto
qed

text \<open>
  \<^verbatim>\<open>DiscPublishService\<close> does for publications what \<^verbatim>\<open>DiscStartDiscovery\<close> does for subscriptions.
\<close>

theorem publish_effect:
  assumes "disc_inv s" and "data_ok (pi_capabilityData info) (pi_dataLen info)" and "PKG_NAME_SIZE_MAX \<le> d_name_room s (d_tick s)"
  shows "\<exists>r s'. DiscPublishService (Some pkg) (Some info) s = Some (r, s') \<and> disc_inv s' \<and>
    requests Subscriptions s' = requests Subscriptions s \<and>
    (if r = SOFTBUS_OK
     then (\<forall>x. (pkg, x) \<in> requests Publications s \<longrightarrow> di_id x \<noteq> publishId info) \<and>
       requests Publications s' = insert (pkg, publication info) (requests Publications s)
     else requests Publications s' = requests Publications s \<and>
       (no_failures s \<and> medium_works s (publication info) \<and> usable s pkg (pi_capability info) (PublishInfoCheck info) \<longrightarrow>
          r = SOFTBUS_DISCOVER_MANAGER_DUPLICATE_PARAM \<and> (\<exists>x. (pkg, x) \<in> requests Publications s \<and> di_id x = publishId info)))"
proof -
  have i: "di_id (publication info) = publishId info" by (simp add: publication_def)
  obtain r s' where e: "DiscPublishService (Some pkg) (Some info) s = Some (r, s')" "step_post Publications s s'"
      "request_post Publications pkg (publication info) (usable s pkg (pi_capability info) (PublishInfoCheck info)) s r s'"
    using DiscPublishService_returns [OF assms, of pkg] unfolding returns_def by auto
  show ?thesis
    by (rule exI [of _ r], rule exI [of _ s']) (use e i in \<open>auto simp: request_post_def step_post_def duplicate_def split: if_splits\<close>)
qed

definition pinfo1 :: PublishInfo where
  "pinfo1 = \<lparr>publishId = 3, pi_mode = DISCOVER_MODE_ACTIVE, pi_medium = MEDIUM_COAP, pi_freq = FREQ_LOW, pi_capability = ''dvKit'',
     pi_capabilityData = None, pi_dataLen = 0, pi_ranging = False\<rparr>"

theorem publish_effect_witness:
  "\<exists>r s'. DiscPublishService (Some ''pkg'') (Some pinfo1) disc2 = Some (r, s') \<and> r = SOFTBUS_OK \<and>
    requests Publications s' = insert (''pkg'', publication pinfo1) (requests Publications disc2)"
proof -
  have d: "data_ok (pi_capabilityData pinfo1) (pi_dataLen pinfo1)" by (simp add: pinfo1_def data_ok_def)
  have m: "PKG_NAME_SIZE_MAX \<le> d_name_room disc2 (d_tick disc2)" by code_simp
  have r: "map_option fst (DiscPublishService (Some ''pkg'') (Some pinfo1) disc2) = Some SOFTBUS_OK" by code_simp
  show ?thesis using publish_effect [OF disc2_ok(1) d m, of "''pkg''"] r by auto
qed

text \<open>
  C8: \<^verbatim>\<open>DiscStopDiscovery\<close> and \<^verbatim>\<open>DiscUnPublishService\<close> remove the request of the package with that id and no other. If there is none, or the lock
  fails, they report an error and keep all requests; when the medium refuses, the request is gone nevertheless.
\<close>

theorem withdrawal_effect:
  assumes "disc_inv s" and "d_next s < 2 ^ 32" and "g_isInited s" and "length pkg < PKG_NAME_SIZE_MAX"
  shows "\<exists>r s'. withdraw_request w (Some pkg) n s = Some (r, s') \<and> disc_inv s' \<and>
    (\<forall>v. v \<noteq> w \<longrightarrow> requests v s' = requests v s) \<and>
    (if d_lock_ok s (d_tick s) \<and> (\<exists>x. (pkg, x) \<in> requests w s \<and> di_id x = n)
     then requests w s' = {x \<in> requests w s. \<not> (fst x = pkg \<and> di_id (snd x) = n)}
     else r \<noteq> SOFTBUS_OK \<and> requests w s' = requests w s)"
proof -
  obtain r s' where e: "withdraw_request w (Some pkg) n s = Some (r, s')" "step_post w s s'" "end_post w pkg n s r s'"
    using withdraw_request_returns [OF assms(1,2), of w pkg n] unfolding returns_def by auto
  show ?thesis
    by (rule exI [of _ r], rule exI [of _ s']) (use e assms(3,4) in \<open>simp add: end_post_def step_post_def duplicate_def split: if_splits\<close>)
qed

theorem withdrawal_effect_witness:
  "\<exists>r s'. withdraw_request Subscriptions (Some ''pkg'') 7 disc2 = Some (r, s') \<and> disc_inv s' \<and>
    requests Subscriptions s' = {x \<in> requests Subscriptions disc2. \<not> (fst x = ''pkg'' \<and> di_id (snd x) = 7)}"
proof -
  have r: "map_option fst (withdraw_request Subscriptions (Some ''pkg'') 7 disc2) = Some SOFTBUS_OK" by code_simp
  have "length ''pkg'' < PKG_NAME_SIZE_MAX" by simp
  from withdrawal_effect [OF disc2_ok(1,4,2) this, of Subscriptions 7] r show ?thesis by (auto split: if_splits)
qed












text \<open>
  C7: when a package dies, \<^verbatim>\<open>DiscMgrDeathCallback\<close> withdraws all its requests, whatever the media answer, and no request of
  another package, and gives back both locks, if no lock and no allocation fails.
\<close>

theorem death_cleans_up:
  assumes "disc_inv s" and "g_isInited s" and "d_next s < 2 ^ 32" and "no_failures s"
  shows "\<exists>t. DiscMgrDeathCallback (Some pkg) s = Some t \<and> disc_inv t \<and> depth t = depth s \<and>
    (\<forall>w. requests w t = {x \<in> requests w s. fst x \<noteq> pkg})"
proof -
  have "returns (DiscMgrDeathCallback (Some pkg) s) (\<lambda>u. disc_inv u \<and> fixed s u \<and> d_next u = d_next s \<and>
      (no_failures s \<longrightarrow> depth u = depth s \<and> (\<forall>w. requests w u = {x \<in> requests w s. \<not> (Some pkg = None \<or> Some pkg = Some (fst x))})))"
    using both_cleaned [OF assms(1-3), of "Some pkg"] assms(2) by (simp add: DiscMgrDeathCallback_def)
  then show ?thesis using assms(4) unfolding returns_def by (auto simp: eq_commute)
qed

theorem death_cleans_up_witness:
  "\<exists>t. DiscMgrDeathCallback (Some ''pkg'') disc2 = Some t \<and> disc_inv t \<and> requests Subscriptions t = {x \<in> requests Subscriptions disc2. fst x \<noteq> ''pkg''}"
  using death_cleans_up [OF disc2_ok(1,2,4,3), of "''pkg''"] by blast

text \<open>
  C29: when the first container of the cleanup cannot be allocated, \<^verbatim>\<open>DiscMgrInfoListDeinit\<close> returns with the lock of the list held and
  all requests of the dead package kept.
\<close>

theorem cleanup_keeps_lock:
  assumes "disc_inv s" and "g_isInited s" and "d_lock_ok s (d_tick s)" and "\<not> d_calloc_ok s (d_tick s + 1)"
  shows "\<exists>t. DiscMgrInfoListDeinit w type pkg s = Some t \<and> depth t w = depth s w + 1 \<and> requests w t = requests w s"
proof -
  obtain l where l: "service_list w s = Some l" "lists s w = l\<lparr>sl_depth := 0\<rparr>" "depth s w = sl_depth l" by (rule inited_list [OF assms(1,2)])
  define t where "t = set_service_list w (l\<lparr>sl_depth := sl_depth l + 1\<rparr>) (s\<lparr>d_tick := d_tick s + 2\<rparr>)"
  have tick: "(set_service_list w x (s\<lparr>d_tick := d_tick s + 1\<rparr>))\<lparr>d_tick := d_tick s + 2\<rparr> = set_service_list w x (s\<lparr>d_tick := d_tick s + 2\<rparr>)" for x
    by (cases w) simp_all
  have "DiscMgrInfoListDeinit w type pkg s = Some t"
    using l(1) assms(3,4) tick by (simp add: DiscMgrInfoListDeinit_def SoftBusMutexLock_def CreateIdContainer_def calloc_def t_def Let_def)
  moreover have "alike s t" using l(1,2) by (auto simp: t_def alike_def fun_eq_iff)
  ultimately show ?thesis using l(3) alike_requests by (auto simp: t_def)
qed

theorem cleanup_keeps_lock_witness:
  "\<exists>t. DiscMgrInfoListDeinit Subscriptions SUBSCRIBE_SERVICE (Some ''pkg'') (disc2\<lparr>d_calloc_ok := (\<lambda>_. False)\<rparr>) = Some t \<and> depth t Subscriptions = 1"
proof -
  have "service_list w (disc2\<lparr>d_calloc_ok := (\<lambda>_. False)\<rparr>) = service_list w disc2" for w by (cases w) simp_all
  then have "alike disc2 (disc2\<lparr>d_calloc_ok := (\<lambda>_. False)\<rparr>)" by (simp add: alike_def lists_def fun_eq_iff)
  then have i: "disc_inv (disc2\<lparr>d_calloc_ok := (\<lambda>_. False)\<rparr>)" using alike_inv disc2_ok(1) by blast
  have d: "depth (disc2\<lparr>d_calloc_ok := (\<lambda>_. False)\<rparr>) Subscriptions = 0" by code_simp
  show ?thesis
    using cleanup_keeps_lock [OF i, of Subscriptions SUBSCRIBE_SERVICE "Some ''pkg''"] disc2_ok(2,3) d by (simp add: no_failures_def) blast
qed

text \<open>A withdrawal that succeeds releases the node of the request.\<close>

lemma stop_releases_node:
  assumes "disc_inv s" and "g_isInited s" and "d_next s < 2 ^ 32" and "linked_in Subscriptions s pkg i nd"
    and "DiscStopDiscovery (Some pkg) (di_id nd) s = Some (SOFTBUS_OK, s')"
  shows "d_infos s' i = None"
proof -
  have stop: "InnerStopDiscovery pkg (di_id nd) SUBSCRIBE_SERVICE s = Some (SOFTBUS_OK, s')"
    using assms(5) by (auto simp: DiscStopDiscovery_def split: if_splits)
  have type: "is_subscribe SUBSCRIBE_SERVICE \<longleftrightarrow> Subscriptions = Subscriptions" by (simp add: is_subscribe_def)
  obtain r t where r: "DeleteInfoFromList Subscriptions pkg (di_id nd) SUBSCRIBE_SERVICE s = Some (r, t)" "d_infos t = d_infos s"
      "delete_post Subscriptions pkg (di_id nd) s r t"
    using DeleteInfoFromList_returns [OF assms(1,2) type assms(3), of pkg "di_id nd"] unfolding returns_def by auto
  have rel: "release_medium STOPDISCOVERY_FUNC r t = Some (SOFTBUS_OK, s')" using stop r(1) by (simp add: InnerStopDiscovery_def)
  then obtain j where j: "r = Some j" by (cases r) (simp_all add: release_medium_def)
  obtain md where md: "d_infos s j = Some md" "di_id md = di_id nd" "(pkg, j) \<in> owned (sl_list (lists s Subscriptions)) (d_items s)"
    using r(3) j unfolding delete_post_def by auto
  obtain a where i: "(pkg, i) \<in> owned (sl_list (lists s Subscriptions)) (d_items s)" "d_infos s i = Some (nd\<lparr>di_item := Some a\<rparr>)"
    using assms(4) ownedI unfolding linked_in_def by blast
  have "j = i" by (rule owned_unique [OF assms(1,2) md(3) i(1)]) (simp add: md i(2))
  obtain ret u where u: "DiscInterfaceByMedium md STOPDISCOVERY_FUNC t = (ret, u)" by fastforce
  have "ReleaseInfoNodeMem j u = Some s'"
    using rel j md(1) r(2) u by (auto simp: release_medium_def split: if_splits Option.bind_splits)
  then show ?thesis using \<open>j = i\<close> by (auto simp: ReleaseInfoNodeMem_def split: Option.bind_splits)
qed

text \<open>
  C30: the node of a new subscription is on the lists while its medium is asked, and the lists are not locked meanwhile. If the package
  stops that subscription before the thread that started it has looked at the answer of the medium, and the answer is a refusal, then
  the node is released when that thread takes it off the lists, which without the stop it could: whatever other requests there are, it
  follows a pointer to released memory.
\<close>

theorem start_stop_race:
  assumes "disc_inv s0" and "g_isInited s0" and "d_next s0 + 2 < 2 ^ 32"
    and "SubscribeInfoCheck info = Some SOFTBUS_OK" and "data_ok (si_capabilityData info) (si_dataLen info)"
    and "pkg \<notin> set g_discModuleMap" and "length pkg < PKG_NAME_SIZE_MAX" and "PKG_NAME_SIZE_MAX \<le> room"
    and "CreateNewSubscribeInfoNode info s0 = Some (Some i, s1)"
    and "AddInfoToList Subscriptions room pkg (Some (ServerCb f)) i SUBSCRIBE_SERVICE s1 = Some (SOFTBUS_OK, s2)"
    and "DiscInterfaceByMedium (the (d_infos s2 i)) STARTDISCOVERTY_FUNC s2 = (ret, s3)" and "ret \<noteq> SOFTBUS_OK"
    and "DiscStopDiscovery (Some pkg) (subscribeId info) s3 = Some (SOFTBUS_OK, s4)"
  shows "unlink_info i SUBSCRIBE_SERVICE s3 \<noteq> None \<and> d_infos s4 i = None \<and> unlink_info i SUBSCRIBE_SERVICE s4 = None"
proof -
  have n: "node_post s0 (subscription info) (Some i) s1" "0 \<le> CapabilityStringToBimap (si_capability info)"
    using CreateNewSubscribeInfoNode_returns [OF assms(1,2,4,5)] assms(9) by simp_all
  then have s1: "disc_inv s1" "g_isInited s1" "d_next s1 \<le> d_next s0 + 1" "unlinked (lists s1) (d_items s1) i" "d_infos s1 i = Some (subscription info)"
    using assms(2) by (simp_all add: node_post_def fixed_def)
  obtain k where k: "k < CAPABILITY_MAX_BITNUM" "BitmapSet 0 (of_int (CapabilityStringToBimap (si_capability info))) = push_bit k 1"
    by (rule capability_range [OF n(2)])
  have opt: "option_ok Subscriptions (di_option (subscription info))" using k by (auto simp: subscription_def)
  have fits: "callback_fits Subscriptions pkg SUBSCRIBE_SERVICE (Some (ServerCb f))" using assms(6) by simp
  have "op_post Subscriptions s1 s2 \<and> add_post Subscriptions pkg i (subscription info) s1 SOFTBUS_OK s2"
    using AddInfoToList_returns [OF s1(1,2) fits conjI [OF assms(7,8)] s1(5,4) opt] assms(10) by simp
  then have s2: "disc_inv s2" "g_isInited s2" "d_next s2 \<le> d_next s1 + 1" "linked_in Subscriptions s2 pkg i (subscription info)"
    using s1(2) by (simp_all add: op_post_def fixed_def add_post_def)
  note m = medium_alike [OF assms(11)]
  have s3: "disc_inv s3" "g_isInited s3" "linked_in Subscriptions s3 pkg i (subscription info)" "d_next s3 = d_next s2"
    using alike_inv [OF m(1)] linked_alike [OF m(1)] s2 m(1) by (simp_all add: alike_def)
  have b: "d_next s3 < 2 ^ 32" using s3(4) s2(3) s1(3) assms(3) by linarith
  have type: "is_subscribe SUBSCRIBE_SERVICE \<longleftrightarrow> Subscriptions = Subscriptions" by (simp add: is_subscribe_def)
  have "returns (unlink_info i SUBSCRIBE_SERVICE s3) (\<lambda>_. True)" by (rule unlink_info_returns [OF s3(1-3) type]) simp
  then have "unlink_info i SUBSCRIBE_SERVICE s3 \<noteq> None" by (auto simp: returns_def)
  moreover have "d_infos s4 i = None" by (rule stop_releases_node [OF s3(1,2) b s3(3)]) (use assms(13) in \<open>simp add: subscription_def\<close>)
  moreover from this have "unlink_info i SUBSCRIBE_SERVICE s4 = None" by (simp add: unlink_info_def)
  ultimately show ?thesis by blast
qed

text \<open>Two requests are there already; the medium refuses the next one and nothing after it.\<close>

definition info2 :: SubscribeInfo where
  "info2 = info1\<lparr>subscribeId := 8\<rparr>"

definition racing0 :: disc where
  "racing0 = disc2\<lparr>d_medium_ret := (\<lambda>n. if n = 16 then SOFTBUS_ERR else SOFTBUS_OK)\<rparr>"

definition racing1 :: disc where
  "racing1 = snd (the (CreateNewSubscribeInfoNode info2 racing0))"

definition racing2 :: disc where
  "racing2 = snd (the (AddInfoToList Subscriptions 128 ''pkg'' (Some (ServerCb 0)) 4 SUBSCRIBE_SERVICE racing1))"

definition racing3 :: disc where
  "racing3 = snd (DiscInterfaceByMedium (the (d_infos racing2 4)) STARTDISCOVERTY_FUNC racing2)"

definition racing4 :: disc where
  "racing4 = snd (the (DiscStopDiscovery (Some ''pkg'') 8 racing3))"

lemma answered: "map_option fst x = Some r \<Longrightarrow> x = Some (r, snd (the x))"
  by (cases x) auto

lemma racing0_ok: "disc_inv racing0" "g_isInited racing0" "d_next racing0 + 2 < 2 ^ 32"
proof -
  have "service_list w racing0 = service_list w disc2" for w by (cases w) (simp_all add: racing0_def)
  then have "alike disc2 racing0" by (simp add: racing0_def alike_def lists_def fun_eq_iff)
  then show "disc_inv racing0" using alike_inv disc2_ok(1) by blast
  show "g_isInited racing0" by (simp add: racing0_def disc2_ok)
  have "d_next racing0 = 4" by code_simp
  then show "d_next racing0 + 2 < 2 ^ 32" by simp
qed

theorem start_stop_race_witness:
  "map_option fst (DiscStopDiscovery (Some ''pkg'') 8 racing3) = Some SOFTBUS_OK \<and> unlink_info 4 SUBSCRIBE_SERVICE racing3 \<noteq> None \<and>
    unlink_info 4 SUBSCRIBE_SERVICE racing4 = None"
proof -
  have "map_option fst (CreateNewSubscribeInfoNode info2 racing0) = Some (Some 4)" by code_simp
  then have c: "CreateNewSubscribeInfoNode info2 racing0 = Some (Some 4, racing1)" unfolding racing1_def by (rule answered)
  have "map_option fst (AddInfoToList Subscriptions 128 ''pkg'' (Some (ServerCb 0)) 4 SUBSCRIBE_SERVICE racing1) = Some SOFTBUS_OK" by code_simp
  then have a: "AddInfoToList Subscriptions 128 ''pkg'' (Some (ServerCb 0)) 4 SUBSCRIBE_SERVICE racing1 = Some (SOFTBUS_OK, racing2)"
    unfolding racing2_def by (rule answered)
  have "fst (DiscInterfaceByMedium (the (d_infos racing2 4)) STARTDISCOVERTY_FUNC racing2) = SOFTBUS_ERR" by code_simp
  then have m: "DiscInterfaceByMedium (the (d_infos racing2 4)) STARTDISCOVERTY_FUNC racing2 = (SOFTBUS_ERR, racing3)"
    unfolding racing3_def by (simp add: prod_eq_iff)
  have r: "map_option fst (DiscStopDiscovery (Some ''pkg'') 8 racing3) = Some SOFTBUS_OK" by code_simp
  then have d: "DiscStopDiscovery (Some ''pkg'') 8 racing3 = Some (SOFTBUS_OK, racing4)" unfolding racing4_def by (rule answered)
  have i: "SubscribeInfoCheck info2 = Some SOFTBUS_OK" "subscribeId info2 = 8" by code_simp+
  have k: "data_ok (si_capabilityData info2) (si_dataLen info2)" by (simp add: info2_def info1_def data_ok_def)
  show ?thesis
    using start_stop_race [OF racing0_ok i(1) k _ _ _ c a m] d r i(2) by (simp add: g_discModuleMap_def)
qed
end
