(* ===== verification/Spec2Isabelle.thy ===== *)
theory Spec2Isabelle
  imports Softbus_Prelude Softbus_Queue Sequence_Verification Softbus_Bitmap Softbus_Utils Common_List Message_Handler Byte_Order Br_Trans Ble_Trans Send_Queue Br_Queue Ble_Queue Lnn_Map Adapter_Crypto Auth_Session_Key P2p_Channel_Freq Fillp_Sha256 Fillp_Hmac Fillp_Cookie Fillp_Ring Disc_Properties
begin

text \<open>
  A verification development for the distributed soft bus (DSoftBus). The soft bus lets the devices
  of one user find each other, authenticate, connect over Bluetooth, BLE, Wi-Fi Direct and TCP, and exchange messages, files and
  streams. The program is written in C; paths below are relative to \<^verbatim>\<open>src/\<close>.

  \<^bold>\<open>The parts and how they interact.\<close> Clients (\<^verbatim>\<open>sdk\<close>) call the server (\<^verbatim>\<open>core/frame\<close>) through the system's inter-process calls. The
  server's discovery manager (\<^verbatim>\<open>core/discovery\<close>) drives the media that find devices; authentication
  (\<^verbatim>\<open>core/authentication\<close>) derives session keys with a found device; the connection manager (\<^verbatim>\<open>core/connection\<close>) moves
  packets over one of the transports; transmission (\<^verbatim>\<open>core/transmission\<close>) multiplexes sessions over them; the bus centre
  (\<^verbatim>\<open>core/bus_center\<close>) keeps the ledger of the network. All of them rest on the library in \<^verbatim>\<open>core/common\<close>, on the adapters
  to the platform (\<^verbatim>\<open>adapter\<close>), and, for files and streams, on the reliable transport FILLP (\<^verbatim>\<open>components/nstackx/fillp\<close>).

  \<^bold>\<open>Conventions.\<close> Theory \<open>Softbus_Prelude\<close> states them: a pointer is an option, a changed object is a result, an
  access outside an array, a dangling pointer, an undefined shift or an endless wait is the value \<^const>\<open>None\<close>, and the
  decisions of the system (locks, allocations, time, random numbers) are arguments. Machine integers are words of their
  width, so that wrap-around is what C does. Logging is left out.

  \<^bold>\<open>The common library.\<close>
  \<^item> \<open>Softbus_Queue\<close> (\<^verbatim>\<open>core/common/queue\<close>, \<^verbatim>\<open>softbus_queue.h\<close>): the ring queue; it is a bounded FIFO list for every value of its free-running
    32-bit counters. The locale \<open>bounded_fifo\<close> is its contract, which the send queues use.
  \<^item> \<open>Common_List\<close> (\<^verbatim>\<open>common_list.h\<close>): the intrusive list on a store of pointers; every operation is the operation on
    sequences, and the loops over a list return (locale \<open>node_sequence\<close>).
  \<^item> \<open>Message_Handler\<close> (\<^verbatim>\<open>core/common/message_handler\<close>): the looper on that list, with times of 64 bits; messages are delivered in the order in which
    they are due, no sequence of operations corrupts the list, and every operation returns (locale \<open>timed_queue\<close>).
  \<^item> \<open>Sequence_Verification\<close>: the replay window is the window of offsets of its reference definition; replays are refused and numbers in order
    are accepted.
  \<^item> \<open>Softbus_Bitmap\<close> and \<open>Softbus_Utils\<close>: bitmaps as sets of positions (locale \<open>pos_store\<close>), conversions and their round trips, masking, timer
    callbacks, Wi-Fi channels.

  \<^bold>\<open>Connections.\<close>
  \<^item> \<open>Byte_Order\<close>: packet heads are the same on the wire for both byte orders.
  \<^item> \<open>Br_Trans\<close> (\<^verbatim>\<open>br_trans_manager.c\<close>): frames survive any division of the Bluetooth stream into reads.
  \<^item> \<open>Ble_Trans\<close> (\<^verbatim>\<open>softbus_ble_trans_manager.c\<close>): a message that is cut into packets is put together again; a wrapped offset writes
    outside the cache.
  \<^item> \<open>Send_Queue\<close>, \<open>Br_Queue\<close>, \<open>Ble_Queue\<close>: the priority queues of the two transports. The locale \<open>send_queue\<close> proves fairness and completeness of the
    service once, and is interpreted for both; a process waits only for the stack's own messages and one turn of each process before it.
    What other threads do while an operation waits or has released its lock is an argument of the operation; the theorems about it ask of
    these threads that they keep the invariant and do not free the set in use.
  \<^item> \<open>P2p_Channel_Freq\<close>: the frequency of a Wi-Fi Direct group, from the printed list of the client to the first frequency in the order
    of preference.

  \<^bold>\<open>Bus centre and authentication.\<close>
  \<^item> \<open>Lnn_Map\<close> (\<^verbatim>\<open>lnn_map.c\<close>): the hash table is a dictionary (locale \<open>dictionary\<close>), growth included, and its iterator visits every node once.
  \<^item> \<open>Adapter_Crypto\<close>, \<open>Auth_Session_Key\<close>: encryption with the session keys of an authenticated connection; the primitives of mbedtls
    are a record with the documented laws \<open>gcm_correct\<close>, for accepted keys, nonces of 12 bytes and texts below \<open>2 ^ 32\<close> bytes. Messages make
    the round trip, decryption stays within its buffers for every packet, and exactly the ten latest keys are kept; of several keys
    with one index the first of them is found.

  \<^bold>\<open>Discovery manager.\<close> \<open>Disc_Manager\<close> models \<^verbatim>\<open>disc_manager.c\<close> and \<^verbatim>\<open>softbus_disc_server.c\<close> completely, on a store of items and nodes. \<open>Disc_Registry\<close> has
    the invariant of the data and the effect of each elementary change, \<open>Disc_State\<close> the rules for computations that return,
    \<open>Disc_Lists\<close>, \<open>Disc_Requests\<close>, \<open>Disc_Interface\<close> and \<open>Disc_Cleanup\<close> the operations from the inside to the outside, and \<open>Disc_Properties\<close> the
    theorems. They rest on what the callers owe and the code does not check, which \<open>op_ok\<close> lists: data that ends within its buffer,
    callbacks of the right kind, names that are not those of the modules and at which 65 bytes can be read. Then every sequence of
    operations, one after the other, is free of dangling pointers, the operations refine those on the set of the requests, a found device is
    handed to exactly its subscriptions, and the death of a package removes exactly its requests. Two situations go wrong: the cleanup can
    keep a lock, and a stop between a refusal of the medium and its undoing leaves a dangling pointer.

  \<^bold>\<open>FILLP.\<close>
  \<^item> \<open>Sha256_Spec\<close>, \<open>Fillp_Sha256\<close>, \<open>Fillp_Hmac\<close>: the in-place incremental hash is SHA-256 as FIPS 180-4 defines it, and the keyed hash
    is HMAC.
  \<^item> \<open>Fillp_Cookie\<close>: a handshake cookie is accepted exactly when its digest is the HMAC of its contents under the server's key, port and address
    match and its lifetime is not over, and the server accepts its own cookies for their lifetime across a change of keys, unless the keys are
    changed with a time before that of the cookie, when it refuses them; most of the key is zero.
  \<^item> \<open>Fillp_Ring\<close>: the lock-free ring for several producers and consumers, one access to the ring per step and every
    interleaving of the steps; it delivers what was reserved, in order, its waiting loops do not deadlock, and an undisturbed enqueue returns with its entries stored.

  \<^bold>\<open>Bounds and fuel.\<close> The loops of the sources are structural recursions, functions with a termination proof, or partial functions whose
  return is a theorem of its own. The one loop with fuel is the swapping of bytes in \<open>Byte_Order\<close>, whose two indices meet after at most half of the bytes,
  so that the number of bytes is enough. Bounds in the theorems are those of the machine: fewer
  than \<open>2 ^ 32\<close> allocations of the discovery manager, because the counter of an item has 32 bits; fewer than \<open>2 ^ 64\<close> entries through the ring, because
  its counters have 64 bits; and the length of a hashed message below the \<open>2 ^ 61\<close> bytes of the standard or the range of its C type.

  \<^bold>\<open>Not modelled.\<close> The adapters to kernel, drivers and system services, which only call code outside the sources; the state machines of
  authentication, network building, sessions and channels, which exchange JSON messages built by cJSON and calls of the
  HiChain library, neither of which is part of the sources; the media of discovery behind their
  interface; the protocol engine of FILLP and the file transfer on top of it, whose functions work on sockets, timers and
  threads at once; and the marshalling code of the inter-process calls. Of several of these, the parts with a contract of their own are modelled, as listed above.
\<close>
end
